(* ===== verification/Nostr_Prelude.thy ===== *)
theory Nostr_Prelude
  imports Main "HOL-Library.Word"
begin

unbundle bit_operations_syntax

text \<open>
  Shared material of the development: the machine types of the C sources, C string
  literals as byte lists, a byte addressed memory with its read and write operations, the
  decimal conversions of \<open>printf\<close> and generic lemmas on lists and words.
  Nothing of this theory models a file of the repository by itself; it is the part of the
  C language and of its standard library that the sources under \<open>src/src/nostril\<close> use.
\<close>

section \<open>Machine types\<close>

type_synonym byte = "8 word"
type_synonym u16 = "16 word"
type_synonym u32 = "32 word"
type_synonym u64 = "64 word"

text \<open>Facts that evaluate or bound machine words, collected for the component proofs.\<close>

named_theorems word_eval
named_theorems byte_bounds

lemma unat_byte_less [byte_bounds]: "unat (b :: byte) < 256"
  using unsigned_less [of b] by simp

lemma unat_byte_le [byte_bounds]: "unat (b :: byte) \<le> 255"
  using unat_byte_less [of b] by linarith

text \<open>
  A property of all bytes is checked at the 256 values: the finite case analysis behind the
  lookup tables (the AES boxes, the base64 maps, the hexadecimal digits).
\<close>

lemma byte_all_iff: "(\<forall>b :: byte. P b) \<longleftrightarrow> (\<forall>n < 256. P (word_of_nat n))"
proof
  assume "\<forall>n < 256. P (word_of_nat n)"
  then have "P (word_of_nat (unat b))" for b :: byte
    using unat_byte_less [of b] by blast
  then show "\<forall>b :: byte. P b" by simp
qed simp

lemma byte_all_upt: "(\<forall>b :: byte. P b) \<longleftrightarrow> list_all (\<lambda>n. P (word_of_nat n)) [0..<256]"
  by (auto simp: byte_all_iff list_all_iff simp del: upt_conv_Cons)

lemma bit_byte_beyond [word_eval]: "8 \<le> n \<Longrightarrow> bit (b :: byte) n \<longleftrightarrow> False"
  using bit_imp_le_length [of b n] by auto

lemma bit_u32_beyond [word_eval]: "32 \<le> n \<Longrightarrow> bit (b :: u32) n \<longleftrightarrow> False"
  using bit_imp_le_length [of b n] by auto

text \<open>
  Equality of words bit by bit, with the positions as explicit numerals: a finite check that
  the simplifier does for masks and shifts by constants.
\<close>

lemma word_eq_upt:
  fixes a b :: "'a::len word"
  assumes "list_all (\<lambda>n. bit a n = bit b n) [0..<LENGTH('a)]"
  shows "a = b"
  using assms by (intro bit_word_eqI) (simp add: list_all_iff)

lemma upt_explicit:
  "[0..<2] = [0, 1]"
  "[0..<4] = [0, 1, 2, 3]"
  "[0..<8] = [0, 1, 2, 3, 4, 5, 6, 7]"
  "[0..<16] = [0, 1, 2, 3, 4, 5, 6, 7, 8, 9, 10, 11, 12, 13, 14, 15]"
  "[0..<32] = [0, 1, 2, 3, 4, 5, 6, 7, 8, 9, 10, 11, 12, 13, 14, 15, 16, 17, 18, 19, 20,
     21, 22, 23, 24, 25, 26, 27, 28, 29, 30, 31]"
  "[0..<64] = [0, 1, 2, 3, 4, 5, 6, 7, 8, 9, 10, 11, 12, 13, 14, 15, 16, 17, 18, 19, 20,
     21, 22, 23, 24, 25, 26, 27, 28, 29, 30, 31, 32, 33, 34, 35, 36, 37, 38, 39, 40, 41,
     42, 43, 44, 45, 46, 47, 48, 49, 50, 51, 52, 53, 54, 55, 56, 57, 58, 59, 60, 61, 62,
     63]"
  by (simp_all add: upt_rec)

text \<open>The sixteen values of a four bit quantity, and the two nibbles of a byte.\<close>

lemma nibble_cases:
  fixes v :: byte
  assumes "v < 16"
  obtains "v = 0" | "v = 1" | "v = 2" | "v = 3" | "v = 4" | "v = 5" | "v = 6" | "v = 7"
    | "v = 8" | "v = 9" | "v = 10" | "v = 11" | "v = 12" | "v = 13" | "v = 14" | "v = 15"
proof -
  have "unat v < 16" using assms by (simp add: word_less_nat_alt)
  then have "unat v \<in> set [0..<16]" by simp
  then have "word_of_nat (unat v) \<in> (word_of_nat :: nat \<Rightarrow> byte) ` set [0..<16]"
    by (rule imageI)
  then show ?thesis using that by (auto simp: upt_explicit)
qed

lemma nibble_hi [byte_bounds]: "drop_bit 4 (b :: byte) < 16"
proof -
  have "unat (drop_bit 4 b) < 16"
    using unat_byte_less [of b]
    by (simp add: unat_drop_bit_eq drop_bit_nat_def less_mult_imp_div_less)
  then show ?thesis by (simp add: word_less_nat_alt)
qed

lemma nibble_lo [byte_bounds]: "(b :: byte) AND 0xF < 16"
proof -
  have "b AND 0xF \<le> 0xF" by (rule word_and_le1)
  then show ?thesis by (rule order_le_less_trans) simp
qed

lemma nibble_join: "push_bit 4 (drop_bit 4 b) OR (b AND 0xF) = (b :: byte)"
  by (rule word_eq_upt) (simp add: bit_simps upt_explicit)

section \<open>C string literals and C strings\<close>

text \<open>
  A \<open>char\<close> of the sources is a byte. A string literal becomes the list of its bytes.
  A \<open>const char *\<close> is the list of the bytes from the pointer on; \<open>strlen\<close> stops at
  the first NUL, and at the end of the list, where the terminator of the object stands.
\<close>

definition cstr :: "string \<Rightarrow> byte list" where
  "cstr s = map of_char s"

lemma length_cstr [simp]: "length (cstr s) = length s"
  by (simp add: cstr_def)

definition c_str :: "byte list \<Rightarrow> byte list" where
  "c_str s = takeWhile (\<lambda>c. c \<noteq> 0) s"

definition strlen :: "byte list \<Rightarrow> nat" where
  "strlen s = length (c_str s)"

definition strcmp_eq :: "byte list \<Rightarrow> byte list \<Rightarrow> bool" where
  "strcmp_eq s t \<longleftrightarrow> c_str s = c_str t"

lemma c_str_id [simp]: "0 \<notin> set s \<Longrightarrow> c_str s = s"
  by (auto simp: c_str_def takeWhile_eq_all_conv)

lemma zero_notin_c_str [simp]: "0 \<notin> set (c_str s)"
  by (auto simp: c_str_def dest: set_takeWhileD)

lemma c_str_idem [simp]: "c_str (c_str s) = c_str s"
  by simp

lemma c_str_append_nul [simp]: "c_str (s @ 0 # t) = c_str s"
  unfolding c_str_def by (induction s) auto

section \<open>Memory\<close>

text \<open>
  The cursor code computes with pointers into a buffer and compares them. A pointer is an
  integer address and memory is a total map from addresses to bytes; which addresses belong
  to a live object is said by the invariants of the components.
\<close>

type_synonym addr = int
type_synonym memory = "addr \<Rightarrow> byte"

text \<open>\<open>memcpy(dst, data, len)\<close>, with the source bytes as the list \<open>data\<close>.\<close>

fun mem_write :: "memory \<Rightarrow> addr \<Rightarrow> byte list \<Rightarrow> memory" where
  "mem_write m a [] = m"
| "mem_write m a (b # bs) = mem_write (m(a := b)) (a + 1) bs"

text \<open>The \<open>n\<close> bytes from an address on.\<close>

fun mem_read :: "memory \<Rightarrow> addr \<Rightarrow> nat \<Rightarrow> byte list" where
  "mem_read m a 0 = []"
| "mem_read m a (Suc n) = m a # mem_read m (a + 1) n"

lemma length_mem_read [simp]: "length (mem_read m a n) = n"
  by (induction n arbitrary: a) auto

lemma nth_mem_read [simp]: "i < n \<Longrightarrow> mem_read m a n ! i = m (a + int i)"
proof (induction n arbitrary: a i)
  case (Suc n)
  then show ?case by (cases i) (auto simp: add.assoc)
qed simp

lemma mem_write_apply:
  "mem_write m a bs x =
     (if a \<le> x \<and> x < a + int (length bs) then bs ! nat (x - a) else m x)"
proof (induction bs arbitrary: m a)
  case (Cons b bs)
  show ?case
  proof (cases "x = a")
    case False
    then have "a < x \<Longrightarrow> nat (x - a) = Suc (nat (x - (a + 1)))" by simp
    with False show ?thesis by (auto simp: Cons.IH)
  next
    case True
    then show ?thesis using Cons.IH [of "m(a := b)" "a + 1"] by (simp add: fun_upd_def)
  qed
qed auto

lemma mem_write_outside [simp]:
  "x < a \<Longrightarrow> mem_write m a bs x = m x"
  "a + int (length bs) \<le> x \<Longrightarrow> mem_write m a bs x = m x"
  by (simp_all add: mem_write_apply)

lemma mem_read_cong:
  "(\<And>x. a \<le> x \<Longrightarrow> x < a + int n \<Longrightarrow> m x = m' x) \<Longrightarrow> mem_read m a n = mem_read m' a n"
  by (rule nth_equalityI) auto

lemma mem_read_write_same [simp]: "mem_read (mem_write m a bs) a (length bs) = bs"
  by (rule nth_equalityI) (auto simp: mem_write_apply)

lemma mem_read_write_before:
  "a + int n \<le> b \<Longrightarrow> mem_read (mem_write m b bs) a n = mem_read m a n"
  by (rule mem_read_cong) simp

lemma mem_read_append:
  "mem_read m a (n + k) = mem_read m a n @ mem_read m (a + int n) k"
  by (rule nth_equalityI) (auto simp: nth_append algebra_simps of_nat_diff)

text \<open>Appending at the end of what was read: the step of every buffer writer.\<close>

lemma mem_read_write_append:
  "mem_read (mem_write m (a + int n) bs) a (n + length bs) = mem_read m a n @ bs"
  by (simp add: mem_read_append mem_read_write_before)

section \<open>Decimal output of printf\<close>

text \<open>The \<open>%u\<close> family: the decimal digits of a number, most significant first.\<close>

fun dec_nat :: "nat \<Rightarrow> byte list" where
  "dec_nat n = (if n < 10 then [48 + word_of_nat n]
                else dec_nat (n div 10) @ [48 + word_of_nat (n mod 10)])"

declare dec_nat.simps [simp del]

text \<open>\<open>%d\<close> of a signed integer.\<close>

definition dec_int :: "int \<Rightarrow> byte list" where
  "dec_int i = (if i < 0 then 0x2d # dec_nat (nat (- i)) else dec_nat (nat i))"

text \<open>
  \<open>snprintf(buf, size, ...)\<close> stores at most \<open>size - 1\<close> bytes of the output and a NUL:
  the C string left in the buffer.
\<close>

definition snprintf :: "nat \<Rightarrow> byte list \<Rightarrow> byte list" where
  "snprintf n out = take (n - 1) out"

definition is_digit_byte :: "byte \<Rightarrow> bool" where
  "is_digit_byte b \<longleftrightarrow> 48 \<le> unat b \<and> unat b \<le> 57"

lemma unat_digit: "d < 10 \<Longrightarrow> unat (48 + word_of_nat d :: byte) = 48 + d"
  by (simp add: unat_word_ariths unsigned_of_nat take_bit_nat_eq_self)

lemma dec_nat_nonempty [simp]: "dec_nat n \<noteq> []"
  by (subst dec_nat.simps) simp

lemma dec_nat_digits: "b \<in> set (dec_nat n) \<Longrightarrow> is_digit_byte b"
proof (induction n rule: dec_nat.induct)
  case (1 n)
  have last: "is_digit_byte (48 + word_of_nat d)" if "d < 10" for d
    using unat_digit [OF that] that by (simp add: is_digit_byte_def)
  show ?case
  proof (cases "n < 10")
    case True
    with "1.prems" show ?thesis by (simp add: dec_nat.simps [of n] last)
  next
    case False
    then have "dec_nat n = dec_nat (n div 10) @ [48 + word_of_nat (n mod 10)]"
      by (simp add: dec_nat.simps [of n])
    with "1.prems" have "b \<in> set (dec_nat (n div 10)) \<or> b = 48 + word_of_nat (n mod 10)"
      by auto
    then show ?thesis using "1.IH" [OF False] last [of "n mod 10"] by auto
  qed
qed

lemma dec_nat_no_nul [simp]: "0 \<notin> set (dec_nat n)"
  using dec_nat_digits [of 0 n] by (auto simp: is_digit_byte_def)

lemma dec_int_no_nul [simp]: "0 \<notin> set (dec_int i)"
  by (auto simp: dec_int_def)

text \<open>Reading the digits back: \<open>dec_nat\<close> loses nothing.\<close>

definition undec :: "byte list \<Rightarrow> nat" where
  "undec ds = foldl (\<lambda>acc d. acc * 10 + (unat d - 48)) 0 ds"

lemma undec_dec_nat [simp]: "undec (dec_nat n) = n"
proof (induction n rule: dec_nat.induct)
  case (1 n)
  show ?case
  proof (cases "n < 10")
    case True
    then have "dec_nat n = [48 + word_of_nat n]" by (simp add: dec_nat.simps [of n])
    then show ?thesis using unat_digit [OF True] by (simp add: undec_def)
  next
    case False
    then have "dec_nat n = dec_nat (n div 10) @ [48 + word_of_nat (n mod 10)]"
      by (simp add: dec_nat.simps [of n])
    moreover have "unat (48 + word_of_nat (n mod 10) :: byte) = 48 + n mod 10"
      by (rule unat_digit) simp
    ultimately have "undec (dec_nat n) = undec (dec_nat (n div 10)) * 10 + n mod 10"
      by (simp add: undec_def)
    with "1.IH" [OF False] show ?thesis by simp
  qed
qed

lemma dec_nat_inject [simp]: "dec_nat m = dec_nat n \<longleftrightarrow> m = n"
  by (metis undec_dec_nat)

lemma dec_int_inject [simp]: "dec_int i = dec_int j \<longleftrightarrow> i = j"
proof
  have minus: "0x2d # ds \<noteq> dec_nat n" for ds n
  proof
    assume "0x2d # ds = dec_nat n"
    then have "0x2d \<in> set (dec_nat n)" by (metis list.set_intros(1))
    then show False using dec_nat_digits [of "0x2d" n] by (simp add: is_digit_byte_def)
  qed
  assume "dec_int i = dec_int j"
  then show "i = j"
    using minus minus [symmetric] by (auto simp: dec_int_def split: if_splits)
qed simp

lemma length_dec_nat: "0 < k \<Longrightarrow> length (dec_nat n) \<le> k \<longleftrightarrow> n < 10 ^ k"
proof (induction n arbitrary: k rule: dec_nat.induct)
  case (1 n)
  show ?case
  proof (cases "n < 10")
    case True
    have "(10::nat) ^ 1 \<le> 10 ^ k" using "1.prems" by (intro power_increasing) auto
    with True "1.prems" show ?thesis by (simp add: dec_nat.simps [of n])
  next
    case False
    then have len: "length (dec_nat n) = Suc (length (dec_nat (n div 10)))"
      by (simp add: dec_nat.simps [of n])
    show ?thesis
    proof (cases k)
      case (Suc k')
      show ?thesis
      proof (cases "k' = 0")
        case True
        with False Suc len show ?thesis
          by (metis "1.prems" Suc_le_mono One_nat_def dec_nat_nonempty le_zero_eq
              length_0_conv linorder_not_less power_one_right)
      next
        case False
        then have "length (dec_nat (n div 10)) \<le> k' \<longleftrightarrow> n div 10 < 10 ^ k'"
          using "1.IH" \<open>\<not> n < 10\<close> by blast
        also have "\<dots> \<longleftrightarrow> n < 10 ^ k"
          by (simp add: Suc div_less_iff_less_mult mult.commute)
        finally show ?thesis using len Suc by simp
      qed
    qed (use "1.prems" in simp)
  qed
qed

section \<open>Outcomes\<close>

text \<open>
  How a function ends that can fail an assertion, or that can write behind the end of an
  object or follow a null pointer: the
  first stops the program, the second is undefined behaviour and nothing is said of what
  follows.
\<close>

datatype 'a run = Abort | Undefined | Return 'a

primrec bind_run :: "'a run \<Rightarrow> ('a \<Rightarrow> 'b run) \<Rightarrow> 'b run" where
  "bind_run Abort f = Abort"
| "bind_run Undefined f = Undefined"
| "bind_run (Return x) f = f x"

lemma bind_run_Return [simp]: "bind_run r f = Return y \<longleftrightarrow> (\<exists>x. r = Return x \<and> f x = Return y)"
  by (cases r) simp_all

lemma bind_run_assoc: "bind_run (bind_run r f) g = bind_run r (\<lambda>x. bind_run (f x) g)"
  by (cases r) simp_all

section \<open>Text encodings\<close>

text \<open>
  The interface of an encoder with its decoder: decoding gives the encoded value back and
  nothing else. The hexadecimal strings, the base64 strings and the escaped strings of the
  event serialisation are instances; what a client of such an encoding relies on is that
  two values with the same text are the same value.
\<close>

locale text_codec =
  fixes enc :: "'a \<Rightarrow> byte list"
    and dec :: "byte list \<Rightarrow> 'a option"
    and valid :: "'a \<Rightarrow> bool"
  assumes dec_enc: "valid x \<Longrightarrow> dec (enc x) = Some x"
begin

lemma enc_eq_iff: "valid x \<Longrightarrow> valid y \<Longrightarrow> enc x = enc y \<longleftrightarrow> x = y"
  using dec_enc by (metis option.inject)

lemma enc_inj_on: "inj_on enc (Collect valid)"
  by (auto simp: inj_on_def enc_eq_iff)

end

section \<open>Lists\<close>

text \<open>Splitting at a separator that the left part does not contain.\<close>

lemma append_sep_inject:
  assumes "x \<notin> set as" and "x \<notin> set bs" and "as @ x # cs = bs @ x # ds"
  shows "as = bs \<and> cs = ds"
  using assms
proof (induction as arbitrary: bs)
  case Nil
  then show ?case by (cases bs) auto
next
  case (Cons a as)
  then show ?case by (cases bs) auto
qed

text \<open>\<open>memcpy\<close> into an array that is modelled as a list.\<close>

definition copy_at :: "'a list \<Rightarrow> nat \<Rightarrow> 'a list \<Rightarrow> 'a list" where
  "copy_at xs i ys = take i xs @ ys @ drop (i + length ys) xs"

lemma length_copy_at [simp]: "i + length ys \<le> length xs \<Longrightarrow> length (copy_at xs i ys) = length xs"
  by (simp add: copy_at_def)

lemma take_copy_at [simp]:
  "i \<le> length xs \<Longrightarrow> take (i + length ys) (copy_at xs i ys) = take i xs @ ys"
  by (simp add: copy_at_def)

lemma drop_copy_at [simp]:
  "i + length ys \<le> k \<Longrightarrow> i \<le> length xs \<Longrightarrow> drop k (copy_at xs i ys) = drop k xs"
  by (simp add: copy_at_def min_def)

lemma take_copy_at_before [simp]: "k \<le> i \<Longrightarrow> i \<le> length xs \<Longrightarrow> take k (copy_at xs i ys) = take k xs"
  by (simp add: copy_at_def)

lemma copy_at_nil [simp]: "copy_at xs i [] = xs"
  by (simp add: copy_at_def)

lemma copy_at_copy_at [simp]:
  "i + length ys \<le> length xs \<Longrightarrow>
   copy_at (copy_at xs i ys) (i + length ys) zs = copy_at xs i (ys @ zs)"
  by (simp add: copy_at_def add_ac)

lemma nth_concat_4:
  "list_all (\<lambda>x. length x = 4) xs \<Longrightarrow> m < length xs \<Longrightarrow> j < 4 \<Longrightarrow> concat xs ! (m * 4 + j) = xs ! m ! j"
proof (induction xs arbitrary: m)
  case (Cons x xs)
  then show ?case by (cases m) (simp_all add: nth_append)
qed simp

lemma length_concat_same: "list_all (\<lambda>x. length x = n) xs \<Longrightarrow> length (concat xs) = n * length xs"
  by (induction xs) simp_all

lemma mod_add_aligned: "a mod k = 0 \<Longrightarrow> (a + b) mod k = b mod (k::nat)"
  by (metis add_0 mod_add_left_eq)

text \<open>Explicit elements of a list of known length.\<close>

lemma length_4_conv: "length xs = 4 \<Longrightarrow> \<exists>a b c d. xs = [a, b, c, d]"
  by (auto simp: numeral_eq_Suc length_Suc_conv)

lemma length_16_conv:
  assumes "length xs = 16"
  shows "\<exists>a b c d e f g h i j k l m n p q. xs = [a,b,c,d,e,f,g,h,i,j,k,l,m,n,p,q]"
proof -
  have "length xs = Suc (Suc (Suc (Suc (Suc (Suc (Suc (Suc (Suc (Suc (Suc (Suc (Suc (Suc (Suc (Suc 0)))))))))))))))"
    using assms by simp
  then show ?thesis by (auto simp: length_Suc_conv)
qed

end
