(* ===== verification/Cpp_Json.thy ===== *)
theory Cpp_Json
  imports Nostr_Prelude
begin

text \<open>
  JSON values as the C++ programs use them through nlohmann json: the values, element access,
  the conversions to the types of the program, and the exceptions these raise. The conversions
  are those of \<open>src/ext/json-3.11.2/single_include/nlohmann/json.hpp\<close> on a platform where \<open>long\<close>
  and \<open>size_t\<close> have 64 bits. The programs reach JSON text through the record \<open>json_lib\<close>, and what
  they rely on is the contract \<open>json_lib_ok\<close>: in the three layouts they use, text is produced exactly for values whose strings
  are UTF-8, reading it gives the value back, what is read is UTF-8, and there is nothing to read
  in an empty text. The results about the programs hold for every such library; \<open>Json_Text\<close>
  shows that the library of the sources, modelled in \<open>Json_Dump\<close>, \<open>Json_Lexer\<close> and \<open>Json_Parser\<close>,
  is one.
\<close>

section \<open>Values and exceptions\<close>

text \<open>
  Numbers without fraction are one constructor: the library keeps signed and unsigned 64 bit
  numbers apart, but compares and converts them by value. A floating point number is its IEEE
  bit pattern. The members of an object are kept sorted by key, as in a \<open>std::map\<close>.
\<close>

datatype json =
    JNull
  | JBool bool
  | JInt int
  | JFloat u64
  | JStr "byte list"
  | JArr "json list"
  | JObj "(byte list \<times> json) list"

text \<open>The exceptions by their identifiers (302 wrong type, 304 and 305 no such access, 316 not UTF-8).\<close>

datatype json_exn = Parse_error "byte list" | Type_error nat | Out_of_range nat

type_synonym 'a throwing = "json_exn + 'a"

primrec then_try :: "'a throwing \<Rightarrow> ('a \<Rightarrow> 'b throwing) \<Rightarrow> 'b throwing" where
  "then_try (Inl e) f = Inl e"
| "then_try (Inr x) f = f x"

lemma then_try_Inr [simp]: "then_try r f = Inr y \<longleftrightarrow> (\<exists>x. r = Inr x \<and> f x = Inr y)"
  by (cases r) simp_all

text \<open>The programs call \<open>dump()\<close>, \<open>dump(1)\<close> and \<open>dump(2)\<close>, and no other indentation.\<close>

datatype layout = Compact | Indent_1 | Indent_2

record json_lib =
  json_parse :: "byte list \<Rightarrow> json throwing"
  json_dump :: "layout \<Rightarrow> json \<Rightarrow> byte list throwing"
  double_to_int :: "u64 \<Rightarrow> int"
  what :: "json_exn \<Rightarrow> byte list"

section \<open>Access\<close>

text \<open>\<open>j.at(i)\<close>, \<open>j.at(key)\<close>, \<open>j.contains(key)\<close> and \<open>j[key] = v\<close>.\<close>

definition json_at :: "json \<Rightarrow> nat \<Rightarrow> json throwing" where
  "json_at j i =
     (case j of JArr js \<Rightarrow> if i < length js then Inr (js ! i) else Inl (Out_of_range 401)
      | _ \<Rightarrow> Inl (Type_error 304))"

definition json_key :: "json \<Rightarrow> byte list \<Rightarrow> json throwing" where
  "json_key j k =
     (case j of JObj kvs \<Rightarrow> (case map_of kvs k of Some v \<Rightarrow> Inr v | None \<Rightarrow> Inl (Out_of_range 403))
      | _ \<Rightarrow> Inl (Type_error 304))"

definition json_contains :: "json \<Rightarrow> byte list \<Rightarrow> bool" where
  "json_contains j k = (case j of JObj kvs \<Rightarrow> map_of kvs k \<noteq> None | _ \<Rightarrow> False)"

text \<open>The order of keys is that of \<open>std::string\<close>: bytes as unsigned numbers.\<close>

fun bytes_less :: "byte list \<Rightarrow> byte list \<Rightarrow> bool" where
  "bytes_less _ [] = False"
| "bytes_less [] (_ # _) = True"
| "bytes_less (a # as) (b # bs) = (a < b \<or> a = b \<and> bytes_less as bs)"

fun insert_key :: "byte list \<Rightarrow> json \<Rightarrow> (byte list \<times> json) list \<Rightarrow> (byte list \<times> json) list" where
  "insert_key k v [] = [(k, v)]"
| "insert_key k v ((k', v') # kvs) =
     (if k = k' then (k, v) # kvs
      else if bytes_less k k' then (k, v) # (k', v') # kvs
      else (k', v') # insert_key k v kvs)"

definition json_set :: "json \<Rightarrow> byte list \<Rightarrow> json \<Rightarrow> json throwing" where
  "json_set j k v =
     (case j of JNull \<Rightarrow> Inr (JObj [(k, v)])
      | JObj kvs \<Rightarrow> Inr (JObj (insert_key k v kvs))
      | _ \<Rightarrow> Inl (Type_error 305))"

lemma map_of_insert_key [simp]: "map_of (insert_key k v kvs) = (map_of kvs)(k \<mapsto> v)"
  by (induction k v kvs rule: insert_key.induct) (auto simp: fun_eq_iff)

section \<open>Conversions\<close>

text \<open>
  \<open>get_to\<close> for the types of the program: \<open>std::string\<close>, \<open>std::time_t\<close> and \<open>size_t\<close> (the
  library's own 64 bit types), \<open>int\<close> (which takes a boolean too), and vectors. Numbers are cut
  to the width of the target.
\<close>

definition get_string :: "json \<Rightarrow> byte list throwing" where
  "get_string j = (case j of JStr s \<Rightarrow> Inr s | _ \<Rightarrow> Inl (Type_error 302))"

definition get_int64 :: "json_lib \<Rightarrow> json \<Rightarrow> u64 throwing" where
  "get_int64 L j =
     (case j of JInt i \<Rightarrow> Inr (word_of_int i) | JFloat d \<Rightarrow> Inr (word_of_int (double_to_int L d))
      | _ \<Rightarrow> Inl (Type_error 302))"

definition get_int32 :: "json_lib \<Rightarrow> json \<Rightarrow> u32 throwing" where
  "get_int32 L j =
     (case j of JInt i \<Rightarrow> Inr (word_of_int i) | JFloat d \<Rightarrow> Inr (word_of_int (double_to_int L d))
      | JBool b \<Rightarrow> Inr (of_bool b) | _ \<Rightarrow> Inl (Type_error 302))"

primrec all_throwing :: "('a \<Rightarrow> 'b throwing) \<Rightarrow> 'a list \<Rightarrow> 'b list throwing" where
  "all_throwing f [] = Inr []"
| "all_throwing f (x # xs) = then_try (f x) (\<lambda>y. then_try (all_throwing f xs) (\<lambda>ys. Inr (y # ys)))"

definition get_vector :: "(json \<Rightarrow> 'a throwing) \<Rightarrow> json \<Rightarrow> 'a list throwing" where
  "get_vector f j = (case j of JArr js \<Rightarrow> all_throwing f js | _ \<Rightarrow> Inl (Type_error 302))"

text \<open>
  A sequence of \<open>get_to\<close> calls on the fields of one object: the first exception ends it, and
  the fields read before keep their new values.
\<close>

definition get_to ::
    "json \<Rightarrow> byte list \<Rightarrow> (json \<Rightarrow> 'a throwing) \<Rightarrow> ('a \<Rightarrow> 's \<Rightarrow> 's) \<Rightarrow> 's \<times> json_exn option \<Rightarrow> 's \<times> json_exn option" where
  "get_to j k conv upd st =
     (case st of
        (s, Some e) \<Rightarrow> (s, Some e)
      | (s, None) \<Rightarrow> (case then_try (json_key j k) conv of Inl e \<Rightarrow> (s, Some e) | Inr v \<Rightarrow> (upd v s, None)))"

definition get_if ::
    "json \<Rightarrow> byte list \<Rightarrow> (json \<Rightarrow> 'a throwing) \<Rightarrow> ('a \<Rightarrow> 's \<Rightarrow> 's) \<Rightarrow> 's \<times> json_exn option \<Rightarrow> 's \<times> json_exn option" where
  "get_if j k conv upd st = (if json_contains j k then get_to j k conv upd st else st)"

text \<open>\<open>j.get<T>()\<close>: a default value, filled by \<open>from_json\<close>.\<close>

definition get_value :: "(json \<Rightarrow> 's \<Rightarrow> 's \<times> json_exn option) \<Rightarrow> 's \<Rightarrow> json \<Rightarrow> 's throwing" where
  "get_value from s0 j = (case from j s0 of (s, None) \<Rightarrow> Inr s | (_, Some e) \<Rightarrow> Inl e)"

lemma get_simps [simp]:
  "get_string (JStr s) = Inr s"
  "get_int64 L (JInt i) = Inr (word_of_int i)"
  "get_int32 L (JInt i) = Inr (word_of_int i)"
  "get_vector f (JArr js) = all_throwing f js"
  by (simp_all add: get_string_def get_int64_def get_int32_def get_vector_def)

lemma all_throwing_map [simp]: "(\<And>x. x \<in> set xs \<Longrightarrow> f (g x) = Inr (h x)) \<Longrightarrow> all_throwing f (map g xs) = Inr (map h xs)"
  by (induction xs) simp_all

lemma all_throwing_Inr: "all_throwing f xs = Inr ys \<longleftrightarrow> list_all2 (\<lambda>x y. f x = Inr y) xs ys"
  by (induction xs arbitrary: ys) (auto simp: list_all2_Cons1)

lemma json_at_simps [simp]:
  "json_at (JArr (j # js)) 0 = Inr j"
  "json_at (JArr (j # js)) (Suc i) = json_at (JArr js) i"
  "json_at (JArr []) i = Inl (Out_of_range 401)"
  by (simp_all add: json_at_def)

section \<open>Well-formed values\<close>

definition utf8_tail :: "byte \<Rightarrow> bool" where
  "utf8_tail b \<longleftrightarrow> 0x80 \<le> b \<and> b \<le> 0xBF"

definition utf8_lead3 :: "byte \<Rightarrow> byte \<Rightarrow> bool" where
  "utf8_lead3 b c \<longleftrightarrow>
     b = 0xE0 \<and> 0xA0 \<le> c \<and> c \<le> 0xBF
     \<or> (0xE1 \<le> b \<and> b \<le> 0xEC \<or> b = 0xEE \<or> b = 0xEF) \<and> utf8_tail c
     \<or> b = 0xED \<and> 0x80 \<le> c \<and> c \<le> 0x9F"

definition utf8_lead4 :: "byte \<Rightarrow> byte \<Rightarrow> bool" where
  "utf8_lead4 b c \<longleftrightarrow>
     b = 0xF0 \<and> 0x90 \<le> c \<and> c \<le> 0xBF
     \<or> 0xF1 \<le> b \<and> b \<le> 0xF3 \<and> utf8_tail c
     \<or> b = 0xF4 \<and> 0x80 \<le> c \<and> c \<le> 0x8F"

text \<open>UTF-8 as in RFC 3629, section 4.\<close>

fun utf8 :: "byte list \<Rightarrow> bool" where
  "utf8 [] = True"
| "utf8 (b # bs) =
     (if b \<le> 0x7F then utf8 bs
      else case bs of
        [] \<Rightarrow> False
      | c # cs \<Rightarrow>
          if 0xC2 \<le> b \<and> b \<le> 0xDF then utf8_tail c \<and> utf8 cs
          else case cs of
            [] \<Rightarrow> False
          | d # ds \<Rightarrow>
              if utf8_lead3 b c then utf8_tail d \<and> utf8 ds
              else case ds of
                [] \<Rightarrow> False
              | e # es \<Rightarrow> utf8_lead4 b c \<and> utf8_tail d \<and> utf8_tail e \<and> utf8 es)"

lemma utf8_ascii: "\<forall>b \<in> set s. b \<le> 0x7F \<Longrightarrow> utf8 s"
  by (induction s) auto

fun keys_sorted :: "(byte list \<times> 'a) list \<Rightarrow> bool" where
  "keys_sorted ((k, _) # (k', v') # kvs) = (bytes_less k k' \<and> keys_sorted ((k', v') # kvs))"
| "keys_sorted _ = True"

text \<open>Values with a JSON text: every string in them is UTF-8.\<close>

primrec json_utf8 :: "json \<Rightarrow> bool" where
  "json_utf8 JNull = True"
| "json_utf8 (JBool b) = True"
| "json_utf8 (JInt i) = True"
| "json_utf8 (JFloat d) = True"
| "json_utf8 (JStr s) = utf8 s"
| "json_utf8 (JArr js) = list_all (\<lambda>b. b) (map json_utf8 js)"
| "json_utf8 (JObj kvs) = list_all (\<lambda>(k, b). utf8 k \<and> b) (map (map_prod id json_utf8) kvs)"

text \<open>
  Values that their text determines: numbers in the range of the library's 64 bit types, no
  floating point numbers, keys sorted.
\<close>

primrec json_exact :: "json \<Rightarrow> bool" where
  "json_exact JNull = True"
| "json_exact (JBool b) = True"
| "json_exact (JInt i) = (- (2 ^ 63) \<le> i \<and> i < 2 ^ 64)"
| "json_exact (JFloat d) = False"
| "json_exact (JStr s) = True"
| "json_exact (JArr js) = list_all (\<lambda>b. b) (map json_exact js)"
| "json_exact (JObj kvs) = (keys_sorted kvs \<and> list_all snd (map (map_prod id json_exact) kvs))"

definition json_lib_ok :: "json_lib \<Rightarrow> bool" where
  "json_lib_ok L \<longleftrightarrow>
     (\<forall>n j. json_utf8 j \<longrightarrow> (\<exists>t. json_dump L n j = Inr t))
     \<and> (\<forall>n j. \<not> json_utf8 j \<longrightarrow> json_dump L n j = Inl (Type_error 316))
     \<and> (\<forall>n j t. json_exact j \<and> json_dump L n j = Inr t \<longrightarrow> json_parse L t = Inr j)
     \<and> (\<forall>t j. json_parse L t = Inr j \<longrightarrow> json_utf8 j)
     \<and> (\<exists>m. json_parse L [] = Inl (Parse_error m))"

lemma dump_total: "json_lib_ok L \<Longrightarrow> json_utf8 j \<Longrightarrow> \<exists>t. json_dump L n j = Inr t"
  unfolding json_lib_ok_def by blast

lemma dump_invalid: "json_lib_ok L \<Longrightarrow> \<not> json_utf8 j \<Longrightarrow> json_dump L n j = Inl (Type_error 316)"
  unfolding json_lib_ok_def by blast

lemma parse_dump: "json_lib_ok L \<Longrightarrow> json_exact j \<Longrightarrow> json_dump L n j = Inr t \<Longrightarrow> json_parse L t = Inr j"
  unfolding json_lib_ok_def by blast

lemma parse_utf8: "json_lib_ok L \<Longrightarrow> json_parse L t = Inr j \<Longrightarrow> json_utf8 j"
  unfolding json_lib_ok_def by blast

lemma parse_empty: "json_lib_ok L \<Longrightarrow> \<exists>m. json_parse L [] = Inl (Parse_error m)"
  unfolding json_lib_ok_def by blast

lemma dump_parse_obtain:
  assumes "json_lib_ok L" "json_utf8 j" "json_exact j"
  obtains t where "json_dump L n j = Inr t" "json_parse L t = Inr j"
  using dump_total [OF assms(1,2)] parse_dump [OF assms(1,3)] by blast

text \<open>What is read from a UTF-8 value is UTF-8.\<close>

lemma json_at_utf8: "json_utf8 j \<Longrightarrow> json_at j i = Inr v \<Longrightarrow> json_utf8 v"
  by (auto simp: json_at_def list_all_length split: json.splits if_splits)

lemma json_key_utf8: "json_utf8 j \<Longrightarrow> json_key j k = Inr v \<Longrightarrow> json_utf8 v"
  by (force simp: json_key_def list_all_iff split: json.splits option.splits dest: map_of_SomeD)

lemma get_string_utf8: "json_utf8 j \<Longrightarrow> get_string j = Inr s \<Longrightarrow> utf8 s"
  by (auto simp: get_string_def split: json.splits)

lemma get_vector_utf8:
  assumes "\<And>j x. json_utf8 j \<Longrightarrow> f j = Inr x \<Longrightarrow> P x" "json_utf8 j" "get_vector f j = Inr xs"
  shows "list_all P xs"
proof -
  obtain js where "j = JArr js" "list_all2 (\<lambda>x y. f x = Inr y) js xs"
    using assms(3) by (auto simp: get_vector_def all_throwing_Inr split: json.splits)
  moreover from this assms(2) have "list_all json_utf8 js" by (simp add: list_all_iff)
  ultimately show ?thesis using assms(1)
    by (auto simp: list_all_length list_all2_conv_all_nth)
qed

section \<open>Objects of the program\<close>

text \<open>
  A class with \<open>to_json\<close> and \<open>from_json\<close>: what reading a written object into an old one gives.
  From the contract follow the round trips of single objects and of vectors through text.
\<close>

locale json_class =
  fixes to_js :: "'a \<Rightarrow> json"
    and from_js :: "json_lib \<Rightarrow> json \<Rightarrow> 'a \<Rightarrow> 'a \<times> json_exn option"
    and merged :: "'a \<Rightarrow> 'a \<Rightarrow> 'a"
    and valid :: "'a \<Rightarrow> bool"
  assumes from_to: "from_js L (to_js x) y = (merged x y, None)"
    and to_utf8: "json_utf8 (to_js x) \<longleftrightarrow> valid x"
    and to_exact: "json_exact (to_js x)"
begin

lemma value_round_trip: "get_value (from_js L) y (to_js x) = Inr (merged x y)"
  by (simp add: get_value_def from_to)

lemma vector_round_trip:
  "get_vector (get_value (from_js L) y) (JArr (map to_js xs)) = Inr (map (\<lambda>x. merged x y) xs)"
  by (simp add: value_round_trip)

lemma vector_utf8: "json_utf8 (JArr (map to_js xs)) \<longleftrightarrow> list_all valid xs"
  by (simp add: list_all_iff to_utf8)

lemma vector_exact: "json_exact (JArr (map to_js xs))"
  by (simp add: list_all_iff to_exact)

lemma vector_dump_iff:
  assumes "json_lib_ok L"
  shows "(\<exists>t. json_dump L n (JArr (map to_js xs)) = Inr t) \<longleftrightarrow> list_all valid xs"
  using dump_total [OF assms] dump_invalid [OF assms] vector_utf8 by (metis sum.simps(4))

lemma vector_text_round_trip:
  assumes "json_lib_ok L" "json_dump L n (JArr (map to_js xs)) = Inr t"
  shows "then_try (json_parse L t) (get_vector (get_value (from_js L) y)) = Inr (map (\<lambda>x. merged x y) xs)"
  using parse_dump [OF assms(1) vector_exact assms(2)] vector_round_trip [of L y xs] by simp

end

end
