(* ===== verification/Hex.thy ===== *)
theory Hex
  imports Nostr_Prelude
begin

text \<open>
  Hexadecimal strings: \<open>src/src/nostril/hex.h\<close>. An input string with its length is the list
  of its bytes; an output buffer is a list that the loops update by index; \<open>abort()\<close> in
  \<open>hexchar\<close> is \<open>None\<close>. The theorems give the exact inputs on which \<open>hex_decode\<close>
  succeeds, what it stores, that \<open>hex_encode\<close> never aborts, and the round trips.
\<close>

section \<open>Decoding\<close>

definition char_to_hex :: "byte \<Rightarrow> byte option" where
  "char_to_hex c =
     (if 0x30 \<le> c \<and> c \<le> 0x39 then Some (c - 0x30)
      else if 0x61 \<le> c \<and> c \<le> 0x66 then Some (c - 0x61 + 10)
      else if 0x41 \<le> c \<and> c \<le> 0x46 then Some (c - 0x41 + 10)
      else None)"

text \<open>
  The loop of \<open>hex_decode\<close>: \<open>slen > 1\<close> is the first pattern, \<open>p\<close> is the offset of
  the write pointer and \<open>bufsize\<close> the room left.
\<close>

fun hex_decode_loop :: "byte list \<Rightarrow> nat \<Rightarrow> nat \<Rightarrow> byte list \<Rightarrow> bool \<times> byte list" where
  "hex_decode_loop (c1 # c2 # str) p bufsize buf =
     (case char_to_hex c1 of
        None \<Rightarrow> (False, buf)
      | Some v1 \<Rightarrow>
         (case char_to_hex c2 of
            None \<Rightarrow> (False, buf)
          | Some v2 \<Rightarrow>
              if bufsize = 0 then (False, buf)
              else hex_decode_loop str (p + 1) (bufsize - 1) (buf[p := push_bit 4 v1 OR v2])))"
| "hex_decode_loop str p bufsize buf = (length str = 0 \<and> bufsize = 0, buf)"

definition hex_decode :: "byte list \<Rightarrow> byte list \<Rightarrow> nat \<Rightarrow> bool \<times> byte list" where
  "hex_decode str buf bufsize = hex_decode_loop str 0 bufsize buf"

section \<open>Encoding\<close>

definition hex_str_size :: "nat \<Rightarrow> nat" where
  "hex_str_size bytes = 2 * bytes + 1"

definition hexchar :: "u32 \<Rightarrow> byte option" where
  "hexchar val =
     (if val < 10 then Some (0x30 + ucast val)
      else if val < 16 then Some (0x61 + ucast val - 10)
      else None)"

text \<open>The \<open>for\<close> loop of \<open>hex_encode\<close> and the terminating NUL; \<open>d\<close> is the write offset.\<close>

fun hex_encode_loop :: "byte list \<Rightarrow> nat \<Rightarrow> byte list \<Rightarrow> byte list option" where
  "hex_encode_loop [] d dest = Some (dest[d := 0])"
| "hex_encode_loop (b # bs) d dest =
     (let c = (ucast b :: u32)
      in case hexchar (drop_bit 4 c) of
           None \<Rightarrow> None
         | Some h \<Rightarrow>
             (case hexchar (c AND 0xF) of
                None \<Rightarrow> None
              | Some l \<Rightarrow> hex_encode_loop bs (d + 2) (dest[d := h, d + 1 := l])))"

definition hex_encode :: "byte list \<Rightarrow> byte list \<Rightarrow> nat \<Rightarrow> (bool \<times> byte list) option" where
  "hex_encode buf dest destsize =
     (if destsize < hex_str_size (length buf) then Some (False, dest)
      else map_option (Pair True) (hex_encode_loop buf 0 dest))"

section \<open>Reference definitions\<close>

text \<open>The digit of a nibble and the text of a byte string, as NIP-01 writes ids and keys.\<close>

definition hex_digit :: "byte \<Rightarrow> byte" where
  "hex_digit v = (if v < 10 then 0x30 + v else 0x61 + v - 10)"

fun hex_text :: "byte list \<Rightarrow> byte list" where
  "hex_text [] = []"
| "hex_text (b # bs) = hex_digit (drop_bit 4 b) # hex_digit (b AND 0xF) # hex_text bs"

definition is_hex :: "byte \<Rightarrow> bool" where
  "is_hex c \<longleftrightarrow> char_to_hex c \<noteq> None"

text \<open>The bytes that a text of hexadecimal digits stands for.\<close>

fun hex_value :: "byte list \<Rightarrow> byte list option" where
  "hex_value [] = Some []"
| "hex_value [c] = None"
| "hex_value (c1 # c2 # cs) =
     (case (char_to_hex c1, char_to_hex c2, hex_value cs) of
        (Some v1, Some v2, Some bs) \<Rightarrow> Some ((push_bit 4 v1 OR v2) # bs)
      | _ \<Rightarrow> None)"

definition hex_lower :: "byte \<Rightarrow> byte" where
  "hex_lower c = (if 0x41 \<le> c \<and> c \<le> 0x46 then c + 0x20 else c)"

section \<open>Single digits\<close>

lemma char_to_hex_digit [simp]: "v < 16 \<Longrightarrow> char_to_hex (hex_digit v) = Some v"
  by (erule nibble_cases) (simp_all add: char_to_hex_def hex_digit_def)

lemma hex_digit_not_nul: "v < 16 \<Longrightarrow> hex_digit v \<noteq> 0"
  by (erule nibble_cases) (simp_all add: hex_digit_def)

lemma hexchar_digit: "v < 16 \<Longrightarrow> hexchar (ucast v) = Some (hex_digit v)"
  by (erule nibble_cases) (simp_all add: hexchar_def hex_digit_def)

lemma hexchar_hi: "hexchar (drop_bit 4 (ucast (b :: byte))) = Some (hex_digit (drop_bit 4 b))"
proof -
  have "drop_bit 4 (ucast b :: u32) = ucast (drop_bit 4 b)"
    by (rule word_eq_upt) (simp add: bit_simps upt_explicit word_eval)
  then show ?thesis by (simp add: hexchar_digit byte_bounds)
qed

lemma hexchar_lo: "hexchar (ucast (b :: byte) AND 0xF) = Some (hex_digit (b AND 0xF))"
proof -
  have "ucast b AND (0xF :: u32) = ucast (b AND 0xF)"
    by (rule word_eq_upt) (simp add: bit_simps upt_explicit word_eval)
  then show ?thesis by (simp add: hexchar_digit byte_bounds)
qed

lemma char_to_hex_bound: "char_to_hex c = Some v \<Longrightarrow> v < 16"
  by (auto simp: char_to_hex_def word_less_nat_alt word_le_nat_alt unat_word_ariths
      unat_sub_if_size split: if_splits)

lemma hex_digit_char_to_hex: "char_to_hex c = Some v \<Longrightarrow> hex_digit v = hex_lower c"
  by (auto simp: char_to_hex_def hex_digit_def hex_lower_def word_less_nat_alt word_le_nat_alt
      unat_word_ariths unat_sub_if_size split: if_splits)

section \<open>Correctness of decoding\<close>

lemma hex_value_Some_iff:
  "(\<exists>bs. hex_value s = Some bs) \<longleftrightarrow> even (length s) \<and> (\<forall>c \<in> set s. is_hex c)"
  by (induction s rule: hex_value.induct)
    (auto simp: is_hex_def split: option.splits prod.splits)

lemma length_hex_value: "hex_value s = Some bs \<Longrightarrow> length s = 2 * length bs"
  by (induction s arbitrary: bs rule: hex_value.induct)
    (auto split: option.splits prod.splits)

lemma hex_decode_loop_spec:
  "fst (hex_decode_loop s p n buf) \<longleftrightarrow> (\<exists>bs. hex_value s = Some bs \<and> length bs = n)"
proof (induction s p n buf rule: hex_decode_loop.induct)
  case (1 c1 c2 str p n buf)
  then show ?case
    by (cases n) (auto split: option.splits)
qed auto

lemma hex_decode_loop_stores:
  "hex_value s = Some bs \<Longrightarrow> length bs = n \<Longrightarrow> p + n \<le> length buf \<Longrightarrow>
   hex_decode_loop s p n buf = (True, take p buf @ bs @ drop (p + n) buf)"
proof (induction s arbitrary: p n buf bs rule: hex_value.induct)
  case (3 c1 c2 cs)
  from "3.prems"(1) obtain v1 v2 bs' where v: "char_to_hex c1 = Some v1"
      "char_to_hex c2 = Some v2" "hex_value cs = Some bs'"
      and bs: "bs = (push_bit 4 v1 OR v2) # bs'"
    by (auto split: option.splits prod.splits)
  let ?buf = "buf[p := push_bit 4 v1 OR v2]"
  from bs "3.prems" have n: "n = Suc (length bs')" and p: "p < length buf"
    "p + 1 + length bs' \<le> length ?buf" by auto
  have "hex_decode_loop cs (p + 1) (length bs') ?buf
      = (True, take (p + 1) ?buf @ bs' @ drop (p + 1 + length bs') ?buf)"
    by (rule "3.IH" [OF v(3) refl p(2)])
  then show ?case
    using v n bs p(1) by (simp add: take_Suc_conv_app_nth)
qed auto

lemma hex_decode_ok_iff:
  "fst (hex_decode str buf n) \<longleftrightarrow> length str = 2 * n \<and> (\<forall>c \<in> set str. is_hex c)"
proof -
  have "fst (hex_decode str buf n) \<longleftrightarrow> (\<exists>bs. hex_value str = Some bs \<and> length bs = n)"
    by (simp add: hex_decode_def hex_decode_loop_spec)
  also have "\<dots> \<longleftrightarrow> length str = 2 * n \<and> (\<forall>c \<in> set str. is_hex c)"
    using hex_value_Some_iff [of str] length_hex_value [of str] by force
  finally show ?thesis .
qed

section \<open>Correctness of encoding\<close>

lemma length_hex_text [simp]: "length (hex_text bs) = 2 * length bs"
  by (induction bs) auto

lemma hex_text_no_nul [simp]: "0 \<notin> set (hex_text bs)"
  by (induction bs) (use hex_digit_not_nul byte_bounds in \<open>auto dest: sym\<close>)

lemma hex_text_is_hex: "c \<in> set (hex_text bs) \<Longrightarrow> is_hex c"
  by (induction bs) (auto simp: is_hex_def byte_bounds)

lemma hex_value_hex_text [simp]: "hex_value (hex_text bs) = Some bs"
  by (induction bs) (simp_all add: byte_bounds nibble_join)

lemma hex_encode_loop_spec:
  "d + 2 * length bs < length dest \<Longrightarrow>
   hex_encode_loop bs d dest
   = Some (take d dest @ hex_text bs @ [0] @ drop (d + 2 * length bs + 1) dest)"
proof (induction bs arbitrary: d dest)
  case Nil
  then show ?case by (simp add: upd_conv_take_nth_drop)
next
  case (Cons b bs)
  let ?dest = "dest[d := hex_digit (drop_bit 4 b), d + 1 := hex_digit (b AND 0xF)]"
  have "hex_encode_loop bs (d + 2) ?dest
      = Some (take (d + 2) ?dest @ hex_text bs @ [0] @ drop (d + 2 + 2 * length bs + 1) ?dest)"
    using Cons.prems by (intro Cons.IH) simp
  moreover have "take (d + 2) ?dest
      = take d dest @ [hex_digit (drop_bit 4 b), hex_digit (b AND 0xF)]"
    using Cons.prems by (simp add: take_Suc_conv_app_nth take_update_cancel)
  ultimately show ?case
    by (simp add: Let_def hexchar_hi hexchar_lo)
qed

interpretation hex: text_codec hex_text hex_value "\<lambda>_. True"
  by unfold_locales simp

section \<open>Properties\<close>

text \<open>
  \<open>hex_decode(str, slen, buf, bufsize)\<close> succeeds exactly when the string has two
  hexadecimal digits (of either case) for every byte of the buffer, and then the buffer holds
  the bytes the digits stand for and the memory behind it is unchanged.
\<close>

theorem hex_decode_exact:
  assumes "bufsize \<le> length buf"
  shows "(fst (hex_decode str buf bufsize)
            \<longleftrightarrow> length str = 2 * bufsize \<and> (\<forall>c \<in> set str. is_hex c))
       \<and> (fst (hex_decode str buf bufsize)
            \<longrightarrow> (\<exists>bs. hex_value str = Some bs \<and> length bs = bufsize
                  \<and> snd (hex_decode str buf bufsize) = bs @ drop bufsize buf))"
proof (intro conjI impI)
  show "fst (hex_decode str buf bufsize)
      \<longleftrightarrow> length str = 2 * bufsize \<and> (\<forall>c \<in> set str. is_hex c)"
    by (rule hex_decode_ok_iff)
next
  assume "fst (hex_decode str buf bufsize)"
  then obtain bs where bs: "hex_value str = Some bs" "length bs = bufsize"
    by (auto simp: hex_decode_def hex_decode_loop_spec)
  with assms have "snd (hex_decode str buf bufsize) = bs @ drop bufsize buf"
    by (simp add: hex_decode_def hex_decode_loop_stores)
  with bs show "\<exists>bs. hex_value str = Some bs \<and> length bs = bufsize
      \<and> snd (hex_decode str buf bufsize) = bs @ drop bufsize buf" by blast
qed

theorem hex_decode_exact_witness:
  "hex_decode (cstr ''4eA8'') [1, 2, 3] 2 = (True, [0x4e, 0xa8, 3])"
proof -
  have "hex_value (cstr ''4eA8'') = Some [0x4e, 0xa8]"
    by (simp add: cstr_def char_to_hex_def)
  moreover have "\<forall>c \<in> set (cstr ''4eA8''). is_hex c"
    by (simp add: cstr_def is_hex_def char_to_hex_def)
  ultimately show ?thesis
    using hex_decode_exact [of 2 "[1, 2, 3]" "cstr ''4eA8''"] by (simp add: prod_eq_iff)
qed

text \<open>
  \<open>hex_encode\<close> never reaches the \<open>abort()\<close> of \<open>hexchar\<close>. With a destination
  of at least \<open>2 * bufsize + 1\<close> bytes it leaves there the NUL terminated lower case text
  of the buffer, which \<open>hex_decode\<close> turns back into the buffer; with less room it
  returns 0 and writes nothing.
\<close>

theorem hex_encode_then_decode:
  assumes "destsize = length dest" and "length bs \<le> length buf"
  shows "if destsize < 2 * length bs + 1 then hex_encode bs dest destsize = Some (False, dest)
         else \<exists>dest'. hex_encode bs dest destsize = Some (True, dest')
                \<and> length dest' = length dest \<and> c_str dest' = hex_text bs
                \<and> hex_decode (c_str dest') buf (length bs) = (True, bs @ drop (length bs) buf)"
proof (cases "destsize < 2 * length bs + 1")
  case True
  then show ?thesis by (simp add: hex_encode_def hex_str_size_def)
next
  case False
  let ?dest' = "hex_text bs @ [0] @ drop (2 * length bs + 1) dest"
  have "hex_encode bs dest destsize = Some (True, ?dest')"
    using False assms(1) hex_encode_loop_spec [of 0 bs dest]
    by (simp add: hex_encode_def hex_str_size_def)
  moreover have "c_str ?dest' = hex_text bs" by simp
  moreover have "hex_decode (hex_text bs) buf (length bs) = (True, bs @ drop (length bs) buf)"
    using hex_decode_loop_stores [of "hex_text bs" bs "length bs" 0 buf] assms(2)
    by (simp add: hex_decode_def)
  ultimately show ?thesis using False assms(1) by auto
qed

theorem hex_encode_then_decode_witness:
  "\<exists>dest'. hex_encode [0x4e, 0xa8] [7, 7, 7, 7, 7, 7] 6 = Some (True, dest')
     \<and> c_str dest' = cstr ''4ea8''"
  using hex_encode_then_decode [of 6 "[7, 7, 7, 7, 7, 7]" "[0x4e, 0xa8]" "[0, 0]"]
  by (auto simp: cstr_def hex_digit_def)

end
