(* ===== verification/Json_Dump.thy ===== *)
theory Json_Dump
  imports Cpp_Json Hex
begin

text \<open>
  The serialiser of nlohmann json: \<open>dump\<close> and the functions it uses in the class \<open>serializer\<close> of
  \<open>src/ext/json-3.11.2/single_include/nlohmann/json.hpp\<close>, with the arguments that the programs
  leave at their defaults (indentation by spaces, no escaping of characters beyond ASCII, an
  exception for strings that are not UTF-8). What is written to the output adapter is the
  list of its bytes. The digits of a floating point number are the parameter \<open>to_chars\<close>.

  Shown: the string of spaces that prefixes are taken from is always long enough for steps of at
  most 1024 columns, so that the text is the one described by \<open>layout_text\<close>; a string is written
  exactly when it is UTF-8, with the escapes of JSON; integers are written in decimal.
\<close>

section \<open>Strings\<close>

definition utf8d :: "byte list" where
  "utf8d =
    [
     0, 0, 0, 0, 0, 0, 0, 0, 0, 0, 0, 0, 0, 0, 0, 0, 0, 0, 0, 0, 0, 0, 0, 0, 0, 0, 0, 0, 0, 0, 0, 0,
     0, 0, 0, 0, 0, 0, 0, 0, 0, 0, 0, 0, 0, 0, 0, 0, 0, 0, 0, 0, 0, 0, 0, 0, 0, 0, 0, 0, 0, 0, 0, 0,
     0, 0, 0, 0, 0, 0, 0, 0, 0, 0, 0, 0, 0, 0, 0, 0, 0, 0, 0, 0, 0, 0, 0, 0, 0, 0, 0, 0, 0, 0, 0, 0,
     0, 0, 0, 0, 0, 0, 0, 0, 0, 0, 0, 0, 0, 0, 0, 0, 0, 0, 0, 0, 0, 0, 0, 0, 0, 0, 0, 0, 0, 0, 0, 0,
     1, 1, 1, 1, 1, 1, 1, 1, 1, 1, 1, 1, 1, 1, 1, 1, 9, 9, 9, 9, 9, 9, 9, 9, 9, 9, 9, 9, 9, 9, 9, 9,
     7, 7, 7, 7, 7, 7, 7, 7, 7, 7, 7, 7, 7, 7, 7, 7, 7, 7, 7, 7, 7, 7, 7, 7, 7, 7, 7, 7, 7, 7, 7, 7,
     8, 8, 2, 2, 2, 2, 2, 2, 2, 2, 2, 2, 2, 2, 2, 2, 2, 2, 2, 2, 2, 2, 2, 2, 2, 2, 2, 2, 2, 2, 2, 2,
     0xA, 0x3, 0x3, 0x3, 0x3, 0x3, 0x3, 0x3, 0x3, 0x3, 0x3, 0x3, 0x3, 0x4, 0x3, 0x3,
     0xB, 0x6, 0x6, 0x6, 0x5, 0x8, 0x8, 0x8, 0x8, 0x8, 0x8, 0x8, 0x8, 0x8, 0x8, 0x8,
     0x0, 0x1, 0x2, 0x3, 0x5, 0x8, 0x7, 0x1, 0x1, 0x1, 0x4, 0x6, 0x1, 0x1, 0x1, 0x1,
     1, 1, 1, 1, 1, 1, 1, 1, 1, 1, 1, 1, 1, 1, 1, 1, 1, 0, 1, 1, 1, 1, 1, 0, 1, 0, 1, 1, 1, 1, 1, 1,
     1, 2, 1, 1, 1, 1, 1, 2, 1, 2, 1, 1, 1, 1, 1, 1, 1, 1, 1, 1, 1, 1, 1, 2, 1, 1, 1, 1, 1, 1, 1, 1,
     1, 2, 1, 1, 1, 1, 1, 1, 1, 2, 1, 1, 1, 1, 1, 1, 1, 1, 1, 1, 1, 1, 1, 3, 1, 3, 1, 1, 1, 1, 1, 1,
     1, 3, 1, 1, 1, 1, 1, 3, 1, 3, 1, 1, 1, 1, 1, 1, 1, 3, 1, 1, 1, 1, 1, 1, 1, 1, 1, 1, 1, 1, 1, 1]"

definition UTF8_ACCEPT :: byte where "UTF8_ACCEPT = 0"
definition UTF8_REJECT :: byte where "UTF8_REJECT = 1"

definition decode :: "byte \<Rightarrow> u32 \<Rightarrow> byte \<Rightarrow> byte \<times> u32" where
  "decode state codep b =
     (let type = utf8d ! unat b;
          codep = (if state \<noteq> UTF8_ACCEPT then (ucast b AND 0x3f) OR push_bit 6 codep
                   else drop_bit (unat type) 0xFF AND ucast b)
      in (utf8d ! (256 + unat state * 16 + unat type), codep))"

text \<open>What is put into the buffer for a code point that is complete with the byte \<open>b\<close>.\<close>

definition hex4 :: "u32 \<Rightarrow> byte list" where
  "hex4 v = map (\<lambda>i. hex_digit (ucast (drop_bit i v AND 0xF))) [12, 8, 4, 0]"

definition escaped_codepoint :: "u32 \<Rightarrow> byte \<Rightarrow> byte list" where
  "escaped_codepoint codepoint b =
     (if codepoint = 0x08 then [0x5c, 0x62]
      else if codepoint = 0x09 then [0x5c, 0x74]
      else if codepoint = 0x0A then [0x5c, 0x6e]
      else if codepoint = 0x0C then [0x5c, 0x66]
      else if codepoint = 0x0D then [0x5c, 0x72]
      else if codepoint = 0x22 then [0x5c, 0x22]
      else if codepoint = 0x5C then [0x5c, 0x5c]
      else if codepoint \<le> 0x1F then [0x5c, 0x75] @ hex4 codepoint
      else [b])"

text \<open>The local variables of \<open>dump_escaped\<close>, the bytes in the buffer of 512 and those written.\<close>

record escaper =
  es_state :: byte
  es_codepoint :: u32
  es_buffer :: "byte list"
  es_out :: "byte list"

definition escape_byte :: "byte \<Rightarrow> escaper \<Rightarrow> escaper throwing" where
  "escape_byte b s =
     (case decode (es_state s) (es_codepoint s) b of (state, codepoint) \<Rightarrow>
      let s = s\<lparr>es_state := state, es_codepoint := codepoint\<rparr> in
      if state = UTF8_ACCEPT then
        (let buffer = es_buffer s @ escaped_codepoint codepoint b in
         Inr (if 512 - length buffer < 13 then s\<lparr>es_buffer := [], es_out := es_out s @ buffer\<rparr>
              else s\<lparr>es_buffer := buffer\<rparr>))
      else if state = UTF8_REJECT then Inl (Type_error 316)
      else Inr (s\<lparr>es_buffer := es_buffer s @ [b]\<rparr>))"

primrec escape_loop :: "byte list \<Rightarrow> escaper \<Rightarrow> escaper throwing" where
  "escape_loop [] s = Inr s"
| "escape_loop (b # bs) s = then_try (escape_byte b s) (escape_loop bs)"

definition dump_escaped :: "byte list \<Rightarrow> byte list throwing" where
  "dump_escaped str =
     then_try (escape_loop str \<lparr>es_state = UTF8_ACCEPT, es_codepoint = 0, es_buffer = [], es_out = []\<rparr>)
       (\<lambda>s. if es_state s = UTF8_ACCEPT then Inr (es_out s @ es_buffer s) else Inl (Type_error 316))"

section \<open>Numbers\<close>

function count_digits :: "u64 \<Rightarrow> nat" where
  "count_digits x =
     (if x < 10 then 1 else if x < 100 then 2 else if x < 1000 then 3 else if x < 10000 then 4
      else count_digits (x div 10000) + 4)"
  by pat_completeness auto
termination
  by (relation "measure unat") (auto simp: unat_div word_less_nat_alt)

text \<open>The table of pairs of digits, and the loop that fills the buffer from its end.\<close>

definition digits_to_99 :: "byte list" where
  "digits_to_99 =
     cstr ''00010203040506070809101112131415161718192021222324252627282930313233343536373839'' @
     cstr ''40414243444546474849505152535455565758596061626364656667686970717273747576777879'' @
     cstr ''8081828384858687888990919293949596979899''"

function fill_digits :: "u64 \<Rightarrow> nat \<Rightarrow> byte list \<Rightarrow> byte list" where
  "fill_digits x p buffer =
     (if 100 \<le> x then
        (let i = unat (x mod 100) in
         fill_digits (x div 100) (p - 2) (buffer[p - 1 := digits_to_99 ! (2 * i + 1), p - 2 := digits_to_99 ! (2 * i)]))
      else if 10 \<le> x then
        (let i = unat x in buffer[p - 1 := digits_to_99 ! (2 * i + 1), p - 2 := digits_to_99 ! (2 * i)])
      else buffer[p - 1 := 0x30 + ucast x])"
  by pat_completeness auto
termination
  by (relation "measure (unat \<circ> fst)") (auto simp: unat_div word_le_nat_alt)

definition remove_sign :: "u64 \<Rightarrow> u64" where
  "remove_sign x = - (x + 1) + 1"

definition dump_integer :: "int \<Rightarrow> byte list" where
  "dump_integer x =
     (if x = 0 then [0x30]
      else let abs_value = (if x < 0 then remove_sign (word_of_int x) else word_of_int x);
               number_buffer = (if x < 0 then (replicate 64 0)[0 := 0x2d] else replicate 64 0);
               n_chars = (if x < 0 then 1 else 0) + count_digits abs_value
           in take n_chars (fill_digits abs_value n_chars number_buffer))"

text \<open>\<open>std::isfinite\<close>: the exponent is not all ones.\<close>

definition isfinite :: "u64 \<Rightarrow> bool" where
  "isfinite d \<longleftrightarrow> drop_bit 52 d AND 0x7FF \<noteq> 0x7FF"

definition dump_float :: "(u64 \<Rightarrow> byte list) \<Rightarrow> u64 \<Rightarrow> byte list" where
  "dump_float to_chars x = (if \<not> isfinite x then cstr ''null'' else to_chars x)"

section \<open>Values\<close>

text \<open>
  The member \<open>indent_string\<close> of the serialiser: 512 spaces at first, and twice as many when the
  prefix of a new level is longer than it. It is doubled once per level, so a prefix may still be
  longer; then \<open>write_characters\<close> copies the byte 0 that ends the string and what lies behind it
  in memory, \<open>bey sz k\<close> for the \<open>k\<close> bytes behind a string of \<open>sz\<close> bytes. The columns are
  \<open>unsigned int\<close>. The functions return what they write, with the size that the string has then.
\<close>

definition grow_indent :: "nat \<Rightarrow> u32 \<Rightarrow> nat" where
  "grow_indent sz new_indent = (if sz < unat new_indent then sz * 2 else sz)"

definition indent_string :: "(nat \<Rightarrow> nat \<Rightarrow> byte list) \<Rightarrow> nat \<Rightarrow> u32 \<Rightarrow> byte list" where
  "indent_string bey sz n =
     (if unat n \<le> sz then replicate (unat n) 0x20
      else replicate sz 0x20 @ [0] @ bey sz (unat n - sz - 1))"

text \<open>
  The loops over the elements write what separates them; the last element is written apart.
\<close>

fun dump_value :: "(nat \<Rightarrow> nat \<Rightarrow> byte list) \<Rightarrow> (u64 \<Rightarrow> byte list) \<Rightarrow> bool \<Rightarrow> u32 \<Rightarrow> u32 \<Rightarrow> json
    \<Rightarrow> nat \<Rightarrow> (byte list \<times> nat) throwing"
  and dump_elements :: "(nat \<Rightarrow> nat \<Rightarrow> byte list) \<Rightarrow> (u64 \<Rightarrow> byte list) \<Rightarrow> bool \<Rightarrow> u32 \<Rightarrow> u32 \<Rightarrow> json list
    \<Rightarrow> nat \<Rightarrow> (byte list \<times> nat) throwing"
  and dump_members :: "(nat \<Rightarrow> nat \<Rightarrow> byte list) \<Rightarrow> (u64 \<Rightarrow> byte list) \<Rightarrow> bool \<Rightarrow> u32 \<Rightarrow> u32 \<Rightarrow> (byte list \<times> json) list
    \<Rightarrow> nat \<Rightarrow> (byte list \<times> nat) throwing" where
  "dump_value bey tc pretty step cur (JObj kvs) sz =
     (if kvs = [] then Inr (cstr ''{}'', sz)
      else if pretty then
        then_try (dump_members bey tc True step (cur + step) kvs (grow_indent sz (cur + step)))
          (\<lambda>(t, sz). Inr (cstr ''{'' @ [0x0a] @ t @ [0x0a] @ indent_string bey sz cur @ cstr ''}'', sz))
      else then_try (dump_members bey tc False step cur kvs sz) (\<lambda>(t, sz). Inr (cstr ''{'' @ t @ cstr ''}'', sz)))"
| "dump_value bey tc pretty step cur (JArr js) sz =
     (if js = [] then Inr (cstr ''[]'', sz)
      else if pretty then
        then_try (dump_elements bey tc True step (cur + step) js (grow_indent sz (cur + step)))
          (\<lambda>(t, sz). Inr (cstr ''['' @ [0x0a] @ t @ [0x0a] @ indent_string bey sz cur @ cstr '']'', sz))
      else then_try (dump_elements bey tc False step cur js sz) (\<lambda>(t, sz). Inr (cstr ''['' @ t @ cstr '']'', sz)))"
| "dump_value bey tc pretty step cur (JStr s) sz = then_try (dump_escaped s) (\<lambda>t. Inr ([0x22] @ t @ [0x22], sz))"
| "dump_value bey tc pretty step cur (JBool b) sz = Inr (if b then cstr ''true'' else cstr ''false'', sz)"
| "dump_value bey tc pretty step cur (JInt i) sz = Inr (dump_integer i, sz)"
| "dump_value bey tc pretty step cur (JFloat d) sz = Inr (dump_float tc d, sz)"
| "dump_value bey tc pretty step cur JNull sz = Inr (cstr ''null'', sz)"
| "dump_elements bey tc pretty step ind [] sz = Inr ([], sz)"
| "dump_elements bey tc pretty step ind [j] sz =
     then_try (dump_value bey tc pretty step ind j sz)
       (\<lambda>(t, sz'). Inr ((if pretty then indent_string bey sz ind else []) @ t, sz'))"
| "dump_elements bey tc pretty step ind (j # j' # js) sz =
     then_try (dump_value bey tc pretty step ind j sz) (\<lambda>(t, sz').
     then_try (dump_elements bey tc pretty step ind (j' # js) sz') (\<lambda>(ts, sz'').
       Inr ((if pretty then indent_string bey sz ind else []) @ t @ (if pretty then cstr '','' @ [0x0a] else cstr '','') @ ts, sz'')))"
| "dump_members bey tc pretty step ind [] sz = Inr ([], sz)"
| "dump_members bey tc pretty step ind [(k, j)] sz =
     then_try (dump_escaped k) (\<lambda>name.
     then_try (dump_value bey tc pretty step ind j sz) (\<lambda>(t, sz').
       Inr ((if pretty then indent_string bey sz ind else []) @ [0x22] @ name
         @ (if pretty then [0x22, 0x3a, 0x20] else [0x22, 0x3a]) @ t, sz')))"
| "dump_members bey tc pretty step ind ((k, j) # m # kvs) sz =
     then_try (dump_escaped k) (\<lambda>name.
     then_try (dump_value bey tc pretty step ind j sz) (\<lambda>(t, sz').
     then_try (dump_members bey tc pretty step ind (m # kvs) sz') (\<lambda>(ts, sz'').
       Inr ((if pretty then indent_string bey sz ind else []) @ [0x22] @ name
         @ (if pretty then [0x22, 0x3a, 0x20] else [0x22, 0x3a]) @ t
         @ (if pretty then cstr '','' @ [0x0a] else cstr '','') @ ts, sz''))))"

text \<open>\<open>dump(indent)\<close>; a negative indentation, the default, is the compact form.\<close>

definition dump :: "(nat \<Rightarrow> nat \<Rightarrow> byte list) \<Rightarrow> (u64 \<Rightarrow> byte list) \<Rightarrow> int \<Rightarrow> json \<Rightarrow> byte list throwing" where
  "dump bey tc indent j =
     then_try (if 0 \<le> indent then dump_value bey tc True (word_of_int indent) 0 j 512
               else dump_value bey tc False 0 0 j 512)
       (\<lambda>(t, sz). Inr t)"

section \<open>The text that is meant\<close>

text \<open>
  The same text without the string of spaces: every line of an indented text begins with as many
  spaces as its level asks for.
\<close>

definition margin :: "u32 \<Rightarrow> byte list" where
  "margin n = replicate (unat n) 0x20"

fun layout_value :: "(u64 \<Rightarrow> byte list) \<Rightarrow> bool \<Rightarrow> u32 \<Rightarrow> u32 \<Rightarrow> json \<Rightarrow> byte list throwing"
  and layout_elements :: "(u64 \<Rightarrow> byte list) \<Rightarrow> bool \<Rightarrow> u32 \<Rightarrow> u32 \<Rightarrow> json list \<Rightarrow> byte list throwing"
  and layout_members :: "(u64 \<Rightarrow> byte list) \<Rightarrow> bool \<Rightarrow> u32 \<Rightarrow> u32 \<Rightarrow> (byte list \<times> json) list \<Rightarrow> byte list throwing" where
  "layout_value tc pretty step cur (JObj kvs) =
     (if kvs = [] then Inr (cstr ''{}'')
      else if pretty then
        then_try (layout_members tc True step (cur + step) kvs)
          (\<lambda>t. Inr (cstr ''{'' @ [0x0a] @ t @ [0x0a] @ margin cur @ cstr ''}''))
      else then_try (layout_members tc False step cur kvs) (\<lambda>t. Inr (cstr ''{'' @ t @ cstr ''}'')))"
| "layout_value tc pretty step cur (JArr js) =
     (if js = [] then Inr (cstr ''[]'')
      else if pretty then
        then_try (layout_elements tc True step (cur + step) js)
          (\<lambda>t. Inr (cstr ''['' @ [0x0a] @ t @ [0x0a] @ margin cur @ cstr '']''))
      else then_try (layout_elements tc False step cur js) (\<lambda>t. Inr (cstr ''['' @ t @ cstr '']'')))"
| "layout_value tc pretty step cur (JStr s) = then_try (dump_escaped s) (\<lambda>t. Inr ([0x22] @ t @ [0x22]))"
| "layout_value tc pretty step cur (JBool b) = Inr (if b then cstr ''true'' else cstr ''false'')"
| "layout_value tc pretty step cur (JInt i) = Inr (dump_integer i)"
| "layout_value tc pretty step cur (JFloat d) = Inr (dump_float tc d)"
| "layout_value tc pretty step cur JNull = Inr (cstr ''null'')"
| "layout_elements tc pretty step ind [] = Inr []"
| "layout_elements tc pretty step ind [j] =
     then_try (layout_value tc pretty step ind j) (\<lambda>t. Inr ((if pretty then margin ind else []) @ t))"
| "layout_elements tc pretty step ind (j # j' # js) =
     then_try (layout_value tc pretty step ind j) (\<lambda>t.
     then_try (layout_elements tc pretty step ind (j' # js)) (\<lambda>ts.
       Inr ((if pretty then margin ind else []) @ t @ (if pretty then cstr '','' @ [0x0a] else cstr '','') @ ts)))"
| "layout_members tc pretty step ind [] = Inr []"
| "layout_members tc pretty step ind [(k, j)] =
     then_try (dump_escaped k) (\<lambda>name.
     then_try (layout_value tc pretty step ind j) (\<lambda>t.
       Inr ((if pretty then margin ind else []) @ [0x22] @ name @ (if pretty then [0x22, 0x3a, 0x20] else [0x22, 0x3a]) @ t)))"
| "layout_members tc pretty step ind ((k, j) # m # kvs) =
     then_try (dump_escaped k) (\<lambda>name.
     then_try (layout_value tc pretty step ind j) (\<lambda>t.
     then_try (layout_members tc pretty step ind (m # kvs)) (\<lambda>ts.
       Inr ((if pretty then margin ind else []) @ [0x22] @ name @ (if pretty then [0x22, 0x3a, 0x20] else [0x22, 0x3a]) @ t
         @ (if pretty then cstr '','' @ [0x0a] else cstr '','') @ ts))))"

definition layout_text :: "(u64 \<Rightarrow> byte list) \<Rightarrow> int \<Rightarrow> json \<Rightarrow> byte list throwing" where
  "layout_text tc indent j =
     (if 0 \<le> indent then layout_value tc True (word_of_int indent) 0 j else layout_value tc False 0 0 j)"

text \<open>
  The code writes the text that is meant, when steps have at most 1024 columns: then the string
  of spaces is always long enough. What it holds between two writes is \<open>roomy\<close>.
\<close>

definition roomy :: "u32 \<Rightarrow> u32 \<Rightarrow> nat \<Rightarrow> bool" where
  "roomy step cur sz \<longleftrightarrow> 512 \<le> sz \<and> unat step \<le> 1024 \<and> unat cur \<le> sz \<and> (cur = 0 \<or> unat step \<le> sz)"

lemma roomy_larger: "roomy step cur sz \<Longrightarrow> sz \<le> sz' \<Longrightarrow> roomy step cur sz'"
  by (auto simp: roomy_def)

lemma roomy_level:
  assumes "roomy step cur sz"
  shows "roomy step (cur + step) (grow_indent sz (cur + step))" "sz \<le> grow_indent sz (cur + step)"
proof -
  have "unat (cur + step) \<le> unat cur + unat step" by (simp add: unat_word_ariths)
  then show "roomy step (cur + step) (grow_indent sz (cur + step))"
    using assms by (auto simp: roomy_def grow_indent_def)
  show "sz \<le> grow_indent sz (cur + step)" by (simp add: grow_indent_def)
qed

lemma indent_string_roomy: "roomy step cur sz \<Longrightarrow> sz \<le> sz' \<Longrightarrow> indent_string bey sz' cur = margin cur"
  by (simp add: roomy_def indent_string_def margin_def)

definition lays_out :: "nat \<Rightarrow> (byte list \<times> nat) throwing \<Rightarrow> byte list throwing \<Rightarrow> bool" where
  "lays_out sz r l \<longleftrightarrow> (case l of Inl e \<Rightarrow> r = Inl e | Inr t \<Rightarrow> \<exists>sz'. sz \<le> sz' \<and> r = Inr (t, sz'))"

lemma lays_out_Inr: "sz \<le> sz' \<Longrightarrow> lays_out sz (Inr (t, sz')) (Inr t)"
  by (simp add: lays_out_def)

lemma lays_out_then:
  assumes "lays_out sz r l" "\<And>t sz'. sz \<le> sz' \<Longrightarrow> lays_out sz (f (t, sz')) (g t)"
  shows "lays_out sz (then_try r f) (then_try l g)"
proof (cases l)
  case (Inr t)
  with assms(1) obtain sz' where "sz \<le> sz'" "r = Inr (t, sz')" by (auto simp: lays_out_def)
  with assms(2) [of sz' t] Inr show ?thesis by simp
qed (use assms(1) in \<open>simp add: lays_out_def\<close>)

lemma lays_out_string: "(\<And>t. lays_out sz (f t) (g t)) \<Longrightarrow> lays_out sz (then_try r f) (then_try r g)"
  by (cases r) (simp_all add: lays_out_def)

lemma lays_out_smaller: "lays_out sz r l \<Longrightarrow> sz0 \<le> sz \<Longrightarrow> lays_out sz0 r l"
  by (auto simp: lays_out_def split: sum.splits)

lemma dump_lays_out:
  shows "(pretty \<Longrightarrow> roomy step cur sz) \<Longrightarrow> lays_out sz (dump_value bey tc pretty step cur j sz) (layout_value tc pretty step cur j)"
    and "(pretty \<Longrightarrow> roomy step ind sz) \<Longrightarrow>
      lays_out sz (dump_elements bey tc pretty step ind js sz) (layout_elements tc pretty step ind js)"
    and "(pretty \<Longrightarrow> roomy step ind sz) \<Longrightarrow>
      lays_out sz (dump_members bey tc pretty step ind kvs sz) (layout_members tc pretty step ind kvs)"
proof (induction tc pretty step cur j and tc pretty step ind js and tc pretty step ind kvs arbitrary: sz and sz and sz
    rule: layout_value_layout_elements_layout_members.induct)
  case (1 tc pretty step cur kvs)
  show ?case
  proof (cases "pretty \<and> kvs \<noteq> []")
    case True
    note r = roomy_level [OF "1.prems"] and p = "1.prems"
    have "lays_out sz (dump_members bey tc True step (cur + step) kvs (grow_indent sz (cur + step)))
        (layout_members tc True step (cur + step) kvs)"
      using "1.IH"(1) r True by (auto intro: lays_out_smaller)
    then show ?thesis using True p by (auto simp: indent_string_roomy intro!: lays_out_then lays_out_Inr)
  next
    case False
    then show ?thesis using "1.IH"(2) [of sz] by (auto intro!: lays_out_then lays_out_Inr)
  qed
next
  case (2 tc pretty step cur js)
  show ?case
  proof (cases "pretty \<and> js \<noteq> []")
    case True
    note r = roomy_level [OF "2.prems"] and p = "2.prems"
    have "lays_out sz (dump_elements bey tc True step (cur + step) js (grow_indent sz (cur + step)))
        (layout_elements tc True step (cur + step) js)"
      using "2.IH"(1) r True by (auto intro: lays_out_smaller)
    then show ?thesis using True p by (auto simp: indent_string_roomy intro!: lays_out_then lays_out_Inr)
  next
    case False
    then show ?thesis using "2.IH"(2) [of sz] by (auto intro!: lays_out_then lays_out_Inr)
  qed
next
  case (9 tc pretty step ind j)
  then show ?case by (auto simp: indent_string_roomy intro!: lays_out_then lays_out_Inr)
next
  case (10 tc pretty step ind j j' js)
  have "lays_out sz (dump_elements bey tc pretty step ind (j' # js) sz') (layout_elements tc pretty step ind (j' # js))"
    if "sz \<le> sz'" for sz'
    using "10.IH"(2) "10.prems" that by (auto intro: lays_out_smaller roomy_larger)
  with 10 show ?case by (auto simp: indent_string_roomy intro!: lays_out_then lays_out_Inr)
next
  case (12 tc pretty step ind k j)
  then show ?case by (auto simp: indent_string_roomy intro!: lays_out_string lays_out_then lays_out_Inr)
next
  case (13 tc pretty step ind k j m kvs)
  have "lays_out sz (dump_members bey tc pretty step ind (m # kvs) sz') (layout_members tc pretty step ind (m # kvs))"
    if "sz \<le> sz'" for sz'
    using "13.IH"(2) "13.prems" that by (auto intro: lays_out_smaller roomy_larger)
  with 13 show ?case by (auto simp: indent_string_roomy intro!: lays_out_string lays_out_then lays_out_Inr)
qed (auto intro!: lays_out_string lays_out_Inr)

lemma dump_layout:
  assumes "n \<le> 1024"
  shows "dump bey tc n j = layout_text tc n j"
proof -
  have *: "then_try r (\<lambda>(t, sz). Inr t) = l" if "lays_out sz r l" for sz r and l :: "byte list throwing"
    using that by (cases l) (auto simp: lays_out_def)
  have "roomy (word_of_int n) 0 512" if "0 \<le> n"
    using assms that by (simp add: roomy_def unsigned_of_int take_bit_int_eq_self)
  with dump_lays_out(1) [of True "word_of_int n" 0 512 bey tc j] dump_lays_out(1) [of False 0 0 512 bey tc j]
  show ?thesis by (auto simp: dump_def layout_text_def intro: *)
qed

section \<open>Integers are written in decimal\<close>

declare count_digits.simps [simp del] fill_digits.simps [simp del]

lemma nth_pairs:
  "d < n \<Longrightarrow> concat (map (\<lambda>d. [f d, g d]) [0..<n]) ! (2 * d) = f d
     \<and> concat (map (\<lambda>d. [f d, g d]) [0..<n]) ! Suc (2 * d) = g d"
proof (induction n)
  case (Suc n)
  have "length (concat (map (\<lambda>d. [f d, g d]) [0..<n])) = 2 * n" by (induction n) simp_all
  with Suc show ?case by (cases "d = n") (simp_all add: nth_append)
qed simp

lemma digits_to_99_table:
  "digits_to_99 = concat (map (\<lambda>d. [48 + word_of_nat (d div 10), 48 + word_of_nat (d mod 10)]) [0..<100])"
  by (simp add: digits_to_99_def cstr_def upt_rec)

lemma digits_to_99_pair:
  assumes "d < 100"
  shows "digits_to_99 ! (2 * d) = 48 + word_of_nat (d div 10)"
    and "digits_to_99 ! Suc (2 * d) = 48 + word_of_nat (d mod 10)"
  using nth_pairs [OF assms, of "\<lambda>d. 48 + word_of_nat (d div 10) :: byte" "\<lambda>d. 48 + word_of_nat (d mod 10)"]
  unfolding digits_to_99_table by simp_all

lemma dec_nat_hundred:
  assumes "100 \<le> n"
  shows "dec_nat n = dec_nat (n div 100) @ [48 + word_of_nat (n mod 100 div 10), 48 + word_of_nat (n mod 100 mod 10)]"
proof -
  have "n mod 100 = 10 * (n div 10 mod 10) + n mod 10" using mod_mult2_eq [of n 10 10] by simp
  then have "n mod 100 div 10 = n div 10 mod 10" "n mod 100 mod 10 = n mod 10" by simp_all
  with assms show ?thesis
    by (simp add: dec_nat.simps [of n] dec_nat.simps [of "n div 10"] div_mult2_eq [symmetric])
qed

lemma dec_nat_two: "10 \<le> n \<Longrightarrow> n < 100 \<Longrightarrow> dec_nat n = [48 + word_of_nat (n div 10), 48 + word_of_nat (n mod 10)]"
  by (simp add: dec_nat.simps [of n] dec_nat.simps [of "n div 10"])

lemma count_digits_length: "count_digits x = length (dec_nat (unat x))"
proof (induction x rule: count_digits.induct)
  case (1 x)
  have len: "length (dec_nat n) = length (dec_nat (n div 10)) + 1" if "10 \<le> n" for n
    using that by (simp add: dec_nat.simps [of n])
  show ?case
  proof (cases "x < 10000")
    case False
    then have x: "10000 \<le> unat x" by (simp add: word_less_nat_alt)
    with len [of "unat x"] len [of "unat x div 10"] len [of "unat x div 100"] len [of "unat x div 1000"]
    have "length (dec_nat (unat x)) = length (dec_nat (unat x div 10000)) + 4"
      by (simp add: div_mult2_eq [symmetric])
    moreover have "unat (x div 10000) = unat x div 10000" by (simp add: unat_div)
    moreover have "count_digits x = count_digits (x div 10000) + 4"
      using False x by (subst count_digits.simps) (simp add: word_less_nat_alt)
    ultimately show ?thesis using "1.IH" x by (simp add: word_less_nat_alt)
  next
    case True
    with len [of "unat x"] len [of "unat x div 10"] len [of "unat x div 100"] show ?thesis
      by (simp add: count_digits.simps [of x] word_less_nat_alt div_mult2_eq [symmetric] dec_nat.simps [of "unat x div 1000"]
          dec_nat.simps [of "unat x div 100"] dec_nat.simps [of "unat x div 10"] dec_nat.simps [of "unat x"]
          div_less_iff_less_mult)
  qed
qed

lemma two_updates:
  assumes "2 \<le> p" "p \<le> length xs"
  shows "xs[p - Suc 0 := b, p - 2 := a] = take (p - 2) xs @ [a, b] @ drop p xs"
  using assms by (intro nth_equalityI) (auto simp: nth_append nth_list_update nth_Cons' split: if_splits)

lemma one_update: "1 \<le> p \<Longrightarrow> p \<le> length xs \<Longrightarrow> xs[p - Suc 0 := a] = take (p - 1) xs @ [a] @ drop p xs"
  by (intro nth_equalityI) (auto simp: nth_append nth_list_update)

lemma fill_digits_dec:
  assumes "length (dec_nat (unat x)) \<le> p" "p \<le> length buffer"
  shows "fill_digits x p buffer = take (p - length (dec_nat (unat x))) buffer @ dec_nat (unat x) @ drop p buffer"
  using assms
proof (induction x p buffer rule: fill_digits.induct)
  case (1 x p buffer)
  let ?n = "unat x"
  show ?case
  proof (cases "100 \<le> x")
    case True
    let ?q = "?n div 100" and ?r = "?n mod 100"
    let ?b = "buffer[p - Suc 0 := 48 + word_of_nat (?r mod 10), p - 2 := 48 + word_of_nat (?r div 10)]"
    have n: "100 \<le> ?n" using True by (simp add: word_le_nat_alt)
    note dec = dec_nat_hundred [OF n]
    have q: "unat (x div 100) = ?q" "unat (x mod 100) = ?r" by (simp_all add: unat_div unat_mod)
    have p: "2 \<le> p" "length (dec_nat ?q) \<le> p - 2" using "1.prems"(1) dec by auto
    have "fill_digits x p buffer = fill_digits (x div 100) (p - 2) ?b"
      using True digits_to_99_pair [of ?r] by (subst fill_digits.simps) (simp add: q Let_def)
    also have "\<dots> = take (p - 2 - length (dec_nat ?q)) ?b @ dec_nat ?q @ drop (p - 2) ?b"
      using "1.IH" [OF True refl] "1.prems"(2) p(2) digits_to_99_pair [of ?r] by (simp add: q)
    finally show ?thesis using dec p "1.prems"(2) by (simp add: two_updates)
  next
    case False
    then have n: "?n < 100" by (simp add: word_le_nat_alt)
    show ?thesis
    proof (cases "10 \<le> x")
      case True
      then have "10 \<le> ?n" by (simp add: word_le_nat_alt)
      with dec_nat_two [OF this n] False True "1.prems" digits_to_99_pair [OF n] show ?thesis
        by (subst fill_digits.simps) (simp add: two_updates [unfolded numeral_2_eq_2] Let_def numeral_2_eq_2)
    next
      case False
      then have "?n < 10" by (simp add: word_le_nat_alt)
      then have dec: "dec_nat ?n = [48 + word_of_nat ?n]" by (simp add: dec_nat.simps [of ?n])
      have "fill_digits x p buffer = buffer[p - 1 := 0x30 + ucast x]"
        using False \<open>\<not> 100 \<le> x\<close> by (subst fill_digits.simps) simp
      also have "\<dots> = take (p - 1) buffer @ [48 + ucast x] @ drop p buffer"
        using one_update [of p buffer] "1.prems" dec by simp
      finally show ?thesis by (simp add: dec)
    qed
  qed
qed

lemma dec_nat_u64_length: "n < 2 ^ 64 \<Longrightarrow> length (dec_nat n) \<le> 20"
  using length_dec_nat [of 20 n] by simp

lemma dump_integer_dec:
  assumes "- (2 ^ 63) \<le> i" "i < 2 ^ 64"
  shows "dump_integer i = dec_int i"
proof (cases "i < 0")
  case True
  let ?a = "remove_sign (word_of_int i)"
  have "nat (- i) < 2 ^ 64" using assms(1) by simp
  moreover have "?a = word_of_nat (nat (- i))" using True by (simp add: remove_sign_def)
  ultimately have a: "unat ?a = nat (- i)" by (simp add: unsigned_of_nat take_bit_nat_eq_self)
  moreover have "nat (- i) < 2 ^ 64" using assms(1) by simp
  moreover have "(replicate 64 0)[0 := 0x2d :: byte] = 0x2d # replicate 63 0" by (simp add: numeral_eq_Suc)
  ultimately show ?thesis
    using True fill_digits_dec [of ?a "Suc (length (dec_nat (nat (- i))))" "(replicate 64 0)[0 := 0x2d]"]
      dec_nat_u64_length [of "nat (- i)"]
    by (simp add: dump_integer_def count_digits_length dec_int_def Let_def)
next
  case False
  have i: "nat i < 2 ^ 64" using False assms(2) by (simp add: nat_less_iff)
  have "(word_of_int i :: u64) = word_of_nat (nat i)" using False by simp
  then have "unat (word_of_int i :: u64) = nat i" using i by (simp add: unsigned_of_nat take_bit_nat_eq_self)
  moreover note i
  ultimately show ?thesis
    using False fill_digits_dec [of "word_of_int i" "length (dec_nat (nat i))" "replicate 64 0"] dec_nat_u64_length [of "nat i"]
    by (auto simp: dump_integer_def count_digits_length dec_int_def Let_def dec_nat.simps [of 0])
qed

section \<open>Strings are written exactly when they are UTF-8\<close>

text \<open>The classes of bytes in the table, and the automaton it encodes.\<close>

definition byte_class :: "byte \<Rightarrow> nat" where
  "byte_class b =
     (if b \<le> 0x7F then 0 else if b \<le> 0x8F then 1 else if b \<le> 0x9F then 9 else if b \<le> 0xBF then 7
      else if b \<le> 0xC1 then 8 else if b \<le> 0xDF then 2 else if b = 0xE0 then 0xA else if b = 0xED then 4
      else if b \<le> 0xEF then 3 else if b = 0xF0 then 0xB else if b \<le> 0xF3 then 6 else if b = 0xF4 then 5 else 8)"

definition next_state :: "nat \<Rightarrow> byte \<Rightarrow> nat" where
  "next_state st b =
     (if st = 0 then
        (if b \<le> 0x7F then 0 else if 0xC2 \<le> b \<and> b \<le> 0xDF then 2 else if b = 0xE0 then 4 else if b = 0xED then 5
         else if 0xE1 \<le> b \<and> b \<le> 0xEF then 3 else if b = 0xF0 then 6 else if 0xF1 \<le> b \<and> b \<le> 0xF3 then 7
         else if b = 0xF4 then 8 else 1)
      else if st = 2 then (if utf8_tail b then 0 else 1)
      else if st = 3 then (if utf8_tail b then 2 else 1)
      else if st = 4 then (if 0xA0 \<le> b \<and> b \<le> 0xBF then 2 else 1)
      else if st = 5 then (if 0x80 \<le> b \<and> b \<le> 0x9F then 2 else 1)
      else if st = 6 then (if 0x90 \<le> b \<and> b \<le> 0xBF then 3 else 1)
      else if st = 7 then (if utf8_tail b then 3 else 1)
      else if st = 8 then (if 0x80 \<le> b \<and> b \<le> 0x8F then 3 else 1)
      else 1)"

lemma utf8d_class: "utf8d ! unat b = word_of_nat (byte_class b)"
proof -
  have "take 256 utf8d = map (\<lambda>n. word_of_nat (byte_class (word_of_nat n))) [0..<256]"
    by (simp add: utf8d_def byte_class_def upt_rec)
  moreover have "utf8d ! unat b = take 256 utf8d ! unat b" using unat_byte_less [of b] by simp
  ultimately show ?thesis using unat_byte_less [of b] by simp
qed

lemma byte_class_bound: "byte_class b \<le> 11"
  by (simp add: byte_class_def)

lemma byte_class_cases:
  obtains "0 \<le> unat b" "unat b \<le> 127" "byte_class b = 0" |
    "128 \<le> unat b" "unat b \<le> 143" "byte_class b = 1" |
    "144 \<le> unat b" "unat b \<le> 159" "byte_class b = 9" |
    "160 \<le> unat b" "unat b \<le> 191" "byte_class b = 7" |
    "192 \<le> unat b" "unat b \<le> 193" "byte_class b = 8" |
    "194 \<le> unat b" "unat b \<le> 223" "byte_class b = 2" |
    "224 \<le> unat b" "unat b \<le> 224" "byte_class b = 10" |
    "225 \<le> unat b" "unat b \<le> 236" "byte_class b = 3" |
    "237 \<le> unat b" "unat b \<le> 237" "byte_class b = 4" |
    "238 \<le> unat b" "unat b \<le> 239" "byte_class b = 3" |
    "240 \<le> unat b" "unat b \<le> 240" "byte_class b = 11" |
    "241 \<le> unat b" "unat b \<le> 243" "byte_class b = 6" |
    "244 \<le> unat b" "unat b \<le> 244" "byte_class b = 5" |
    "245 \<le> unat b" "unat b \<le> 255" "byte_class b = 8"
proof -
  have c: "byte_class b =
     (let n = unat b in if n \<le> 127 then 0 else if n \<le> 143 then 1 else if n \<le> 159 then 9 else if n \<le> 191 then 7
      else if n \<le> 193 then 8 else if n \<le> 223 then 2 else if n = 224 then 10 else if n = 237 then 4
      else if n \<le> 239 then 3 else if n = 240 then 11 else if n \<le> 243 then 6 else if n = 244 then 5 else 8)"
    by (simp add: byte_class_def word_le_nat_alt word_unat_eq_iff)
  have "unat b \<le> 255" by (rule unat_byte_le)
  then consider "0 \<le> unat b" "unat b \<le> 159" | "160 \<le> unat b" "unat b \<le> 223" | "224 \<le> unat b" "unat b \<le> 236" | "237 \<le> unat b" "unat b \<le> 240" | "241 \<le> unat b" "unat b \<le> 255"
    by linarith
  then show ?thesis
  proof cases
    case 1
    then consider "0 \<le> unat b" "unat b \<le> 127" | "128 \<le> unat b" "unat b \<le> 143" | "144 \<le> unat b" "unat b \<le> 159" by linarith
    then show ?thesis
    proof cases
      case 1
      with c show ?thesis by (intro that(1)) simp_all
    next
      case 2
      with c show ?thesis by (intro that(2)) simp_all
    next
      case 3
      with c show ?thesis by (intro that(3)) simp_all
    qed
  next
    case 2
    then consider "160 \<le> unat b" "unat b \<le> 191" | "192 \<le> unat b" "unat b \<le> 193" | "194 \<le> unat b" "unat b \<le> 223" by linarith
    then show ?thesis
    proof cases
      case 1
      with c show ?thesis by (intro that(4)) simp_all
    next
      case 2
      with c show ?thesis by (intro that(5)) simp_all
    next
      case 3
      with c show ?thesis by (intro that(6)) simp_all
    qed
  next
    case 3
    then consider "224 \<le> unat b" "unat b \<le> 224" | "225 \<le> unat b" "unat b \<le> 236" by linarith
    then show ?thesis
    proof cases
      case 1
      with c show ?thesis by (intro that(7)) simp_all
    next
      case 2
      with c show ?thesis by (intro that(8)) simp_all
    qed
  next
    case 4
    then consider "237 \<le> unat b" "unat b \<le> 237" | "238 \<le> unat b" "unat b \<le> 239" | "240 \<le> unat b" "unat b \<le> 240" by linarith
    then show ?thesis
    proof cases
      case 1
      with c show ?thesis by (intro that(9)) simp_all
    next
      case 2
      with c show ?thesis by (intro that(10)) simp_all
    next
      case 3
      with c show ?thesis by (intro that(11)) simp_all
    qed
  next
    case 5
    then consider "241 \<le> unat b" "unat b \<le> 243" | "244 \<le> unat b" "unat b \<le> 244" | "245 \<le> unat b" "unat b \<le> 255" by linarith
    then show ?thesis
    proof cases
      case 1
      with c show ?thesis by (intro that(12)) simp_all
    next
      case 2
      with c show ?thesis by (intro that(13)) simp_all
    next
      case 3
      with c show ?thesis by (intro that(14)) simp_all
    qed
  qed
qed

lemma utf8d_rows:
  "drop 256 utf8d =
    [0, 1, 2, 3, 5, 8, 7, 1, 1, 1, 4, 6, 1, 1, 1, 1,
     1, 1, 1, 1, 1, 1, 1, 1, 1, 1, 1, 1, 1, 1, 1, 1,
     1, 0, 1, 1, 1, 1, 1, 0, 1, 0, 1, 1, 1, 1, 1, 1,
     1, 2, 1, 1, 1, 1, 1, 2, 1, 2, 1, 1, 1, 1, 1, 1,
     1, 1, 1, 1, 1, 1, 1, 2, 1, 1, 1, 1, 1, 1, 1, 1,
     1, 2, 1, 1, 1, 1, 1, 1, 1, 2, 1, 1, 1, 1, 1, 1,
     1, 1, 1, 1, 1, 1, 1, 3, 1, 3, 1, 1, 1, 1, 1, 1,
     1, 3, 1, 1, 1, 1, 1, 3, 1, 3, 1, 1, 1, 1, 1, 1,
     1, 3, 1, 1, 1, 1, 1, 1, 1, 1, 1, 1, 1, 1, 1, 1]"
  by (simp add: utf8d_def)

lemma utf8d_state:
  assumes "st \<in> {0, 2, 3, 4, 5, 6, 7, 8}"
  shows "utf8d ! (256 + st * 16 + byte_class b) = word_of_nat (next_state st b)"
proof -
  have "length utf8d = 400" by (simp add: utf8d_def)
  then have "utf8d ! (256 + st * 16 + byte_class b) = drop 256 utf8d ! (st * 16 + byte_class b)"
    using assms byte_class_bound [of b] by (subst nth_drop) auto
  also have "\<dots> = word_of_nat (next_state st b)"
    using assms unfolding insert_iff empty_iff utf8d_rows
    by (elim disjE; cases b rule: byte_class_cases)
      (simp_all add: next_state_def utf8_tail_def word_le_nat_alt word_unat_eq_iff)
  finally show ?thesis .
qed

text \<open>What may follow in a state of the automaton.\<close>

primrec utf8_rest :: "nat \<Rightarrow> byte list \<Rightarrow> bool" where
  "utf8_rest st [] = (st = 0)"
| "utf8_rest st (b # bs) = (next_state st b \<noteq> 1 \<and> utf8_rest (next_state st b) bs)"

lemma next_state_1 [simp]: "next_state (Suc 0) b = Suc 0"
  by (simp add: next_state_def)

lemma next_state_states: "next_state st b \<in> {0, 1, 2, 3, 4, 5, 6, 7, 8}"
  by (simp add: next_state_def)

lemma utf8_rest_2: "utf8_rest 2 bs = (case bs of [] \<Rightarrow> False | c # cs \<Rightarrow> utf8_tail c \<and> utf8_rest 0 cs)"
  by (cases bs) (auto simp: next_state_def)

lemma utf8_rest_3: "utf8_rest 3 bs = (case bs of [] \<Rightarrow> False | c # cs \<Rightarrow> utf8_tail c \<and> utf8_rest 2 cs)"
  by (cases bs) (auto simp: next_state_def)

lemma utf8_rest_lead:
  "utf8_rest 4 bs = (case bs of [] \<Rightarrow> False | c # cs \<Rightarrow> utf8_lead3 0xE0 c \<and> utf8_rest 2 cs)"
  "utf8_rest 5 bs = (case bs of [] \<Rightarrow> False | c # cs \<Rightarrow> utf8_lead3 0xED c \<and> utf8_rest 2 cs)"
  "utf8_rest 6 bs = (case bs of [] \<Rightarrow> False | c # cs \<Rightarrow> utf8_lead4 0xF0 c \<and> utf8_rest 3 cs)"
  "utf8_rest 8 bs = (case bs of [] \<Rightarrow> False | c # cs \<Rightarrow> utf8_lead4 0xF4 c \<and> utf8_rest 3 cs)"
  "utf8_rest 7 bs = (case bs of [] \<Rightarrow> False | c # cs \<Rightarrow> utf8_tail c \<and> utf8_rest 3 cs)"
  by (cases bs; auto simp: next_state_def utf8_lead3_def utf8_lead4_def)+

lemma utf8_leads:
  "(b \<le> 0x7F) = (next_state 0 b = 0)"
  "(0xC2 \<le> b \<and> b \<le> 0xDF) = (next_state 0 b = 2)"
  by (cases b rule: byte_class_cases; simp add: next_state_def word_le_nat_alt word_unat_eq_iff)+

lemma utf8_lead3_state:
  "utf8_lead3 b c = (next_state 0 b = 3 \<and> utf8_tail c \<or> next_state 0 b = 4 \<and> utf8_lead3 0xE0 c \<or> next_state 0 b = 5 \<and> utf8_lead3 0xED c)"
  unfolding utf8_lead3_def
  by (cases b rule: byte_class_cases; auto simp: next_state_def word_le_nat_alt word_unat_eq_iff)

lemma utf8_lead4_state:
  "utf8_lead4 b c = (next_state 0 b = 7 \<and> utf8_tail c \<or> next_state 0 b = 6 \<and> utf8_lead4 0xF0 c \<or> next_state 0 b = 8 \<and> utf8_lead4 0xF4 c)"
  unfolding utf8_lead4_def
  by (cases b rule: byte_class_cases; simp add: next_state_def word_le_nat_alt word_unat_eq_iff)

lemma utf8_rest_0: "utf8_rest 0 bs = utf8 bs"
proof (induction bs rule: length_induct)
  case (1 bs)
  show ?case
  proof (cases bs)
    case (Cons b cs)
    have ih: "length ys \<le> length cs \<Longrightarrow> utf8_rest 0 ys = utf8 ys" for ys
      using "1.IH" Cons by simp
    have "next_state 0 b \<in> {0, 1, 2, 3, 4, 5, 6, 7, 8}" by (rule next_state_states)
    then show ?thesis
      unfolding Cons insert_iff empty_iff utf8.simps(2) [of b cs] utf8_leads [of b] utf8_lead3_state [of b]
        utf8_lead4_state [of b] utf8_rest.simps(2)
      by (elim disjE; cases cs; simp add: utf8_rest_2 utf8_rest_3 utf8_rest_lead ih del: utf8.simps utf8_rest.simps(2) split: list.split) (use utf8.simps(1) in blast)+
  qed simp
qed

text \<open>The code point collected so far: large enough that no character that needs an escape comes out.\<close>

definition codepoint_ok :: "nat \<Rightarrow> nat \<Rightarrow> bool" where
  "codepoint_ok st n \<longleftrightarrow>
     (st = 2 \<longrightarrow> 2 \<le> n \<and> n < 2 ^ 16) \<and> (st = 3 \<longrightarrow> 1 \<le> n \<and> n < 2 ^ 10) \<and> (st = 4 \<longrightarrow> n < 2 ^ 10)
     \<and> (st = 5 \<longrightarrow> 1 \<le> n \<and> n < 2 ^ 10) \<and> (st = 6 \<longrightarrow> n < 8) \<and> (st = 7 \<or> st = 8 \<longrightarrow> 1 \<le> n \<and> n < 8)"

lemma unat_join:
  assumes "unat (c :: u32) < 2 ^ 16"
  shows "unat ((ucast (b :: byte) AND 0x3f) OR push_bit 6 c) = unat c * 64 + unat b mod 64"
proof -
  have mask: "(0x3f :: u32) = mask 6" by (simp add: mask_eq_exp_minus_1)
  have "(ucast b AND 0x3f) OR push_bit 6 c = (ucast b AND 0x3f) + push_bit 6 c" unfolding mask
    by (rule disjunctive_add_eq_or [symmetric]) (simp add: bit_eq_iff bit_simps)
  moreover have "unat (push_bit 6 c) = unat c * 64"
    using assms by (simp add: push_bit_eq_mult unat_word_ariths unsigned_of_nat)
  moreover have "unat (ucast b AND 0x3f :: u32) = unat b mod 64"
    unfolding mask using unat_byte_less [of b]
    by (simp add: take_bit_eq_mask [symmetric] unsigned_take_bit_eq unsigned_ucast_eq) (simp add: take_bit_eq_mod)
  ultimately show ?thesis using assms by (simp add: unat_word_ariths)
qed

lemma decode_start:
  "decode 0 cp b = (word_of_nat (next_state 0 b), drop_bit (byte_class b) 0xFF AND ucast b)"
  using utf8d_state [of 0 b] byte_class_bound [of b]
  by (simp add: decode_def utf8d_class UTF8_ACCEPT_def unsigned_of_nat take_bit_nat_eq_self)

lemma decode_continue:
  assumes "st \<in> {2, 3, 4, 5, 6, 7, 8}"
  shows "decode (word_of_nat st) cp b = (word_of_nat (next_state st b), (ucast b AND 0x3f) OR push_bit 6 cp)"
proof -
  have "unat (word_of_nat st :: byte) = st" "(word_of_nat st :: byte) \<noteq> 0"
    using assms by auto
  moreover have "unat (word_of_nat (byte_class b) :: byte) = byte_class b"
    using byte_class_bound [of b] by (simp add: unsigned_of_nat take_bit_nat_eq_self)
  ultimately show ?thesis
    using utf8d_state [of st b] assms by (auto simp: decode_def utf8d_class UTF8_ACCEPT_def Let_def)
qed

lemma mod_block:
  fixes k m n :: nat
  assumes "k * m \<le> n" "n < k * m + m"
  shows "n mod m = n - k * m"
proof -
  have "n mod m = (n - k * m + k * m) mod m" using assms(1) by simp
  also have "\<dots> = n - k * m" using assms by (subst mod_mult_self1) (simp add: less_diff_conv2)
  finally show ?thesis .
qed

lemma codepoint_start:
  assumes "next_state 0 b \<noteq> 0"
  shows "codepoint_ok (next_state 0 b) (unat (drop_bit (byte_class b) 0xFF AND ucast b :: u32))"
proof -
  have low: "unat (mask k AND ucast b :: u32) = unat b mod 2 ^ k" if "k \<le> 8" for k
  proof -
    have "(mask k AND ucast b :: u32) = take_bit k (ucast b)" by (simp add: take_bit_eq_mask and.commute)
    moreover have "unat (take_bit k (ucast b) :: u32) = take_bit k (take_bit 32 (unat b))"
      by (simp add: unsigned_take_bit_eq unsigned_ucast_eq)
    ultimately show ?thesis using unat_byte_less [of b] by (simp add: take_bit_eq_mod)
  qed
  have masks: "(0x3F :: u32) = mask 6" "(0x1F :: u32) = mask 5" "(0xF :: u32) = mask 4" "(7 :: u32) = mask 3" "(3 :: u32) = mask 2"
    by (simp_all add: mask_eq_exp_minus_1)
  have "n mod 64 = n - 192" if "192 \<le> n" "n < 256" for n :: nat using that mod_block [of 3 64 n] by simp
  moreover have "n mod 32 = n - 224" if "224 \<le> n" "n < 256" for n :: nat using that mod_block [of 7 32 n] by simp
  moreover have "n mod 4 = n - 240" if "240 \<le> n" "n < 244" for n :: nat using that mod_block [of 60 4 n] by simp
  ultimately show ?thesis
    using assms
    by (cases b rule: byte_class_cases)
      (auto simp: next_state_def word_le_nat_alt word_unat_eq_iff codepoint_ok_def masks low)
qed

lemma codepoint_continue:
  assumes "codepoint_ok st (unat cp)" "st \<in> {2, 3, 4, 5, 6, 7, 8}" "next_state st b \<noteq> 1"
  shows "codepoint_ok (next_state st b) (unat (((ucast b AND 0x3f) OR push_bit 6 cp) :: u32))"
    and "next_state st b = 0 \<Longrightarrow> 0x80 \<le> unat (((ucast b AND 0x3f) OR push_bit 6 cp) :: u32)"
proof -
  have "unat cp < 2 ^ 16" using assms(1,2) by (auto simp: codepoint_ok_def)
  note join = unat_join [OF this, of b]
  have mod: "unat b mod 64 = unat b - 0x80" if "0x80 \<le> unat b" "unat b \<le> 0xBF"
    using that by (simp add: le_mod_geq)
  show "codepoint_ok (next_state st b) (unat (((ucast b AND 0x3f) OR push_bit 6 cp) :: u32))"
    unfolding join using assms(2) unfolding insert_iff empty_iff
    by (elim disjE) (use assms(1,3) mod in \<open>simp_all add: codepoint_ok_def next_state_def utf8_tail_def word_le_nat_alt split: if_splits\<close>, arith+)
  show "0x80 \<le> unat (((ucast b AND 0x3f) OR push_bit 6 cp) :: u32)" if "next_state st b = 0"
    unfolding join using assms(2) unfolding insert_iff empty_iff
    by (elim disjE) (use assms(1) that in \<open>simp_all add: codepoint_ok_def next_state_def split: if_splits\<close>)
qed

text \<open>The text of a string between its quotes.\<close>

definition escape_json :: "byte list \<Rightarrow> byte list" where
  "escape_json s = concat (map (\<lambda>b. escaped_codepoint (ucast b) b) s)"

lemma escape_json_simps [simp]:
  "escape_json [] = []"
  "escape_json (b # s) = escaped_codepoint (ucast b) b @ escape_json s"
  "escape_json (s @ t) = escape_json s @ escape_json t"
  by (simp_all add: escape_json_def)

lemma escaped_codepoint_high: "0x80 \<le> unat cp \<Longrightarrow> escaped_codepoint cp b = [b]"
  by (auto simp: escaped_codepoint_def word_le_nat_alt)

lemma next_state_low: "next_state st b = 0 \<Longrightarrow> st = 0 \<Longrightarrow> b \<le> 0x7F"
  by (simp add: next_state_def split: if_splits)

lemma unat_codepoint_byte: "unat (ucast (b :: byte) :: u32) = unat b"
  using unat_byte_less [of b] by (simp add: unsigned_ucast_eq take_bit_nat_eq_self)

lemma next_state_high: "st \<noteq> 0 \<Longrightarrow> next_state st b \<noteq> 1 \<Longrightarrow> 0x80 \<le> unat (ucast b :: u32)"
  unfolding unat_codepoint_byte by (simp add: next_state_def utf8_tail_def word_le_nat_alt split: if_splits)

lemma next_state_lead_high: "next_state 0 b \<noteq> 0 \<Longrightarrow> 0x80 \<le> unat (ucast b :: u32)"
  unfolding unat_codepoint_byte by (cases "unat b \<le> 0x7F") (simp_all add: next_state_def word_le_nat_alt)

lemma decode_step:
  assumes "st \<in> {0, 2, 3, 4, 5, 6, 7, 8}" "codepoint_ok st (unat cp)"
  obtains cp' where "decode (word_of_nat st) cp b = (word_of_nat (next_state st b), cp')"
    "next_state st b \<noteq> 1 \<Longrightarrow> codepoint_ok (next_state st b) (unat cp')"
    "next_state st b = 0 \<Longrightarrow> escaped_codepoint cp' b = escaped_codepoint (ucast b) b"
proof (cases "st = 0")
  case True
  let ?cp = "drop_bit (byte_class b) 0xFF AND ucast b :: u32"
  have "escaped_codepoint ?cp b = escaped_codepoint (ucast b) b" if "next_state 0 b = 0"
  proof -
    have "b \<le> 0x7F" using next_state_low that by simp
    then have "byte_class b = 0" by (simp add: byte_class_def)
    moreover have "(0xFF AND ucast b :: u32) = ucast b"
    proof -
      have "(0xFF :: u32) = mask 8" by (simp add: mask_eq_exp_minus_1)
      moreover have "(take_bit 8 (ucast b) :: u32) = ucast b"
        using unat_byte_less [of b] unat_codepoint_byte [of b]
        by (simp add: word_unat_eq_iff unsigned_take_bit_eq take_bit_nat_eq_self)
      ultimately show ?thesis by (simp add: take_bit_eq_mask and.commute)
    qed
    ultimately show ?thesis by simp
  qed
  moreover have "codepoint_ok (next_state 0 b) (unat ?cp)"
    using codepoint_start [of b] by (cases "next_state 0 b = 0") (simp_all add: codepoint_ok_def)
  ultimately show ?thesis using that [of ?cp] True decode_start [of cp b] by simp
next
  case False
  with assms(1) have st: "st \<in> {2, 3, 4, 5, 6, 7, 8}" by simp
  show ?thesis
  proof (rule that [OF decode_continue [OF st]])
    show "codepoint_ok (next_state st b) (unat ((ucast b AND 0x3f) OR push_bit 6 cp))" if "next_state st b \<noteq> 1"
      by (rule codepoint_continue(1) [OF assms(2) st that])
    show "escaped_codepoint ((ucast b AND 0x3f) OR push_bit 6 cp) b = escaped_codepoint (ucast b) b" if "next_state st b = 0"
      using codepoint_continue(2) [OF assms(2) st] next_state_high [OF False, of b] that
      by (simp add: escaped_codepoint_high)
  qed
qed

lemma escape_byte_step:
  assumes "st \<in> {0, 2, 3, 4, 5, 6, 7, 8}" "es_state s = word_of_nat st" "codepoint_ok st (unat (es_codepoint s))"
  shows "next_state st b = 1 \<Longrightarrow> escape_byte b s = Inl (Type_error 316)"
    and "next_state st b \<noteq> 1 \<Longrightarrow> \<exists>s'. escape_byte b s = Inr s' \<and> es_state s' = word_of_nat (next_state st b)
      \<and> codepoint_ok (next_state st b) (unat (es_codepoint s'))
      \<and> es_out s' @ es_buffer s' = es_out s @ es_buffer s @ escaped_codepoint (ucast b) b"
proof -
  obtain cp where d: "decode (word_of_nat st) (es_codepoint s) b = (word_of_nat (next_state st b), cp)"
      "next_state st b \<noteq> 1 \<Longrightarrow> codepoint_ok (next_state st b) (unat cp)"
      "next_state st b = 0 \<Longrightarrow> escaped_codepoint cp b = escaped_codepoint (ucast b) b"
    using decode_step [OF assms(1,3)] by blast
  have high: "escaped_codepoint (ucast b) b = [b]" if "next_state st b \<noteq> 0" "next_state st b \<noteq> 1"
    using that next_state_high [of st b] next_state_lead_high [of b] by (cases "st = 0") (simp_all add: escaped_codepoint_high)
  have w: "(word_of_nat n = (0 :: byte)) = (n = 0)" "(word_of_nat n = (1 :: byte)) = (n = 1)"
    if "n \<in> {0, 1, 2, 3, 4, 5, 6, 7, 8}" for n
    using that by auto
  note w = w [OF next_state_states [of st b]]
  show "escape_byte b s = Inl (Type_error 316)" if "next_state st b = 1"
    using that d(1) by (simp add: escape_byte_def assms(2) UTF8_ACCEPT_def UTF8_REJECT_def)
  show "\<exists>s'. escape_byte b s = Inr s' \<and> es_state s' = word_of_nat (next_state st b)
      \<and> codepoint_ok (next_state st b) (unat (es_codepoint s'))
      \<and> es_out s' @ es_buffer s' = es_out s @ es_buffer s @ escaped_codepoint (ucast b) b" if "next_state st b \<noteq> 1"
    using that d high w by (simp add: escape_byte_def assms(2) UTF8_ACCEPT_def UTF8_REJECT_def Let_def codepoint_ok_def)
qed

lemma escape_loop_run:
  assumes "st \<in> {0, 2, 3, 4, 5, 6, 7, 8}" "es_state s = word_of_nat st" "codepoint_ok st (unat (es_codepoint s))"
  shows "if utf8_rest st bs
    then \<exists>s'. escape_loop bs s = Inr s' \<and> es_state s' = 0 \<and> es_out s' @ es_buffer s' = es_out s @ es_buffer s @ escape_json bs
    else escape_loop bs s = Inl (Type_error 316) \<or> (\<exists>s'. escape_loop bs s = Inr s' \<and> es_state s' \<noteq> 0)"
  using assms
proof (induction bs arbitrary: st s)
  case Nil
  then show ?case by auto
next
  case (Cons b bs)
  note step = escape_byte_step [OF Cons.prems, of b]
  show ?case
  proof (cases "next_state st b = 1")
    case True
    with step(1) show ?thesis by simp
  next
    case False
    then obtain s' where s': "escape_byte b s = Inr s'" "es_state s' = word_of_nat (next_state st b)"
        "codepoint_ok (next_state st b) (unat (es_codepoint s'))"
        "es_out s' @ es_buffer s' = es_out s @ es_buffer s @ escaped_codepoint (ucast b) b"
      using step(2) by blast
    have "next_state st b \<in> {0, 2, 3, 4, 5, 6, 7, 8}" using next_state_states [of st b] False by simp
    from Cons.IH [OF this s'(2,3)] s'(1,4) False show ?thesis by (auto split: if_splits)
  qed
qed

text \<open>A string is written exactly when it is UTF-8, with its control characters, quotes and backslashes escaped.\<close>

lemma dump_escaped_utf8: "dump_escaped s = (if utf8 s then Inr (escape_json s) else Inl (Type_error 316))"
proof -
  let ?s = "\<lparr>es_state = UTF8_ACCEPT, es_codepoint = 0, es_buffer = [], es_out = []\<rparr>"
  have "codepoint_ok 0 (unat (es_codepoint ?s))" "es_state ?s = word_of_nat 0"
    by (simp_all add: codepoint_ok_def UTF8_ACCEPT_def)
  from escape_loop_run [OF _ this(2,1), of s] show ?thesis
    by (auto simp: dump_escaped_def utf8_rest_0 UTF8_ACCEPT_def simp del: then_try_Inr split: if_splits)
qed

text \<open>
  The escapes of RFC 8259, section 7, for the characters that must be escaped: two characters
  where there is a short form, six with the number of the character elsewhere.
\<close>

definition short_escapes :: "(byte \<times> string) list" where
  "short_escapes = [(0x22, [CHR 0x22]), (0x5C, [CHR 0x5C]), (0x08, ''b''), (0x0C, ''f''), (0x0A, ''n''), (0x0D, ''r''), (0x09, ''t'')]"

definition rfc8259_escape :: "byte \<Rightarrow> byte list" where
  "rfc8259_escape b =
     (case map_of short_escapes b of
        Some name \<Rightarrow> cstr [CHR 0x5C] @ cstr name
      | None \<Rightarrow> if b < 0x20 then cstr (CHR 0x5C # ''u00'') @ hex_text [b] else [b])"

lemma hex4_control:
  assumes "b < 0x20"
  shows "hex4 (ucast b) = cstr ''00'' @ hex_text [b]"
proof -
  have "list_all (\<lambda>n. hex4 (ucast (word_of_nat n :: byte)) = cstr ''00'' @ hex_text [word_of_nat n]) [0..<32]"
    by code_simp
  moreover have "unat b \<in> set [0..<32]" using assms by (simp add: word_less_nat_alt)
  ultimately have "hex4 (ucast (word_of_nat (unat b) :: byte)) = cstr ''00'' @ hex_text [word_of_nat (unat b)]"
    unfolding list_all_iff by blast
  then show ?thesis by simp
qed

lemma escaped_codepoint_rfc: "escaped_codepoint (ucast b) b = rfc8259_escape b"
proof (cases "map_of short_escapes b")
  case (Some name)
  then show ?thesis
    by (auto simp: short_escapes_def rfc8259_escape_def escaped_codepoint_def cstr_def split: if_splits)
next
  case None
  have "ucast b = (c :: u32) \<longleftrightarrow> b = ucast c" if "unat c < 256" for c
    using that unat_byte_less [of b] by (auto simp: word_unat_eq_iff unsigned_ucast_eq take_bit_nat_eq_self)
  moreover have "ucast b \<le> (0x1F :: u32) \<longleftrightarrow> b < 0x20"
    using unat_byte_less [of b]
    by (auto simp: word_le_nat_alt word_less_nat_alt unsigned_ucast_eq take_bit_nat_eq_self)
  ultimately show ?thesis
    using None by (auto simp: short_escapes_def rfc8259_escape_def escaped_codepoint_def hex4_control cstr_def split: if_splits)
qed

text \<open>
  C23. Strings are written as RFC 8259 asks, and only text is written: the table-driven automaton of
  the serialiser accepts exactly the byte strings that are UTF-8 by RFC 3629, every other string
  raises exception 316, and what is written of a string is the sequence of the escapes of its
  bytes as the RFC lists them, whatever the flushes of its buffer of 512 bytes.
\<close>

theorem json_string_written:
  "dump_escaped s = (if utf8 s then Inr (concat (map rfc8259_escape s)) else Inl (Type_error 316))"
  using dump_escaped_utf8 [of s] by (simp add: escape_json_def escaped_codepoint_rfc)

end
