(* ===== verification/Json_Lexer.thy ===== *)
theory Json_Lexer
  imports Json_Dump
begin

text \<open>
  The scanner of nlohmann json: the class \<open>lexer\<close> of
  \<open>src/ext/json-3.11.2/single_include/nlohmann/json.hpp\<close> over the bytes of a string, with the
  argument \<open>ignore_comments\<close> at its default (comments are errors). The locale is that of a
  program that has not called \<open>setlocale\<close>, so the decimal point is a full stop. The conversion
  of the text of a number to floating point is the parameter \<open>strtod\<close>.

  Shown: every token but the end and an error takes some input, so that scanning a text ends.
\<close>

section \<open>Tokens\<close>

datatype token_type =
    T_uninitialized
  | T_literal_true
  | T_literal_false
  | T_literal_null
  | T_value_string
  | T_value_unsigned
  | T_value_integer
  | T_value_float
  | T_begin_array
  | T_begin_object
  | T_end_array
  | T_end_object
  | T_name_separator
  | T_value_separator
  | T_parse_error
  | T_end_of_input
  | T_literal_or_value

primrec token_type_name :: "token_type \<Rightarrow> byte list" where
  "token_type_name T_uninitialized = cstr ''<uninitialized>''"
| "token_type_name T_literal_true = cstr ''true literal''"
| "token_type_name T_literal_false = cstr ''false literal''"
| "token_type_name T_literal_null = cstr ''null literal''"
| "token_type_name T_value_string = cstr ''string literal''"
| "token_type_name T_value_unsigned = cstr ''number literal''"
| "token_type_name T_value_integer = cstr ''number literal''"
| "token_type_name T_value_float = cstr ''number literal''"
| "token_type_name T_begin_array = [0x27] @ cstr ''['' @ [0x27]"
| "token_type_name T_begin_object = [0x27] @ cstr ''{'' @ [0x27]"
| "token_type_name T_end_array = [0x27] @ cstr '']'' @ [0x27]"
| "token_type_name T_end_object = [0x27] @ cstr ''}'' @ [0x27]"
| "token_type_name T_name_separator = [0x27] @ cstr '':'' @ [0x27]"
| "token_type_name T_value_separator = [0x27] @ cstr '','' @ [0x27]"
| "token_type_name T_parse_error = cstr ''<parse error>''"
| "token_type_name T_end_of_input = cstr ''end of input''"
| "token_type_name T_literal_or_value =
     [0x27] @ cstr ''['' @ [0x27] @ cstr '', '' @ [0x27] @ cstr ''{'' @ [0x27] @ cstr '', or a literal''"

section \<open>Input\<close>

text \<open>
  The members of the class. The adapter is what is left of the input; a character is a byte
  or, at the end of the input, \<open>None\<close> (\<open>eof()\<close>, which is -1). The position is three counters.
\<close>

record lexer =
  lx_input :: "byte list"
  lx_current :: "byte option"
  lx_next_unget :: bool
  lx_total :: nat
  lx_column :: nat
  lx_lines :: nat
  lx_token_string :: "byte list"
  lx_token_buffer :: "byte list"
  lx_error :: "byte list"
  lx_integer :: u64
  lx_unsigned :: u64
  lx_float :: u64

definition lexer_init :: "byte list \<Rightarrow> lexer" where
  "lexer_init input =
     \<lparr>lx_input = input, lx_current = None, lx_next_unget = False, lx_total = 0, lx_column = 0, lx_lines = 0,
      lx_token_string = [], lx_token_buffer = [], lx_error = [], lx_integer = 0, lx_unsigned = 0, lx_float = 0\<rparr>"

text \<open>\<open>to_char_type\<close> and the cast to \<open>char\<close>, where -1 becomes the byte 255.\<close>

definition to_char :: "byte option \<Rightarrow> byte" where
  "to_char c = (case c of None \<Rightarrow> 0xFF | Some b \<Rightarrow> b)"

definition lx_reset :: "lexer \<Rightarrow> lexer" where
  "lx_reset s = s\<lparr>lx_token_buffer := [], lx_token_string := [to_char (lx_current s)]\<rparr>"

definition get_character :: "lexer \<Rightarrow> lexer" where
  "get_character s =
     (case lx_input s of [] \<Rightarrow> s\<lparr>lx_current := None\<rparr> | c # cs \<Rightarrow> s\<lparr>lx_current := Some c, lx_input := cs\<rparr>)"

definition lx_get :: "lexer \<Rightarrow> lexer" where
  "lx_get s =
     (let s = s\<lparr>lx_total := lx_total s + 1, lx_column := lx_column s + 1\<rparr>;
          s = (if lx_next_unget s then s\<lparr>lx_next_unget := False\<rparr> else get_character s);
          s = (case lx_current s of None \<Rightarrow> s | Some c \<Rightarrow> s\<lparr>lx_token_string := lx_token_string s @ [c]\<rparr>)
      in if lx_current s = Some 0x0a then s\<lparr>lx_lines := lx_lines s + 1, lx_column := 0\<rparr> else s)"

definition lx_unget :: "lexer \<Rightarrow> lexer" where
  "lx_unget s =
     (let s = s\<lparr>lx_next_unget := True, lx_total := lx_total s - 1\<rparr>;
          s = (if lx_column s = 0 then (if 0 < lx_lines s then s\<lparr>lx_lines := lx_lines s - 1\<rparr> else s)
               else s\<lparr>lx_column := lx_column s - 1\<rparr>)
      in if lx_current s \<noteq> None then s\<lparr>lx_token_string := butlast (lx_token_string s)\<rparr> else s)"

definition lx_add :: "byte \<Rightarrow> lexer \<Rightarrow> lexer" where
  "lx_add c s = s\<lparr>lx_token_buffer := lx_token_buffer s @ [c]\<rparr>"

definition lx_fail :: "byte list \<Rightarrow> lexer \<Rightarrow> lexer" where
  "lx_fail msg s = s\<lparr>lx_error := msg\<rparr>"

text \<open>The last token for messages: control characters as \<open><U+%.4X>\<close>.\<close>

definition upper_hex :: "nat \<Rightarrow> byte" where
  "upper_hex d = (if d < 10 then 0x30 + word_of_nat d else 0x37 + word_of_nat d)"

definition get_token_string :: "lexer \<Rightarrow> byte list" where
  "get_token_string s =
     concat (map (\<lambda>c. if c \<le> 0x1F then cstr ''<U+00'' @ [upper_hex (unat c div 16), upper_hex (unat c mod 16)] @ cstr ''>'' else [c])
       (lx_token_string s))"

definition current_in :: "lexer \<Rightarrow> byte \<Rightarrow> byte \<Rightarrow> bool" where
  "current_in s lo hi = (case lx_current s of None \<Rightarrow> False | Some c \<Rightarrow> lo \<le> c \<and> c \<le> hi)"

section \<open>Strings\<close>

text \<open>The four digits after \<open>\u\<close>; -1 for anything else.\<close>

primrec codepoint_digits :: "nat list \<Rightarrow> int \<Rightarrow> lexer \<Rightarrow> lexer \<times> int" where
  "codepoint_digits [] codepoint s = (s, codepoint)"
| "codepoint_digits (factor # factors) codepoint s =
     (let s = lx_get s; c = uint (to_char (lx_current s)) in
      if current_in s 0x30 0x39 then codepoint_digits factors (codepoint + push_bit factor (c - 0x30)) s
      else if current_in s 0x41 0x46 then codepoint_digits factors (codepoint + push_bit factor (c - 0x37)) s
      else if current_in s 0x61 0x66 then codepoint_digits factors (codepoint + push_bit factor (c - 0x57)) s
      else (s, - 1))"

definition get_codepoint :: "lexer \<Rightarrow> lexer \<times> int" where
  "get_codepoint s = codepoint_digits [12, 8, 4, 0] 0 s"

primrec bytes_in_range :: "(byte \<times> byte) list \<Rightarrow> lexer \<Rightarrow> lexer \<times> bool" where
  "bytes_in_range [] s = (s, True)"
| "bytes_in_range (r # ranges) s =
     (let s = lx_get s in
      if current_in s (fst r) (snd r) then bytes_in_range ranges (lx_add (to_char (lx_current s)) s)
      else (lx_fail (cstr ''invalid string: ill-formed UTF-8 byte'') s, False))"

definition next_byte_in_range :: "(byte \<times> byte) list \<Rightarrow> lexer \<Rightarrow> lexer \<times> bool" where
  "next_byte_in_range ranges s = bytes_in_range ranges (lx_add (to_char (lx_current s)) s)"

text \<open>The bytes of a code point.\<close>

definition codepoint_bytes :: "int \<Rightarrow> byte list" where
  "codepoint_bytes codepoint =
     (if codepoint < 0x80 then [word_of_int codepoint]
      else if codepoint \<le> 0x7FF then
        [word_of_int (0xC0 OR drop_bit 6 codepoint), word_of_int (0x80 OR (codepoint AND 0x3F))]
      else if codepoint \<le> 0xFFFF then
        [word_of_int (0xE0 OR drop_bit 12 codepoint), word_of_int (0x80 OR (drop_bit 6 codepoint AND 0x3F)),
         word_of_int (0x80 OR (codepoint AND 0x3F))]
      else
        [word_of_int (0xF0 OR drop_bit 18 codepoint), word_of_int (0x80 OR (drop_bit 12 codepoint AND 0x3F)),
         word_of_int (0x80 OR (drop_bit 6 codepoint AND 0x3F)), word_of_int (0x80 OR (codepoint AND 0x3F))])"

text \<open>
  What follows \<open>\u\<close>, with the second half of a surrogate pair. In this and the next functions
  the second component is the token that \<open>scan_string\<close> returns, \<open>None\<close> when its loop goes on.
\<close>

definition not_hex_message :: "byte list" where
  "not_hex_message = cstr ''invalid string: '' @ [0x27, 0x5c, 0x75, 0x27] @ cstr '' must be followed by 4 hex digits''"

definition high_surrogate_message :: "byte list" where
  "high_surrogate_message = cstr ''invalid string: surrogate U+D800..U+DBFF must be followed by U+DC00..U+DFFF''"

definition scan_unicode_escape :: "lexer \<Rightarrow> lexer \<times> token_type option" where
  "scan_unicode_escape s =
     (case get_codepoint s of (s, codepoint1) \<Rightarrow>
      if codepoint1 = - 1 then (lx_fail not_hex_message s, Some T_parse_error)
      else if 0xD800 \<le> codepoint1 \<and> codepoint1 \<le> 0xDBFF then
        (let s = lx_get s in
         if lx_current s \<noteq> Some 0x5c then (lx_fail high_surrogate_message s, Some T_parse_error)
         else let s = lx_get s in
         if lx_current s \<noteq> Some 0x75 then (lx_fail high_surrogate_message s, Some T_parse_error)
         else case get_codepoint s of (s, codepoint2) \<Rightarrow>
         if codepoint2 = - 1 then (lx_fail not_hex_message s, Some T_parse_error)
         else if 0xDC00 \<le> codepoint2 \<and> codepoint2 \<le> 0xDFFF then
           (fold lx_add (codepoint_bytes (push_bit 10 codepoint1 + codepoint2 - 0x35FDC00)) s, None)
         else (lx_fail high_surrogate_message s, Some T_parse_error))
      else if 0xDC00 \<le> codepoint1 \<and> codepoint1 \<le> 0xDFFF then
        (lx_fail (cstr ''invalid string: surrogate U+DC00..U+DFFF must follow U+D800..U+DBFF'') s, Some T_parse_error)
      else (fold lx_add (codepoint_bytes codepoint1) s, None))"

text \<open>The escapes of one character.\<close>

definition simple_escape :: "byte option \<Rightarrow> byte option" where
  "simple_escape c =
     map_of [(Some 0x22, 0x22), (Some 0x5c, 0x5c), (Some 0x2f, 0x2f), (Some 0x62, 0x08), (Some 0x66, 0x0c),
             (Some 0x6e, 0x0a), (Some 0x72, 0x0d), (Some 0x74, 0x09)] c"

definition scan_escape :: "lexer \<Rightarrow> lexer \<times> token_type option" where
  "scan_escape s =
     (let s = lx_get s in
      case simple_escape (lx_current s) of
        Some c \<Rightarrow> (lx_add c s, None)
      | None \<Rightarrow>
          if lx_current s = Some 0x75 then scan_unicode_escape s
          else (lx_fail (cstr ''invalid string: forbidden character after backslash'') s, Some T_parse_error))"

text \<open>The messages for control characters.\<close>

definition control_names :: "string list" where
  "control_names =
     [''NUL'', ''SOH'', ''STX'', ''ETX'', ''EOT'', ''ENQ'', ''ACK'', ''BEL'', ''BS'', ''HT'', ''LF'', ''VT'', ''FF'', ''CR'', ''SO'', ''SI'',
      ''DLE'', ''DC1'', ''DC2'', ''DC3'', ''DC4'', ''NAK'', ''SYN'', ''ETB'', ''CAN'', ''EM'', ''SUB'', ''ESC'', ''FS'', ''GS'', ''RS'', ''US'']"

definition control_message :: "byte \<Rightarrow> byte list" where
  "control_message c =
     (let hex = [upper_hex (unat c div 16), upper_hex (unat c mod 16)];
          short = (case map_of [(0x08 :: byte, 0x62 :: byte), (0x09, 0x74), (0x0a, 0x6e), (0x0c, 0x66), (0x0d, 0x72)] c of
                     None \<Rightarrow> [] | Some e \<Rightarrow> cstr '' or '' @ [0x5c, e])
      in cstr ''invalid string: control character U+00'' @ hex @ cstr '' ('' @ cstr (control_names ! unat c)
         @ cstr '') must be escaped to '' @ [0x5c] @ cstr ''u00'' @ hex @ short)"

text \<open>The ranges of the bytes that may follow the first byte of a character.\<close>

definition following_ranges :: "byte \<Rightarrow> (byte \<times> byte) list option" where
  "following_ranges c =
     (if 0xC2 \<le> c \<and> c \<le> 0xDF then Some [(0x80, 0xBF)]
      else if c = 0xE0 then Some [(0xA0, 0xBF), (0x80, 0xBF)]
      else if 0xE1 \<le> c \<and> c \<le> 0xEC \<or> c = 0xEE \<or> c = 0xEF then Some [(0x80, 0xBF), (0x80, 0xBF)]
      else if c = 0xED then Some [(0x80, 0x9F), (0x80, 0xBF)]
      else if c = 0xF0 then Some [(0x90, 0xBF), (0x80, 0xBF), (0x80, 0xBF)]
      else if 0xF1 \<le> c \<and> c \<le> 0xF3 then Some [(0x80, 0xBF), (0x80, 0xBF), (0x80, 0xBF)]
      else if c = 0xF4 then Some [(0x80, 0x8F), (0x80, 0xBF), (0x80, 0xBF)]
      else None)"

definition scan_character :: "lexer \<Rightarrow> lexer \<times> token_type option" where
  "scan_character s =
     (let s = lx_get s in
      case lx_current s of
        None \<Rightarrow> (lx_fail (cstr ''invalid string: missing closing quote'') s, Some T_parse_error)
      | Some c \<Rightarrow>
          if c = 0x22 then (s, Some T_value_string)
          else if c = 0x5c then scan_escape s
          else if c \<le> 0x1F then (lx_fail (control_message c) s, Some T_parse_error)
          else if c \<le> 0x7F then (lx_add c s, None)
          else case following_ranges c of
            Some ranges \<Rightarrow>
              (case next_byte_in_range ranges s of (s, valid) \<Rightarrow> (s, if valid then None else Some T_parse_error))
          | None \<Rightarrow> (lx_fail (cstr ''invalid string: ill-formed UTF-8 byte'') s, Some T_parse_error))"

text \<open>The input that is still to come, with a character that was put back.\<close>

definition pending :: "lexer \<Rightarrow> byte list" where
  "pending s = (if lx_next_unget s \<and> lx_current s \<noteq> None then [the (lx_current s)] else []) @ lx_input s"

lemma pending_simps [simp]:
  "pending (lx_add c s) = pending s"
  "pending (lx_fail m s) = pending s"
  "pending (lx_reset s) = pending s"
  by (simp_all add: pending_def lx_add_def lx_fail_def lx_reset_def)

lemma current_simps [simp]:
  "lx_current (lx_add c s) = lx_current s" "lx_next_unget (lx_add c s) = lx_next_unget s"
  "lx_current (lx_fail m s) = lx_current s" "lx_next_unget (lx_fail m s) = lx_next_unget s"
  "lx_current (lx_reset s) = lx_current s" "lx_next_unget (lx_reset s) = lx_next_unget s"
  "lx_current (lx_unget s) = lx_current s"
  by (simp_all add: lx_add_def lx_fail_def lx_reset_def lx_unget_def Let_def)

lemma pending_fold_add [simp]: "pending (fold lx_add cs s) = pending s"
  by (induction cs arbitrary: s) simp_all

lemma get_core:
  "lx_current (lx_get s) = (if lx_next_unget s then lx_current s else case lx_input s of [] \<Rightarrow> None | c # cs \<Rightarrow> Some c)"
  "lx_input (lx_get s) = (if lx_next_unget s then lx_input s else tl (lx_input s))"
  "lx_next_unget (lx_get s) = False"
  "lx_token_buffer (lx_get s) = lx_token_buffer s"
  by (simp_all add: lx_get_def get_character_def Let_def split: list.split option.split)

lemma unget_core:
  "lx_input (lx_unget s) = lx_input s" "lx_next_unget (lx_unget s) = True"
  "lx_token_buffer (lx_unget s) = lx_token_buffer s"
  by (simp_all add: lx_unget_def Let_def)

lemma get_shrinks: "length (pending (lx_get s)) \<le> length (pending s)"
  by (simp add: pending_def get_core)

lemma get_takes: "lx_current (lx_get s) \<noteq> None \<Longrightarrow> length (pending (lx_get s)) < length (pending s)"
  by (cases "lx_input s") (auto simp: pending_def get_core split: if_splits)

lemma get_unget_shrinks: "length (pending (lx_unget (lx_get s))) \<le> length (pending s)"
  by (cases "lx_input s") (simp_all add: pending_def get_core unget_core)

lemma codepoint_digits_shrinks: "length (pending (fst (codepoint_digits fs n s))) \<le> length (pending s)"
proof (induction fs arbitrary: n s)
  case (Cons f fs)
  then show ?case using get_shrinks [of s] by (auto simp: Let_def intro: order_trans)
qed simp

lemma get_codepoint_shrinks: "get_codepoint s = (s', n) \<Longrightarrow> length (pending s') \<le> length (pending s)"
  using codepoint_digits_shrinks [of "[12, 8, 4, 0]" 0 s] by (simp add: get_codepoint_def)

lemma bytes_in_range_shrinks: "length (pending (fst (bytes_in_range rs s))) \<le> length (pending s)"
proof (induction rs arbitrary: s)
  case (Cons r rs)
  have "length (pending (fst (bytes_in_range rs (lx_add c (lx_get s))))) \<le> length (pending s)" for c
    using Cons [of "lx_add c (lx_get s)"] get_shrinks [of s] by simp
  then show ?case using get_shrinks [of s] by (simp add: Let_def)
qed simp

lemma next_byte_in_range_shrinks: "next_byte_in_range rs s = (s', v) \<Longrightarrow> length (pending s') \<le> length (pending s)"
  using bytes_in_range_shrinks [of rs "lx_add (to_char (lx_current s)) s"] by (simp add: next_byte_in_range_def)

lemma scan_unicode_escape_shrinks: "length (pending (fst (scan_unicode_escape s))) \<le> length (pending s)"
proof -
  obtain s1 n1 where 1: "get_codepoint s = (s1, n1)" by fastforce
  obtain s2 n2 where 2: "get_codepoint (lx_get (lx_get s1)) = (s2, n2)" by fastforce
  have "length (pending s1) \<le> length (pending s)" using get_codepoint_shrinks [OF 1] .
  moreover have "length (pending s2) \<le> length (pending (lx_get (lx_get s1)))" using get_codepoint_shrinks [OF 2] .
  moreover note get_shrinks [of s1] get_shrinks [of "lx_get s1"]
  ultimately show ?thesis by (simp add: scan_unicode_escape_def 1 2 Let_def)
qed

lemma scan_escape_shrinks: "length (pending (fst (scan_escape s))) \<le> length (pending s)"
  using get_shrinks [of s] scan_unicode_escape_shrinks [of "lx_get s"]
  by (simp add: scan_escape_def Let_def split: option.split)

lemma scan_character_shrinks: "length (pending (fst (scan_character s))) \<le> length (pending s)"
  using get_shrinks [of s] scan_escape_shrinks [of "lx_get s"]
  by (auto simp: scan_character_def Let_def split: option.split prod.split dest!: next_byte_in_range_shrinks)

lemma scan_character_takes:
  assumes "scan_character s = (s', t)" "t \<noteq> Some T_parse_error"
  shows "length (pending s') < length (pending s)"
proof -
  have "lx_current (lx_get s) \<noteq> None" using assms by (cases "lx_current (lx_get s)") (auto simp: scan_character_def)
  from get_takes [OF this] assms(1) scan_escape_shrinks [of "lx_get s"] show ?thesis
    by (auto simp: scan_character_def Let_def split: option.splits prod.splits if_splits dest!: next_byte_in_range_shrinks)
qed

function scan_string_loop :: "lexer \<Rightarrow> lexer \<times> token_type" where
  "scan_string_loop s =
     (case scan_character s of (s, None) \<Rightarrow> scan_string_loop s | (s, Some token) \<Rightarrow> (s, token))"
  by pat_completeness auto
termination
  by (relation "measure (length \<circ> pending)") (auto dest!: scan_character_takes [OF sym])

definition scan_string :: "lexer \<Rightarrow> lexer \<times> token_type" where
  "scan_string s = scan_string_loop (lx_reset s)"

section \<open>Numbers\<close>

text \<open>The states of the machine are the labels of the code.\<close>

datatype number_state = N_minus | N_zero | N_any1 | N_decimal1 | N_decimal2 | N_exponent | N_sign | N_any2

datatype number_move = Goto number_state | Number_done | Number_error "byte list"

definition is_digit :: "byte option \<Rightarrow> bool" where
  "is_digit c = (case c of None \<Rightarrow> False | Some b \<Rightarrow> 0x30 \<le> b \<and> b \<le> 0x39)"

definition is_nonzero_digit :: "byte option \<Rightarrow> bool" where
  "is_nonzero_digit c \<longleftrightarrow> is_digit c \<and> c \<noteq> Some 0x30"

definition is_exponent :: "byte option \<Rightarrow> bool" where
  "is_exponent c \<longleftrightarrow> c = Some 0x65 \<or> c = Some 0x45"

primrec number_step :: "number_state \<Rightarrow> byte option \<Rightarrow> number_move" where
  "number_step N_minus c =
     (if c = Some 0x30 then Goto N_zero else if is_nonzero_digit c then Goto N_any1
      else Number_error (cstr ''invalid number; expected digit after '' @ [0x27, 0x2d, 0x27]))"
| "number_step N_zero c =
     (if c = Some 0x2e then Goto N_decimal1 else if is_exponent c then Goto N_exponent else Number_done)"
| "number_step N_any1 c =
     (if is_digit c then Goto N_any1 else if c = Some 0x2e then Goto N_decimal1
      else if is_exponent c then Goto N_exponent else Number_done)"
| "number_step N_decimal1 c =
     (if is_digit c then Goto N_decimal2
      else Number_error (cstr ''invalid number; expected digit after '' @ [0x27, 0x2e, 0x27]))"
| "number_step N_decimal2 c =
     (if is_digit c then Goto N_decimal2 else if is_exponent c then Goto N_exponent else Number_done)"
| "number_step N_exponent c =
     (if c = Some 0x2b \<or> c = Some 0x2d then Goto N_sign else if is_digit c then Goto N_any2
      else Number_error (cstr ''invalid number; expected '' @ [0x27, 0x2b, 0x27] @ cstr '', '' @ [0x27, 0x2d, 0x27]
        @ cstr '', or digit after exponent''))"
| "number_step N_sign c =
     (if is_digit c then Goto N_any2 else Number_error (cstr ''invalid number; expected digit after exponent sign''))"
| "number_step N_any2 c = (if is_digit c then Goto N_any2 else Number_done)"

text \<open>The type of the number is set on entry to three of the states.\<close>

definition number_type :: "number_state \<Rightarrow> token_type \<Rightarrow> token_type" where
  "number_type st t =
     (if st = N_minus then T_value_integer else if st = N_decimal1 \<or> st = N_exponent then T_value_float else t)"

text \<open>
  \<open>strtoull\<close> and \<open>strtoll\<close> on a text of the form the machine accepts: the value, or
  \<open>ERANGE\<close> (\<open>None\<close>) where it does not fit.
\<close>

definition digits_value :: "byte list \<Rightarrow> nat" where
  "digits_value s = fold (\<lambda>c n. 10 * n + (unat c - 48)) s 0"

definition strtoull :: "byte list \<Rightarrow> u64 option" where
  "strtoull s = (let n = digits_value s in if n < 2 ^ 64 then Some (word_of_nat n) else None)"

definition strtoll :: "byte list \<Rightarrow> u64 option" where
  "strtoll s =
     (let n = (if s \<noteq> [] \<and> hd s = 0x2d then - int (digits_value (tl s)) else int (digits_value s))
      in if - (2 ^ 63) \<le> n \<and> n < 2 ^ 63 then Some (word_of_int n) else None)"

definition finish_number :: "(byte list \<Rightarrow> u64) \<Rightarrow> token_type \<Rightarrow> lexer \<Rightarrow> lexer \<times> token_type" where
  "finish_number strtod t s =
     (let s = lx_unget s;
          as_float = (s\<lparr>lx_float := strtod (lx_token_buffer s)\<rparr>, T_value_float) in
      if t = T_value_unsigned then
        (case strtoull (lx_token_buffer s) of Some x \<Rightarrow> (s\<lparr>lx_unsigned := x\<rparr>, T_value_unsigned) | None \<Rightarrow> as_float)
      else if t = T_value_integer then
        (case strtoll (lx_token_buffer s) of Some x \<Rightarrow> (s\<lparr>lx_integer := x\<rparr>, T_value_integer) | None \<Rightarrow> as_float)
      else as_float)"

lemma number_step_Goto: "number_step st c = Goto st' \<Longrightarrow> c \<noteq> None"
  by (cases st) (auto simp: is_digit_def is_nonzero_digit_def is_exponent_def split: if_splits option.splits)

function scan_number_from :: "(byte list \<Rightarrow> u64) \<Rightarrow> number_state \<Rightarrow> token_type \<Rightarrow> lexer \<Rightarrow> lexer \<times> token_type" where
  "scan_number_from strtod st t s =
     (let t = number_type st t; s = lx_get s in
      case number_step st (lx_current s) of
        Goto st' \<Rightarrow> scan_number_from strtod st' t (lx_add (to_char (lx_current s)) s)
      | Number_done \<Rightarrow> finish_number strtod t s
      | Number_error m \<Rightarrow> (lx_fail m s, T_parse_error))"
  by pat_completeness auto
termination
  by (relation "measure (\<lambda>(_, _, _, s). length (pending s))")
    (auto dest!: number_step_Goto simp: get_takes)

definition scan_number :: "(byte list \<Rightarrow> u64) \<Rightarrow> lexer \<Rightarrow> lexer \<times> token_type" where
  "scan_number strtod s =
     (let s = lx_reset s in
      scan_number_from strtod
        (if lx_current s = Some 0x2d then N_minus else if lx_current s = Some 0x30 then N_zero else N_any1)
        T_value_unsigned (lx_add (to_char (lx_current s)) s))"

section \<open>The scanner\<close>

primrec scan_literal_rest :: "byte list \<Rightarrow> token_type \<Rightarrow> lexer \<Rightarrow> lexer \<times> token_type" where
  "scan_literal_rest [] t s = (s, t)"
| "scan_literal_rest (c # cs) t s =
     (let s = lx_get s in
      if to_char (lx_current s) \<noteq> c then (lx_fail (cstr ''invalid literal'') s, T_parse_error)
      else scan_literal_rest cs t s)"

text \<open>The first character of the literal is the current one.\<close>

definition scan_literal :: "string \<Rightarrow> token_type \<Rightarrow> lexer \<Rightarrow> lexer \<times> token_type" where
  "scan_literal literal_text t s = scan_literal_rest (tl (cstr literal_text)) t s"

definition skip_bom :: "lexer \<Rightarrow> lexer \<times> bool" where
  "skip_bom s =
     (let s = lx_get s in
      if lx_current s = Some 0xEF then
        (let s = lx_get s in
         if lx_current s \<noteq> Some 0xBB then (s, False)
         else let s = lx_get s in (s, lx_current s = Some 0xBF))
      else (lx_unget s, True))"

definition is_space :: "byte option \<Rightarrow> bool" where
  "is_space c \<longleftrightarrow> c = Some 0x20 \<or> c = Some 0x09 \<or> c = Some 0x0a \<or> c = Some 0x0d"

function skip_whitespace :: "lexer \<Rightarrow> lexer" where
  "skip_whitespace s = (let s = lx_get s in if is_space (lx_current s) then skip_whitespace s else s)"
  by pat_completeness auto
termination
  by (relation "measure (length \<circ> pending)") (auto simp: is_space_def intro!: get_takes)

definition scan_token :: "(byte list \<Rightarrow> u64) \<Rightarrow> lexer \<Rightarrow> lexer \<times> token_type" where
  "scan_token strtod s =
     (let c = lx_current s in
      if c = Some 0x5b then (s, T_begin_array)
      else if c = Some 0x5d then (s, T_end_array)
      else if c = Some 0x7b then (s, T_begin_object)
      else if c = Some 0x7d then (s, T_end_object)
      else if c = Some 0x3a then (s, T_name_separator)
      else if c = Some 0x2c then (s, T_value_separator)
      else if c = Some 0x74 then scan_literal ''true'' T_literal_true s
      else if c = Some 0x66 then scan_literal ''false'' T_literal_false s
      else if c = Some 0x6e then scan_literal ''null'' T_literal_null s
      else if c = Some 0x22 then scan_string s
      else if c = Some 0x2d \<or> is_digit c then scan_number strtod s
      else if c = Some 0 \<or> c = None then (s, T_end_of_input)
      else (lx_fail (cstr ''invalid literal'') s, T_parse_error))"

definition scan :: "(byte list \<Rightarrow> u64) \<Rightarrow> lexer \<Rightarrow> lexer \<times> token_type" where
  "scan strtod s =
     (case (if lx_total s = 0 then skip_bom s else (s, True)) of (s, valid) \<Rightarrow>
      if \<not> valid then (lx_fail (cstr ''invalid BOM; must be 0xEF 0xBB 0xBF if given'') s, T_parse_error)
      else scan_token strtod (skip_whitespace s))"

section \<open>Scanning ends\<close>

declare scan_string_loop.simps [simp del] scan_number_from.simps [simp del] skip_whitespace.simps [simp del]

lemma pending_values [simp]:
  "pending (s\<lparr>lx_float := f\<rparr>) = pending s" "pending (s\<lparr>lx_unsigned := u\<rparr>) = pending s"
  "pending (s\<lparr>lx_integer := i\<rparr>) = pending s"
  by (simp_all add: pending_def)

lemma scan_string_loop_shrinks: "length (pending (fst (scan_string_loop s))) \<le> length (pending s)"
proof (induction s rule: scan_string_loop.induct)
  case (1 s)
  obtain s' t where c: "scan_character s = (s', t)" by fastforce
  then have "length (pending s') \<le> length (pending s)" using scan_character_shrinks [of s] by simp
  then show ?case using "1.IH" [OF c [symmetric]] by (subst scan_string_loop.simps) (cases t; simp add: c)
qed

lemma finish_number_pending: "pending (fst (finish_number strtod t s)) = pending (lx_unget s)"
  by (simp add: finish_number_def Let_def split: option.split)

lemma scan_number_from_shrinks: "length (pending (fst (scan_number_from strtod st t s))) \<le> length (pending s)"
proof (induction strtod st t s rule: scan_number_from.induct)
  case (1 strtod st t s)
  note get_shrinks [of s] get_unget_shrinks [of s]
  with "1.IH" [OF refl refl] show ?case
    by (subst scan_number_from.simps) (auto simp: Let_def finish_number_pending split: number_move.split)
qed

lemma scan_literal_rest_shrinks: "length (pending (fst (scan_literal_rest cs t s))) \<le> length (pending s)"
proof (induction cs arbitrary: s)
  case (Cons c cs)
  then show ?case using get_shrinks [of s] by (auto simp: Let_def intro: order_trans)
qed simp

lemma skip_bom_shrinks: "length (pending (fst (skip_bom s))) \<le> length (pending s)"
  using get_shrinks [of s] get_shrinks [of "lx_get s"] get_shrinks [of "lx_get (lx_get s)"] get_unget_shrinks [of s]
  by (simp add: skip_bom_def Let_def)

lemma skip_whitespace_shrinks:
  "length (pending (skip_whitespace s)) \<le> length (pending s)
   \<and> (lx_current (skip_whitespace s) \<noteq> None \<longrightarrow> length (pending (skip_whitespace s)) < length (pending s))"
proof (induction s rule: skip_whitespace.induct)
  case (1 s)
  have "skip_whitespace s = (if is_space (lx_current (lx_get s)) then skip_whitespace (lx_get s) else lx_get s)"
    by (subst skip_whitespace.simps) (simp add: Let_def)
  then show ?case using "1.IH" [OF refl] get_shrinks [of s] get_takes [of s] by auto
qed

text \<open>The tokens that stand for some input.\<close>

definition real_token :: "token_type \<Rightarrow> bool" where
  "real_token t \<longleftrightarrow> t \<notin> {T_uninitialized, T_parse_error, T_end_of_input, T_literal_or_value}"

lemma scan_token_shrinks:
  "length (pending (fst (scan_literal l t s))) \<le> length (pending s)"
  "length (pending (fst (scan_string s))) \<le> length (pending s)"
  "length (pending (fst (scan_number strtod s))) \<le> length (pending s)"
  using scan_literal_rest_shrinks [of "tl (cstr l)" t s] scan_string_loop_shrinks [of "lx_reset s"]
    scan_number_from_shrinks [of strtod _ T_value_unsigned "lx_add (to_char (lx_current (lx_reset s))) (lx_reset s)"]
  by (simp_all add: scan_literal_def scan_string_def scan_number_def Let_def)

lemma scan_takes:
  assumes "scan strtod s = (s', t)"
  shows "length (pending s') \<le> length (pending s)" and "real_token t \<Longrightarrow> length (pending s') < length (pending s)"
proof -
  obtain s1 v where 1: "(if lx_total s = 0 then skip_bom s else (s, True)) = (s1, v)" by fastforce
  have le1: "length (pending s1) \<le> length (pending s)"
    using 1 skip_bom_shrinks [of s] by (auto split: if_splits)
  let ?s = "skip_whitespace s1"
  note ws = skip_whitespace_shrinks [of s1]
  have tok: "length (pending s') \<le> length (pending ?s) \<and> (lx_current ?s = None \<longrightarrow> \<not> real_token t)" if v: "v"
  proof -
    have "length (pending s') \<le> length (pending ?s)"
      using assms v scan_token_shrinks(1) [of "''true''" T_literal_true ?s] scan_token_shrinks(1) [of "''false''" T_literal_false ?s]
        scan_token_shrinks(1) [of "''null''" T_literal_null ?s] scan_token_shrinks(2) [of ?s] scan_token_shrinks(3) [of strtod ?s]
      unfolding scan_def 1 by (auto simp: scan_token_def Let_def split: if_splits)
    moreover have "\<not> real_token t" if "lx_current ?s = None"
      using assms v that unfolding scan_def 1 by (auto simp: scan_token_def Let_def is_digit_def real_token_def)
    ultimately show ?thesis by blast
  qed
  have bad: "\<not> v \<Longrightarrow> pending s' = pending s1 \<and> \<not> real_token t"
    using assms unfolding scan_def 1 by (auto simp: real_token_def)
  show "length (pending s') \<le> length (pending s)" using tok bad le1 ws by (cases v) auto
  show "length (pending s') < length (pending s)" if "real_token t" using tok bad le1 ws that by (cases v) auto
qed

end
