(* ===== verification/Json_Scan.thy ===== *)
theory Json_Scan
  imports Json_Lexer
begin

text \<open>
  What the scanner of \<open>Json_Lexer\<close> makes of a text: strings it accepts are UTF-8 (the ranges it
  tests are those of RFC 3629, and the bytes it makes of an escape are a character). The
  predicate \<open>lx_at\<close> says which text a scanner has before it; single steps of the scanner move it
  along that text.
\<close>

section \<open>Strings are UTF-8\<close>

text \<open>A character of UTF-8 by the ranges of the scanner.\<close>

definition in_range :: "byte \<times> byte \<Rightarrow> byte \<Rightarrow> bool" where
  "in_range r c \<longleftrightarrow> fst r \<le> c \<and> c \<le> snd r"

lemma list_all2_take_Cons:
  "length (r # rs) \<le> length bs \<and> list_all2 P (r # rs) (take (length (r # rs)) bs) \<and> Q (drop (length (r # rs)) bs)
   \<longleftrightarrow> (case bs of [] \<Rightarrow> False | c # cs \<Rightarrow> P r c \<and> length rs \<le> length cs \<and> list_all2 P rs (take (length rs) cs) \<and> Q (drop (length rs) cs))"
  by (cases bs) auto

definition follows :: "(byte \<times> byte) list \<Rightarrow> byte list \<Rightarrow> bool" where
  "follows rs bs \<longleftrightarrow> length rs \<le> length bs \<and> list_all2 in_range rs (take (length rs) bs) \<and> utf8 (drop (length rs) bs)"

lemma follows_simps:
  "follows [] bs = utf8 bs"
  "follows (r # rs) bs = (case bs of [] \<Rightarrow> False | c # cs \<Rightarrow> in_range r c \<and> follows rs cs)"
  unfolding follows_def list_all2_take_Cons by simp_all

lemma following_ranges_unat:
  "following_ranges c =
     (if 0xC2 \<le> unat c \<and> unat c \<le> 0xDF then Some [(0x80, 0xBF)]
      else if unat c = 0xE0 then Some [(0xA0, 0xBF), (0x80, 0xBF)]
      else if 0xE1 \<le> unat c \<and> unat c \<le> 0xEC \<or> unat c = 0xEE \<or> unat c = 0xEF then Some [(0x80, 0xBF), (0x80, 0xBF)]
      else if unat c = 0xED then Some [(0x80, 0x9F), (0x80, 0xBF)]
      else if unat c = 0xF0 then Some [(0x90, 0xBF), (0x80, 0xBF), (0x80, 0xBF)]
      else if 0xF1 \<le> unat c \<and> unat c \<le> 0xF3 then Some [(0x80, 0xBF), (0x80, 0xBF), (0x80, 0xBF)]
      else if unat c = 0xF4 then Some [(0x80, 0x8F), (0x80, 0xBF), (0x80, 0xBF)]
      else None)"
  by (simp add: following_ranges_def word_le_nat_alt word_unat_eq_iff)

lemma utf8_lead_unat:
  "utf8_lead3 b c \<longleftrightarrow>
     (unat b = 0xE0 \<and> 0xA0 \<le> c \<and> c \<le> 0xBF
     \<or> (0xE1 \<le> unat b \<and> unat b \<le> 0xEC \<or> unat b = 0xEE \<or> unat b = 0xEF) \<and> utf8_tail c
     \<or> unat b = 0xED \<and> 0x80 \<le> c \<and> c \<le> 0x9F)"
  "utf8_lead4 b c \<longleftrightarrow>
     (unat b = 0xF0 \<and> 0x90 \<le> c \<and> c \<le> 0xBF
     \<or> 0xF1 \<le> unat b \<and> unat b \<le> 0xF3 \<and> utf8_tail c
     \<or> unat b = 0xF4 \<and> 0x80 \<le> c \<and> c \<le> 0x8F)"
  "(b \<le> 0x7F) = (unat b \<le> 0x7F)" "(0xC2 \<le> b \<and> b \<le> 0xDF) = (0xC2 \<le> unat b \<and> unat b \<le> 0xDF)"
  by (simp_all add: utf8_lead3_def utf8_lead4_def word_le_nat_alt word_unat_eq_iff)

lemma utf8_step:
  "utf8 (b # bs) = (if b \<le> 0x7F then utf8 bs else case following_ranges b of None \<Rightarrow> False | Some rs \<Rightarrow> follows rs bs)"
proof -
  consider "unat b \<le> 127" | "194 \<le> unat b" "unat b \<le> 223" | "unat b = 224" | "225 \<le> unat b" "unat b \<le> 236" | "unat b = 238"
    | "unat b = 239" | "unat b = 237" | "unat b = 240" | "241 \<le> unat b" "unat b \<le> 243" | "unat b = 244"
    | "127 < unat b" "unat b < 194" | "244 < unat b"
    by linarith
  note unat_cases = this
  consider "bs = []" | c where "bs = [c]" | c d where "bs = [c, d]" | c d e es where "bs = c # d # e # es"
    by (metis list.exhaust)
  then show ?thesis
    unfolding utf8.simps(2) following_ranges_unat utf8_lead_unat(1,2) utf8_lead_unat(3) [of b] utf8_lead_unat(4) [of b]
    by (cases; hypsubst; cases rule: unat_cases; auto simp: follows_simps in_range_def utf8_tail_def simp del: utf8.simps(2))
qed

text \<open>Strings of UTF-8 are the concatenations of its characters.\<close>

lemma utf8_append: "utf8 s \<Longrightarrow> utf8 t \<Longrightarrow> utf8 (s @ t)"
proof (induction s rule: length_induct)
  case (1 s)
  show ?case
  proof (cases s)
    case (Cons b bs)
    have "follows rs bs \<Longrightarrow> follows rs (bs @ t)" for rs
      using "1.IH" "1.prems"(2) Cons by (simp add: follows_def)
    with Cons "1.IH" "1.prems" show ?thesis
      by (auto simp: utf8_step simp del: utf8.simps(2) split: if_splits option.splits)
  qed (use "1.prems" in simp)
qed

lemma utf8_character:
  assumes "\<not> b \<le> 0x7F" "following_ranges b = Some rs" "list_all2 in_range rs cs"
  shows "utf8 (b # cs)"
  using assms by (simp add: utf8_step follows_def list_all2_lengthD del: utf8.simps(2))

text \<open>The bytes of a code point are a character.\<close>

lemma word_of_bits:
  assumes "0 \<le> k" "k < 2 ^ n" "(m :: int) = push_bit n a"
  shows "m OR k = m + k"
proof -
  have "k = take_bit n k" using assms by (simp add: take_bit_int_eq_self)
  then have "bit k i \<Longrightarrow> i < n" for i by (metis bit_take_bit_iff)
  then have "m AND k = 0" by (intro bit_eqI) (auto simp: assms(3) bit_simps not_le [symmetric])
  then show ?thesis by (simp add: disjunctive_add_eq_or)
qed

lemma codepoint_parts:
  fixes c :: int
  assumes "0 \<le> c" "c < 2 ^ 21"
  shows "0x80 OR (c AND 0x3F) = 0x80 + c mod 64"
    and "c < 2 ^ 11 \<Longrightarrow> 0xC0 OR drop_bit 6 c = 0xC0 + c div 64"
    and "c < 2 ^ 16 \<Longrightarrow> 0xE0 OR drop_bit 12 c = 0xE0 + c div 4096"
    and "0xF0 OR drop_bit 18 c = 0xF0 + c div 2 ^ 18"
    and "drop_bit 6 c = c div 64" "drop_bit 12 c = c div 4096"
proof -
  have m: "c AND 0x3F = c mod 64"
    using take_bit_eq_mask [of 6 c] by (simp add: mask_eq_exp_minus_1 take_bit_eq_mod)
  show "0x80 OR (c AND 0x3F) = 0x80 + c mod 64" unfolding m
    by (rule word_of_bits [of _ 6 _ 2]) (simp_all add: push_bit_eq_mult)
  show "drop_bit 6 c = c div 64" "drop_bit 12 c = c div 4096" by (simp_all add: drop_bit_eq_div)
  show "0xC0 OR drop_bit 6 c = 0xC0 + c div 64" if "c < 2 ^ 11"
    using assms that unfolding drop_bit_eq_div
    by (intro word_of_bits [of _ 5 _ 6, THEN trans]) (simp_all add: push_bit_eq_mult div_less_iff_less_mult)
  show "0xE0 OR drop_bit 12 c = 0xE0 + c div 4096" if "c < 2 ^ 16"
    using assms that unfolding drop_bit_eq_div
    by (intro word_of_bits [of _ 4 _ "0xE", THEN trans]) (simp_all add: push_bit_eq_mult div_less_iff_less_mult)
  show "0xF0 OR drop_bit 18 c = 0xF0 + c div 2 ^ 18"
    using assms unfolding drop_bit_eq_div
    by (intro word_of_bits [of _ 3 _ "0x1E", THEN trans]) (simp_all add: push_bit_eq_mult div_less_iff_less_mult)
qed

lemma unat_byte_of: "0 \<le> x \<Longrightarrow> x < 256 \<Longrightarrow> unat (word_of_int x :: byte) = nat x"
  by (simp add: unsigned_of_int take_bit_int_eq_self)

lemma byte_of_in_range: "0 \<le> x \<Longrightarrow> x < 256 \<Longrightarrow> in_range (l, h) (word_of_int x) \<longleftrightarrow> uint l \<le> x \<and> x \<le> uint h"
  by (simp add: in_range_def word_le_def unsigned_of_int take_bit_int_eq_self)

lemma byte_of_ascii: "0 \<le> x \<Longrightarrow> x < 256 \<Longrightarrow> (word_of_int x :: byte) \<le> 0x7F \<longleftrightarrow> x \<le> 0x7F"
  by (simp add: word_le_def unsigned_of_int take_bit_int_eq_self)

lemma following_int:
  assumes "0 \<le> x" "x < 256"
  shows "following_ranges (word_of_int x) =
     (if 0xC2 \<le> x \<and> x \<le> 0xDF then Some [(0x80, 0xBF)]
      else if x = 0xE0 then Some [(0xA0, 0xBF), (0x80, 0xBF)]
      else if 0xE1 \<le> x \<and> x \<le> 0xEC \<or> x = 0xEE \<or> x = 0xEF then Some [(0x80, 0xBF), (0x80, 0xBF)]
      else if x = 0xED then Some [(0x80, 0x9F), (0x80, 0xBF)]
      else if x = 0xF0 then Some [(0x90, 0xBF), (0x80, 0xBF), (0x80, 0xBF)]
      else if 0xF1 \<le> x \<and> x \<le> 0xF3 then Some [(0x80, 0xBF), (0x80, 0xBF), (0x80, 0xBF)]
      else if x = 0xF4 then Some [(0x80, 0x8F), (0x80, 0xBF), (0x80, 0xBF)]
      else None)"
  using assms by (simp add: following_ranges_unat unat_byte_of nat_le_iff le_nat_iff nat_eq_iff)

lemma codepoint_bytes_utf8:
  assumes "0 \<le> c" "c \<le> 0x10FFFF" "\<not> (0xD800 \<le> c \<and> c \<le> 0xDFFF)"
  shows "utf8 (codepoint_bytes c)"
proof -
  note p = codepoint_parts [of c] and b = byte_of_ascii byte_of_in_range
  have tail: "0 \<le> 0x80 + x mod 64 \<and> 0x80 + x mod 64 < 256 \<and> 0x80 + x mod 64 \<le> 0xBF" for x :: int
    using pos_mod_bound [of 64 x] pos_mod_sign [of 64 x] by linarith
  have parts: "c div 64 mod 64 = c div 64 - 64 * (c div 4096)" "c div 4096 mod 64 = c div 4096 - 64 * (c div 2 ^ 18)"
    by (simp_all add: minus_mult_div_eq_mod [symmetric] div_mult2_eq' [symmetric])
  consider "c < 0x80" | "0x80 \<le> c" "c \<le> 0x7FF" | "0x7FF < c" "c \<le> 0xFFFF" | "0xFFFF < c" by linarith
  then show ?thesis
  proof cases
    case 1
    with assms(1) show ?thesis by (simp add: codepoint_bytes_def b)
  next
    case 2
    then have q: "2 \<le> c div 64" "c div 64 < 32" by linarith+
    have "codepoint_bytes c = [word_of_int (0xC0 + c div 64), word_of_int (0x80 + c mod 64)]"
      using 2 p by (simp add: codepoint_bytes_def del: of_int_add)
    moreover have "following_ranges (word_of_int (0xC0 + c div 64)) = Some [(0x80, 0xBF)]"
      using q by (simp add: following_int b del: of_int_add)
    ultimately show ?thesis using q by (simp add: utf8_character b del: of_int_add utf8.simps(2))
  next
    case 3
    then have q: "0 \<le> c div 4096" "c div 4096 < 16" by linarith+
    have "codepoint_bytes c =
        [word_of_int (0xE0 + c div 4096), word_of_int (0x80 + c div 64 mod 64), word_of_int (0x80 + c mod 64)]"
      using 3 p codepoint_parts(1) [of "c div 64"] by (simp add: codepoint_bytes_def del: of_int_add)
    moreover have "\<exists>l h. following_ranges (word_of_int (0xE0 + c div 4096)) = Some [(l, h), (0x80, 0xBF)]
        \<and> uint l \<le> 0x80 + c div 64 mod 64 \<and> 0x80 + c div 64 mod 64 \<le> uint h"
    proof -
      consider "c div 4096 = 0" | "1 \<le> c div 4096" "c div 4096 \<le> 12" | "c div 4096 = 13" | "c div 4096 = 14" | "c div 4096 = 15"
        using q by linarith
      then show ?thesis
      proof cases
        case 1
        then have "32 \<le> c div 64 mod 64" using 3 unfolding parts by linarith
        with 1 tail [of "c div 64"] show ?thesis
          by (intro exI [of _ "0xA0"] exI [of _ "0xBF"]) (simp add: following_ranges_def)
      next
        case c: 3
        then have "c div 64 mod 64 < 32" using 3 assms(3) unfolding parts by linarith
        with c tail [of "c div 64"] show ?thesis
          by (intro exI [of _ "0x80"] exI [of _ "0x9F"]) (simp add: following_ranges_def)
      next
        case 2
        with tail [of "c div 64"] show ?thesis
          by (intro exI [of _ "0x80"] exI [of _ "0xBF"]) (simp add: following_int del: of_int_add)
      qed (use tail [of "c div 64"] in \<open>auto intro!: exI [of _ "0x80"] exI [of _ "0xBF"] simp: following_ranges_def\<close>)
    qed
    ultimately show ?thesis using q tail [of "c div 64"] by (auto simp: utf8_character b simp del: of_int_add utf8.simps(2))
  next
    case 4
    then have q: "0 \<le> c div 2 ^ 18" "c div 2 ^ 18 < 5" using assms(2) by simp_all
    have cb: "codepoint_bytes c =
        [word_of_int (0xF0 + c div 2 ^ 18), word_of_int (0x80 + c div 4096 mod 64),
         word_of_int (0x80 + c div 64 mod 64), word_of_int (0x80 + c mod 64)]"
      using 4 assms p codepoint_parts(1) [of "c div 64"] codepoint_parts(1) [of "c div 4096"] by (simp add: codepoint_bytes_def del: of_int_add)
    have "\<exists>l h. following_ranges (word_of_int (0xF0 + c div 2 ^ 18)) = Some [(l, h), (0x80, 0xBF), (0x80, 0xBF)]
        \<and> uint l \<le> 0x80 + c div 4096 mod 64 \<and> 0x80 + c div 4096 mod 64 \<le> uint h"
    proof -
      consider "c div 2 ^ 18 = 0" | "1 \<le> c div 2 ^ 18" "c div 2 ^ 18 \<le> 3" | "c div 2 ^ 18 = 4"
        using q by linarith
      then show ?thesis
      proof cases
        case 1
        then have "16 \<le> c div 4096 mod 64" using 4 unfolding parts by linarith
        with 1 tail [of "c div 4096"] show ?thesis
          by (intro exI [of _ "0x90"] exI [of _ "0xBF"]) (simp add: following_ranges_def)
      next
        case 2
        with tail [of "c div 4096"] show ?thesis
          by (intro exI [of _ "0x80"] exI [of _ "0xBF"]) (simp add: following_int del: of_int_add)
      next
        case 3
        then have "c div 4096 mod 64 < 16" using assms(2) unfolding parts by linarith
        with 3 tail [of "c div 4096"] show ?thesis
          by (intro exI [of _ "0x80"] exI [of _ "0x8F"]) (simp add: following_ranges_def)
      qed
    qed
    then obtain l h where r: "following_ranges (word_of_int (0xF0 + c div 2 ^ 18)) = Some [(l, h), (0x80, 0xBF), (0x80, 0xBF)]"
        "uint l \<le> 0x80 + c div 4096 mod 64" "0x80 + c div 4096 mod 64 \<le> uint h"
      by blast
    show ?thesis unfolding cb
    proof (rule utf8_character [OF _ r(1)])
      show "\<not> word_of_int (0xF0 + c div 2 ^ 18) \<le> (0x7F :: byte)" using q by (simp add: b del: of_int_add)
      show "list_all2 in_range [(l, h), (0x80, 0xBF), (0x80, 0xBF)]
          [word_of_int (0x80 + c div 4096 mod 64), word_of_int (0x80 + c div 64 mod 64), word_of_int (0x80 + c mod 64)]"
        using r(2,3) tail [of "c div 64"] tail [of "c div 4096"] by (simp add: b del: of_int_add)
    qed
  qed
qed

text \<open>What the scanner puts into its buffer.\<close>

lemma buffer_simps [simp]:
  "lx_token_buffer (lx_get s) = lx_token_buffer s"
  "lx_token_buffer (lx_unget s) = lx_token_buffer s"
  "lx_token_buffer (lx_add c s) = lx_token_buffer s @ [c]"
  "lx_token_buffer (lx_fail m s) = lx_token_buffer s"
  "lx_token_buffer (lx_reset s) = []"
  by (simp_all add: get_core unget_core lx_add_def lx_fail_def lx_reset_def)

lemma buffer_fold_add [simp]: "lx_token_buffer (fold lx_add cs s) = lx_token_buffer s @ cs"
  by (induction cs arbitrary: s) simp_all

lemma codepoint_digits_result:
  "codepoint_digits fs n s = (s', m) \<Longrightarrow>
     lx_token_buffer s' = lx_token_buffer s \<and> (m = - 1 \<or> n \<le> m \<and> m \<le> n + (\<Sum>f\<leftarrow>fs. 15 * 2 ^ f))"
proof (induction fs arbitrary: n s)
  case (Cons f fs)
  let ?c = "uint (to_char (lx_current (lx_get s)))"
  have step: "lx_token_buffer s' = lx_token_buffer s \<and> (m = - 1 \<or> n \<le> m \<and> m \<le> n + (\<Sum>f\<leftarrow>f # fs. 15 * 2 ^ f))"
    if "codepoint_digits fs (n + push_bit f d) (lx_get s) = (s', m)" "0 \<le> d" "d \<le> 15" for d
  proof -
    have "0 \<le> push_bit f d" "push_bit f d \<le> 15 * 2 ^ f"
      using that(2,3) by (simp_all add: push_bit_eq_mult mult.commute)
    with Cons.IH [OF that(1)] show ?thesis by (auto simp del: push_bit_nonnegative_int_iff)
  qed
  have range: "current_in (lx_get s) l h \<Longrightarrow> uint l \<le> ?c \<and> ?c \<le> uint h" for l h
    by (auto simp: current_in_def to_char_def word_le_def split: option.splits)
  show ?case
    using Cons.prems step [of "?c - 0x30"] step [of "?c - 0x37"] step [of "?c - 0x57"]
      range [of "0x30" "0x39"] range [of "0x41" "0x46"] range [of "0x61" "0x66"]
    by (auto simp: Let_def split: if_splits)
qed auto

lemma get_codepoint_result:
  assumes "get_codepoint s = (s', m)"
  shows "lx_token_buffer s' = lx_token_buffer s" and "m \<noteq> - 1 \<Longrightarrow> 0 \<le> m \<and> m \<le> 0xFFFF"
  using codepoint_digits_result [OF assms [unfolded get_codepoint_def]] by simp_all

text \<open>A step of the scanner that goes on, or does not fail, has added UTF-8.\<close>

definition adds_utf8 :: "lexer \<Rightarrow> lexer \<Rightarrow> bool" where
  "adds_utf8 s s' \<longleftrightarrow> (\<exists>cs. utf8 cs \<and> lx_token_buffer s' = lx_token_buffer s @ cs)"

lemma scan_unicode_escape_utf8:
  assumes "scan_unicode_escape s = (s', None)"
  shows "adds_utf8 s s'"
proof -
  obtain s1 c1 where 1: "get_codepoint s = (s1, c1)" by fastforce
  obtain s2 c2 where 2: "get_codepoint (lx_get (lx_get s1)) = (s2, c2)" by fastforce
  note r = get_codepoint_result [OF 1] get_codepoint_result [OF 2]
  have pair: "utf8 (codepoint_bytes (push_bit 10 c1 + c2 - 0x35FDC00))"
    if "0xD800 \<le> c1" "c1 \<le> 0xDBFF" "0xDC00 \<le> c2" "c2 \<le> 0xDFFF"
    using that by (intro codepoint_bytes_utf8) (simp_all add: push_bit_eq_mult)
  have single: "utf8 (codepoint_bytes c1)" if "c1 \<noteq> - 1" "\<not> (0xD800 \<le> c1 \<and> c1 \<le> 0xDBFF)" "\<not> (0xDC00 \<le> c1 \<and> c1 \<le> 0xDFFF)"
    using that r(2) by (intro codepoint_bytes_utf8) auto
  show ?thesis
    using assms pair single r(1,3)
    by (auto simp: scan_unicode_escape_def 1 2 Let_def adds_utf8_def split: if_splits)
qed

lemma simple_escape_ascii: "simple_escape c = Some b \<Longrightarrow> b \<le> 0x7F"
  by (auto simp: simple_escape_def split: if_splits)

lemma scan_escape_utf8: "scan_escape s = (s', None) \<Longrightarrow> adds_utf8 s s'"
  using scan_unicode_escape_utf8 [of "lx_get s" s'] simple_escape_ascii
  by (auto simp: scan_escape_def Let_def adds_utf8_def split: option.splits if_splits)

lemma bytes_in_range_result:
  "bytes_in_range rs s = (s', True) \<Longrightarrow> \<exists>cs. list_all2 in_range rs cs \<and> lx_token_buffer s' = lx_token_buffer s @ cs"
proof (induction rs arbitrary: s)
  case (Cons r rs)
  let ?c = "to_char (lx_current (lx_get s))"
  have "in_range r ?c" "bytes_in_range rs (lx_add ?c (lx_get s)) = (s', True)"
    using Cons.prems by (auto simp: Let_def current_in_def in_range_def to_char_def split: if_splits option.splits)
  moreover from Cons.IH [OF this(2)] obtain cs where "list_all2 in_range rs cs" "lx_token_buffer s' = lx_token_buffer s @ ?c # cs"
    by auto
  ultimately show ?case by (intro exI [of _ "?c # cs"]) simp
qed simp

lemma scan_character_utf8:
  assumes "scan_character s = (s', t)" "t \<noteq> Some T_parse_error"
  shows "adds_utf8 s s'" and "t = None \<or> t = Some T_value_string"
proof -
  obtain c where c: "lx_current (lx_get s) = Some c"
    using assms by (cases "lx_current (lx_get s)") (auto simp: scan_character_def)
  have esc: "t = None" if "scan_escape (lx_get s) = (s', t)"
    using that assms(2) by (auto simp: scan_escape_def scan_unicode_escape_def Let_def split: option.splits if_splits prod.splits)
  show "t = None \<or> t = Some T_value_string"
    using assms esc by (auto simp: scan_character_def c Let_def split: if_splits option.splits prod.splits)
  have more_bytes: "adds_utf8 s s'" if n: "\<not> c \<le> 0x7F" "following_ranges c = Some rs" "next_byte_in_range rs (lx_get s) = (s', True)" for rs
  proof -
    obtain cs where "list_all2 in_range rs cs" "lx_token_buffer s' = lx_token_buffer s @ c # cs"
      using bytes_in_range_result [OF n(3) [unfolded next_byte_in_range_def]] c by (auto simp: to_char_def)
    then show ?thesis unfolding adds_utf8_def using utf8_character [OF n(1,2)] by blast
  qed
  have "utf8 [c]" if "c \<le> 0x7F" using that by simp
  moreover have "adds_utf8 s s'" if "scan_escape (lx_get s) = (s', t)"
    using scan_escape_utf8 [of "lx_get s" s'] that esc [OF that] by (simp add: adds_utf8_def)
  ultimately show "adds_utf8 s s'"
    using assms more_bytes
    by (auto simp: scan_character_def c adds_utf8_def Let_def split: if_splits option.splits prod.splits)
qed

lemma scan_string_loop_utf8:
  "scan_string_loop s = (s', T_value_string) \<Longrightarrow> utf8 (lx_token_buffer s) \<Longrightarrow> utf8 (lx_token_buffer s')"
proof (induction s arbitrary: s' rule: scan_string_loop.induct)
  case (1 s)
  obtain s1 t where c: "scan_character s = (s1, t)" by fastforce
  have t: "t \<noteq> Some T_parse_error" "t = None \<Longrightarrow> scan_string_loop s1 = (s', T_value_string)" "t \<noteq> None \<Longrightarrow> s' = s1"
    using "1.prems"(1) by (auto simp: scan_string_loop.simps [of s] c split: option.splits)
  have "utf8 (lx_token_buffer s1)"
    using scan_character_utf8(1) [OF c t(1)] "1.prems"(2) by (auto simp: adds_utf8_def intro: utf8_append)
  then show ?case using "1.IH" [OF c [symmetric]] t by (cases t) auto
qed

lemma scan_string_loop_token: "snd (scan_string_loop s) \<in> {T_value_string, T_parse_error}"
proof (induction s rule: scan_string_loop.induct)
  case (1 s)
  obtain s1 t where c: "scan_character s = (s1, t)" by fastforce
  show ?case
    using "1.IH" [OF c [symmetric]] scan_character_utf8(2) [OF c]
    by (cases t) (auto simp: scan_string_loop.simps [of s] c)
qed

lemma scan_number_from_token:
  "t \<in> {T_value_unsigned, T_value_integer, T_value_float} \<Longrightarrow>
     snd (scan_number_from strtod st t s) \<in> {T_value_unsigned, T_value_integer, T_value_float, T_parse_error}"
proof (induction strtod st t s rule: scan_number_from.induct)
  case (1 strtod st t s)
  have "number_type st t \<in> {T_value_unsigned, T_value_integer, T_value_float}"
    using "1.prems" by (simp add: number_type_def)
  with "1.IH" [OF refl refl] show ?case
    by (subst scan_number_from.simps) (auto simp: Let_def finish_number_def split: number_move.split option.split)
qed

lemma scan_literal_rest_token: "snd (scan_literal_rest cs t s) \<in> {t, T_parse_error}"
  by (induction cs arbitrary: s) (simp_all add: Let_def)

lemma scan_utf8:
  assumes "scan strtod s = (s', T_value_string)"
  shows "utf8 (lx_token_buffer s')"
proof -
  obtain s1 v where 1: "(if lx_total s = 0 then skip_bom s else (s, True)) = (s1, v)" by fastforce
  let ?s = "skip_whitespace s1"
  have "snd (scan_literal l t ?s) \<noteq> T_value_string" if "t \<noteq> T_value_string" for l t
    using scan_literal_rest_token [of "tl (cstr l)" t ?s] that by (auto simp: scan_literal_def)
  then have l: "(s', T_value_string) \<noteq> scan_literal l t ?s" if "t \<noteq> T_value_string" for l t
    using that by (metis snd_conv)
  have "snd (scan_number_from strtod st T_value_unsigned u) \<noteq> T_value_string" for st u
    using scan_number_from_token [of T_value_unsigned strtod st u] by auto
  then have "snd (scan_number strtod ?s) \<noteq> T_value_string" by (simp add: scan_number_def Let_def)
  then have n: "(s', T_value_string) \<noteq> scan_number strtod ?s" by (metis snd_conv)
  have "scan_string ?s = (s', T_value_string)"
    using assms l [of T_literal_true "''true''"] l [of T_literal_false "''false''"] l [of T_literal_null "''null''"] n
    unfolding scan_def 1
    by (auto simp: scan_token_def Let_def dest: sym split: if_splits)
  then show ?thesis unfolding scan_string_def by (rule scan_string_loop_utf8) simp
qed

section \<open>Where the scanner stands\<close>

text \<open>
  A scanner at a text: the text is what is still to come. At the end of the input a character
  that was put back is the end.
\<close>

definition lx_at :: "lexer \<Rightarrow> byte list \<Rightarrow> bool" where
  "lx_at s bs \<longleftrightarrow> pending s = bs \<and> (lx_next_unget s \<and> lx_current s = None \<longrightarrow> lx_input s = [])"

lemma at_init: "lx_at (lexer_init t) t"
  by (simp add: lx_at_def lexer_init_def pending_def)

lemma at_simps [simp]:
  "lx_at (lx_add c s) bs = lx_at s bs" "lx_at (lx_reset s) bs = lx_at s bs" "lx_at (fold lx_add cs s) bs = lx_at s bs"
  "lx_at (s\<lparr>lx_float := f\<rparr>) bs = lx_at s bs" "lx_at (s\<lparr>lx_unsigned := u\<rparr>) bs = lx_at s bs"
  "lx_at (s\<lparr>lx_integer := i\<rparr>) bs = lx_at s bs"
proof -
  show add: "lx_at (lx_add c s) bs = lx_at s bs" for c s
    by (auto simp: lx_at_def lx_add_def pending_def)
  show "lx_at (fold lx_add cs s) bs = lx_at s bs"
    by (induction cs arbitrary: s) (simp_all add: add)
qed (auto simp: lx_at_def lx_reset_def pending_def)

lemma get_at:
  "lx_at s (c # bs) \<Longrightarrow> lx_current (lx_get s) = Some c \<and> lx_at (lx_get s) bs"
  "lx_at s [] \<Longrightarrow> lx_current (lx_get s) = None \<and> lx_at (lx_get s) []"
  by (cases "lx_input s"; auto simp: lx_at_def pending_def get_core split: if_splits)+

lemma unget_at: "lx_at s bs \<Longrightarrow> lx_at (lx_unget (lx_get s)) bs"
  by (cases "lx_input s") (auto simp: lx_at_def pending_def get_core unget_core split: if_splits)

subsection \<open>Strings\<close>

lemma bytes_in_range_at:
  "list_all2 in_range rs cs \<Longrightarrow> lx_at s (cs @ bs) \<Longrightarrow>
     \<exists>s'. bytes_in_range rs s = (s', True) \<and> lx_at s' bs \<and> lx_token_buffer s' = lx_token_buffer s @ cs"
proof (induction rs cs arbitrary: s rule: list_all2_induct)
  case (Cons r rs c cs)
  have "lx_current (lx_get s) = Some c" "lx_at (lx_get s) (cs @ bs)"
    using get_at(1) [of s c "cs @ bs"] Cons.prems by simp_all
  with Cons.IH [of "lx_add c (lx_get s)"] Cons.hyps show ?case
    by (simp add: Let_def current_in_def in_range_def to_char_def)
qed simp

lemma scan_character_plain:
  assumes "lx_at s (b # bs)" "0x1F < b" "b \<le> 0x7F" "b \<noteq> 0x22" "b \<noteq> 0x5c"
  shows "\<exists>s'. scan_character s = (s', None) \<and> lx_at s' bs \<and> lx_token_buffer s' = lx_token_buffer s @ [b]"
  using get_at(1) [OF assms(1)] assms(2-) by (simp add: scan_character_def Let_def)

lemma scan_character_multibyte:
  assumes "lx_at s (b # cs @ bs)" "\<not> b \<le> 0x7F" "following_ranges b = Some rs" "list_all2 in_range rs cs"
  shows "\<exists>s'. scan_character s = (s', None) \<and> lx_at s' bs \<and> lx_token_buffer s' = lx_token_buffer s @ b # cs"
proof -
  have at: "lx_current (lx_get s) = Some b" "lx_at (lx_get s) (cs @ bs)"
    using get_at(1) [OF assms(1)] by simp_all
  then obtain s' where "bytes_in_range rs (lx_add b (lx_get s)) = (s', True)" "lx_at s' bs"
      "lx_token_buffer s' = lx_token_buffer s @ b # cs"
    using bytes_in_range_at [OF assms(4), of "lx_add b (lx_get s)" bs] by auto
  moreover have "b \<noteq> 0x22" "b \<noteq> 0x5c" "\<not> b \<le> 0x1F" using assms(2) by (auto simp: word_le_nat_alt)
  ultimately show ?thesis
    using at assms(2,3) by (simp add: scan_character_def next_byte_in_range_def to_char_def Let_def)
qed

lemma scan_character_simple_escape:
  assumes "lx_at s (0x5c # e # bs)" "simple_escape (Some e) = Some b"
  shows "\<exists>s'. scan_character s = (s', None) \<and> lx_at s' bs \<and> lx_token_buffer s' = lx_token_buffer s @ [b]"
proof -
  have 1: "lx_current (lx_get s) = Some 0x5c" "lx_at (lx_get s) (e # bs)" using get_at(1) [OF assms(1)] by simp_all
  then have "lx_current (lx_get (lx_get s)) = Some e" "lx_at (lx_get (lx_get s)) bs"
    using get_at(1) [OF 1(2)] by simp_all
  with 1 assms(2) show ?thesis by (simp add: scan_character_def scan_escape_def Let_def)
qed

lemma hex4_byte: "hex4 (ucast b) = [0x30, 0x30, hex_digit (drop_bit 4 b), hex_digit (b AND 0xF)]"
proof -
  have "ucast (drop_bit 12 (ucast b :: u32) AND 0xF) = (0 :: byte)" "ucast (drop_bit 8 (ucast b :: u32) AND 0xF) = (0 :: byte)"
      "ucast (drop_bit 4 (ucast b :: u32) AND 0xF) = drop_bit 4 b" "ucast (drop_bit 0 (ucast b :: u32) AND 0xF) = b AND 0xF"
    by (rule word_eq_upt; simp add: bit_simps upt_explicit word_eval)+
  then show ?thesis by (simp add: hex4_def) (simp add: hex_digit_def)
qed

lemma escape_json_high: "list_all2 in_range rs cs \<Longrightarrow> \<forall>r \<in> set rs. 0x80 \<le> fst r \<Longrightarrow> escape_json cs = cs"
proof (induction rs cs rule: list_all2_induct)
  case (Cons r rs c cs)
  have "0x80 \<le> c" using Cons.hyps(1) Cons.prems by (auto simp: in_range_def)
  then have "escaped_codepoint (ucast c) c = [c]"
    by (intro escaped_codepoint_high) (simp add: unat_codepoint_byte word_le_nat_alt)
  with Cons show ?case by simp
qed simp

lemma following_ranges_high: "following_ranges b = Some rs \<Longrightarrow> \<forall>r \<in> set rs. 0x80 \<le> fst r"
  by (auto simp: following_ranges_def split: if_splits)

subsection \<open>Numbers\<close>

definition ends_number :: "byte list \<Rightarrow> bool" where
  "ends_number bs \<longleftrightarrow> (case bs of [] \<Rightarrow> True | c # _ \<Rightarrow> number_step N_any1 (Some c) = Number_done)"

lemma dec_nat_first: "0 < n \<Longrightarrow> hd (dec_nat n) \<noteq> 0x30"
proof (induction n rule: dec_nat.induct)
  case (1 n)
  show ?case
  proof (cases "n < 10")
    case True
    have "unat (48 + word_of_nat n :: byte) \<noteq> unat (0x30 :: byte)" using unat_digit [OF True] "1.prems" by simp
    then have "48 + word_of_nat n \<noteq> (0x30 :: byte)" by metis
    then show ?thesis using True by (simp add: dec_nat.simps [of n])
  next
    case False
    with "1.IH" show ?thesis by (simp add: dec_nat.simps [of n])
  qed
qed

lemma sint_minus_nat: "n \<le> 2 ^ 63 \<Longrightarrow> sint (- word_of_nat n :: u64) = - int n"
proof -
  assume "n \<le> 2 ^ 63"
  then have "sint (word_of_int (- int n) :: u64) = - int n"
    by (subst signed_of_int) (simp add: signed_take_bit_int_eq_self)
  then show ?thesis by simp
qed

subsection \<open>Tokens\<close>

lemma scan_literal_rest_at:
  "lx_at s (cs @ bs) \<Longrightarrow> \<exists>s'. scan_literal_rest cs t s = (s', t) \<and> lx_at s' bs"
proof (induction cs arbitrary: s)
  case (Cons c cs)
  then show ?case using get_at(1) [of s c "cs @ bs"] by (simp add: Let_def to_char_def)
qed simp

lemma skip_whitespace_at:
  assumes "\<forall>c \<in> set ws. is_space (Some c)"
  shows "lx_at s (ws @ c # bs) \<Longrightarrow> \<not> is_space (Some c) \<Longrightarrow>
      lx_current (skip_whitespace s) = Some c \<and> lx_at (skip_whitespace s) bs"
    and "lx_at s ws \<Longrightarrow> lx_current (skip_whitespace s) = None \<and> lx_at (skip_whitespace s) []"
  using assms
proof (induction ws arbitrary: s)
  case Nil
  {
    case 1
    with get_at(1) [of s c bs] show ?case by (simp add: skip_whitespace.simps [of s] Let_def)
  next
    case 2
    with get_at(2) [of s] show ?case by (simp add: skip_whitespace.simps [of s] Let_def is_space_def)
  }
next
  case (Cons w ws)
  {
    case 1
    with get_at(1) [of s w "ws @ c # bs"] Cons.IH(1) [of "lx_get s"] show ?case
      by (simp add: skip_whitespace.simps [of s] Let_def)
  next
    case 2
    with get_at(1) [of s w ws] Cons.IH(2) [of "lx_get s"] show ?case
      by (simp add: skip_whitespace.simps [of s] Let_def)
  }
qed

lemma skip_bom_at:
  assumes "lx_at s bs" "bs = [] \<or> hd bs \<noteq> 0xEF"
  shows "\<exists>s'. skip_bom s = (s', True) \<and> lx_at s' bs"
proof -
  have "lx_current (lx_get s) \<noteq> Some 0xEF" using assms get_at [of s] by (cases bs) auto
  with unget_at [OF assms(1)] show ?thesis by (simp add: skip_bom_def Let_def)
qed

text \<open>The tokens of a text, by their first character.\<close>

definition structural :: "byte \<Rightarrow> token_type option" where
  "structural =
     map_of [(0x5b, T_begin_array), (0x5d, T_end_array), (0x7b, T_begin_object), (0x7d, T_end_object),
             (0x3a, T_name_separator), (0x2c, T_value_separator)]"

end
