(* ===== verification/Json_Parser.thy ===== *)
theory Json_Parser
  imports Json_Scan
begin

text \<open>
  The parser of nlohmann json: the classes \<open>parser\<close> and \<open>json_sax_dom_parser\<close> and the function
  \<open>basic_json::parse\<close> of \<open>src/ext/json-3.11.2/single_include/nlohmann/json.hpp\<close>, with exceptions
  allowed and no callback, as the programs call it. The value is built in place: the parser
  keeps pointers to the containers it is in, which here are paths from the root.

  Shown: parsing ends; a parsed value holds only UTF-8.
\<close>

section \<open>The value being built\<close>

text \<open>A pointer into a value; one that points nowhere, which does not happen, reads as null.\<close>

datatype ref_step = Elem nat | Member "byte list"

type_synonym json_ref = "ref_step list"

primrec get_ref :: "json_ref \<Rightarrow> json \<Rightarrow> json" where
  "get_ref [] j = j"
| "get_ref (s # p) j =
     (case (s, j) of
        (Elem i, JArr js) \<Rightarrow> if i < length js then get_ref p (js ! i) else JNull
      | (Member k, JObj kvs) \<Rightarrow> (case map_of kvs k of None \<Rightarrow> JNull | Some j' \<Rightarrow> get_ref p j')
      | _ \<Rightarrow> JNull)"

primrec put_ref :: "json_ref \<Rightarrow> json \<Rightarrow> json \<Rightarrow> json" where
  "put_ref [] v j = v"
| "put_ref (s # p) v j =
     (case (s, j) of
        (Elem i, JArr js) \<Rightarrow> JArr (js[i := put_ref p v (js ! i)])
      | (Member k, JObj kvs) \<Rightarrow>
          (case map_of kvs k of None \<Rightarrow> j | Some j' \<Rightarrow> JObj (insert_key k (put_ref p v j') kvs))
      | _ \<Rightarrow> j)"

text \<open>The members of \<open>json_sax_dom_parser\<close>; the top of the stack is the head of the list.\<close>

record dom =
  dom_root :: json
  dom_refs :: "json_ref list"
  dom_element :: json_ref

definition handle_value :: "json \<Rightarrow> dom \<Rightarrow> dom \<times> json_ref" where
  "handle_value v d =
     (if dom_refs d = [] then (d\<lparr>dom_root := v\<rparr>, [])
      else let p = hd (dom_refs d) in
        case get_ref p (dom_root d) of
          JArr js \<Rightarrow> (d\<lparr>dom_root := put_ref p (JArr (js @ [v])) (dom_root d)\<rparr>, p @ [Elem (length js)])
        | _ \<Rightarrow> (d\<lparr>dom_root := put_ref (dom_element d) v (dom_root d)\<rparr>, dom_element d))"

definition start_container :: "json \<Rightarrow> dom \<Rightarrow> dom" where
  "start_container v d = (case handle_value v d of (d, p) \<Rightarrow> d\<lparr>dom_refs := p # dom_refs d\<rparr>)"

definition start_object :: "dom \<Rightarrow> dom" where "start_object d = start_container (JObj []) d"

definition start_array :: "dom \<Rightarrow> dom" where "start_array d = start_container (JArr []) d"

text \<open>\<open>operator[]\<close> of the map adds null where the key is missing.\<close>

definition dom_key :: "byte list \<Rightarrow> dom \<Rightarrow> dom" where
  "dom_key k d =
     (let p = hd (dom_refs d) in
      case get_ref p (dom_root d) of
        JObj kvs \<Rightarrow>
          d\<lparr>dom_root := (if map_of kvs k = None then put_ref p (JObj (insert_key k JNull kvs)) (dom_root d) else dom_root d),
            dom_element := p @ [Member k]\<rparr>
      | _ \<Rightarrow> d)"

definition end_container :: "dom \<Rightarrow> dom" where
  "end_container d = d\<lparr>dom_refs := tl (dom_refs d)\<rparr>"

section \<open>Errors\<close>

record parser =
  pr_token :: token_type
  pr_lexer :: lexer
  pr_dom :: dom
  pr_states :: "bool list"
  pr_skip :: bool

definition position_string :: "lexer \<Rightarrow> byte list" where
  "position_string s = cstr '' at line '' @ dec_nat (lx_lines s + 1) @ cstr '', column '' @ dec_nat (lx_column s)"

definition exception_message :: "token_type \<Rightarrow> string \<Rightarrow> parser \<Rightarrow> byte list" where
  "exception_message expected ctxt p =
     cstr ''syntax error '' @ (if ctxt \<noteq> [] then cstr ''while parsing '' @ cstr ctxt @ cstr '' '' else []) @ cstr ''- ''
     @ (if pr_token p = T_parse_error
        then lx_error (pr_lexer p) @ cstr ''; last read: '' @ [0x27] @ get_token_string (pr_lexer p) @ [0x27]
        else cstr ''unexpected '' @ token_type_name (pr_token p))
     @ (if expected \<noteq> T_uninitialized then cstr ''; expected '' @ token_type_name expected else [])"

text \<open>The constructor of the exception takes the text as a C string.\<close>

definition syntax_error :: "token_type \<Rightarrow> string \<Rightarrow> parser \<Rightarrow> json_exn" where
  "syntax_error expected ctxt p =
     Parse_error (c_str (cstr ''[json.exception.parse_error.101] parse error'' @ position_string (pr_lexer p) @ cstr '': ''
       @ exception_message expected ctxt p))"

section \<open>The parser\<close>

definition get_token :: "(byte list \<Rightarrow> u64) \<Rightarrow> parser \<Rightarrow> parser" where
  "get_token strtod p = (case scan strtod (pr_lexer p) of (s, t) \<Rightarrow> p\<lparr>pr_lexer := s, pr_token := t\<rparr>)"

definition on_dom :: "(dom \<Rightarrow> dom) \<Rightarrow> parser \<Rightarrow> parser" where
  "on_dom f p = p\<lparr>pr_dom := f (pr_dom p)\<rparr>"

text \<open>The key of a member and the separator after it; the token of the key has been read.\<close>

definition parse_key :: "(byte list \<Rightarrow> u64) \<Rightarrow> parser \<Rightarrow> parser throwing" where
  "parse_key strtod p =
     (if pr_token p \<noteq> T_value_string then Inl (syntax_error T_value_string ''object key'' p)
      else let p = get_token strtod (on_dom (dom_key (lx_token_buffer (pr_lexer p))) p) in
      if pr_token p \<noteq> T_name_separator then Inl (syntax_error T_name_separator ''object separator'' p)
      else Inr p)"

text \<open>
  The switch on the last token: the result is true for \<open>continue\<close> and false for \<open>break\<close>.
\<close>

definition sax_value :: "(byte list \<Rightarrow> u64) \<Rightarrow> parser \<Rightarrow> (parser \<times> bool) throwing" where
  "sax_value strtod p =
     (let break_with = (\<lambda>v. Inr (on_dom (fst \<circ> handle_value v) p, False)) in
      case pr_token p of
        T_begin_object \<Rightarrow>
          (let p = get_token strtod (on_dom start_object p) in
           if pr_token p = T_end_object then Inr (on_dom end_container p, False)
           else then_try (parse_key strtod p) (\<lambda>p. Inr (get_token strtod (p\<lparr>pr_states := False # pr_states p\<rparr>), True)))
      | T_begin_array \<Rightarrow>
          (let p = get_token strtod (on_dom start_array p) in
           if pr_token p = T_end_array then Inr (on_dom end_container p, False)
           else Inr (p\<lparr>pr_states := True # pr_states p\<rparr>, True))
      | T_value_float \<Rightarrow>
          (if \<not> isfinite (lx_float (pr_lexer p)) then Inl (Out_of_range 406)
           else break_with (JFloat (lx_float (pr_lexer p))))
      | T_literal_false \<Rightarrow> break_with (JBool False)
      | T_literal_null \<Rightarrow> break_with JNull
      | T_literal_true \<Rightarrow> break_with (JBool True)
      | T_value_integer \<Rightarrow> break_with (JInt (sint (lx_integer (pr_lexer p))))
      | T_value_string \<Rightarrow> break_with (JStr (lx_token_buffer (pr_lexer p)))
      | T_value_unsigned \<Rightarrow> break_with (JInt (uint (lx_unsigned (pr_lexer p))))
      | T_parse_error \<Rightarrow> Inl (syntax_error T_uninitialized ''value'' p)
      | _ \<Rightarrow> Inl (syntax_error T_literal_or_value ''value'' p))"

text \<open>What follows a value: the result is true for \<open>continue\<close> and false for \<open>return true\<close>.\<close>

definition sax_state :: "(byte list \<Rightarrow> u64) \<Rightarrow> parser \<Rightarrow> (parser \<times> bool) throwing" where
  "sax_state strtod p =
     (case pr_states p of
        [] \<Rightarrow> Inr (p, False)
      | True # states \<Rightarrow>
          (let p = get_token strtod p in
           if pr_token p = T_value_separator then Inr (get_token strtod p, True)
           else if pr_token p = T_end_array then Inr (on_dom end_container (p\<lparr>pr_states := states, pr_skip := True\<rparr>), True)
           else Inl (syntax_error T_end_array ''array'' p))
      | False # states \<Rightarrow>
          (let p = get_token strtod p in
           if pr_token p = T_value_separator then
             then_try (parse_key strtod (get_token strtod p)) (\<lambda>p. Inr (get_token strtod p, True))
           else if pr_token p = T_end_object then Inr (on_dom end_container (p\<lparr>pr_states := states, pr_skip := True\<rparr>), True)
           else Inl (syntax_error T_end_object ''object'' p)))"

definition sax_step :: "(byte list \<Rightarrow> u64) \<Rightarrow> parser \<Rightarrow> (parser \<times> bool) throwing" where
  "sax_step strtod p =
     (if \<not> pr_skip p then
        then_try (sax_value strtod p) (\<lambda>(p, continue). if continue then Inr (p, True) else sax_state strtod p)
      else sax_state strtod (p\<lparr>pr_skip := False\<rparr>))"

text \<open>The input still to come, and the token that is being looked at, get less with each iteration.\<close>

definition left :: "parser \<Rightarrow> nat" where
  "left p = 2 * length (pending (pr_lexer p)) + of_bool (real_token (pr_token p))"

lemma on_dom_simps [simp]:
  "pr_lexer (on_dom f p) = pr_lexer p" "pr_token (on_dom f p) = pr_token p" "pr_states (on_dom f p) = pr_states p"
  "pr_skip (on_dom f p) = pr_skip p" "pr_dom (on_dom f p) = f (pr_dom p)"
  by (simp_all add: on_dom_def)

lemma get_token_simps [simp]:
  "pr_dom (get_token strtod p) = pr_dom p" "pr_states (get_token strtod p) = pr_states p" "pr_skip (get_token strtod p) = pr_skip p"
  "pr_lexer (get_token strtod p) = fst (scan strtod (pr_lexer p))" "pr_token (get_token strtod p) = snd (scan strtod (pr_lexer p))"
  by (simp_all add: get_token_def split: prod.split)

abbreviation ahead :: "parser \<Rightarrow> nat" where
  "ahead p \<equiv> length (pending (pr_lexer p))"

lemma get_token_takes:
  "ahead (get_token strtod p) \<le> ahead p"
  "real_token (pr_token (get_token strtod p)) \<Longrightarrow> ahead (get_token strtod p) < ahead p"
  using scan_takes [OF prod.collapse [symmetric], of strtod "pr_lexer p"] by simp_all

lemma get_token_left: "left (get_token strtod p) \<le> 2 * ahead p"
  using get_token_takes [of strtod p]
  by (cases "real_token (pr_token (get_token strtod p))") (simp_all add: left_def del: get_token_simps(4,5))

lemma real_tokens: "real_token T_name_separator" "real_token T_value_separator" "real_token T_end_array" "real_token T_end_object"
    "real_token T_begin_array" "real_token T_begin_object" "real_token T_value_string"
  by (simp_all add: real_token_def)

lemma parse_key_takes:
  assumes "parse_key strtod p = Inr p'"
  shows "ahead p' < ahead p" and "pr_states p' = pr_states p" and "pr_skip p' = pr_skip p"
proof -
  let ?p = "get_token strtod (on_dom (dom_key (lx_token_buffer (pr_lexer p))) p)"
  have p: "p' = ?p" "pr_token ?p = T_name_separator"
    using assms by (simp_all add: parse_key_def Let_def del: get_token_simps split: if_splits)
  show "ahead p' < ahead p"
    using get_token_takes(2) [of strtod "on_dom (dom_key (lx_token_buffer (pr_lexer p))) p"] p real_tokens
    by (simp del: get_token_simps(4,5))
  show "pr_states p' = pr_states p" "pr_skip p' = pr_skip p" unfolding p(1) by simp_all
qed

lemma sax_value_left:
  assumes "sax_value strtod p = Inr (p', True)"
  shows "left p' < left p"
proof -
  let ?o = "get_token strtod (on_dom start_object p)" and ?a = "get_token strtod (on_dom start_array p)"
  consider (object) p1 where "pr_token p = T_begin_object" "parse_key strtod ?o = Inr p1"
      "p' = get_token strtod (p1\<lparr>pr_states := False # pr_states p1\<rparr>)"
    | (array) "pr_token p = T_begin_array" "p' = ?a\<lparr>pr_states := True # pr_states ?a\<rparr>"
    using assms
    by (cases "pr_token p") (auto simp: sax_value_def Let_def simp del: get_token_simps split: if_splits)
  then show ?thesis
  proof cases
    case object
    have "left p' \<le> 2 * ahead p1" using get_token_left [of strtod "p1\<lparr>pr_states := False # pr_states p1\<rparr>"] object(3) by simp
    also have "\<dots> < 2 * ahead ?o" using parse_key_takes(1) [OF object(2)] by (simp del: get_token_simps(4,5))
    also have "\<dots> \<le> 2 * ahead p" using get_token_takes(1) [of strtod "on_dom start_object p"] by (simp del: get_token_simps(4,5))
    finally show ?thesis by (simp add: left_def)
  next
    case array
    have "left ?a \<le> 2 * ahead p" using get_token_left [of strtod "on_dom start_array p"] by (simp del: get_token_simps(4,5))
    also have "\<dots> < left p" using array(1) real_tokens by (simp add: left_def)
    finally show ?thesis using array(2) by (simp add: left_def)
  qed
qed

lemma sax_value_break: "sax_value strtod p = Inr (p', False) \<Longrightarrow> ahead p' \<le> ahead p"
  using get_token_takes(1) [of strtod "on_dom start_object p"] get_token_takes(1) [of strtod "on_dom start_array p"]
  by (cases "pr_token p") (auto simp: sax_value_def Let_def simp del: get_token_simps split: if_splits)

lemma sax_state_left:
  assumes "sax_state strtod p = Inr (p', True)"
  shows "left p' < 2 * ahead p"
proof -
  let ?p = "get_token strtod p"
  obtain state states where states: "pr_states p = state # states"
    using assms by (cases "pr_states p") (auto simp: sax_state_def)
  have real: "real_token (pr_token ?p)"
    using assms states real_tokens by (cases state) (auto simp: sax_state_def Let_def simp del: get_token_simps split: if_splits)
  note less = get_token_takes(2) [OF this]
  consider (element) "p' = get_token strtod ?p"
    | (member) p1 where "parse_key strtod (get_token strtod ?p) = Inr p1" "p' = get_token strtod p1"
    | (close) "p' = on_dom end_container (?p\<lparr>pr_states := states, pr_skip := True\<rparr>)"
    using assms states by (cases state) (auto simp: sax_state_def Let_def simp del: get_token_simps split: if_splits)
  then show ?thesis
  proof cases
    case element
    show ?thesis unfolding element using get_token_left [of strtod ?p] less by linarith
  next
    case member
    show ?thesis unfolding member(2)
      using get_token_left [of strtod p1] parse_key_takes(1) [OF member(1)] get_token_takes(1) [of strtod ?p] less by linarith
  next
    case close
    then show ?thesis using less real by (simp add: left_def del: get_token_simps(4,5))
  qed
qed

lemma sax_step_left:
  assumes "sax_step strtod p = Inr (p', True)"
  shows "left p' < left p"
proof (cases "pr_skip p")
  case True
  then have "left p' < 2 * ahead p"
    using assms sax_state_left [of strtod "p\<lparr>pr_skip := False\<rparr>" p'] by (simp add: sax_step_def)
  then show ?thesis by (simp add: left_def)
next
  case False
  then obtain p1 continue where p1: "sax_value strtod p = Inr (p1, continue)"
      "(if continue then Inr (p1, True) else sax_state strtod p1) = Inr (p', True)"
    using assms by (auto simp: sax_step_def split: prod.splits)
  show ?thesis
  proof (cases continue)
    case True
    with p1 show ?thesis using sax_value_left [of strtod p p1] by simp
  next
    case False
    with p1 have "left p' < 2 * ahead p1" "ahead p1 \<le> ahead p"
      using sax_state_left [of strtod p1 p'] sax_value_break [of strtod p p1] by simp_all
    then show ?thesis by (simp add: left_def)
  qed
qed

function sax_parse_internal :: "(byte list \<Rightarrow> u64) \<Rightarrow> parser \<Rightarrow> parser throwing" where
  "sax_parse_internal strtod p =
     (case sax_step strtod p of
        Inl e \<Rightarrow> Inl e
      | Inr (p, continue) \<Rightarrow> if continue then sax_parse_internal strtod p else Inr p)"
  by pat_completeness auto
termination
  by (relation "measure (left \<circ> snd)") (auto dest: sax_step_left)

declare sax_parse_internal.simps [simp del]

definition parser_init :: "(byte list \<Rightarrow> u64) \<Rightarrow> byte list \<Rightarrow> parser" where
  "parser_init strtod input =
     get_token strtod
       \<lparr>pr_token = T_uninitialized, pr_lexer = lexer_init input,
        pr_dom = \<lparr>dom_root = JNull, dom_refs = [], dom_element = []\<rparr>, pr_states = [], pr_skip = False\<rparr>"

definition parse_text :: "(byte list \<Rightarrow> u64) \<Rightarrow> byte list \<Rightarrow> json throwing" where
  "parse_text strtod input =
     then_try (sax_parse_internal strtod (parser_init strtod input)) (\<lambda>p.
       let p = get_token strtod p in
       if pr_token p \<noteq> T_end_of_input then Inl (syntax_error T_end_of_input ''value'' p)
       else Inr (dom_root (pr_dom p)))"

section \<open>Parsed values are UTF-8\<close>

definition ref_utf8 :: "json_ref \<Rightarrow> bool" where
  "ref_utf8 p \<longleftrightarrow> (\<forall>k. Member k \<in> set p \<longrightarrow> utf8 k)"

lemma json_utf8_simps [simp]:
  "json_utf8 (JArr js) \<longleftrightarrow> (\<forall>j \<in> set js. json_utf8 j)"
  "json_utf8 (JObj kvs) \<longleftrightarrow> (\<forall>(k, j) \<in> set kvs. utf8 k \<and> json_utf8 j)"
  by (auto simp: list_all_iff)

declare json_utf8.simps(6,7) [simp del]

lemma get_ref_utf8: "json_utf8 j \<Longrightarrow> json_utf8 (get_ref p j)"
proof (induction p arbitrary: j)
  case (Cons s p)
  then show ?case
    by (cases s; cases j) (auto split: option.split dest!: map_of_SomeD)
qed simp

lemma set_insert_key: "set (insert_key k v kvs) \<subseteq> insert (k, v) (set kvs)"
  by (induction k v kvs rule: insert_key.induct) auto

lemma insert_key_utf8: "utf8 k \<Longrightarrow> json_utf8 v \<Longrightarrow> json_utf8 (JObj kvs) \<Longrightarrow> json_utf8 (JObj (insert_key k v kvs))"
  using set_insert_key [of k v kvs] by auto

lemma put_ref_utf8: "ref_utf8 p \<Longrightarrow> json_utf8 v \<Longrightarrow> json_utf8 j \<Longrightarrow> json_utf8 (put_ref p v j)"
proof (induction p arbitrary: j)
  case (Cons s p)
  have p: "ref_utf8 p" and s: "\<And>k. s = Member k \<Longrightarrow> utf8 k" using Cons.prems(1) by (auto simp: ref_utf8_def)
  show ?case
  proof (cases s)
    case (Elem i)
    show ?thesis
    proof (cases j)
      case (JArr js)
      have "json_utf8 (put_ref p v (js ! i))" if "i < length js" using Cons.IH [OF p Cons.prems(2)] Cons.prems(3) JArr that by simp
      then show ?thesis using Cons.prems(3) JArr Elem
        by (cases "i < length js") (auto simp: list_update_beyond dest!: set_update_subset_insert [THEN subsetD])
    qed (use Elem Cons.prems in simp_all)
  next
    case (Member k)
    show ?thesis
    proof (cases j)
      case (JObj kvs)
      show ?thesis
      proof (cases "map_of kvs k")
        case (Some j')
        then have "json_utf8 j'" using Cons.prems(3) JObj by (auto dest: map_of_SomeD)
        with insert_key_utf8 [of k "put_ref p v j'" kvs] s [OF Member] Cons.IH [OF p Cons.prems(2)] Cons.prems(3) JObj Member Some
        show ?thesis by simp
      qed (use JObj Member Cons.prems in simp)
    qed (use Member Cons.prems in simp_all)
  qed
qed simp

definition dom_utf8 :: "dom \<Rightarrow> bool" where
  "dom_utf8 d \<longleftrightarrow> json_utf8 (dom_root d) \<and> (\<forall>p \<in> set (dom_refs d). ref_utf8 p) \<and> ref_utf8 (dom_element d)"

lemma handle_value_utf8:
  assumes "dom_utf8 d" "json_utf8 v"
  shows "dom_utf8 (fst (handle_value v d))" and "ref_utf8 (snd (handle_value v d))"
proof -
  have array: "json_utf8 (put_ref (hd (dom_refs d)) (JArr (js @ [v])) (dom_root d)) \<and> ref_utf8 (hd (dom_refs d) @ [Elem n])"
    if "dom_refs d \<noteq> []" "get_ref (hd (dom_refs d)) (dom_root d) = JArr js" for js n
  proof -
    have "ref_utf8 (hd (dom_refs d))" using assms(1) that(1) by (simp add: dom_utf8_def)
    moreover have "json_utf8 (JArr js)" using get_ref_utf8 [of "dom_root d"] that(2) assms(1) by (metis dom_utf8_def)
    then have "json_utf8 (JArr (js @ [v]))" using assms(2) by auto
    ultimately show ?thesis using assms(1) by (auto simp: dom_utf8_def ref_utf8_def intro!: put_ref_utf8)
  qed
  have other: "json_utf8 (put_ref (dom_element d) v (dom_root d))"
    using assms by (auto simp: dom_utf8_def intro!: put_ref_utf8)
  show "dom_utf8 (fst (handle_value v d))"
    using array other assms by (auto simp: handle_value_def dom_utf8_def Let_def split: json.split)
  show "ref_utf8 (snd (handle_value v d))"
    using array assms by (auto simp: handle_value_def dom_utf8_def Let_def ref_utf8_def [of "[]"] split: json.split)
qed

lemma start_container_utf8: "dom_utf8 d \<Longrightarrow> json_utf8 v \<Longrightarrow> dom_utf8 (start_container v d)"
  using handle_value_utf8 [of d v] by (auto simp: start_container_def dom_utf8_def split: prod.splits)

lemma dom_key_utf8:
  assumes "dom_utf8 d" "dom_refs d \<noteq> []" "utf8 k"
  shows "dom_utf8 (dom_key k d)"
proof -
  have r: "ref_utf8 (hd (dom_refs d))" using assms(1,2) by (simp add: dom_utf8_def)
  have "json_utf8 (JObj kvs)" if "get_ref (hd (dom_refs d)) (dom_root d) = JObj kvs" for kvs
    using get_ref_utf8 [of "dom_root d"] that assms(1) by (metis dom_utf8_def)
  then have "json_utf8 (put_ref (hd (dom_refs d)) (JObj (insert_key k JNull kvs)) (dom_root d))"
    if "get_ref (hd (dom_refs d)) (dom_root d) = JObj kvs" for kvs
    using r that assms(1,3) by (intro put_ref_utf8 insert_key_utf8) (auto simp: dom_utf8_def)
  with r show ?thesis using assms(1,3)
    by (auto simp: dom_key_def dom_utf8_def ref_utf8_def Let_def split: json.split)
qed

lemma end_container_utf8: "dom_utf8 d \<Longrightarrow> dom_utf8 (end_container d)"
  by (cases "dom_refs d") (auto simp: end_container_def dom_utf8_def)

text \<open>The invariant of the loop; the two stacks have the same height.\<close>

definition pr_inv :: "nat \<Rightarrow> parser \<Rightarrow> bool" where
  "pr_inv n p \<longleftrightarrow> dom_utf8 (pr_dom p) \<and> (pr_token p = T_value_string \<longrightarrow> utf8 (lx_token_buffer (pr_lexer p)))
     \<and> length (dom_refs (pr_dom p)) = n"

lemma pr_inv_simps [simp]:
  "pr_inv n (p\<lparr>pr_states := st\<rparr>) = pr_inv n p" "pr_inv n (p\<lparr>pr_skip := b\<rparr>) = pr_inv n p"
  by (simp_all add: pr_inv_def)

lemma get_token_inv: "pr_inv n p \<Longrightarrow> pr_inv n (get_token strtod p)"
  using scan_utf8 [of strtod "pr_lexer p" "fst (scan strtod (pr_lexer p))"]
  by (cases "scan strtod (pr_lexer p)") (simp add: pr_inv_def)

lemma refs_simps [simp]:
  "dom_refs (fst (handle_value v d)) = dom_refs d" "dom_refs (dom_key k d) = dom_refs d"
  "dom_refs (end_container d) = tl (dom_refs d)" "length (dom_refs (start_container v d)) = Suc (length (dom_refs d))"
  by (simp_all add: handle_value_def dom_key_def end_container_def start_container_def Let_def split: json.split)

lemma parse_key_inv:
  assumes "parse_key strtod p = Inr p'" "pr_inv (Suc n) p"
  shows "pr_inv (Suc n) p'"
proof -
  let ?k = "lx_token_buffer (pr_lexer p)"
  have "pr_token p = T_value_string" "p' = get_token strtod (on_dom (dom_key ?k) p)"
    using assms(1) by (simp_all add: parse_key_def Let_def del: get_token_simps split: if_splits)
  moreover from this assms(2) have "dom_utf8 (dom_key ?k (pr_dom p))" by (auto simp: pr_inv_def intro!: dom_key_utf8)
  then have "pr_inv (Suc n) (on_dom (dom_key ?k) p)" using assms(2) by (simp add: pr_inv_def)
  ultimately show ?thesis by (simp add: get_token_inv del: get_token_simps)
qed

lemma on_dom_inv:
  "pr_inv n p \<Longrightarrow> json_utf8 v \<Longrightarrow> pr_inv n (on_dom (fst \<circ> handle_value v) p)"
  "pr_inv n p \<Longrightarrow> pr_inv (Suc n) (on_dom start_object p)" "pr_inv n p \<Longrightarrow> pr_inv (Suc n) (on_dom start_array p)"
  "pr_inv (Suc n) p \<Longrightarrow> pr_inv n (on_dom end_container p)"
  by (simp_all add: pr_inv_def handle_value_utf8 start_container_utf8 end_container_utf8 start_object_def start_array_def)

lemma sax_value_inv:
  assumes "sax_value strtod p = Inr (p', c)" "pr_inv (length (pr_states p)) p"
  shows "pr_inv (length (pr_states p')) p'"
proof -
  let ?n = "length (pr_states p)" and ?o = "get_token strtod (on_dom start_object p)" and ?a = "get_token strtod (on_dom start_array p)"
  have o: "pr_inv (Suc ?n) ?o" and a: "pr_inv (Suc ?n) ?a" by (intro get_token_inv on_dom_inv assms(2))+
  consider (scalar) v where "p' = on_dom (fst \<circ> handle_value v) p" "json_utf8 v"
    | (empty) "p' = on_dom end_container ?o \<or> p' = on_dom end_container ?a"
    | (object) p1 where "parse_key strtod ?o = Inr p1" "p' = get_token strtod (p1\<lparr>pr_states := False # pr_states p1\<rparr>)"
    | (array) "p' = ?a\<lparr>pr_states := True # pr_states ?a\<rparr>"
    using assms unfolding pr_inv_def
    by (cases "pr_token p") (auto simp: sax_value_def Let_def simp del: get_token_simps split: if_splits)
  then show ?thesis
  proof cases
    case scalar
    then show ?thesis using on_dom_inv(1) [OF assms(2)] by simp
  next
    case empty
    then show ?thesis using on_dom_inv(4) [OF o] on_dom_inv(4) [OF a] by auto
  next
    case object
    have "pr_inv (Suc ?n) p1" by (rule parse_key_inv [OF object(1) o])
    moreover have "pr_states p1 = pr_states p" using parse_key_takes(2) [OF object(1)] by simp
    ultimately show ?thesis unfolding object(2) by (simp add: get_token_inv del: get_token_simps(1,3-5))
  next
    case array
    then show ?thesis using a by simp
  qed
qed

lemma sax_state_inv:
  assumes "sax_state strtod p = Inr (p', c)" "pr_inv (length (pr_states p)) p"
  shows "pr_inv (length (pr_states p')) p'"
proof -
  let ?p = "get_token strtod p"
  have p: "pr_inv (length (pr_states p)) ?p" by (rule get_token_inv [OF assms(2)])
  consider (finished) "p' = p" | (element) "p' = get_token strtod ?p"
    | (member) states p1 where "pr_states p = False # states" "parse_key strtod (get_token strtod ?p) = Inr p1" "p' = get_token strtod p1"
    | (close) state states where "pr_states p = state # states" "p' = on_dom end_container (?p\<lparr>pr_states := states, pr_skip := True\<rparr>)"
    using assms(1)
    by (cases "pr_states p"; cases "hd (pr_states p)") (auto simp: sax_state_def Let_def simp del: get_token_simps split: if_splits)
  then show ?thesis
  proof cases
    case member
    have "pr_inv (Suc (length states)) (get_token strtod ?p)" using get_token_inv [OF p] member(1) by simp
    note parse_key_inv [OF member(2) this]
    moreover have "pr_states p1 = False # states" using parse_key_takes(2) [OF member(2)] member(1) by simp
    ultimately show ?thesis unfolding member(3) by (simp add: get_token_inv del: get_token_simps(1,3-5))
  next
    case close
    have "pr_inv (Suc (length states)) ?p" using p close(1) by simp
    then have "pr_inv (Suc (length states)) (?p\<lparr>pr_states := states, pr_skip := True\<rparr>)" by simp
    from on_dom_inv(4) [OF this] show ?thesis unfolding close(2) by simp
  qed (use p assms(2) get_token_inv [OF p] in \<open>simp_all del: get_token_simps(1,3-5)\<close>)
qed

lemma sax_parse_internal_inv:
  "sax_parse_internal strtod p = Inr p' \<Longrightarrow> pr_inv (length (pr_states p)) p \<Longrightarrow> pr_inv (length (pr_states p')) p'"
proof (induction strtod p rule: sax_parse_internal.induct)
  case (1 strtod p)
  obtain p1 c where step: "sax_step strtod p = Inr (p1, c)" "(if c then sax_parse_internal strtod p1 else Inr p1) = Inr p'"
    using "1.prems"(1) by (auto simp: sax_parse_internal.simps [of _ p] split: sum.splits prod.splits)
  have "pr_inv (length (pr_states p1)) p1"
    using step(1) "1.prems"(2) sax_value_inv [of strtod p] sax_state_inv [of strtod _ p1 c]
      sax_state_inv [of strtod "p\<lparr>pr_skip := False\<rparr>" p1 c]
    by (auto simp: sax_step_def split: if_splits prod.splits)
  with "1.IH" [OF step(1) refl] step(2) show ?case by (cases c) simp_all
qed

lemma parse_text_utf8: "parse_text strtod t = Inr j \<Longrightarrow> json_utf8 j"
proof -
  assume "parse_text strtod t = Inr j"
  then obtain p where p: "sax_parse_internal strtod (parser_init strtod t) = Inr p" "j = dom_root (pr_dom p)"
    by (auto simp: parse_text_def Let_def split: if_splits)
  have "pr_inv 0 (parser_init strtod t)" unfolding parser_init_def
    by (rule get_token_inv) (simp add: pr_inv_def dom_utf8_def ref_utf8_def)
  moreover have "length (pr_states (parser_init strtod t)) = 0" by (simp add: parser_init_def)
  ultimately have "pr_inv (length (pr_states p)) p" using sax_parse_internal_inv [OF p(1)] by simp
  then show ?thesis using p(2) by (simp add: pr_inv_def dom_utf8_def)
qed

end
