(* ===== verification/Json_Grammar.thy ===== *)
theory Json_Grammar
  imports Json_Lexer
begin

text \<open>
  The grammar of RFC 8259 with the value of each text, as a reference for the scanner and the
  parser: strings with their escapes and UTF-8 (RFC 3629), numbers, arrays, objects, white space.
  Where the standard leaves a choice it is the one that
  \<open>src/ext/json-3.11.2/single_include/nlohmann/json.hpp\<close> documents: a surrogate that is not part
  of a pair is an error, the last of equal keys of an object counts, a byte order mark may come
  first, and a byte 0 ends the text. Nothing here refers to how the code reads a text. The
  definitions are a specification and no code of the repository is translated in this theory.
\<close>

section \<open>Strings and numbers of RFC 8259\<close>

text \<open>A code point in UTF-8, and the characters of more than one byte (RFC 3629).\<close>

definition utf8_of :: "nat \<Rightarrow> byte list" where
  "utf8_of n =
     map word_of_nat
       (if n < 0x80 then [n]
        else if n < 0x800 then [0xC0 + n div 64, 0x80 + n mod 64]
        else if n < 0x10000 then [0xE0 + n div 4096, 0x80 + n div 64 mod 64, 0x80 + n mod 64]
        else [0xF0 + n div 2 ^ 18, 0x80 + n div 4096 mod 64, 0x80 + n div 64 mod 64, 0x80 + n mod 64])"

definition utf8_multibyte :: "byte list \<Rightarrow> bool" where
  "utf8_multibyte c \<longleftrightarrow>
     (case c of
        [a, b] \<Rightarrow> 0xC2 \<le> a \<and> a \<le> 0xDF \<and> utf8_tail b
      | [a, b, d] \<Rightarrow> utf8_lead3 a b \<and> utf8_tail d
      | [a, b, d, e] \<Rightarrow> utf8_lead4 a b \<and> utf8_tail d \<and> utf8_tail e
      | _ \<Rightarrow> False)"

definition hex4_value :: "byte list \<Rightarrow> nat option" where
  "hex4_value h =
     (case map char_to_hex h of
        [Some a, Some b, Some c, Some d] \<Rightarrow> Some (4096 * unat a + 256 * unat b + 16 * unat c + unat d)
      | _ \<Rightarrow> None)"

text \<open>The text of one character of a string, and the bytes it stands for.\<close>

inductive json_char :: "byte list \<Rightarrow> byte list \<Rightarrow> bool" where
  plain: "0x20 \<le> b \<Longrightarrow> b \<le> 0x7F \<Longrightarrow> b \<noteq> 0x22 \<Longrightarrow> b \<noteq> 0x5c \<Longrightarrow> json_char [b] [b]"
| multibyte: "utf8_multibyte c \<Longrightarrow> json_char c c"
| escape: "(e, b) \<in> {(0x22, 0x22), (0x5c, 0x5c), (0x2f, 0x2f), (0x62, 0x08), (0x66, 0x0c), (0x6e, 0x0a), (0x72, 0x0d), (0x74, 0x09)} \<Longrightarrow>
    json_char [0x5c, e] [b]"
| unicode: "hex4_value h = Some n \<Longrightarrow> n < 0xD800 \<or> 0xDFFF < n \<Longrightarrow> json_char (0x5c # 0x75 # h) (utf8_of n)"
| surrogates: "hex4_value h = Some m \<Longrightarrow> 0xD800 \<le> m \<Longrightarrow> m \<le> 0xDBFF \<Longrightarrow>
    hex4_value h' = Some n \<Longrightarrow> 0xDC00 \<le> n \<Longrightarrow> n \<le> 0xDFFF \<Longrightarrow>
    json_char (0x5c # 0x75 # h @ 0x5c # 0x75 # h') (utf8_of (0x10000 + (m - 0xD800) * 0x400 + (n - 0xDC00)))"

inductive json_chars :: "byte list \<Rightarrow> byte list \<Rightarrow> bool" where
  nil: "json_chars [] []"
| cons: "json_char c v \<Longrightarrow> json_chars t w \<Longrightarrow> json_chars (c @ t) (v @ w)"

definition digits :: "byte list \<Rightarrow> bool" where
  "digits ds \<longleftrightarrow> (\<forall>d \<in> set ds. is_digit_byte d)"

definition int_part :: "byte list \<Rightarrow> bool" where
  "int_part t \<longleftrightarrow> t = [0x30] \<or> (\<exists>d ds. t = d # ds \<and> d \<noteq> 0x30 \<and> digits t)"

definition frac_part :: "byte list \<Rightarrow> bool" where
  "frac_part t \<longleftrightarrow> t = [] \<or> (\<exists>ds. t = 0x2e # ds \<and> ds \<noteq> [] \<and> digits ds)"

definition exp_part :: "byte list \<Rightarrow> bool" where
  "exp_part t \<longleftrightarrow> t = [] \<or> (\<exists>e s ds. t = e # s @ ds \<and> e \<in> {0x65, 0x45} \<and> s \<in> {[], [0x2b], [0x2d]} \<and> ds \<noteq> [] \<and> digits ds)"

text \<open>
  A number stands for itself where it has neither fraction nor exponent and fits 64 bits, and
  otherwise for its conversion by the C library, which must be finite.
\<close>

definition json_number :: "(byte list \<Rightarrow> u64) \<Rightarrow> byte list \<Rightarrow> json \<Rightarrow> bool" where
  "json_number sd t v \<longleftrightarrow>
     (\<exists>m i f e. t = m @ i @ f @ e \<and> m \<in> {[], [0x2d]} \<and> int_part i \<and> frac_part f \<and> exp_part e \<and>
       (if f = [] \<and> e = [] \<and> m = [] \<and> undec i < 2 ^ 64 then v = JInt (int (undec i))
        else if f = [] \<and> e = [] \<and> m = [0x2d] \<and> undec i \<le> 2 ^ 63 then v = JInt (- int (undec i))
        else isfinite (sd t) \<and> v = JFloat (sd t)))"

section \<open>Values and texts\<close>

definition spaces :: "byte list \<Rightarrow> bool" where
  "spaces ws \<longleftrightarrow> (\<forall>c \<in> set ws. is_space (Some c))"

lemma spaces_simps [simp]:
  "spaces []" "spaces (c # ws) \<longleftrightarrow> is_space (Some c) \<and> spaces ws" "spaces (ws @ ws') \<longleftrightarrow> spaces ws \<and> spaces ws'"
  "spaces (margin n)"
  by (auto simp: spaces_def margin_def is_space_def)

text \<open>Values of one token.\<close>

inductive json_scalar :: "(byte list \<Rightarrow> u64) \<Rightarrow> byte list \<Rightarrow> json \<Rightarrow> bool" for sd where
  null: "json_scalar sd (cstr ''null'') JNull"
| true: "json_scalar sd (cstr ''true'') (JBool True)"
| false: "json_scalar sd (cstr ''false'') (JBool False)"
| string: "json_chars t s \<Longrightarrow> json_scalar sd (0x22 # t @ [0x22]) (JStr s)"
| number: "json_number sd t v \<Longrightarrow> json_scalar sd t v"

text \<open>The members of an object are entered into a map in their order: the last of equal keys counts.\<close>

definition members_map :: "(byte list \<times> json) list \<Rightarrow> (byte list \<times> json) list \<Rightarrow> (byte list \<times> json) list" where
  "members_map kvs0 kvs = fold (\<lambda>(k, v). insert_key k v) kvs kvs0"

lemma members_map_simps [simp]:
  "members_map kvs0 [] = kvs0" "members_map kvs0 ((k, v) # kvs) = members_map (insert_key k v kvs0) kvs"
  by (simp_all add: members_map_def)

inductive json_value :: "(byte list \<Rightarrow> u64) \<Rightarrow> byte list \<Rightarrow> json \<Rightarrow> bool"
  and json_elements :: "(byte list \<Rightarrow> u64) \<Rightarrow> byte list \<Rightarrow> json list \<Rightarrow> bool"
  and json_members :: "(byte list \<Rightarrow> u64) \<Rightarrow> byte list \<Rightarrow> (byte list \<times> json) list \<Rightarrow> bool"
  for sd
where
  scalar: "json_scalar sd t v \<Longrightarrow> json_value sd t v"
| empty_array: "spaces ws \<Longrightarrow> json_value sd (0x5b # ws @ [0x5d]) (JArr [])"
| array: "json_elements sd t vs \<Longrightarrow> json_value sd (0x5b # t @ [0x5d]) (JArr vs)"
| empty_object: "spaces ws \<Longrightarrow> json_value sd (0x7b # ws @ [0x7d]) (JObj [])"
| object: "json_members sd t kvs \<Longrightarrow> json_value sd (0x7b # t @ [0x7d]) (JObj (members_map [] kvs))"
| last_element: "spaces ws \<Longrightarrow> json_value sd t v \<Longrightarrow> spaces ws' \<Longrightarrow> json_elements sd (ws @ t @ ws') [v]"
| more_elements: "spaces ws \<Longrightarrow> json_value sd t v \<Longrightarrow> spaces ws' \<Longrightarrow> json_elements sd ts vs \<Longrightarrow>
    json_elements sd (ws @ t @ ws' @ 0x2c # ts) (v # vs)"
| last_member: "spaces w1 \<Longrightarrow> json_chars k s \<Longrightarrow> spaces w2 \<Longrightarrow> spaces w3 \<Longrightarrow> json_value sd t v \<Longrightarrow> spaces w4 \<Longrightarrow>
    json_members sd (w1 @ 0x22 # k @ 0x22 # w2 @ 0x3a # w3 @ t @ w4) [(s, v)]"
| more_members: "spaces w1 \<Longrightarrow> json_chars k s \<Longrightarrow> spaces w2 \<Longrightarrow> spaces w3 \<Longrightarrow> json_value sd t v \<Longrightarrow> spaces w4 \<Longrightarrow>
    json_members sd ts kvs \<Longrightarrow>
    json_members sd (w1 @ 0x22 # k @ 0x22 # w2 @ 0x3a # w3 @ t @ w4 @ 0x2c # ts) ((s, v) # kvs)"

text \<open>The end of a text: white space, or a byte 0 and anything after it.\<close>

definition text_end :: "byte list \<Rightarrow> bool" where
  "text_end bs \<longleftrightarrow> (\<exists>ws r. spaces ws \<and> (bs = ws \<or> bs = ws @ 0 # r))"

text \<open>
  A value between white space, after an optional byte order mark and before the end of the text
  or a byte 0.
\<close>

definition byte_order_mark :: "byte list" where
  "byte_order_mark = [0xEF, 0xBB, 0xBF]"

definition json_text :: "(byte list \<Rightarrow> u64) \<Rightarrow> byte list \<Rightarrow> json \<Rightarrow> bool" where
  "json_text sd t v \<longleftrightarrow>
     (\<exists>m ws u bs. t = m @ ws @ u @ bs \<and> m \<in> {[], byte_order_mark} \<and> spaces ws \<and> json_value sd u v \<and> text_end bs)"

end
