(* ===== verification/Json_Strings.thy ===== *)
theory Json_Strings
  imports Json_Scan Json_Grammar
begin

text \<open>
  The scanner of strings accepts exactly the strings of the grammar in \<open>Json_Grammar\<close> and makes
  of them the bytes they stand for: completeness by induction over the grammar, soundness by
  induction over the loop. What the serialiser writes for a UTF-8 string is such a text.
\<close>

section \<open>Strings are scanned by the grammar\<close>

lemma multibyte_ranges:
  assumes "\<not> b \<le> 0x7F"
  shows "(\<exists>rs. following_ranges b = Some rs \<and> list_all2 in_range rs cs) \<longleftrightarrow> utf8_multibyte (b # cs)"
proof -
  consider "194 \<le> unat b" "unat b \<le> 223" | "unat b = 224" | "225 \<le> unat b" "unat b \<le> 236" | "unat b = 238"
    | "unat b = 239" | "unat b = 237" | "unat b = 240" | "241 \<le> unat b" "unat b \<le> 243" | "unat b = 244"
    | "127 < unat b" "unat b < 194" | "244 < unat b"
    using assms by (auto simp: word_le_nat_alt) linarith
  then show ?thesis
    unfolding following_ranges_unat utf8_multibyte_def
    by cases (auto simp: list_all2_Cons1 in_range_def utf8_lead_unat(1,2) utf8_tail_def
        word_le_nat_alt [of "0xC2" b] word_le_nat_alt [of b "0xDF"] split: list.splits)
qed

text \<open>Four hexadecimal digits.\<close>

lemma hex_digit_step:
  assumes "lx_at s (c # bs)"
  shows "codepoint_digits (f # fs) n s =
    (case char_to_hex c of Some v \<Rightarrow> codepoint_digits fs (n + push_bit f (uint v)) (lx_get s) | None \<Rightarrow> (lx_get s, - 1))"
proof -
  have at: "lx_current (lx_get s) = Some c" using get_at(1) [OF assms] by simp
  have sub: "0x30 \<le> c \<Longrightarrow> uint (c - 0x30) = uint c - 0x30" "0x41 \<le> c \<Longrightarrow> uint (c - 0x37) = uint c - 0x37"
      "0x61 \<le> c \<Longrightarrow> uint (c - 0x57) = uint c - 0x57"
  proof -
    have sub: "uint (c - k) = uint c - uint k" if "k \<le> c" for k
      using that by (rule iffD1 [OF uint_minus_simple_alt])
    have "0x41 \<le> c \<Longrightarrow> 0x37 \<le> c" "0x61 \<le> c \<Longrightarrow> 0x57 \<le> c" by (simp_all add: word_le_nat_alt)
    with sub [of "0x30"] sub [of "0x37"] sub [of "0x57"]
    show "0x30 \<le> c \<Longrightarrow> uint (c - 0x30) = uint c - 0x30" "0x41 \<le> c \<Longrightarrow> uint (c - 0x37) = uint c - 0x37"
      "0x61 \<le> c \<Longrightarrow> uint (c - 0x57) = uint c - 0x57"
      by simp_all
  qed
  have "\<not> (0x61 \<le> c \<and> c \<le> 0x46)" "\<not> (0x41 \<le> c \<and> c \<le> 0x39)" "\<not> (0x61 \<le> c \<and> c \<le> 0x39)"
    by (simp_all add: word_le_nat_alt)
  then show ?thesis
    using at sub by (auto simp: Let_def current_in_def to_char_def char_to_hex_def)
qed

lemma hex_digit_fail: "lx_at s [] \<Longrightarrow> codepoint_digits (f # fs) n s = (lx_get s, - 1)"
  using get_at(2) [of s] by (simp add: current_in_def Let_def)

text \<open>The four digits one after the other.\<close>

lemma codepoint_digits_hex:
  "lx_at s bs \<Longrightarrow>
     (\<exists>h r vs s'. bs = h @ r \<and> list_all2 (\<lambda>c v. char_to_hex c = Some v) h vs \<and> length h = length fs
        \<and> codepoint_digits fs n s = (s', n + (\<Sum>(f, v) \<leftarrow> zip fs vs. push_bit f (uint v))) \<and> lx_at s' r
        \<and> lx_token_buffer s' = lx_token_buffer s)
     \<or> (\<exists>s'. codepoint_digits fs n s = (s', - 1) \<and> \<not> (length fs \<le> length bs \<and> (\<forall>c \<in> set (take (length fs) bs). char_to_hex c \<noteq> None)))"
proof (induction fs arbitrary: n s bs)
  case Nil
  then show ?case by (intro disjI1 exI [of _ "[]"] exI [of _ bs] exI [of _ s]) simp
next
  case (Cons f fs)
  show ?case
  proof (cases bs)
    case Nil
    with Cons.prems hex_digit_fail show ?thesis by simp
  next
    case bs: (Cons c bs')
    note step = hex_digit_step [OF Cons.prems [unfolded bs], of f fs n]
    have at: "lx_at (lx_get s) bs'" using get_at(1) [OF Cons.prems [unfolded bs]] by simp
    show ?thesis
    proof (cases "char_to_hex c")
      case None
      then show ?thesis using step bs by (intro disjI2) simp
    next
      case (Some v)
      with step have step: "codepoint_digits (f # fs) n s = codepoint_digits fs (n + push_bit f (uint v)) (lx_get s)" by simp
      from Cons.IH [OF at, of "n + push_bit f (uint v)"] show ?thesis
      proof (elim disjE exE conjE)
        fix h r vs s'
        assume "bs' = h @ r" "list_all2 (\<lambda>c v. char_to_hex c = Some v) h vs" "length h = length fs"
          "codepoint_digits fs (n + push_bit f (uint v)) (lx_get s)
            = (s', n + push_bit f (uint v) + (\<Sum>(f, v) \<leftarrow> zip fs vs. push_bit f (uint v)))" "lx_at s' r"
          "lx_token_buffer s' = lx_token_buffer (lx_get s)"
        then show ?thesis using Some bs step
          by (intro disjI1 exI [of _ "c # h"] exI [of _ r] exI [of _ "v # vs"] exI [of _ s']) simp
      next
        fix s'
        assume "codepoint_digits fs (n + push_bit f (uint v)) (lx_get s) = (s', - 1)"
          "\<not> (length fs \<le> length bs' \<and> (\<forall>c \<in> set (take (length fs) bs'). char_to_hex c \<noteq> None))"
        then show ?thesis using Some bs step by (intro disjI2 exI [of _ s']) auto
      qed
    qed
  qed
qed

lemma hex4_value_length: "hex4_value h = Some n \<Longrightarrow> length h = 4"
  by (auto simp: hex4_value_def split: list.splits option.splits)

lemma hex4_value_digits: "hex4_value h = Some n \<Longrightarrow> \<forall>c \<in> set h. char_to_hex c \<noteq> None"
  by (auto simp: hex4_value_def split: list.splits option.splits)

lemma get_codepoint_hex:
  assumes "lx_at s bs"
  obtains (failed) s' where "get_codepoint s = (s', - 1)" "\<not> (\<exists>h r n. bs = h @ r \<and> hex4_value h = Some n)"
  | (hex) s' h n r where "bs = h @ r" "hex4_value h = Some n" "get_codepoint s = (s', int n)" "lx_at s' r"
      "lx_token_buffer s' = lx_token_buffer s"
  using codepoint_digits_hex [OF assms, of "[12, 8, 4, 0]" 0]
proof (elim disjE exE conjE)
  fix h r vs s'
  assume h: "bs = h @ r" "list_all2 (\<lambda>c v. char_to_hex c = Some v) h vs" "length h = length [12, 8, 4, 0 :: nat]"
    "codepoint_digits [12, 8, 4, 0] 0 s = (s', 0 + (\<Sum>(f, v) \<leftarrow> zip [12, 8, 4, 0] vs. push_bit f (uint v)))" "lx_at s' r"
    "lx_token_buffer s' = lx_token_buffer s"
  then obtain c1 c2 c3 c4 v1 v2 v3 v4 where v: "h = [c1, c2, c3, c4]" "vs = [v1, v2, v3, v4]"
      "char_to_hex c1 = Some v1" "char_to_hex c2 = Some v2" "char_to_hex c3 = Some v3" "char_to_hex c4 = Some v4"
    by (auto simp: length_Suc_conv list_all2_Cons1)
  have "hex4_value h = Some (4096 * unat v1 + 256 * unat v2 + 16 * unat v3 + unat v4)" using v by (simp add: hex4_value_def)
  moreover have "get_codepoint s = (s', int (4096 * unat v1 + 256 * unat v2 + 16 * unat v3 + unat v4))"
    using h(4) v(2) by (simp add: get_codepoint_def push_bit_eq_mult)
  ultimately show thesis using hex h by blast
next
  fix s'
  assume f: "codepoint_digits [12, 8, 4, 0] 0 s = (s', - 1)"
    "\<not> (length [12, 8, 4, 0 :: nat] \<le> length bs \<and> (\<forall>c \<in> set (take (length [12, 8, 4, 0 :: nat]) bs). char_to_hex c \<noteq> None))"
  have "\<not> (\<exists>h r n. bs = h @ r \<and> hex4_value h = Some n)"
  proof
    assume "\<exists>h r n. bs = h @ r \<and> hex4_value h = Some n"
    then obtain h r n where "bs = h @ r" "hex4_value h = Some n" by blast
    with f(2) hex4_value_length [of h n] hex4_value_digits [of h n] show False by simp
  qed
  with failed f(1) show thesis by (simp add: get_codepoint_def)
qed

lemma codepoint_bytes_utf8_of:
  assumes "n \<le> 0x10FFFF"
  shows "codepoint_bytes (int n) = utf8_of n"
proof -
  have nat: "word_of_int (int k) = (word_of_nat k :: byte)" for k by (rule of_int_of_nat_eq)
  have small: "n < 2 ^ 21" "n div 64 < 2 ^ 21" "n div 4096 < 2 ^ 21"
    using assms by (auto intro: order_le_less_trans [OF div_le_dividend])
  have tail: "word_of_int (0x80 OR (int x AND 0x3F)) = (word_of_nat (0x80 + x mod 64) :: byte)" if "x < 2 ^ 21" for x
    using codepoint_parts(1) [of "int x"] that nat [of "0x80 + x mod 64"] by (simp add: zmod_int)
  have lead: "n < 2 ^ 11 \<Longrightarrow> word_of_int (0xC0 OR drop_bit 6 (int n)) = (word_of_nat (0xC0 + n div 64) :: byte)"
      "n < 2 ^ 16 \<Longrightarrow> word_of_int (0xE0 OR drop_bit 12 (int n)) = (word_of_nat (0xE0 + n div 4096) :: byte)"
      "word_of_int (0xF0 OR drop_bit 18 (int n)) = (word_of_nat (0xF0 + n div 2 ^ 18) :: byte)"
    using codepoint_parts(2-4) [of "int n"] small(1) nat [of "0xC0 + n div 64"] nat [of "0xE0 + n div 4096"]
      nat [of "0xF0 + n div 2 ^ 18"]
    by (simp_all add: zdiv_int)
  have drop: "drop_bit 6 (int n) = int (n div 64)" "drop_bit 12 (int n) = int (n div 4096)"
    by (simp_all add: drop_bit_eq_div zdiv_int)
  note parts = lead tail [OF small(1)] tail [OF small(2)] tail [OF small(3)] drop
  consider "n < 0x80" | "0x80 \<le> n" "n < 0x800" | "0x800 \<le> n" "n < 0x10000" | "0x10000 \<le> n" by linarith
  then show ?thesis
  proof cases
    case 1
    then show ?thesis by (simp add: codepoint_bytes_def utf8_of_def)
  next
    case 2
    then have "codepoint_bytes (int n) =
        [word_of_int (0xC0 OR drop_bit 6 (int n)), word_of_int (0x80 OR (int n AND 0x3F))]"
      by (simp add: codepoint_bytes_def)
    with 2 parts show ?thesis by (simp add: utf8_of_def)
  next
    case 3
    then have "codepoint_bytes (int n) =
        [word_of_int (0xE0 OR drop_bit 12 (int n)), word_of_int (0x80 OR (drop_bit 6 (int n) AND 0x3F)),
         word_of_int (0x80 OR (int n AND 0x3F))]"
      by (simp add: codepoint_bytes_def)
    also have "\<dots> = [word_of_nat (0xE0 + n div 4096), word_of_nat (0x80 + n div 64 mod 64), word_of_nat (0x80 + n mod 64)]"
    proof -
      have "word_of_int (0xE0 OR drop_bit 12 (int n)) = (word_of_nat (0xE0 + n div 4096) :: byte)" using parts(2) 3 by simp
      then show ?thesis unfolding parts(7) by (simp only: parts(4,5))
    qed
    finally show ?thesis using 3 by (simp add: utf8_of_def)
  next
    case 4
    then have "codepoint_bytes (int n) =
        [word_of_int (0xF0 OR drop_bit 18 (int n)), word_of_int (0x80 OR (drop_bit 12 (int n) AND 0x3F)),
         word_of_int (0x80 OR (drop_bit 6 (int n) AND 0x3F)), word_of_int (0x80 OR (int n AND 0x3F))]"
      by (simp add: codepoint_bytes_def)
    also have "\<dots> = [word_of_nat (0xF0 + n div 2 ^ 18), word_of_nat (0x80 + n div 4096 mod 64),
        word_of_nat (0x80 + n div 64 mod 64), word_of_nat (0x80 + n mod 64)]"
      unfolding parts ..
    finally show ?thesis using 4 by (simp add: utf8_of_def)
  qed
qed

lemma hex4_value_bound: "hex4_value h = Some n \<Longrightarrow> n \<le> 0xFFFF"
proof -
  assume "hex4_value h = Some n"
  then show ?thesis
    by (auto simp: hex4_value_def word_less_nat_alt dest!: char_to_hex_bound split: list.splits option.splits)
qed

lemma get_codepoint_hex4:
  assumes "lx_at s (h @ r)" "hex4_value h = Some n"
  shows "\<exists>s'. get_codepoint s = (s', int n) \<and> lx_at s' r \<and> lx_token_buffer s' = lx_token_buffer s"
  using assms(1)
proof (cases rule: get_codepoint_hex)
  case failed
  with assms(2) show ?thesis by blast
next
  case (hex s' h' n' r')
  then have "h' = h" "r' = r" using hex4_value_length [OF assms(2)] hex4_value_length [OF hex(2)] by simp_all
  with hex assms(2) show ?thesis by simp
qed

text \<open>After a backslash and \<open>u\<close>.\<close>

lemma scan_escape_unicode:
  assumes "lx_at s (0x5c # 0x75 # bs)"
  obtains s1 where "scan_character s = scan_unicode_escape s1" "lx_at s1 bs" "lx_token_buffer s1 = lx_token_buffer s"
proof -
  have 1: "lx_current (lx_get s) = Some 0x5c" "lx_at (lx_get s) (0x75 # bs)" using get_at(1) [OF assms] by simp_all
  have 2: "lx_current (lx_get (lx_get s)) = Some 0x75" "lx_at (lx_get (lx_get s)) bs" using get_at(1) [OF 1(2)] by simp_all
  show ?thesis
    by (rule that [of "lx_get (lx_get s)"]) (use 1 2 in \<open>simp_all add: scan_character_def scan_escape_def simple_escape_def Let_def\<close>)
qed

lemma surrogate_pair:
  assumes "0xD800 \<le> m" "m \<le> 0xDBFF" "0xDC00 \<le> n" "n \<le> 0xDFFF"
  shows "codepoint_bytes (push_bit 10 (int m) + int n - 0x35FDC00) = utf8_of (0x10000 + (m - 0xD800) * 0x400 + (n - 0xDC00))"
proof -
  have "push_bit 10 (int m) + int n - 0x35FDC00 = int (0x10000 + (m - 0xD800) * 0x400 + (n - 0xDC00))"
    using assms by (simp add: push_bit_eq_mult of_nat_diff)
  then show ?thesis using assms by (simp only:) (rule codepoint_bytes_utf8_of, simp)
qed

lemma scan_character_complete:
  assumes "json_char c v" "lx_at s (c @ r)"
  shows "\<exists>s'. scan_character s = (s', None) \<and> lx_at s' r \<and> lx_token_buffer s' = lx_token_buffer s @ v"
  using assms
proof (induction rule: json_char.induct)
  case (plain b)
  then have "0x1F < b" by (simp add: word_less_nat_alt word_le_nat_alt)
  with plain show ?case using scan_character_plain [of s b r] by simp
next
  case (multibyte c)
  then obtain b cs where c: "c = b # cs" by (cases c) (auto simp: utf8_multibyte_def)
  have b: "\<not> b \<le> 0x7F"
    using multibyte.hyps by (auto simp: c utf8_multibyte_def utf8_lead_unat word_le_nat_alt split: list.splits)
  then obtain rs where "following_ranges b = Some rs" "list_all2 in_range rs cs"
    using multibyte.hyps multibyte_ranges [of b cs] by (auto simp: c)
  with scan_character_multibyte [of s b cs r rs] b multibyte.prems show ?case by (simp add: c)
next
  case (escape e b)
  then have "simple_escape (Some e) = Some b" by (auto simp: simple_escape_def)
  with escape.prems scan_character_simple_escape [of s e r b] show ?case by simp
next
  case (unicode h n)
  then have "lx_at s (0x5c # 0x75 # h @ r)" by simp
  then obtain s1 where s1: "scan_character s = scan_unicode_escape s1" "lx_at s1 (h @ r)" "lx_token_buffer s1 = lx_token_buffer s"
    by (rule scan_escape_unicode)
  obtain s2 where s2: "get_codepoint s1 = (s2, int n)" "lx_at s2 r" "lx_token_buffer s2 = lx_token_buffer s1"
    using get_codepoint_hex4 [OF s1(2) unicode.hyps(1)] by blast
  have "codepoint_bytes (int n) = utf8_of n" using hex4_value_bound [OF unicode.hyps(1)] by (intro codepoint_bytes_utf8_of) simp
  with s1 s2 unicode.hyps(2) show ?case by (auto simp: scan_unicode_escape_def)
next
  case (surrogates h m h' n)
  then have "lx_at s (0x5c # 0x75 # h @ 0x5c # 0x75 # h' @ r)" by simp
  then obtain s1 where s1: "scan_character s = scan_unicode_escape s1" "lx_at s1 (h @ 0x5c # 0x75 # h' @ r)"
      "lx_token_buffer s1 = lx_token_buffer s"
    by (rule scan_escape_unicode)
  obtain s2 where s2: "get_codepoint s1 = (s2, int m)" "lx_at s2 (0x5c # 0x75 # h' @ r)" "lx_token_buffer s2 = lx_token_buffer s1"
    using get_codepoint_hex4 [OF s1(2) surrogates.hyps(1)] by blast
  have s3: "lx_current (lx_get s2) = Some 0x5c" "lx_at (lx_get s2) (0x75 # h' @ r)" using get_at(1) [OF s2(2)] by simp_all
  have s4: "lx_current (lx_get (lx_get s2)) = Some 0x75" "lx_at (lx_get (lx_get s2)) (h' @ r)" using get_at(1) [OF s3(2)] by simp_all
  obtain s5 where s5: "get_codepoint (lx_get (lx_get s2)) = (s5, int n)" "lx_at s5 r"
      "lx_token_buffer s5 = lx_token_buffer (lx_get (lx_get s2))"
    using get_codepoint_hex4 [OF s4(2) surrogates.hyps(4)] by blast
  with s1 s2 s3(1) s4(1) surrogates.hyps surrogate_pair [OF surrogates.hyps(2,3,5,6)] show ?case
    by (simp add: scan_unicode_escape_def Let_def)
qed

lemma bytes_in_range_sound:
  "bytes_in_range rs s = (s', True) \<Longrightarrow> lx_at s bs \<Longrightarrow>
     \<exists>cs r. bs = cs @ r \<and> list_all2 in_range rs cs \<and> lx_at s' r \<and> lx_token_buffer s' = lx_token_buffer s @ cs"
proof (induction rs arbitrary: s bs)
  case (Cons rg rs)
  obtain c bs' where c: "bs = c # bs'"
    using Cons.prems get_at(2) [of s] by (cases bs) (auto simp: Let_def current_in_def split: if_splits)
  have at: "lx_current (lx_get s) = Some c" "lx_at (lx_get s) bs'" using get_at(1) [of s c bs'] Cons.prems(2) c by simp_all
  then have "in_range rg c" "bytes_in_range rs (lx_add c (lx_get s)) = (s', True)"
    using Cons.prems(1) by (auto simp: Let_def current_in_def in_range_def to_char_def split: if_splits)
  with Cons.IH [of "lx_add c (lx_get s)" bs'] at(2) c show ?case by auto
qed auto

lemma scan_unicode_escape_sound:
  assumes "scan_unicode_escape s = (s', None)" "lx_at s bs"
  shows "\<exists>c v r. bs = c @ r \<and> json_char (0x5c # 0x75 # c) v \<and> lx_at s' r \<and> lx_token_buffer s' = lx_token_buffer s @ v"
  using assms(2)
proof (cases rule: get_codepoint_hex)
  case (failed s1)
  with assms(1) show ?thesis by (simp add: scan_unicode_escape_def)
next
  case (hex s1 h m r)
  have cp: "codepoint_bytes (int m) = utf8_of m" using hex4_value_bound [OF hex(2)] by (intro codepoint_bytes_utf8_of) simp
  show ?thesis
  proof (cases "0xD800 \<le> m \<and> m \<le> 0xDBFF")
    case False
    then have "m < 0xD800 \<or> 0xDFFF < m" "s' = fold lx_add (utf8_of m) s1"
      using assms(1) hex(3) cp by (auto simp: scan_unicode_escape_def split: if_splits)
    then have "json_char (0x5c # 0x75 # h) (utf8_of m)" "lx_at s' r" "lx_token_buffer s' = lx_token_buffer s @ utf8_of m"
      using json_char.unicode [OF hex(2)] hex(4,5) by simp_all
    with hex(1) show ?thesis by blast
  next
    case True
    have s2: "lx_current (lx_get s1) = Some 0x5c" "lx_current (lx_get (lx_get s1)) = Some 0x75"
      using assms(1) hex(3) True by (auto simp: scan_unicode_escape_def Let_def split: if_splits)
    then obtain r1 where "r = 0x5c # r1" "lx_at (lx_get s1) r1"
      using get_at [of s1] hex(4) by (cases r) auto
    with s2(2) obtain r2 where r2: "r = 0x5c # 0x75 # r2" "lx_at (lx_get (lx_get s1)) r2"
      using get_at [of "lx_get s1"] by (cases r1) auto
    from r2(2) show ?thesis
    proof (cases rule: get_codepoint_hex)
      case (failed s3)
      with assms(1) hex(3) True s2 show ?thesis by (simp add: scan_unicode_escape_def Let_def)
    next
      case hex2: (hex s3 h' n r3)
      have n: "0xDC00 \<le> n" "n \<le> 0xDFFF"
        using assms(1) hex(3) hex2(3) True s2 by (auto simp: scan_unicode_escape_def Let_def split: if_splits)
      then have "s' = fold lx_add (utf8_of (0x10000 + (m - 0xD800) * 0x400 + (n - 0xDC00))) s3"
        using assms(1) hex(3) hex2(3) True s2 surrogate_pair [of m n] by (simp add: scan_unicode_escape_def Let_def)
      moreover have "json_char (0x5c # 0x75 # h @ 0x5c # 0x75 # h') (utf8_of (0x10000 + (m - 0xD800) * 0x400 + (n - 0xDC00)))"
        using json_char.surrogates [OF hex(2) _ _ hex2(2) n] True by simp
      ultimately have "bs = (h @ 0x5c # 0x75 # h') @ r3" "lx_at s' r3"
          "lx_token_buffer s' = lx_token_buffer s @ utf8_of (0x10000 + (m - 0xD800) * 0x400 + (n - 0xDC00))"
        using hex hex2 r2 by simp_all
      with \<open>json_char (0x5c # 0x75 # h @ 0x5c # 0x75 # h') _\<close> show ?thesis by blast
    qed
  qed
qed

lemma scan_character_sound:
  assumes "scan_character s = (s', t)" "t \<noteq> Some T_parse_error" "lx_at s bs"
  shows "(t = None \<and> (\<exists>c v r. bs = c @ r \<and> json_char c v \<and> lx_at s' r \<and> lx_token_buffer s' = lx_token_buffer s @ v))
    \<or> (t = Some T_value_string \<and> (\<exists>r. bs = 0x22 # r \<and> lx_at s' r \<and> lx_token_buffer s' = lx_token_buffer s))"
proof -
  obtain b bs' where b: "bs = b # bs'"
    using assms get_at(2) [of s] by (cases bs) (auto simp: scan_character_def Let_def)
  have at: "lx_current (lx_get s) = Some b" "lx_at (lx_get s) bs'" using get_at(1) [of s b bs'] assms(3) b by simp_all
  note step = assms(1) [unfolded scan_character_def Let_def at(1) option.case(2)]
  consider (quote) "b = 0x22" | (escape) "b = 0x5c" | (plain) "b \<noteq> 0x22" "b \<noteq> 0x5c" "\<not> b \<le> 0x1F" "b \<le> 0x7F"
    | (multi) "\<not> b \<le> 0x7F"
    using step assms(2) by (cases "b \<le> 0x1F"; cases "b \<le> 0x7F") (auto split: if_splits)
  then show ?thesis
  proof cases
    case quote
    with step at b show ?thesis by auto
  next
    case plain
    then have "json_char [b] [b]" by (intro json_char.plain) (simp_all add: word_le_nat_alt)
    moreover have "t = None" "bs = [b] @ bs'" "lx_at s' bs'" "lx_token_buffer s' = lx_token_buffer s @ [b]"
      using plain step at b by auto
    ultimately show ?thesis by blast
  next
    case multi
    then have "b \<noteq> 0x22" "b \<noteq> 0x5c" "\<not> b \<le> 0x1F" by (auto simp: word_le_nat_alt)
    with multi step assms(2) obtain rs where rs: "following_ranges b = Some rs" "next_byte_in_range rs (lx_get s) = (s', True)" "t = None"
      by (auto split: option.splits prod.splits if_splits)
    obtain cs r where cs: "bs' = cs @ r" "list_all2 in_range rs cs" "lx_at s' r" "lx_token_buffer s' = lx_token_buffer s @ b # cs"
      using bytes_in_range_sound [of rs "lx_add b (lx_get s)" s' bs'] rs(2) at by (auto simp: next_byte_in_range_def to_char_def)
    then have "json_char (b # cs) (b # cs)" using multibyte_ranges [OF multi, of cs] rs(1) by (auto intro: json_char.multibyte)
    moreover have "bs = (b # cs) @ r" using cs(1) b by simp
    ultimately show ?thesis using cs(3,4) rs(3) by blast
  next
    case escape
    with step have esc: "scan_escape (lx_get s) = (s', t)" by simp
    obtain e bs'' where e: "bs' = e # bs''"
      using esc assms(2) get_at(2) [of "lx_get s"] at(2)
      by (cases bs') (auto simp: scan_escape_def simple_escape_def Let_def)
    have at2: "lx_current (lx_get (lx_get s)) = Some e" "lx_at (lx_get (lx_get s)) bs''"
      using get_at(1) [of "lx_get s" e bs''] at(2) e by simp_all
    show ?thesis
    proof (cases "simple_escape (Some e)")
      case (Some c)
      then have "json_char [0x5c, e] [c]" by (intro json_char.escape) (auto simp: simple_escape_def split: if_splits)
      moreover have "t = None" "bs = [0x5c, e] @ bs''" "lx_at s' bs''" "lx_token_buffer s' = lx_token_buffer s @ [c]"
        using Some esc at2 b e escape by (auto simp: scan_escape_def Let_def)
      ultimately show ?thesis by blast
    next
      case None
      with esc at2(1) assms(2) have u: "e = 0x75" "scan_unicode_escape (lx_get (lx_get s)) = (s', t)"
        by (auto simp: scan_escape_def Let_def split: if_splits)
      have "t = None" using u(2) assms(2) by (auto simp: scan_unicode_escape_def Let_def split: if_splits prod.splits)
      with scan_unicode_escape_sound [of "lx_get (lx_get s)" s' bs''] u at2(2)
      obtain c v r where "bs'' = c @ r" "json_char (0x5c # 0x75 # c) v" "lx_at s' r" "lx_token_buffer s' = lx_token_buffer s @ v"
        by auto
      moreover have "bs = (0x5c # 0x75 # c) @ r" using calculation b e u(1) escape by simp
      ultimately show ?thesis using \<open>t = None\<close> by blast
    qed
  qed
qed

lemma scan_string_complete:
  "json_chars t v \<Longrightarrow> lx_at s (t @ 0x22 # r) \<Longrightarrow>
     \<exists>s'. scan_string_loop s = (s', T_value_string) \<and> lx_at s' r \<and> lx_token_buffer s' = lx_token_buffer s @ v"
proof (induction arbitrary: s rule: json_chars.induct)
  case nil
  with get_at(1) [of s "0x22" r] show ?case
    by (subst scan_string_loop.simps) (simp add: scan_character_def Let_def)
next
  case (cons c v t w)
  obtain s1 where s1: "scan_character s = (s1, None)" "lx_at s1 (t @ 0x22 # r)" "lx_token_buffer s1 = lx_token_buffer s @ v"
    using scan_character_complete [OF cons.hyps(1), of s "t @ 0x22 # r"] cons.prems by auto
  from cons.IH [OF s1(2)] s1 show ?case by (subst scan_string_loop.simps) auto
qed

lemma scan_string_sound:
  "scan_string_loop s = (s', T_value_string) \<Longrightarrow> lx_at s bs \<Longrightarrow>
     \<exists>t v r. bs = t @ 0x22 # r \<and> json_chars t v \<and> lx_at s' r \<and> lx_token_buffer s' = lx_token_buffer s @ v"
proof (induction s arbitrary: s' bs rule: scan_string_loop.induct)
  case (1 s)
  obtain s1 tok where c: "scan_character s = (s1, tok)" by fastforce
  have tok: "tok \<noteq> Some T_parse_error" "tok = None \<Longrightarrow> scan_string_loop s1 = (s', T_value_string)" "tok \<noteq> None \<Longrightarrow> s' = s1"
    using "1.prems"(1) by (auto simp: scan_string_loop.simps [of s] c split: option.splits)
  from scan_character_sound [OF c tok(1) "1.prems"(2)] show ?case
  proof (elim disjE conjE exE)
    fix c' v r
    assume t: "tok = None" and c': "bs = c' @ r" "json_char c' v" "lx_at s1 r" "lx_token_buffer s1 = lx_token_buffer s @ v"
    from "1.IH" [OF c [symmetric] t tok(2) [OF t] c'(3)]
    obtain t' v' r' where "r = t' @ 0x22 # r'" "json_chars t' v'" "lx_at s' r'" "lx_token_buffer s' = lx_token_buffer s1 @ v'" by blast
    then have "bs = (c' @ t') @ 0x22 # r'" "json_chars (c' @ t') (v @ v')" "lx_at s' r'" "lx_token_buffer s' = lx_token_buffer s @ v @ v'"
      using c' json_chars.cons [OF c'(2)] by simp_all
    then show ?case by blast
  next
    fix r
    assume "tok = Some T_value_string" "bs = 0x22 # r" "lx_at s1 r" "lx_token_buffer s1 = lx_token_buffer s"
    with tok(3) have "bs = [] @ 0x22 # r" "lx_at s' r" "lx_token_buffer s' = lx_token_buffer s @ []" by simp_all
    with json_chars.nil show ?case by blast
  qed
qed

text \<open>The serialiser writes such texts.\<close>

lemma escaped_codepoint_json:
  assumes "b \<le> 0x7F"
  shows "json_char (escaped_codepoint (ucast b) b) [b]"
proof (cases "b \<in> {0x08, 0x09, 0x0A, 0x0C, 0x0D, 0x22, 0x5C}")
  case True
  then show ?thesis unfolding insert_iff empty_iff
    by (elim disjE) (simp_all add: escaped_codepoint_def json_char.escape)
next
  case False
  have eq: "(ucast b = (ucast n :: u32)) = (b = n)" "(ucast b \<le> (ucast n :: u32)) = (b \<le> n)" for n :: byte
    by (simp_all add: word_unat_eq_iff word_le_nat_alt unat_codepoint_byte)
  have e: "escaped_codepoint (ucast b) b = (if b \<le> 0x1F then [0x5c, 0x75] @ hex4 (ucast b) else [b])"
    using False eq [of 8] eq [of 9] eq [of "0xA"] eq [of "0xC"] eq [of "0xD"] eq [of "0x22"] eq [of "0x5C"] eq [of "0x1F"]
    by (simp add: escaped_codepoint_def)
  show ?thesis
  proof (cases "b \<le> 0x1F")
    case True
    have "char_to_hex 0x30 = Some 0" by (simp add: char_to_hex_def)
    then have "hex4_value (hex4 (ucast b)) = Some (16 * unat (drop_bit 4 b) + unat (b AND 0xF))"
      by (simp add: hex4_byte hex4_value_def nibble_hi nibble_lo)
    moreover have "16 * unat (drop_bit 4 b) + unat (b AND 0xF) = unat b"
    proof -
      have "unat (b AND 0xF) = unat b mod 16"
        using take_bit_eq_mask [of 4 b] unsigned_take_bit_eq [of 4 b, where ?'a = nat] by (simp add: mask_eq_exp_minus_1 take_bit_eq_mod)
      moreover have "unat (drop_bit 4 b) = unat b div 16" by (simp add: unat_drop_bit_eq drop_bit_eq_div unat_div)
      ultimately show ?thesis by simp
    qed
    ultimately have "json_char (0x5c # 0x75 # hex4 (ucast b)) (utf8_of (unat b))"
      using True by (intro json_char.unicode) (simp_all add: word_le_nat_alt)
    moreover have "utf8_of (unat b) = [b]" using True by (simp add: utf8_of_def word_le_nat_alt)
    ultimately show ?thesis using True e by simp
  next
    case b: False
    then show ?thesis using False e assms json_char.plain [of b] by (auto simp: word_le_nat_alt)
  qed
qed

lemma escape_json_chars: "utf8 str \<Longrightarrow> json_chars (escape_json str) str"
proof (induction str rule: length_induct)
  case (1 str)
  show ?case
  proof (cases str)
    case Nil
    then show ?thesis by (simp add: json_chars.nil)
  next
    case (Cons b str')
    show ?thesis
    proof (cases "b \<le> 0x7F")
      case True
      with "1.IH" "1.prems" Cons have "json_chars (escape_json str') str'" by simp
      from json_chars.cons [OF escaped_codepoint_json [OF True] this] Cons show ?thesis by simp
    next
      case False
      with "1.prems"(1) Cons obtain rs where rs: "following_ranges b = Some rs" "follows rs str'"
        by (auto simp: utf8_step simp del: utf8.simps(2) split: option.splits)
      let ?cs = "take (length rs) str'" and ?t = "drop (length rs) str'"
      have cs: "list_all2 in_range rs ?cs" "utf8 ?t" using rs(2) by (simp_all add: follows_def)
      have "length ?t < length str" using Cons by simp
      with "1.IH" cs(2) have "json_chars (escape_json ?t) ?t" by blast
      moreover have "json_char (b # ?cs) (b # ?cs)"
        using multibyte_ranges [OF False, of ?cs] rs(1) cs(1) by (intro json_char.multibyte) auto
      ultimately have "json_chars ((b # ?cs) @ escape_json ?t) ((b # ?cs) @ ?t)" by (rule json_chars.cons [rotated])
      moreover have "escape_json str' = ?cs @ escape_json ?t"
        using escape_json_high [OF cs(1) following_ranges_high [OF rs(1)]] by (metis append_take_drop_id escape_json_simps(3))
      moreover have "escaped_codepoint (ucast b) b = [b]"
        using False by (intro escaped_codepoint_high) (simp add: unat_codepoint_byte word_le_nat_alt)
      ultimately show ?thesis using Cons by simp
    qed
  qed
qed

end
