(* ===== verification/Json_Numbers.thy ===== *)
theory Json_Numbers
  imports Json_Strings
begin

text \<open>
  The machine for numbers in \<open>scan_number\<close> accepts exactly the numbers of the grammar: the
  language of each of its states is computed from the last one backwards, with the type it gives
  the number. The value of the token is the value of the text.
\<close>

section \<open>Numbers are scanned by the grammar\<close>

text \<open>The states the machine goes through on a text, and the type of number it ends with.\<close>

primrec number_run :: "number_state \<Rightarrow> token_type \<Rightarrow> byte list \<Rightarrow> (number_state \<times> token_type) option" where
  "number_run st t [] = Some (st, number_type st t)"
| "number_run st t (c # u) =
     (case number_step st (Some c) of Goto st' \<Rightarrow> number_run st' (number_type st t) u | _ \<Rightarrow> None)"

definition first_char :: "byte list \<Rightarrow> byte option" where
  "first_char bs = (case bs of [] \<Rightarrow> None | c # _ \<Rightarrow> Some c)"

lemma current_get: "lx_at s bs \<Longrightarrow> lx_current (lx_get s) = first_char bs \<and> lx_at (lx_get s) (tl bs)"
  using get_at [of s] by (cases bs) (auto simp: first_char_def)

lemma get_total: "lx_total (lx_get s) = Suc (lx_total s)"
  by (cases "lx_input s") (simp_all add: lx_get_def get_character_def Let_def split: option.split)

lemma total_simps [simp]: "lx_total (lx_add c s) = lx_total s" "lx_total (lx_reset s) = lx_total s" "lx_total (lx_fail m s) = lx_total s"
  by (simp_all add: lx_add_def lx_reset_def lx_fail_def)

lemma scan_number_complete:
  assumes "number_run st t u = Some (st', t')" "number_step st' (first_char bs) = Number_done" "lx_at s (u @ bs)"
  shows "\<exists>s'. scan_number_from strtod st t s = finish_number strtod t' (lx_get s') \<and> lx_at s' bs
    \<and> lx_token_buffer s' = lx_token_buffer s @ u \<and> lx_total s \<le> lx_total s'"
  using assms
proof (induction u arbitrary: st t s)
  case Nil
  then have "st' = st" "t' = number_type st t" by auto
  moreover from this Nil have "scan_number_from strtod st t s = finish_number strtod (number_type st t) (lx_get s)"
    using current_get [of s bs] by (subst scan_number_from.simps) (simp add: Let_def)
  ultimately show ?case using Nil by auto
next
  case (Cons c u)
  obtain st1 where st1: "number_step st (Some c) = Goto st1" "number_run st1 (number_type st t) u = Some (st', t')"
    using Cons.prems(1) by (auto split: number_move.splits)
  have at: "lx_current (lx_get s) = Some c" "lx_at (lx_get s) (u @ bs)" using get_at(1) [of s c "u @ bs"] Cons.prems(3) by simp_all
  note total = get_total [of s]
  from Cons.IH [OF st1(2) Cons.prems(2), of "lx_add c (lx_get s)"] at st1(1) total show ?case
    by (subst scan_number_from.simps) (auto simp: Let_def to_char_def dest: Suc_leD)
qed

lemma scan_number_sound:
  "scan_number_from strtod st t s = (s', tok) \<Longrightarrow> tok \<noteq> T_parse_error \<Longrightarrow> lx_at s bs \<Longrightarrow>
     \<exists>u r st' t' s1. bs = u @ r \<and> number_run st t u = Some (st', t') \<and> number_step st' (first_char r) = Number_done
       \<and> (s', tok) = finish_number strtod t' (lx_get s1) \<and> lx_at s1 r \<and> lx_token_buffer s1 = lx_token_buffer s @ u
       \<and> lx_total s \<le> lx_total s1"
proof (induction strtod st t s arbitrary: bs rule: scan_number_from.induct)
  case (1 strtod st t s)
  note at = current_get [OF "1.prems"(3)]
  note step = "1.prems"(1) [unfolded scan_number_from.simps [of strtod st t s] Let_def]
  show ?case
  proof (cases "number_step st (lx_current (lx_get s))")
    case (Goto st1)
    then obtain c where c: "lx_current (lx_get s) = Some c" using number_step_Goto by blast
    then obtain bs' where bs: "bs = c # bs'" using at by (cases bs) (auto simp: first_char_def)
    let ?s = "lx_add (to_char (lx_current (lx_get s))) (lx_get s)"
    have "scan_number_from strtod st1 (number_type st t) ?s = (s', tok)" using step Goto by simp
    moreover have "lx_at ?s bs'" using at bs by simp
    ultimately obtain u r st' t' s1 where u: "bs' = u @ r" "number_run st1 (number_type st t) u = Some (st', t')"
        "number_step st' (first_char r) = Number_done" "(s', tok) = finish_number strtod t' (lx_get s1)" "lx_at s1 r"
        "lx_token_buffer s1 = lx_token_buffer ?s @ u" "lx_total ?s \<le> lx_total s1"
      using "1.IH" [OF refl refl Goto _ "1.prems"(2)] by blast
    from u(6) have "lx_token_buffer s1 = lx_token_buffer s @ c # u" by (simp add: c to_char_def)
    moreover have "lx_total s \<le> lx_total s1" using u(7) by (simp add: get_total)
    moreover have "bs = (c # u) @ r" "number_run st t (c # u) = Some (st', t')" using bs Goto c u(1,2) by simp_all
    ultimately show ?thesis using u(3-5) by blast
  next
    case Number_done
    then have "(s', tok) = finish_number strtod (number_type st t) (lx_get s)" "number_step st (first_char bs) = Number_done"
      using step at by simp_all
    moreover have "bs = [] @ bs" "number_run st t [] = Some (st, number_type st t)" "lx_token_buffer s = lx_token_buffer s @ []"
      by simp_all
    ultimately show ?thesis using "1.prems"(3) by blast
  next
    case (Number_error m)
    with step "1.prems"(2) show ?thesis by simp
  qed
qed

text \<open>The language of the machine from each of its states.\<close>

lemma is_digit_Some: "is_digit (Some c) = is_digit_byte c"
  by (simp add: is_digit_def is_digit_byte_def word_le_nat_alt)

definition accepts :: "number_state \<Rightarrow> token_type \<Rightarrow> byte list \<Rightarrow> token_type \<Rightarrow> bool" where
  "accepts st t u t' \<longleftrightarrow> (\<exists>st'. number_run st t u = Some (st', t') \<and> st' \<in> {N_zero, N_any1, N_decimal2, N_any2})"

lemma accepts_Nil: "accepts st t [] t' \<longleftrightarrow> st \<in> {N_zero, N_any1, N_decimal2, N_any2} \<and> t' = number_type st t"
  by (auto simp: accepts_def)

lemma accepts_Cons: "accepts st t (c # u) t' \<longleftrightarrow> (\<exists>st1. number_step st (Some c) = Goto st1 \<and> accepts st1 (number_type st t) u t')"
  by (auto simp: accepts_def split: number_move.splits)

lemma digits_simps [simp]: "digits []" "digits (d # ds) \<longleftrightarrow> is_digit_byte d \<and> digits ds"
  by (simp_all add: digits_def)

lemma number_type_simps [simp]:
  "number_type N_zero t = t" "number_type N_any1 t = t" "number_type N_decimal2 t = t" "number_type N_any2 t = t" "number_type N_sign t = t"
  "number_type N_minus t = T_value_integer" "number_type N_decimal1 t = T_value_float" "number_type N_exponent t = T_value_float"
  by (simp_all add: number_type_def)

lemma accepts_any2: "accepts N_any2 t u t' \<longleftrightarrow> digits u \<and> t' = t"
  by (induction u) (auto simp: accepts_Nil accepts_Cons is_digit_Some)

lemma accepts_sign: "accepts N_sign t u t' \<longleftrightarrow> u \<noteq> [] \<and> digits u \<and> t' = t"
  by (cases u) (auto simp: accepts_Nil accepts_Cons is_digit_Some accepts_any2)

text \<open>The language from each state.\<close>

lemma is_exponent_Some: "is_exponent (Some c) \<longleftrightarrow> c \<in> {0x65, 0x45}"
  by (auto simp: is_exponent_def)

lemma digit_bytes: "is_digit_byte d \<Longrightarrow> d \<noteq> 0x2b \<and> d \<noteq> 0x2d \<and> d \<noteq> 0x2e \<and> d \<noteq> 0x65 \<and> d \<noteq> 0x45"
  by (auto simp: is_digit_byte_def)

lemma ex_append_Cons: "(\<exists>a b. c # u = a @ b \<and> P a b) \<longleftrightarrow> P [] (c # u) \<or> (\<exists>a b. u = a @ b \<and> P (c # a) b)"
  by (auto simp: Cons_eq_append_conv)

definition exp_tail :: "byte list \<Rightarrow> bool" where
  "exp_tail u \<longleftrightarrow> (\<exists>s ds. u = s @ ds \<and> s \<in> {[], [0x2b], [0x2d]} \<and> ds \<noteq> [] \<and> digits ds)"

lemma exp_part_Cons: "exp_part (c # u) \<longleftrightarrow> c \<in> {0x65, 0x45} \<and> exp_tail u"
  by (auto simp: exp_part_def exp_tail_def)

lemma exp_part_Nil [simp]: "exp_part []"
  by (simp add: exp_part_def)

lemma exp_tail_Cons: "exp_tail (c # u) \<longleftrightarrow> (if c = 0x2b \<or> c = 0x2d then u \<noteq> [] \<and> digits u else is_digit_byte c \<and> digits u)"
  using digit_bytes [of c] by (auto simp: exp_tail_def ex_append_Cons)

lemma accepts_exponent: "accepts N_exponent t u t' \<longleftrightarrow> exp_tail u \<and> t' = T_value_float"
proof (cases u)
  case Nil
  then show ?thesis by (simp add: accepts_Nil exp_tail_def)
next
  case (Cons c v)
  then show ?thesis
    by (auto simp: accepts_Cons is_digit_Some accepts_any2 accepts_sign exp_tail_Cons)
qed

lemma accepts_decimal2: "accepts N_decimal2 t u t' \<longleftrightarrow>
    (\<exists>ds e. u = ds @ e \<and> digits ds \<and> exp_part e \<and> t' = (if e = [] then t else T_value_float))"
proof (induction u)
  case Nil
  then show ?case by (simp add: accepts_Nil)
next
  case (Cons c u)
  then show ?case
    using digit_bytes [of c]
    by (auto simp: ex_append_Cons accepts_Cons is_digit_Some is_exponent_Some accepts_exponent exp_part_Cons Cons.IH)
qed

lemma accepts_decimal1: "accepts N_decimal1 t u t' \<longleftrightarrow>
    (\<exists>ds e. u = ds @ e \<and> ds \<noteq> [] \<and> digits ds \<and> exp_part e \<and> t' = T_value_float)"
proof (cases u)
  case Nil
  then show ?thesis by (simp add: accepts_Nil)
next
  case (Cons c v)
  then show ?thesis
    by (auto simp: accepts_Cons is_digit_Some accepts_decimal2 ex_append_Cons)
qed

definition number_tail :: "token_type \<Rightarrow> byte list \<Rightarrow> token_type \<Rightarrow> bool" where
  "number_tail t u t' \<longleftrightarrow>
     (\<exists>f e. u = f @ e \<and> frac_part f \<and> exp_part e \<and> t' = (if f = [] \<and> e = [] then t else T_value_float))"

lemma frac_part_Nil [simp]: "frac_part []"
  by (simp add: frac_part_def)

lemma number_tail_Nil: "number_tail t [] t' \<longleftrightarrow> t' = t"
  by (simp add: number_tail_def)

lemma number_tail_Cons: "number_tail t (c # u) t' \<longleftrightarrow>
    (if c = 0x2e then accepts N_decimal1 t u t' else c \<in> {0x65, 0x45} \<and> accepts N_exponent t u t')"
proof -
  have "number_tail t (c # u) t' \<longleftrightarrow>
      (exp_part (c # u) \<or> (\<exists>f e. u = f @ e \<and> frac_part (c # f) \<and> exp_part e)) \<and> t' = T_value_float"
    by (auto simp: number_tail_def ex_append_Cons)
  moreover have "frac_part (c # f) \<longleftrightarrow> c = 0x2e \<and> f \<noteq> [] \<and> digits f" for f
    by (simp add: frac_part_def)
  ultimately show ?thesis by (auto simp: exp_part_Cons accepts_decimal1 accepts_exponent)
qed

lemma accepts_zero: "accepts N_zero t u t' \<longleftrightarrow> number_tail t u t'"
  by (cases u) (auto simp: accepts_Nil accepts_Cons number_tail_Nil number_tail_Cons is_exponent_Some)

lemma accepts_any1: "accepts N_any1 t u t' \<longleftrightarrow> (\<exists>ds v. u = ds @ v \<and> digits ds \<and> number_tail t v t')"
proof (induction u)
  case Nil
  then show ?case by (simp add: accepts_Nil number_tail_Nil)
next
  case (Cons c u)
  then show ?case
    using digit_bytes [of c]
    by (auto simp: ex_append_Cons accepts_Cons is_digit_Some is_exponent_Some number_tail_Cons Cons.IH)
qed

lemma int_part_Cons: "int_part (c # ds) \<longleftrightarrow> is_digit_byte c \<and> digits ds \<and> (c = 0x30 \<longrightarrow> ds = [])"
  by (auto simp: int_part_def is_digit_byte_def)

lemma number_body:
  "is_digit_byte c \<and> accepts (if c = 0x30 then N_zero else N_any1) t u t'
     \<longleftrightarrow> (\<exists>i w. c # u = i @ w \<and> int_part i \<and> number_tail t w t')"
proof -
  have nil: "\<not> int_part []" by (simp add: int_part_def)
  show ?thesis by (auto simp: ex_append_Cons int_part_Cons nil accepts_zero accepts_any1)
qed

lemma accepts_minus:
  "accepts N_minus t (c # u) t' \<longleftrightarrow>
     is_digit_byte c \<and> accepts (if c = 0x30 then N_zero else N_any1) T_value_integer u t'"
  by (auto simp: accepts_Cons is_nonzero_digit_def is_digit_Some is_digit_byte_def)

text \<open>The value of a text of the number type that the machine has found.\<close>

definition number_value :: "(byte list \<Rightarrow> u64) \<Rightarrow> token_type \<Rightarrow> byte list \<Rightarrow> json option" where
  "number_value sd t txt =
     (if t = T_value_unsigned \<and> undec txt < 2 ^ 64 then Some (JInt (int (undec txt)))
      else if t = T_value_integer \<and> undec (tl txt) \<le> 2 ^ 63 then Some (JInt (- int (undec (tl txt))))
      else if isfinite (sd txt) then Some (JFloat (sd txt)) else None)"

definition start_state :: "byte \<Rightarrow> number_state" where
  "start_state c = (if c = 0x2d then N_minus else if c = 0x30 then N_zero else N_any1)"

definition sign_type :: "byte list \<Rightarrow> token_type" where
  "sign_type m = (if m = [] then T_value_unsigned else T_value_integer)"

lemma accepts_start:
  "(c = 0x2d \<or> is_digit_byte c) \<and> accepts (start_state c) T_value_unsigned u t' \<longleftrightarrow>
     (\<exists>m i w. c # u = m @ i @ w \<and> int_part i \<and> m \<in> {[], [0x2d]} \<and> number_tail (sign_type m) w t')"
    (is "?l \<longleftrightarrow> ?r")
proof -
  let ?part = "\<lambda>v ty. \<exists>i w. v = i @ w \<and> int_part i \<and> number_tail ty w t'"
  have r: "?r \<longleftrightarrow> ?part (c # u) T_value_unsigned \<or> c = 0x2d \<and> ?part u T_value_integer"
    (is "_ \<longleftrightarrow> ?p")
  proof
    assume ?r
    then show ?p by (auto simp: sign_type_def)
  next
    assume ?p
    then show ?r
    proof
      assume "?part (c # u) T_value_unsigned"
      then obtain i w where "c # u = [] @ i @ w" "int_part i" "number_tail (sign_type []) w t'" by (auto simp: sign_type_def)
      then show ?r by blast
    next
      assume "c = 0x2d \<and> ?part u T_value_integer"
      then obtain i w where "c # u = [0x2d] @ i @ w" "int_part i" "number_tail (sign_type [0x2d]) w t'" by (auto simp: sign_type_def)
      then show ?r by blast
    qed
  qed
  show ?thesis
  proof (cases "c = 0x2d")
    case True
    have "accepts N_minus T_value_unsigned u t' \<longleftrightarrow> ?part u T_value_integer"
    proof (cases u)
      case Nil
      then show ?thesis by (auto simp: accepts_Nil int_part_def)
    next
      case (Cons d v)
      then show ?thesis using number_body [of d T_value_integer v t'] by (simp add: accepts_minus)
    qed
    moreover have "\<not> ?part (c # u) T_value_unsigned"
      using True by (auto simp: Cons_eq_append_conv int_part_Cons is_digit_byte_def) (simp add: int_part_def)
    ultimately show ?thesis unfolding r using True by (simp add: start_state_def, blast)
  next
    case False
    then show ?thesis unfolding r using number_body [of c T_value_unsigned u t'] by (auto simp: start_state_def)
  qed
qed

lemma number_value_parts:
  "t = m @ i @ f @ e \<and> m \<in> {[], [0x2d]} \<and> A \<and> B \<and> C
     \<and> number_value sd (if f = [] \<and> e = [] then sign_type m else T_value_float) t = Some v
   \<longleftrightarrow> t = m @ i @ f @ e \<and> m \<in> {[], [0x2d]} \<and> A \<and> B \<and> C \<and>
       (if f = [] \<and> e = [] \<and> m = [] \<and> undec i < 2 ^ 64 then v = JInt (int (undec i))
        else if f = [] \<and> e = [] \<and> m = [0x2d] \<and> undec i \<le> 2 ^ 63 then v = JInt (- int (undec i))
        else isfinite (sd t) \<and> v = JFloat (sd t))"
  by (auto simp: number_value_def sign_type_def split: if_splits)

lemma json_number_accepts:
  "json_number sd t v \<longleftrightarrow>
     (\<exists>c u t'. t = c # u \<and> (c = 0x2d \<or> is_digit_byte c) \<and> accepts (start_state c) T_value_unsigned u t' \<and> number_value sd t' t = Some v)"
proof -
  have int: "i \<noteq> []" if "int_part i" for i using that by (auto simp: int_part_def)
  have "(\<exists>c u t'. t = c # u \<and> (c = 0x2d \<or> is_digit_byte c) \<and> accepts (start_state c) T_value_unsigned u t' \<and> number_value sd t' t = Some v)
    \<longleftrightarrow> (\<exists>m i w t'. t = m @ i @ w \<and> int_part i \<and> m \<in> {[], [0x2d]} \<and> number_tail (sign_type m) w t' \<and> number_value sd t' t = Some v)"
    (is "?l \<longleftrightarrow> ?r")
  proof
    assume ?l
    then show ?r using accepts_start by blast
  next
    assume ?r
    then obtain t' m i w where r: "t = m @ i @ w" "int_part i" "number_value sd t' t = Some v"
        "m \<in> {[], [0x2d]}" "number_tail (sign_type m) w t'" by blast
    then have "t \<noteq> []" using int [of i] by simp
    then obtain c u where "t = c # u" by (cases t) auto
    with r accepts_start [of c u t'] show ?l by metis
  qed
  also have "\<dots> \<longleftrightarrow> (\<exists>m i f e. t = m @ i @ f @ e \<and> m \<in> {[], [0x2d]} \<and> int_part i \<and> frac_part f \<and> exp_part e
      \<and> number_value sd (if f = [] \<and> e = [] then sign_type m else T_value_float) t = Some v)"
    unfolding number_tail_def by blast
  also have "\<dots> \<longleftrightarrow> json_number sd t v"
    by (simp only: json_number_def number_value_parts)
  finally show ?thesis by (rule sym)
qed

text \<open>The value that a token stands for.\<close>

definition token_value :: "lexer \<Rightarrow> token_type \<Rightarrow> json option" where
  "token_value s t =
     (case t of
        T_literal_null \<Rightarrow> Some JNull
      | T_literal_true \<Rightarrow> Some (JBool True)
      | T_literal_false \<Rightarrow> Some (JBool False)
      | T_value_string \<Rightarrow> Some (JStr (lx_token_buffer s))
      | T_value_integer \<Rightarrow> Some (JInt (sint (lx_integer s)))
      | T_value_unsigned \<Rightarrow> Some (JInt (uint (lx_unsigned s)))
      | T_value_float \<Rightarrow> if isfinite (lx_float s) then Some (JFloat (lx_float s)) else None
      | _ \<Rightarrow> None)"

lemma token_value_simps [simp]:
  "token_value s T_literal_null = Some JNull"
  "token_value s T_literal_true = Some (JBool True)"
  "token_value s T_literal_false = Some (JBool False)"
  "token_value s T_value_string = Some (JStr (lx_token_buffer s))"
  "token_value s T_value_integer = Some (JInt (sint (lx_integer s)))"
  "token_value s T_value_unsigned = Some (JInt (uint (lx_unsigned s)))"
  "token_value s T_value_float = (if isfinite (lx_float s) then Some (JFloat (lx_float s)) else None)"
  by (simp_all add: token_value_def)

lemma digits_value_undec: "digits_value ds = undec ds"
  by (simp add: digits_value_def undec_def foldl_conv_fold mult.commute)

lemma finish_number_value:
  assumes "t \<in> {T_value_unsigned, T_value_integer, T_value_float}" "t = T_value_integer \<Longrightarrow> hd txt = 0x2d \<and> txt \<noteq> []"
    and "lx_token_buffer s = txt" "finish_number sd t (lx_get s) = (s', tok)"
  shows "token_value s' tok = number_value sd t txt" "tok \<in> {T_value_unsigned, T_value_integer, T_value_float}"
proof -
  have buf: "lx_token_buffer (lx_unget (lx_get s)) = txt" using assms(3) by simp
  have u: "uint (word_of_nat n :: u64) = int n" if "n < 2 ^ 64" for n using that by (simp add: unsigned_of_nat take_bit_nat_eq_self)
  have i: "sint (- word_of_nat n :: u64) = - int n" if "n \<le> 2 ^ 63" for n using that by (rule sint_minus_nat)
  show "token_value s' tok = number_value sd t txt" "tok \<in> {T_value_unsigned, T_value_integer, T_value_float}"
    using assms(1,2,4) buf u i
    by (auto simp: finish_number_def Let_def number_value_def strtoull_def strtoll_def digits_value_undec split: if_splits)
qed

lemma finish_number_lexer:
  assumes "lx_at s bs" "finish_number sd t (lx_get s) = (s', tok)"
  shows "lx_at s' bs" "lx_total s \<le> lx_total s'"
proof -
  have "lx_at (lx_unget (lx_get s)) bs" by (rule unget_at [OF assms(1)])
  moreover have "lx_total (lx_unget (lx_get s)) = lx_total s"
    by (cases "lx_input s") (simp_all add: lx_unget_def lx_get_def get_character_def Let_def split: option.split)
  ultimately show "lx_at s' bs" "lx_total s \<le> lx_total s'"
    using assms(2) by (auto simp: finish_number_def Let_def split: if_splits option.splits)
qed

lemma number_done_accepting:
  "st \<in> {N_zero, N_any1, N_decimal2, N_any2} \<Longrightarrow> ends_number bs \<Longrightarrow> number_step st (first_char bs) = Number_done"
  by (cases bs) (auto simp: ends_number_def first_char_def is_digit_def is_exponent_def split: if_splits)

lemma number_done_accepting':
  "number_step st c = Number_done \<Longrightarrow> st \<in> {N_zero, N_any1, N_decimal2, N_any2}"
  by (cases st) (auto split: if_splits)

lemma number_run_type:
  "number_run st t u = Some (st', t') \<Longrightarrow> t \<in> {T_value_unsigned, T_value_integer, T_value_float} \<Longrightarrow>
     t' \<in> {T_value_unsigned, T_value_integer, T_value_float} \<and> (t' = T_value_integer \<longrightarrow> st = N_minus \<or> t = T_value_integer)"
proof (induction u arbitrary: st t)
  case Nil
  then show ?case by (auto simp: number_type_def split: if_splits)
next
  case (Cons c u)
  then obtain st1 where st1: "number_step st (Some c) = Goto st1" "number_run st1 (number_type st t) u = Some (st', t')"
    by (auto split: number_move.splits)
  moreover have "number_type st t \<in> {T_value_unsigned, T_value_integer, T_value_float}" using Cons.prems(2) by (auto simp: number_type_def)
  moreover have "st1 \<noteq> N_minus" using st1(1) by (cases st) (auto split: if_splits)
  ultimately show ?case using Cons.IH by (auto simp: number_type_def split: if_splits)
qed

lemma scan_number_start:
  assumes "lx_current s = Some c"
  shows "scan_number sd s = scan_number_from sd (start_state c) T_value_unsigned (lx_add c (lx_reset s))"
  using assms by (simp add: scan_number_def Let_def start_state_def to_char_def)

theorem scan_number_text:
  assumes "lx_current s = Some c" "lx_at s (u @ bs)" "ends_number bs" "json_number sd (c # u) v"
  shows "\<exists>s' tok. scan_number sd s = (s', tok) \<and> lx_at s' bs \<and> lx_total s \<le> lx_total s' \<and> token_value s' tok = Some v"
proof -
  obtain t' st' where t': "number_run (start_state c) T_value_unsigned u = Some (st', t')" "st' \<in> {N_zero, N_any1, N_decimal2, N_any2}"
      "number_value sd t' (c # u) = Some v"
    using assms(4) by (auto simp: json_number_accepts accepts_def)
  let ?s = "lx_add c (lx_reset s)"
  have "lx_at ?s (u @ bs)" using assms(2) by simp
  from scan_number_complete [OF t'(1) number_done_accepting [OF t'(2) assms(3)] this, of sd]
  obtain s1 where s1: "scan_number sd s = finish_number sd t' (lx_get s1)" "lx_at s1 bs" "lx_token_buffer s1 = c # u" "lx_total s \<le> lx_total s1"
    using scan_number_start [OF assms(1)] by auto
  obtain s' tok where s': "finish_number sd t' (lx_get s1) = (s', tok)" by fastforce
  have "t' \<in> {T_value_unsigned, T_value_integer, T_value_float} \<and> (t' = T_value_integer \<longrightarrow> c = 0x2d)"
    using number_run_type [OF t'(1)] by (auto simp: start_state_def split: if_splits)
  with finish_number_value(1) [OF _ _ s1(3) s'] t'(3) have "token_value s' tok = Some v" by simp
  with finish_number_lexer [OF s1(2) s'] s1(1,4) s' show ?thesis by auto
qed

theorem scan_number_text_sound:
  assumes "lx_current s = Some c" "c = 0x2d \<or> is_digit_byte c" "lx_at s bs" "scan_number sd s = (s', tok)" "tok \<noteq> T_parse_error"
  shows "\<exists>u r. bs = u @ r \<and> lx_at s' r \<and> lx_total s \<le> lx_total s' \<and> tok \<in> {T_value_unsigned, T_value_integer, T_value_float}
    \<and> (\<forall>v. token_value s' tok = Some v \<longrightarrow> json_number sd (c # u) v)"
proof -
  let ?s = "lx_add c (lx_reset s)"
  have "scan_number_from sd (start_state c) T_value_unsigned ?s = (s', tok)" "lx_at ?s bs"
    using assms(3,4) scan_number_start [OF assms(1)] by simp_all
  from scan_number_sound [OF this(1) assms(5) this(2)]
  obtain u r st' t' s1 where u: "bs = u @ r" "number_run (start_state c) T_value_unsigned u = Some (st', t')"
      "number_step st' (first_char r) = Number_done" "finish_number sd t' (lx_get s1) = (s', tok)" "lx_at s1 r"
      "lx_token_buffer s1 = c # u" "lx_total s \<le> lx_total s1"
    by auto
  have t': "t' \<in> {T_value_unsigned, T_value_integer, T_value_float}" "t' = T_value_integer \<Longrightarrow> hd (c # u) = 0x2d \<and> c # u \<noteq> []"
    using number_run_type [OF u(2)] by (auto simp: start_state_def split: if_splits)
  have "accepts (start_state c) T_value_unsigned u t'"
    using u(2) number_done_accepting' [OF u(3)] by (auto simp: accepts_def)
  then have "json_number sd (c # u) v" if "number_value sd t' (c # u) = Some v" for v
    using that assms(2) by (auto simp: json_number_accepts)
  with finish_number_value [OF t' u(6,4)] finish_number_lexer [OF u(5,4)] u(1,7) show ?thesis by auto
qed

end
