(* ===== verification/Json_Tokens.thy ===== *)
theory Json_Tokens
  imports Json_Numbers
begin

text \<open>
  One call of \<open>scan\<close>: after white space it takes one token of the grammar, and the text of the
  token and what the scanner has left are those of the input. The predicate \<open>reads\<close> is the
  interface to the parser: the scanner has a given text to read.
\<close>

section \<open>One token\<close>

text \<open>How far the scanner has come only grows.\<close>

lemma total_unicode:
  "lx_total s \<le> lx_total (fst (codepoint_digits fs n s))"
  "lx_total s \<le> lx_total (fst (bytes_in_range rs s))"
  "lx_total s \<le> lx_total (fst (scan_literal_rest cs t s))"
proof -
  show "lx_total s \<le> lx_total (fst (codepoint_digits fs n s))"
  proof (induction fs arbitrary: n s)
    case (Cons f fs)
    have "lx_total (lx_get s) \<le> lx_total (fst (codepoint_digits fs m (lx_get s)))" for m by (rule Cons.IH)
    then show ?case by (auto simp: get_total Let_def dest: Suc_leD)
  qed simp
  show "lx_total s \<le> lx_total (fst (bytes_in_range rs s))"
  proof (induction rs arbitrary: s)
    case (Cons r rs)
    have "lx_total (lx_add c (lx_get s)) \<le> lx_total (fst (bytes_in_range rs (lx_add c (lx_get s))))" for c by (rule Cons.IH)
    then show ?case by (auto simp: get_total Let_def split: prod.split dest: Suc_leD)
  qed simp
  show "lx_total s \<le> lx_total (fst (scan_literal_rest cs t s))"
  proof (induction cs arbitrary: s)
    case (Cons c cs)
    have "lx_total (lx_get s) \<le> lx_total (fst (scan_literal_rest cs t (lx_get s)))" by (rule Cons.IH)
    then show ?case by (auto simp: get_total Let_def dest: Suc_leD)
  qed simp
qed

lemma total_character: "lx_total s \<le> lx_total (fst (scan_character s))"
proof -
  have add: "lx_total (fold lx_add cs s) = lx_total s" for cs s by (induction cs arbitrary: s) simp_all
  have cp: "lx_total s \<le> lx_total s'" if "get_codepoint s = (s', n)" for s s' n
    using total_unicode(1) [of s "[12, 8, 4, 0]" 0] that by (simp add: get_codepoint_def)
  have u: "lx_total s \<le> lx_total (fst (scan_unicode_escape s))" for s
  proof -
    have "lx_total s \<le> lx_total s2" if "get_codepoint s = (s1, n)" "get_codepoint (lx_get (lx_get s1)) = (s2, m)" for s1 s2 n m
      using cp [OF that(1)] cp [OF that(2)] by (simp add: get_total)
    moreover have "lx_total s \<le> lx_total (lx_get s1)" "lx_total s \<le> lx_total (lx_get (lx_get s1))" if "get_codepoint s = (s1, n)" for s1 n
      using cp [OF that] by (simp_all add: get_total)
    ultimately show ?thesis using cp [of s]
      by (auto simp: scan_unicode_escape_def Let_def add split: prod.splits)
  qed
  have e: "lx_total s \<le> lx_total (fst (scan_escape s))" for s
    using u [of "lx_get s"] by (auto simp: scan_escape_def Let_def get_total split: option.split)
  have "lx_total s \<le> lx_total (fst (next_byte_in_range rs s))" for rs s
    using total_unicode(2) [of "lx_add (to_char (lx_current s)) s" rs] by (simp add: next_byte_in_range_def)
  note r = this [of "lx_get s"]
  show ?thesis using e [of "lx_get s"] r
    by (auto simp: scan_character_def Let_def get_total split: option.split prod.split) (metis Suc_leD fst_conv get_total)+
qed

lemma total_string: "lx_total s \<le> lx_total (fst (scan_string_loop s))"
proof (induction s rule: scan_string_loop.induct)
  case (1 s)
  obtain s1 tok where c: "scan_character s = (s1, tok)" by fastforce
  have "lx_total s \<le> lx_total s1" using total_character [of s] by (simp add: c)
  with "1.IH" [OF c [symmetric]] show ?case by (subst scan_string_loop.simps) (auto simp: c split: option.split)
qed

lemma total_space: "lx_total s < lx_total (skip_whitespace s)"
proof (induction s rule: skip_whitespace.induct)
  case (1 s)
  from "1.IH" [OF refl] show ?case by (subst skip_whitespace.simps) (auto simp: get_total Let_def)
qed

text \<open>
  A scanner that has \<open>bs\<close> to read: before the first token this leaves out a byte order mark.
\<close>

definition reads :: "(byte list \<Rightarrow> u64) \<Rightarrow> lexer \<Rightarrow> byte list \<Rightarrow> bool" where
  "reads sd s bs \<longleftrightarrow> (\<exists>s1. lx_at s1 bs \<and> scan sd s = scan_token sd (skip_whitespace s1))"

lemma reads_after: "0 < lx_total s \<Longrightarrow> lx_at s bs \<Longrightarrow> reads sd s bs"
  by (auto simp: reads_def scan_def)

lemma spaces_split:
  obtains "spaces bs" | ws c r where "bs = ws @ c # r" "spaces ws" "\<not> is_space (Some c)"
proof (cases "spaces bs")
  case False
  let ?sp = "\<lambda>c. is_space (Some c)"
  have "dropWhile ?sp bs \<noteq> []" using False by (auto simp: spaces_def)
  then obtain c r where c: "dropWhile ?sp bs = c # r" by (cases "dropWhile ?sp bs") auto
  have "bs = takeWhile ?sp bs @ c # r" using takeWhile_dropWhile_id [of ?sp bs] c by simp
  moreover have "spaces (takeWhile ?sp bs)" by (auto simp: spaces_def dest: set_takeWhileD)
  moreover have "\<not> ?sp c" using c by (auto simp: dropWhile_eq_Cons_conv)
  ultimately show ?thesis using that(2) by blast
qed (rule that(1))

lemma reads_token:
  assumes "reads sd s (ws @ c # r)" "spaces ws" "\<not> is_space (Some c)"
  obtains s1 where "scan sd s = scan_token sd s1" "lx_current s1 = Some c" "lx_at s1 r" "0 < lx_total s1"
proof -
  obtain s0 where s0: "lx_at s0 (ws @ c # r)" "scan sd s = scan_token sd (skip_whitespace s0)"
    using assms(1) by (auto simp: reads_def)
  with skip_whitespace_at(1) [of ws s0 c r] assms(2,3) total_space [of s0] that show ?thesis by (auto simp: spaces_def)
qed

lemma reads_end:
  assumes "reads sd s bs" "text_end bs"
  shows "snd (scan sd s) = T_end_of_input"
proof -
  obtain ws r where ws: "spaces ws" "bs = ws \<or> bs = ws @ 0 # r" using assms(2) by (auto simp: text_end_def)
  from ws(2) show ?thesis
  proof
    assume "bs = ws"
    with assms(1) obtain s0 where s0: "lx_at s0 ws" "scan sd s = scan_token sd (skip_whitespace s0)" by (auto simp: reads_def)
    with skip_whitespace_at(2) [of ws s0] ws(1) show ?thesis by (simp add: spaces_def scan_token_def is_digit_def)
  next
    assume "bs = ws @ 0 # r"
    with assms(1) ws(1) obtain s1 where "scan sd s = scan_token sd s1" "lx_current s1 = Some 0"
      by (auto simp: is_space_def elim: reads_token)
    then show ?thesis by (simp add: scan_token_def is_digit_def)
  qed
qed

lemma reads_structural:
  assumes "reads sd s (ws @ c # r)" "spaces ws" "structural c = Some t"
  obtains s' where "scan sd s = (s', t)" "reads sd s' r"
proof -
  have c: "c \<in> {0x5b, 0x5d, 0x7b, 0x7d, 0x3a, 0x2c}" using assms(3) by (auto simp: structural_def split: if_splits)
  then have "\<not> is_space (Some c)" by (auto simp: is_space_def)
  with assms(1,2) obtain s1 where s1: "scan sd s = scan_token sd s1" "lx_current s1 = Some c" "lx_at s1 r" "0 < lx_total s1"
    by (rule reads_token)
  have "scan_token sd s1 = (s1, t)"
    using c assms(3) s1(2) unfolding insert_iff empty_iff by (elim disjE) (simp_all add: structural_def scan_token_def)
  with s1 that [of s1] reads_after show ?thesis by simp
qed

text \<open>Values of one token.\<close>

lemma scan_literal_at:
  assumes "lx_current s = Some c" "cstr l = c # cs" "lx_at s (cs @ r)"
  shows "\<exists>s'. scan_literal l t s = (s', t) \<and> lx_at s' r \<and> lx_total s \<le> lx_total s'"
proof -
  obtain s' where "scan_literal_rest cs t s = (s', t)" "lx_at s' r" using scan_literal_rest_at [OF assms(3)] by blast
  with total_unicode(3) [of s cs t] show ?thesis by (simp add: scan_literal_def assms(2))
qed

lemma scan_token_number:
  assumes "lx_current s = Some c" "c = 0x2d \<or> is_digit_byte c"
  shows "scan_token sd s = scan_number sd s"
proof -
  have "c \<notin> {0x5b, 0x5d, 0x7b, 0x7d, 0x3a, 0x2c, 0x74, 0x66, 0x6e, 0x22}" using assms(2) by (auto simp: is_digit_byte_def)
  then show ?thesis using assms by (auto simp: scan_token_def Let_def is_digit_Some)
qed

lemma reads_scalar:
  assumes "json_scalar sd t v" "reads sd s (ws @ t @ r)" "spaces ws" "ends_number r"
  obtains s' tok where "scan sd s = (s', tok)" "token_value s' tok = Some v" "reads sd s' r"
proof -
  obtain c u where t: "t = c # u" "\<not> is_space (Some c)"
  proof (cases "t = [] \<or> is_space (Some (hd t))")
    case True
    with assms(1) show ?thesis
      by (cases rule: json_scalar.cases) (auto simp: cstr_def is_space_def json_number_accepts is_digit_byte_def)
  next
    case False
    then show ?thesis using that [of "hd t" "tl t"] by simp
  qed
  with assms(2) have "reads sd s (ws @ c # u @ r)" by simp
  from this assms(3) t(2) obtain s1 where s1: "scan sd s = scan_token sd s1" "lx_current s1 = Some c" "lx_at s1 (u @ r)" "0 < lx_total s1"
    by (rule reads_token)
  have "\<exists>s' tok. scan_token sd s1 = (s', tok) \<and> token_value s' tok = Some v \<and> lx_at s' r \<and> lx_total s1 \<le> lx_total s'"
    using assms(1)
  proof (cases rule: json_scalar.cases)
    case null
    then have c: "cstr ''null'' = c # u" "c = 0x6e" using t by (auto simp: cstr_def)
    then have "scan_token sd s1 = scan_literal ''null'' T_literal_null s1" using s1(2) by (simp add: scan_token_def)
    with scan_literal_at [OF s1(2) c(1) s1(3), of T_literal_null] null show ?thesis by auto
  next
    case true
    then have c: "cstr ''true'' = c # u" "c = 0x74" using t by (auto simp: cstr_def)
    then have "scan_token sd s1 = scan_literal ''true'' T_literal_true s1" using s1(2) by (simp add: scan_token_def)
    with scan_literal_at [OF s1(2) c(1) s1(3), of T_literal_true] true show ?thesis by auto
  next
    case false
    then have c: "cstr ''false'' = c # u" "c = 0x66" using t by (auto simp: cstr_def)
    then have "scan_token sd s1 = scan_literal ''false'' T_literal_false s1" using s1(2) by (simp add: scan_token_def)
    with scan_literal_at [OF s1(2) c(1) s1(3), of T_literal_false] false show ?thesis by auto
  next
    case (string k str)
    then have c: "c = 0x22" "u = k @ [0x22]" using t by auto
    then have "scan_token sd s1 = scan_string_loop (lx_reset s1)" using s1(2) by (simp add: scan_token_def scan_string_def)
    moreover have "lx_at (lx_reset s1) (k @ 0x22 # r)" using s1(3) c(2) by simp
    ultimately show ?thesis
      using scan_string_complete [OF string(3), of "lx_reset s1" r] total_string [of "lx_reset s1"] string(2) by auto
  next
    case number
    then have c: "json_number sd (c # u) v" "c = 0x2d \<or> is_digit_byte c" using t by (auto simp: json_number_accepts)
    then have "scan_token sd s1 = scan_number sd s1" using s1(2) by (intro scan_token_number)
    with scan_number_text [OF s1(2,3) assms(4) c(1)] show ?thesis by auto
  qed
  with s1(1,4) that reads_after show ?thesis by (metis less_le_trans)
qed

section \<open>What a token was\<close>

lemma scan_literal_sound:
  assumes "scan_literal_rest cs t s = (s', tok)" "tok \<noteq> T_parse_error" "lx_at s bs" "0xFF \<notin> set cs"
  shows "tok = t \<and> (\<exists>r. bs = cs @ r \<and> lx_at s' r)"
  using assms
proof (induction cs arbitrary: s bs)
  case (Cons c cs)
  have "to_char (lx_current (lx_get s)) = c" using Cons.prems(1,2) by (auto simp: Let_def split: if_splits)
  then obtain bs' where bs: "bs = c # bs'" using get_at [of s] Cons.prems(3,4) by (cases bs) (auto simp: to_char_def)
  then have "lx_at (lx_get s) bs'" "scan_literal_rest cs t (lx_get s) = (s', tok)"
    using get_at(1) [of s c bs'] Cons.prems(1-3) by (auto simp: Let_def split: if_splits)
  from Cons.IH [OF this(2) Cons.prems(2) this(1)] bs Cons.prems(4) show ?case by simp
qed simp

definition scalar_token :: "token_type \<Rightarrow> bool" where
  "scalar_token tok \<longleftrightarrow>
     tok \<in> {T_literal_null, T_literal_true, T_literal_false, T_value_string, T_value_unsigned, T_value_integer, T_value_float}"

text \<open>What the text of a token says about the token and the scanner after it.\<close>

definition token_text :: "(byte list \<Rightarrow> u64) \<Rightarrow> byte list \<Rightarrow> lexer \<Rightarrow> token_type \<Rightarrow> bool" where
  "token_text sd u s tok \<longleftrightarrow>
     (\<exists>c. u = [c] \<and> structural c = Some tok)
     \<or> scalar_token tok \<and> (\<forall>v. token_value s tok = Some v \<longrightarrow> json_scalar sd u v)"

lemma scan_token_sound:
  assumes "scan_token sd s = (s', tok)" "tok \<noteq> T_parse_error" "tok \<noteq> T_end_of_input" "lx_current s = Some c" "lx_at s bs"
  shows "\<exists>u r. bs = u @ r \<and> lx_at s' r \<and> lx_total s \<le> lx_total s' \<and> token_text sd (c # u) s' tok"
proof -
  have that_literal: "\<exists>u r. bs = u @ r \<and> lx_at s' r \<and> lx_total s \<le> lx_total s' \<and> token_text sd (c # u) s' tok"
    if "scan_literal l t s = (s', tok)" "cstr l = c # u" "0xFF \<notin> set u" "scalar_token t"
      "\<And>v. token_value s' t = Some v \<Longrightarrow> json_scalar sd (cstr l) v" for l t u
  proof -
    have "tok = t \<and> (\<exists>r. bs = u @ r \<and> lx_at s' r)"
      using scan_literal_sound [of u t s s' tok bs] that(1-3) assms(2,5) by (simp add: scan_literal_def)
    moreover have "lx_total s \<le> lx_total s'" using total_unicode(3) [of s u t] that(1,2) by (simp add: scan_literal_def)
    ultimately show ?thesis using that(2,4,5) by (auto simp: token_text_def)
  qed
  consider (structural) t where "structural c = Some t" "scan_token sd s = (s, t)"
    | (literal) l t where "(l, t) \<in> {(''true'', T_literal_true), (''false'', T_literal_false), (''null'', T_literal_null)}"
        "c = hd (cstr l)" "scan_token sd s = scan_literal l t s"
    | (string) "c = 0x22" "scan_token sd s = scan_string_loop (lx_reset s)"
    | (number) "c = 0x2d \<or> is_digit_byte c" "scan_token sd s = scan_number sd s"
  proof (cases "c \<in> {0x74, 0x66, 0x6e}")
    case True
    then show ?thesis
      using assms(4) that(2) [of "''true''" T_literal_true] that(2) [of "''false''" T_literal_false] that(2) [of "''null''" T_literal_null]
      by (auto simp: scan_token_def cstr_def)
  next
    case False
    then show ?thesis
      using assms(1-4) that(1,3,4)
      by (auto simp: scan_token_def Let_def structural_def scan_string_def is_digit_Some split: if_splits)
  qed
  then show ?thesis
  proof cases
    case structural
    with assms(1,5) show ?thesis by (auto simp: token_text_def)
  next
    case (literal l t)
    then have "cstr l = c # tl (cstr l)" "0xFF \<notin> set (tl (cstr l))" "scalar_token t"
      by (auto simp: cstr_def scalar_token_def)
    moreover have "json_scalar sd (cstr l) v" if "token_value s' t = Some v" for v
      using literal(1) that by (auto intro: json_scalar.null json_scalar.true json_scalar.false)
    ultimately show ?thesis using literal(3) assms(1) by (intro that_literal) simp_all
  next
    case string
    have run: "scan_string_loop (lx_reset s) = (s', tok)" using string(2) assms(1) by simp
    with scan_string_loop_token [of "lx_reset s"] assms(2) have tok: "tok = T_value_string" by simp
    have "lx_at (lx_reset s) bs" using assms(5) by simp
    with scan_string_sound [of "lx_reset s" s' bs] run tok
    obtain t v r where t: "bs = t @ 0x22 # r" "json_chars t v" "lx_at s' r" "lx_token_buffer s' = v" by auto
    have "token_text sd (c # t @ [0x22]) s' tok"
      using t(2,4) string(1) tok json_scalar.string [OF t(2)] by (simp add: token_text_def scalar_token_def)
    moreover have "bs = (t @ [0x22]) @ r" using t(1) by simp
    moreover have "lx_total s \<le> lx_total s'" using total_string [of "lx_reset s"] run by simp
    ultimately show ?thesis using t(3) by blast
  next
    case number
    have "scan_number sd s = (s', tok)" using number(2) assms(1) by simp
    from scan_number_text_sound [OF assms(4) number(1) assms(5) this assms(2)]
    show ?thesis by (auto simp: token_text_def scalar_token_def intro: json_scalar.number)
  qed
qed

lemma scan_token_end:
  assumes "lx_current s = Some c" "snd (scan_token sd s) = T_end_of_input"
  shows "c = 0"
proof -
  have "snd (scan_literal l t s) \<in> {t, T_parse_error}" for l t by (simp only: scan_literal_def scan_literal_rest_token)
  note literal = this [of "''true''" T_literal_true] this [of "''false''" T_literal_false] this [of "''null''" T_literal_null]
  have "snd (scan_string s) \<in> {T_value_string, T_parse_error}"
    by (simp only: scan_string_def scan_string_loop_token)
  moreover have "snd (scan_number sd s) \<in> {T_value_unsigned, T_value_integer, T_value_float, T_parse_error}"
    unfolding scan_number_start [OF assms(1)] by (rule scan_number_from_token) simp
  ultimately show ?thesis using literal assms by (auto simp: scan_token_def Let_def split: if_splits)
qed

lemma reads_sound:
  assumes "reads sd s bs" "scan sd s = (s', tok)" "tok \<noteq> T_parse_error"
  obtains "tok = T_end_of_input" "text_end bs"
  | ws u r where "bs = ws @ u @ r" "spaces ws" "u \<noteq> []" "reads sd s' r" "token_text sd u s' tok"
proof -
  obtain s0 where s0: "lx_at s0 bs" "scan_token sd (skip_whitespace s0) = (s', tok)" using assms(1,2) by (auto simp: reads_def)
  show ?thesis
  proof (cases rule: spaces_split [of bs])
    case 1
    with skip_whitespace_at(2) [of bs s0] s0 have "tok = T_end_of_input" by (simp add: spaces_def scan_token_def is_digit_def)
    with 1 that(1) show ?thesis by (auto simp: text_end_def)
  next
    case (2 ws c r)
    let ?s = "skip_whitespace s0"
    have s1: "lx_current ?s = Some c" "lx_at ?s r" "0 < lx_total ?s"
      using skip_whitespace_at(1) [of ws s0 c r] 2 s0(1) total_space [of s0] by (auto simp: spaces_def)
    show ?thesis
    proof (cases "tok = T_end_of_input")
      case True
      then have "c = 0" using scan_token_end [OF s1(1), of sd] s0(2) by simp
      with 2 True that(1) show ?thesis by (auto simp: text_end_def)
    next
      case False
      from scan_token_sound [OF s0(2) assms(3) False s1(1,2)]
      obtain u r' where u: "r = u @ r'" "lx_at s' r'" "lx_total ?s \<le> lx_total s'" "token_text sd (c # u) s' tok" by blast
      then have "reads sd s' r'" "bs = ws @ (c # u) @ r'" using s1(3) 2(1) by (auto intro: reads_after)
      with u(4) 2(2) that(2) show ?thesis by blast
    qed
  qed
qed

end
