(* ===== verification/Json_Language.thy ===== *)
theory Json_Language
  imports Json_Parser Json_Tokens
begin

text \<open>
  The parser reads exactly the texts of the grammar, to exactly their values. The stack machine
  of \<open>Json_Parser\<close> is related to the grammar in both directions by what a run of it does to its
  stacks and to the value under construction (\<open>runs_to\<close>): texts of the grammar are parsed, by
  induction over the grammar; what was parsed without an error was a text of the grammar, by
  induction over the length of the input.
\<close>

section \<open>The value under construction\<close>

subsection \<open>Pointers\<close>

primrec valid_ref :: "json_ref \<Rightarrow> json \<Rightarrow> bool" where
  "valid_ref [] j = True"
| "valid_ref (s # p) j =
     (case (s, j) of
        (Elem i, JArr js) \<Rightarrow> i < length js \<and> valid_ref p (js ! i)
      | (Member k, JObj kvs) \<Rightarrow> (case map_of kvs k of None \<Rightarrow> False | Some j' \<Rightarrow> valid_ref p j')
      | _ \<Rightarrow> False)"

lemma insert_key_twice: "insert_key k w (insert_key k v kvs) = insert_key k w kvs"
  by (induction k v kvs rule: insert_key.induct) auto

lemma valid_ref_cases:
  assumes "valid_ref (s # p) j"
  obtains i js where "s = Elem i" "j = JArr js" "i < length js" "valid_ref p (js ! i)"
  | k kvs j' where "s = Member k" "j = JObj kvs" "map_of kvs k = Some j'" "valid_ref p j'"
  using assms by (auto split: ref_step.splits json.splits option.splits)

lemma put_ref_at:
  assumes "valid_ref p j"
  shows "get_ref p (put_ref p v j) = v" "valid_ref p (put_ref p v j)" "put_ref p w (put_ref p v j) = put_ref p w j"
    "put_ref (p @ q) v j = put_ref p (put_ref q v (get_ref p j)) j" "get_ref (p @ q) j = get_ref q (get_ref p j)"
    "valid_ref (p @ q) j = valid_ref q (get_ref p j)"
  using assms
proof (induction p arbitrary: j)
  case (Cons s p)
  {
    case 1
    then show ?case by (elim valid_ref_cases) (auto simp: Cons.IH(1))
  next
    case 2
    then show ?case by (elim valid_ref_cases) (auto simp: Cons.IH(2))
  next
    case 3
    then show ?case by (elim valid_ref_cases) (auto simp: Cons.IH(3) insert_key_twice)
  next
    case 4
    then show ?case by (elim valid_ref_cases) (auto simp: Cons.IH(4))
  next
    case 5
    then show ?case by (elim valid_ref_cases) (auto simp: Cons.IH(5))
  next
    case 6
    then show ?case by (elim valid_ref_cases) (auto simp: Cons.IH(6))
  }
qed simp_all

subsection \<open>The value in its place\<close>

text \<open>A value can be added: the innermost container is an array, or an object whose key has been read.\<close>

definition dom_ready :: "dom \<Rightarrow> bool" where
  "dom_ready d \<longleftrightarrow>
     (case dom_refs d of
        [] \<Rightarrow> True
      | p # _ \<Rightarrow> valid_ref p (dom_root d) \<and>
          (case get_ref p (dom_root d) of
             JArr js \<Rightarrow> True
           | JObj kvs \<Rightarrow> (\<exists>k. dom_element d = p @ [Member k] \<and> map_of kvs k \<noteq> None)
           | _ \<Rightarrow> False))"

definition with_value :: "json \<Rightarrow> dom \<Rightarrow> json" where
  "with_value v d = dom_root (fst (handle_value v d))"

lemma with_value_put:
  assumes "dom_ready d" "handle_value v d = (d', p)"
  shows "valid_ref p (dom_root d')" "get_ref p (dom_root d') = v" "put_ref p w (dom_root d') = with_value w d"
    "dom_refs d' = dom_refs d" "dom_root d' = with_value v d"
proof -
  show "dom_root d' = with_value v d" using assms(2) by (simp add: with_value_def)
  show "dom_refs d' = dom_refs d" using refs_simps(1) [of v d] assms(2) by simp
  have "valid_ref p (dom_root d') \<and> get_ref p (dom_root d') = v \<and> put_ref p w (dom_root d') = with_value w d"
  proof (cases "dom_refs d")
    case Nil
    with assms(2) show ?thesis by (auto simp: handle_value_def with_value_def)
  next
    case (Cons q qs)
    with assms(1) have q: "valid_ref q (dom_root d)" by (simp add: dom_ready_def)
    consider js where "get_ref q (dom_root d) = JArr js"
      | kvs k where "get_ref q (dom_root d) = JObj kvs" "dom_element d = q @ [Member k]" "map_of kvs k \<noteq> None"
      using assms(1) Cons by (auto simp: dom_ready_def split: json.splits)
    then show ?thesis
    proof cases
      case 1
      then have "d' = d\<lparr>dom_root := put_ref q (JArr (js @ [v])) (dom_root d)\<rparr>" "p = q @ [Elem (length js)]"
        using assms(2) Cons by (simp_all add: handle_value_def)
      with 1 q Cons show ?thesis by (simp add: put_ref_at with_value_def handle_value_def)
    next
      case 2
      then have d: "d' = d\<lparr>dom_root := put_ref p v (dom_root d)\<rparr>" "p = q @ [Member k]"
        using assms(2) Cons by (auto simp: handle_value_def)
      have "valid_ref p (dom_root d)" using d(2) q 2 by (auto simp: put_ref_at)
      with d 2 q Cons show ?thesis by (simp add: put_ref_at(1-3) with_value_def handle_value_def)
    qed
  qed
  then show "valid_ref p (dom_root d')" "get_ref p (dom_root d') = v" "put_ref p w (dom_root d') = with_value w d"
    by blast+
qed

lemma start_container_at:
  assumes "dom_ready d"
  obtains p where "dom_refs (start_container v d) = p # dom_refs d" "valid_ref p (dom_root (start_container v d))"
    "get_ref p (dom_root (start_container v d)) = v"
    "\<And>w. put_ref p w (dom_root (start_container v d)) = with_value w d"
    "dom_root (start_container v d) = with_value v d"
proof -
  obtain d' p where h: "handle_value v d = (d', p)" by fastforce
  note at = with_value_put [OF assms h]
  show ?thesis by (rule that [of p]) (use h at in \<open>simp_all add: start_container_def\<close>)
qed

lemma with_value_array:
  "dom_refs d = p # rs \<Longrightarrow> get_ref p (dom_root d) = JArr js \<Longrightarrow> with_value v d = put_ref p (JArr (js @ [v])) (dom_root d)"
  by (simp add: with_value_def handle_value_def)

text \<open>A key makes room for its value, or takes that of an equal one before it.\<close>

lemma dom_key_at:
  assumes "dom_refs d = p # rs" "valid_ref p (dom_root d)" "get_ref p (dom_root d) = JObj kvs"
  shows "dom_ready (dom_key k d)" "with_value j (dom_key k d) = put_ref p (JObj (insert_key k j kvs)) (dom_root d)"
    "dom_refs (dom_key k d) = p # rs"
proof -
  show "dom_refs (dom_key k d) = p # rs" using assms(1) by simp
  show "dom_ready (dom_key k d)" using assms by (simp add: dom_key_def dom_ready_def put_ref_at)
  show "with_value j (dom_key k d) = put_ref p (JObj (insert_key k j kvs)) (dom_root d)"
    using assms by (auto simp: dom_key_def with_value_def handle_value_def put_ref_at insert_key_twice)
qed

subsection \<open>Runs of the parser\<close>

definition sax_eval :: "(byte list \<Rightarrow> u64) \<Rightarrow> parser \<Rightarrow> parser throwing" where
  "sax_eval strtod p =
     (case sax_state strtod p of
        Inl e \<Rightarrow> Inl e
      | Inr (p, continue) \<Rightarrow> if continue then sax_parse_internal strtod p else Inr p)"

lemma run_steps:
  "\<not> pr_skip p \<Longrightarrow> sax_value strtod p = Inr (p', False) \<Longrightarrow> sax_parse_internal strtod p = sax_eval strtod p'"
  "\<not> pr_skip p \<Longrightarrow> sax_value strtod p = Inr (p', True) \<Longrightarrow> sax_parse_internal strtod p = sax_parse_internal strtod p'"
  "pr_skip p \<Longrightarrow> sax_parse_internal strtod p = sax_eval strtod (p\<lparr>pr_skip := False\<rparr>)"
  "sax_state strtod p = Inr (p', True) \<Longrightarrow> sax_eval strtod p = sax_parse_internal strtod p'"
  by (simp_all add: sax_parse_internal.simps [of strtod p] sax_step_def sax_eval_def)

text \<open>
  The parser goes on after a value: it has read up to \<open>bs\<close>, with the containers \<open>rs\<close> open and the
  value built so far in \<open>root\<close>.
\<close>

definition runs_to :: "(byte list \<Rightarrow> u64) \<Rightarrow> parser \<Rightarrow> bool list \<Rightarrow> json_ref list \<Rightarrow> json \<Rightarrow> byte list \<Rightarrow> bool" where
  "runs_to sd q st rs root bs \<longleftrightarrow>
     (\<exists>p. sax_parse_internal sd q = sax_eval sd p \<and> reads sd (pr_lexer p) bs \<and> \<not> pr_skip p
       \<and> pr_states p = st \<and> dom_refs (pr_dom p) = rs \<and> dom_root (pr_dom p) = root)"

lemma get_token_scan:
  assumes "scan sd (pr_lexer p) = (s, tok)"
  shows "get_token sd p = p\<lparr>pr_lexer := s, pr_token := tok\<rparr>"
  using assms by (simp add: get_token_def)

lemma get_token_structural:
  assumes "reads sd (pr_lexer p) (ws @ c # bs)" "spaces ws" "structural c = Some tok"
  obtains s where "get_token sd p = p\<lparr>pr_lexer := s, pr_token := tok\<rparr>" "reads sd s bs"
  using reads_structural [OF assms] get_token_scan by metis

lemma get_token_states: "get_token sd (p\<lparr>pr_states := st\<rparr>) = (get_token sd p)\<lparr>pr_states := st\<rparr>"
  by (simp add: get_token_def split: prod.split)

lemma structural_simps [simp]:
  "structural 0x5b = Some T_begin_array" "structural 0x5d = Some T_end_array" "structural 0x7b = Some T_begin_object"
  "structural 0x7d = Some T_end_object" "structural 0x3a = Some T_name_separator" "structural 0x2c = Some T_value_separator"
  by (simp_all add: structural_def)

lemma sax_value_scalar:
  "token_value (pr_lexer p) (pr_token p) = Some v \<Longrightarrow> sax_value sd p = Inr (on_dom (fst \<circ> handle_value v) p, False)"
  by (cases "pr_token p") (auto simp: token_value_def sax_value_def split: if_splits)

lemma runs_to_scalar:
  assumes "token_value s tok = Some v" "scan sd (pr_lexer p) = (s, tok)" "reads sd s bs" "\<not> pr_skip p"
  shows "runs_to sd (get_token sd p) (pr_states p) (dom_refs (pr_dom p)) (with_value v (pr_dom p)) bs"
proof -
  let ?p = "get_token sd p"
  have "sax_value sd ?p = Inr (on_dom (fst \<circ> handle_value v) ?p, False)"
    using assms(1,2) by (intro sax_value_scalar) simp
  from run_steps(1) [OF _ this] assms(2-4) show ?thesis
    unfolding runs_to_def
    by (intro exI [of _ "on_dom (fst \<circ> handle_value v) ?p"]) (simp add: with_value_def)
qed

section \<open>Texts of the grammar are parsed\<close>

text \<open>
  Reading a value at the current place; the elements of an array up to the bracket that closes
  it; the members of an object from the first key to the closing brace.
\<close>

definition parses_value :: "(byte list \<Rightarrow> u64) \<Rightarrow> byte list \<Rightarrow> json \<Rightarrow> bool" where
  "parses_value sd t v \<longleftrightarrow>
     (\<forall>p ws bs. reads sd (pr_lexer p) (ws @ t @ bs) \<longrightarrow> spaces ws \<longrightarrow> ends_number bs \<longrightarrow> dom_ready (pr_dom p) \<longrightarrow> \<not> pr_skip p \<longrightarrow>
       pr_token (get_token sd p) \<noteq> T_end_array \<and>
       runs_to sd (get_token sd p) (pr_states p) (dom_refs (pr_dom p)) (with_value v (pr_dom p)) bs)"

definition parses_elements :: "(byte list \<Rightarrow> u64) \<Rightarrow> byte list \<Rightarrow> json list \<Rightarrow> bool" where
  "parses_elements sd t vs \<longleftrightarrow>
     (\<forall>p bs r rs st vs0. reads sd (pr_lexer p) (t @ 0x5d # bs) \<longrightarrow> \<not> pr_skip p \<longrightarrow>
       dom_refs (pr_dom p) = r # rs \<longrightarrow> valid_ref r (dom_root (pr_dom p)) \<longrightarrow> get_ref r (dom_root (pr_dom p)) = JArr vs0 \<longrightarrow>
       pr_states p = True # st \<longrightarrow>
       pr_token (get_token sd p) \<noteq> T_end_array \<and>
       runs_to sd (get_token sd p) st rs (put_ref r (JArr (vs0 @ vs)) (dom_root (pr_dom p))) bs)"

definition parses_members :: "(byte list \<Rightarrow> u64) \<Rightarrow> byte list \<Rightarrow> (byte list \<times> json) list \<Rightarrow> bool" where
  "parses_members sd t kvs \<longleftrightarrow>
     (\<forall>p bs r rs st kvs0. reads sd (pr_lexer p) (t @ 0x7d # bs) \<longrightarrow> \<not> pr_skip p \<longrightarrow>
       dom_refs (pr_dom p) = r # rs \<longrightarrow> valid_ref r (dom_root (pr_dom p)) \<longrightarrow> get_ref r (dom_root (pr_dom p)) = JObj kvs0 \<longrightarrow>
       (\<exists>p1. parse_key sd (get_token sd p) = Inr p1 \<and> pr_states p1 = pr_states p \<and>
         runs_to sd (get_token sd (p1\<lparr>pr_states := False # st\<rparr>)) st rs
           (put_ref r (JObj (members_map kvs0 kvs)) (dom_root (pr_dom p))) bs))"

lemma ends_number_simps [simp]:
  "ends_number []" "ends_number (0x5d # bs)" "ends_number (0x7d # bs)" "ends_number (0x2c # bs)"
  by (simp_all add: ends_number_def is_digit_def is_exponent_def)

lemma ends_number_spaces: "spaces ws \<Longrightarrow> ends_number bs \<Longrightarrow> ends_number (ws @ bs)"
  by (cases ws) (auto simp: is_space_def ends_number_def is_digit_def is_exponent_def)

lemma parses_scalar:
  assumes "json_scalar sd t v"
  shows "parses_value sd t v"
  unfolding parses_value_def
proof (intro allI impI)
  fix p :: parser and ws bs
  assume p: "reads sd (pr_lexer p) (ws @ t @ bs)" "spaces ws" "ends_number bs" "dom_ready (pr_dom p)" "\<not> pr_skip p"
  from assms p(1-3) obtain s tok where s: "scan sd (pr_lexer p) = (s, tok)" "token_value s tok = Some v" "reads sd s bs"
    by (rule reads_scalar)
  then have "tok \<noteq> T_end_array" by (auto simp: token_value_def)
  with runs_to_scalar [OF s(2,1,3) p(5)] s(1)
  show "pr_token (get_token sd p) \<noteq> T_end_array \<and>
      runs_to sd (get_token sd p) (pr_states p) (dom_refs (pr_dom p)) (with_value v (pr_dom p)) bs"
    by simp
qed

text \<open>A container is entered, and its closing bracket leaves it.\<close>

lemma closes:
  assumes "reads sd (pr_lexer p) (ws @ c # bs)" "spaces ws"
    and "(c, b) \<in> {(0x5d, True), (0x7d, False)}" "pr_states p = b # st" "dom_refs (pr_dom p) = r # rs" "\<not> pr_skip p"
    and "sax_parse_internal sd q = sax_eval sd p" "dom_root (pr_dom p) = root"
  shows "runs_to sd q st rs root bs"
proof -
  from assms(3) obtain tok where tok: "structural c = Some tok" "tok = (if b then T_end_array else T_end_object)" by auto
  obtain s where s: "get_token sd p = p\<lparr>pr_lexer := s, pr_token := tok\<rparr>" "reads sd s bs"
    using get_token_structural [OF assms(1,2) tok(1)] .
  let ?p = "on_dom end_container (get_token sd p\<lparr>pr_states := st, pr_skip := True\<rparr>)"
  have "sax_state sd p = Inr (?p, True)"
    using assms(4) s(1) tok(2) by (cases b) (simp_all add: sax_state_def Let_def del: get_token_simps)
  then have "sax_eval sd p = sax_eval sd (?p\<lparr>pr_skip := False\<rparr>)" using run_steps(3) [of ?p sd] run_steps(4) by simp
  then show ?thesis
    unfolding runs_to_def assms(7) using s assms(5,8)
    by (intro exI [of _ "?p\<lparr>pr_skip := False\<rparr>"]) (simp add: on_dom_def end_container_def del: get_token_simps)
qed

lemma enters:
  assumes "reads sd (pr_lexer p) (ws @ c # bs)" "spaces ws" "dom_ready (pr_dom p)" "\<not> pr_skip p"
    and "(c, tok, v) \<in> {(0x5b, T_begin_array, JArr []), (0x7b, T_begin_object, JObj [])}"
  obtains s r where "get_token sd p = p\<lparr>pr_lexer := s, pr_token := tok\<rparr>" "reads sd s bs"
    "dom_refs (start_container v (pr_dom p)) = r # dom_refs (pr_dom p)" "valid_ref r (dom_root (start_container v (pr_dom p)))"
    "get_ref r (dom_root (start_container v (pr_dom p))) = v"
    "\<forall>w. put_ref r w (dom_root (start_container v (pr_dom p))) = with_value w (pr_dom p)"
    "dom_root (start_container v (pr_dom p)) = with_value v (pr_dom p)"
proof -
  from assms(5) have "structural c = Some tok" by auto
  with assms(1,2) obtain s where "get_token sd p = p\<lparr>pr_lexer := s, pr_token := tok\<rparr>" "reads sd s bs"
    by (rule get_token_structural)
  with start_container_at [OF assms(3), of v] that show ?thesis by metis
qed

lemma runs_to_empty:
  assumes p: "spaces ws" "dom_ready (pr_dom p)" "\<not> pr_skip p" and w: "spaces w"
  shows "reads sd (pr_lexer p) (ws @ 0x5b # w @ 0x5d # bs) \<Longrightarrow> pr_token (get_token sd p) \<noteq> T_end_array \<and>
      runs_to sd (get_token sd p) (pr_states p) (dom_refs (pr_dom p)) (with_value (JArr []) (pr_dom p)) bs"
    and "reads sd (pr_lexer p) (ws @ 0x7b # w @ 0x7d # bs) \<Longrightarrow> pr_token (get_token sd p) \<noteq> T_end_array \<and>
      runs_to sd (get_token sd p) (pr_states p) (dom_refs (pr_dom p)) (with_value (JObj []) (pr_dom p)) bs"
proof -
  assume "reads sd (pr_lexer p) (ws @ 0x5b # w @ 0x5d # bs)"
  from this p obtain s r where s: "get_token sd p = p\<lparr>pr_lexer := s, pr_token := T_begin_array\<rparr>" "reads sd s (w @ 0x5d # bs)"
      "dom_refs (start_container (JArr []) (pr_dom p)) = r # dom_refs (pr_dom p)"
      "dom_root (start_container (JArr []) (pr_dom p)) = with_value (JArr []) (pr_dom p)"
    by (rule enters [where tok = T_begin_array and v = "JArr []"]) simp
  let ?q = "on_dom start_array (get_token sd p)"
  have "reads sd (pr_lexer ?q) (w @ 0x5d # bs)" using s(1,2) by (simp del: get_token_simps)
  from get_token_structural [OF this w] obtain s' where
      s': "get_token sd ?q = ?q\<lparr>pr_lexer := s', pr_token := T_end_array\<rparr>" "reads sd s' bs" by auto
  have "sax_value sd (get_token sd p) = Inr (on_dom end_container (get_token sd ?q), False)"
    using s(1) s'(1) by (simp add: sax_value_def Let_def del: get_token_simps)
  from run_steps(1) [OF _ this] s s' p(3)
  show "pr_token (get_token sd p) \<noteq> T_end_array \<and>
      runs_to sd (get_token sd p) (pr_states p) (dom_refs (pr_dom p)) (with_value (JArr []) (pr_dom p)) bs"
    unfolding runs_to_def
    by (intro conjI exI [of _ "on_dom end_container (get_token sd ?q)"]) (simp_all add: end_container_def start_array_def del: get_token_simps)
next
  assume "reads sd (pr_lexer p) (ws @ 0x7b # w @ 0x7d # bs)"
  from this p obtain s r where s: "get_token sd p = p\<lparr>pr_lexer := s, pr_token := T_begin_object\<rparr>" "reads sd s (w @ 0x7d # bs)"
      "dom_refs (start_container (JObj []) (pr_dom p)) = r # dom_refs (pr_dom p)"
      "dom_root (start_container (JObj []) (pr_dom p)) = with_value (JObj []) (pr_dom p)"
    by (rule enters [where tok = T_begin_object and v = "JObj []"]) simp
  let ?q = "on_dom start_object (get_token sd p)"
  have "reads sd (pr_lexer ?q) (w @ 0x7d # bs)" using s(1,2) by (simp del: get_token_simps)
  from get_token_structural [OF this w] obtain s' where
      s': "get_token sd ?q = ?q\<lparr>pr_lexer := s', pr_token := T_end_object\<rparr>" "reads sd s' bs" by auto
  have "sax_value sd (get_token sd p) = Inr (on_dom end_container (get_token sd ?q), False)"
    using s(1) s'(1) by (simp add: sax_value_def Let_def del: get_token_simps)
  from run_steps(1) [OF _ this] s s' p(3)
  show "pr_token (get_token sd p) \<noteq> T_end_array \<and>
      runs_to sd (get_token sd p) (pr_states p) (dom_refs (pr_dom p)) (with_value (JObj []) (pr_dom p)) bs"
    unfolding runs_to_def
    by (intro conjI exI [of _ "on_dom end_container (get_token sd ?q)"]) (simp_all add: end_container_def start_object_def del: get_token_simps)
qed

lemma parses_empty:
  assumes "spaces w"
  shows "parses_value sd (0x5b # w @ [0x5d]) (JArr [])" "parses_value sd (0x7b # w @ [0x7d]) (JObj [])"
  using runs_to_empty [OF _ _ _ assms] by (simp_all add: parses_value_def)

lemma array_ready:
  "dom_refs d = r # rs \<Longrightarrow> valid_ref r (dom_root d) \<Longrightarrow> get_ref r (dom_root d) = JArr vs \<Longrightarrow> dom_ready d"
  by (simp add: dom_ready_def)

lemma parses_array:
  assumes "parses_elements sd t vs"
  shows "parses_value sd (0x5b # t @ [0x5d]) (JArr vs)"
  unfolding parses_value_def
proof (intro allI impI)
  fix p :: parser and ws bs
  assume at: "reads sd (pr_lexer p) (ws @ (0x5b # t @ [0x5d]) @ bs)" and p: "spaces ws" "dom_ready (pr_dom p)" "\<not> pr_skip p"
  then have "reads sd (pr_lexer p) (ws @ 0x5b # t @ 0x5d # bs)" by simp
  from this p obtain s r where s: "get_token sd p = p\<lparr>pr_lexer := s, pr_token := T_begin_array\<rparr>" "reads sd s (t @ 0x5d # bs)"
      "dom_refs (start_array (pr_dom p)) = r # dom_refs (pr_dom p)" "valid_ref r (dom_root (start_array (pr_dom p)))"
      "get_ref r (dom_root (start_array (pr_dom p))) = JArr []" "\<forall>w. put_ref r w (dom_root (start_array (pr_dom p))) = with_value w (pr_dom p)"
    unfolding start_array_def by (rule enters [where tok = T_begin_array and v = "JArr []"]) simp
  let ?q = "(on_dom start_array (get_token sd p))\<lparr>pr_states := True # pr_states p\<rparr>"
  have q: "reads sd (pr_lexer ?q) (t @ 0x5d # bs)" "\<not> pr_skip ?q" "dom_refs (pr_dom ?q) = r # dom_refs (pr_dom p)"
      "valid_ref r (dom_root (pr_dom ?q))" "get_ref r (dom_root (pr_dom ?q)) = JArr []" "pr_states ?q = True # pr_states p"
    using s p(3) by (simp_all del: get_token_simps)
  from assms [unfolded parses_elements_def, rule_format, OF q]
  have run: "pr_token (get_token sd ?q) \<noteq> T_end_array"
      "runs_to sd (get_token sd ?q) (pr_states p) (dom_refs (pr_dom p)) (with_value (JArr vs) (pr_dom p)) bs"
    using s(6) by (simp_all del: get_token_simps(4,5))
  then have "sax_value sd (get_token sd p) = Inr (get_token sd ?q, True)"
    using s(1) by (simp add: sax_value_def Let_def get_token_states del: get_token_simps(4,5))
  then have "sax_parse_internal sd (get_token sd p) = sax_parse_internal sd (get_token sd ?q)"
    using p(3) by (simp add: run_steps(2))
  with run(2) s(1) show "pr_token (get_token sd p) \<noteq> T_end_array \<and>
      runs_to sd (get_token sd p) (pr_states p) (dom_refs (pr_dom p)) (with_value (JArr vs) (pr_dom p)) bs"
    by (simp add: runs_to_def del: get_token_simps)
qed

lemma parses_element:
  assumes "parses_value sd t v" "spaces ws" "spaces ws'" "ends_number bs"
    and p: "reads sd (pr_lexer p) (ws @ t @ ws' @ bs)" "\<not> pr_skip p" "dom_refs (pr_dom p) = r # rs"
    "valid_ref r (dom_root (pr_dom p))" "get_ref r (dom_root (pr_dom p)) = JArr vs0"
  obtains p1 where "pr_token (get_token sd p) \<noteq> T_end_array" "sax_parse_internal sd (get_token sd p) = sax_eval sd p1"
    "reads sd (pr_lexer p1) (ws' @ bs)" "\<not> pr_skip p1" "pr_states p1 = pr_states p" "dom_refs (pr_dom p1) = r # rs"
    "dom_root (pr_dom p1) = put_ref r (JArr (vs0 @ [v])) (dom_root (pr_dom p))"
proof -
  have "ends_number (ws' @ bs)" using assms(3,4) by (rule ends_number_spaces)
  from assms(1) [unfolded parses_value_def, rule_format, OF p(1) assms(2) this array_ready [OF p(3-5)] p(2)] that p(3,5)
  show ?thesis by (auto simp: runs_to_def with_value_array)
qed

lemma parses_elements_last:
  assumes "parses_value sd t v" "spaces ws" "spaces ws'"
  shows "parses_elements sd (ws @ t @ ws') [v]"
  unfolding parses_elements_def
proof (intro allI impI)
  fix p :: parser and bs r rs st vs0
  assume p: "reads sd (pr_lexer p) ((ws @ t @ ws') @ 0x5d # bs)" "\<not> pr_skip p" "dom_refs (pr_dom p) = r # rs"
    "valid_ref r (dom_root (pr_dom p))" "get_ref r (dom_root (pr_dom p)) = JArr vs0" "pr_states p = True # st"
  have "reads sd (pr_lexer p) (ws @ t @ ws' @ 0x5d # bs)" using p(1) by simp
  with assms obtain p1 where p1: "pr_token (get_token sd p) \<noteq> T_end_array" "sax_parse_internal sd (get_token sd p) = sax_eval sd p1"
      "reads sd (pr_lexer p1) (ws' @ 0x5d # bs)" "\<not> pr_skip p1" "pr_states p1 = pr_states p" "dom_refs (pr_dom p1) = r # rs"
      "dom_root (pr_dom p1) = put_ref r (JArr (vs0 @ [v])) (dom_root (pr_dom p))"
    using p(2-5) by (rule parses_element [OF _ _ _ ends_number_simps(2)])
  with closes [OF p1(3) assms(3) _ _ p1(6,4,2,7), of True st] p(6)
  show "pr_token (get_token sd p) \<noteq> T_end_array
      \<and> runs_to sd (get_token sd p) st rs (put_ref r (JArr (vs0 @ [v])) (dom_root (pr_dom p))) bs"
    by simp
qed

text \<open>A comma, and the token after it.\<close>

lemma comma:
  assumes "reads sd (pr_lexer p) (ws @ 0x2c # bs)" "spaces ws" "pr_states p = True # st"
  obtains q where "sax_eval sd p = sax_parse_internal sd (get_token sd q)" "reads sd (pr_lexer q) bs" "pr_dom q = pr_dom p"
    "pr_states q = pr_states p" "pr_skip q = pr_skip p"
proof -
  obtain s where s: "get_token sd p = p\<lparr>pr_lexer := s, pr_token := T_value_separator\<rparr>" "reads sd s bs"
    using get_token_structural [OF assms(1,2) structural_simps(6)] .
  then have "sax_state sd p = Inr (get_token sd (get_token sd p), True)"
    using assms(3) by (simp add: sax_state_def Let_def del: get_token_simps)
  then have "sax_eval sd p = sax_parse_internal sd (get_token sd (get_token sd p))" by (rule run_steps(4))
  with s that [of "get_token sd p"] show ?thesis by simp
qed

lemma parses_elements_more:
  assumes "parses_value sd t v" "spaces ws" "spaces ws'" "parses_elements sd ts vs"
  shows "parses_elements sd (ws @ t @ ws' @ 0x2c # ts) (v # vs)"
  unfolding parses_elements_def
proof (intro allI impI)
  fix p :: parser and bs r rs st vs0
  assume p: "reads sd (pr_lexer p) ((ws @ t @ ws' @ 0x2c # ts) @ 0x5d # bs)" "\<not> pr_skip p" "dom_refs (pr_dom p) = r # rs"
    "valid_ref r (dom_root (pr_dom p))" "get_ref r (dom_root (pr_dom p)) = JArr vs0" "pr_states p = True # st"
  have "reads sd (pr_lexer p) (ws @ t @ ws' @ 0x2c # ts @ 0x5d # bs)" using p(1) by simp
  with assms(1-3) obtain p1 where p1: "pr_token (get_token sd p) \<noteq> T_end_array" "sax_parse_internal sd (get_token sd p) = sax_eval sd p1"
      "reads sd (pr_lexer p1) (ws' @ 0x2c # ts @ 0x5d # bs)" "\<not> pr_skip p1" "pr_states p1 = pr_states p" "dom_refs (pr_dom p1) = r # rs"
      "dom_root (pr_dom p1) = put_ref r (JArr (vs0 @ [v])) (dom_root (pr_dom p))"
    using p(2-5) by (rule parses_element [OF _ _ _ ends_number_simps(4)])
  obtain q where q: "sax_eval sd p1 = sax_parse_internal sd (get_token sd q)" "reads sd (pr_lexer q) (ts @ 0x5d # bs)"
      "pr_dom q = pr_dom p1" "pr_states q = pr_states p1" "pr_skip q = pr_skip p1"
    using p1(5) p(6) by (auto intro: comma [OF p1(3) assms(3)])
  have "valid_ref r (dom_root (pr_dom q))" "get_ref r (dom_root (pr_dom q)) = JArr (vs0 @ [v])"
      "\<not> pr_skip q" "dom_refs (pr_dom q) = r # rs" "pr_states q = True # st"
    using p(4,6) p1 q by (simp_all add: put_ref_at)
  from assms(4) [unfolded parses_elements_def, rule_format, OF q(2) this(3,4,1,2,5)] p1 q p(4)
  show "pr_token (get_token sd p) \<noteq> T_end_array
      \<and> runs_to sd (get_token sd p) st rs (put_ref r (JArr (vs0 @ v # vs)) (dom_root (pr_dom p))) bs"
    by (simp add: runs_to_def put_ref_at del: get_token_simps)
qed

text \<open>Members of objects.\<close>

lemma parse_key_at:
  assumes "reads sd (pr_lexer p) (w1 @ 0x22 # k @ 0x22 # w2 @ 0x3a # bs)" "json_chars k s" "spaces w1" "spaces w2"
  obtains p1 where "parse_key sd (get_token sd p) = Inr p1" "reads sd (pr_lexer p1) bs" "pr_dom p1 = dom_key s (pr_dom p)"
    "pr_states p1 = pr_states p" "pr_skip p1 = pr_skip p"
proof -
  have "reads sd (pr_lexer p) (w1 @ (0x22 # k @ [0x22]) @ w2 @ 0x3a # bs)" using assms(1) by simp
  moreover have "ends_number (w2 @ 0x3a # bs)"
    using assms(4) by (rule ends_number_spaces) (simp add: ends_number_def is_digit_def is_exponent_def)
  ultimately obtain s1 tok where s1: "scan sd (pr_lexer p) = (s1, tok)" "token_value s1 tok = Some (JStr s)" "reads sd s1 (w2 @ 0x3a # bs)"
    using reads_scalar [OF json_scalar.string [OF assms(2)] _ assms(3)] by blast
  have tok: "tok = T_value_string" "lx_token_buffer s1 = s"
    using s1(2) by (auto simp: token_value_def split: token_type.splits if_splits)
  let ?p = "on_dom (dom_key s) (get_token sd p)"
  have "reads sd (pr_lexer ?p) (w2 @ 0x3a # bs)" using s1(1,3) by simp
  from get_token_structural [OF this assms(4) structural_simps(5)] obtain s2 where
      s2: "get_token sd ?p = ?p\<lparr>pr_lexer := s2, pr_token := T_name_separator\<rparr>" "reads sd s2 bs" .
  have "parse_key sd (get_token sd p) = Inr (get_token sd ?p)"
    using get_token_scan [OF s1(1)] tok s2(1) by (simp add: parse_key_def Let_def del: get_token_simps)
  moreover have "reads sd (pr_lexer (get_token sd ?p)) bs" using s2 by (simp del: get_token_simps)
  ultimately show ?thesis using that [of "get_token sd ?p"] by simp
qed

lemma parse_key_token: "parse_key sd p = Inr p1 \<Longrightarrow> pr_token p \<noteq> T_end_object"
  by (auto simp: parse_key_def)

lemma parses_object:
  assumes "parses_members sd t kvs"
  shows "parses_value sd (0x7b # t @ [0x7d]) (JObj (members_map [] kvs))"
  unfolding parses_value_def
proof (intro allI impI)
  fix p :: parser and ws bs
  assume at: "reads sd (pr_lexer p) (ws @ (0x7b # t @ [0x7d]) @ bs)" and p: "spaces ws" "dom_ready (pr_dom p)" "\<not> pr_skip p"
  then have "reads sd (pr_lexer p) (ws @ 0x7b # t @ 0x7d # bs)" by simp
  from this p obtain s r where s: "get_token sd p = p\<lparr>pr_lexer := s, pr_token := T_begin_object\<rparr>" "reads sd s (t @ 0x7d # bs)"
      "dom_refs (start_object (pr_dom p)) = r # dom_refs (pr_dom p)" "valid_ref r (dom_root (start_object (pr_dom p)))"
      "get_ref r (dom_root (start_object (pr_dom p))) = JObj []" "\<forall>w. put_ref r w (dom_root (start_object (pr_dom p))) = with_value w (pr_dom p)"
    unfolding start_object_def by (rule enters [where tok = T_begin_object and v = "JObj []"]) simp
  let ?q = "on_dom start_object (get_token sd p)"
  have q: "reads sd (pr_lexer ?q) (t @ 0x7d # bs)" "\<not> pr_skip ?q" "dom_refs (pr_dom ?q) = r # dom_refs (pr_dom p)"
      "valid_ref r (dom_root (pr_dom ?q))" "get_ref r (dom_root (pr_dom ?q)) = JObj []"
    using s p(3) by (simp_all del: get_token_simps)
  from assms [unfolded parses_members_def, rule_format, OF q, of "pr_states p"] obtain p1 where
      p1: "parse_key sd (get_token sd ?q) = Inr p1" "pr_states p1 = pr_states ?q"
      "runs_to sd (get_token sd (p1\<lparr>pr_states := False # pr_states p\<rparr>)) (pr_states p) (dom_refs (pr_dom p))
        (with_value (JObj (members_map [] kvs)) (pr_dom p)) bs"
    using s(6) by (auto simp del: get_token_simps(4,5))
  have "pr_states p1 = pr_states p" using p1(2) by simp
  then have "sax_value sd (get_token sd p) = Inr (get_token sd (p1\<lparr>pr_states := False # pr_states p\<rparr>), True)"
    using s(1) parse_key_token [OF p1(1)] p1(1) by (simp add: sax_value_def Let_def del: get_token_simps(4,5))
  then have "sax_parse_internal sd (get_token sd p) = sax_parse_internal sd (get_token sd (p1\<lparr>pr_states := False # pr_states p\<rparr>))"
    using p(3) by (simp add: run_steps(2))
  with p1(3) s(1) show "pr_token (get_token sd p) \<noteq> T_end_array \<and>
      runs_to sd (get_token sd p) (pr_states p) (dom_refs (pr_dom p)) (with_value (JObj (members_map [] kvs)) (pr_dom p)) bs"
    by (simp add: runs_to_def del: get_token_simps)
qed

text \<open>One member, up to what follows its value.\<close>

lemma parses_member:
  assumes "parses_value sd t v" "json_chars k s" "spaces w1" "spaces w2" "spaces w3" "spaces w4" "ends_number bs"
    and p: "reads sd (pr_lexer p) (w1 @ 0x22 # k @ 0x22 # w2 @ 0x3a # w3 @ t @ w4 @ bs)" "\<not> pr_skip p" "dom_refs (pr_dom p) = r # rs"
    "valid_ref r (dom_root (pr_dom p))" "get_ref r (dom_root (pr_dom p)) = JObj kvs0"
  obtains p1 p' where "parse_key sd (get_token sd p) = Inr p1" "pr_states p1 = pr_states p"
    "sax_parse_internal sd (get_token sd (p1\<lparr>pr_states := st\<rparr>)) = sax_eval sd p'"
    "reads sd (pr_lexer p') (w4 @ bs)" "\<not> pr_skip p'" "pr_states p' = st" "dom_refs (pr_dom p') = r # rs"
    "dom_root (pr_dom p') = put_ref r (JObj (insert_key s v kvs0)) (dom_root (pr_dom p))"
proof -
  obtain p1 where p1: "parse_key sd (get_token sd p) = Inr p1" "reads sd (pr_lexer p1) (w3 @ t @ w4 @ bs)"
      "pr_dom p1 = dom_key s (pr_dom p)" "pr_states p1 = pr_states p" "pr_skip p1 = pr_skip p"
    using p(1) assms(2-4) by (rule parse_key_at)
  note key = dom_key_at [OF p(3-5), where k = s]
  let ?q = "p1\<lparr>pr_states := st\<rparr>"
  have q: "reads sd (pr_lexer ?q) (w3 @ t @ w4 @ bs)" "dom_ready (pr_dom ?q)" "\<not> pr_skip ?q" using p1 p(2) key(1) by simp_all
  have "ends_number (w4 @ bs)" using assms(6,7) by (rule ends_number_spaces)
  with assms(1) [unfolded parses_value_def, rule_format, OF q(1) assms(5) _ q(2,3)]
  have "runs_to sd (get_token sd ?q) st (r # rs) (put_ref r (JObj (insert_key s v kvs0)) (dom_root (pr_dom p))) (w4 @ bs)"
    using p1(3) key(2,3) by simp
  with that p1(1,4) show ?thesis by (auto simp: runs_to_def)
qed

lemma parses_members_last:
  assumes "parses_value sd t v" "json_chars k s" "spaces w1" "spaces w2" "spaces w3" "spaces w4"
  shows "parses_members sd (w1 @ 0x22 # k @ 0x22 # w2 @ 0x3a # w3 @ t @ w4) [(s, v)]"
  unfolding parses_members_def
proof (intro allI impI)
  fix p :: parser and bs r rs st kvs0
  assume at: "reads sd (pr_lexer p) ((w1 @ 0x22 # k @ 0x22 # w2 @ 0x3a # w3 @ t @ w4) @ 0x7d # bs)"
    and p: "\<not> pr_skip p" "dom_refs (pr_dom p) = r # rs" "valid_ref r (dom_root (pr_dom p))" "get_ref r (dom_root (pr_dom p)) = JObj kvs0"
  then have "reads sd (pr_lexer p) (w1 @ 0x22 # k @ 0x22 # w2 @ 0x3a # w3 @ t @ w4 @ 0x7d # bs)" by simp
  from parses_member [OF assms ends_number_simps(3) this p, of "False # st"] obtain p1 p2 where
      p1: "parse_key sd (get_token sd p) = Inr p1" "pr_states p1 = pr_states p"
      "sax_parse_internal sd (get_token sd (p1\<lparr>pr_states := False # st\<rparr>)) = sax_eval sd p2"
      "reads sd (pr_lexer p2) (w4 @ 0x7d # bs)" "\<not> pr_skip p2" "pr_states p2 = False # st" "dom_refs (pr_dom p2) = r # rs"
      "dom_root (pr_dom p2) = put_ref r (JObj (insert_key s v kvs0)) (dom_root (pr_dom p))"
    by metis
  with closes [OF p1(4) assms(6) _ p1(6,7,5,3,8)]
  show "\<exists>p1. parse_key sd (get_token sd p) = Inr p1 \<and> pr_states p1 = pr_states p \<and>
      runs_to sd (get_token sd (p1\<lparr>pr_states := False # st\<rparr>)) st rs
        (put_ref r (JObj (members_map kvs0 [(s, v)])) (dom_root (pr_dom p))) bs"
    by auto
qed

lemma comma_key:
  assumes "reads sd (pr_lexer p) (ws @ 0x2c # bs)" "spaces ws" "pr_states p = False # st"
  obtains q where "reads sd (pr_lexer q) bs" "pr_dom q = pr_dom p" "pr_states q = pr_states p" "pr_skip q = pr_skip p"
    "\<forall>p1. parse_key sd (get_token sd q) = Inr p1 \<longrightarrow> sax_eval sd p = sax_parse_internal sd (get_token sd p1)"
proof -
  obtain s where s: "get_token sd p = p\<lparr>pr_lexer := s, pr_token := T_value_separator\<rparr>" "reads sd s bs"
    using get_token_structural [OF assms(1,2) structural_simps(6)] .
  have "sax_eval sd p = sax_parse_internal sd (get_token sd p1)" if "parse_key sd (get_token sd (get_token sd p)) = Inr p1" for p1
  proof -
    have "sax_state sd p = Inr (get_token sd p1, True)"
      using assms(3) s(1) that by (simp add: sax_state_def Let_def del: get_token_simps)
    then show ?thesis by (rule run_steps(4))
  qed
  with s that [of "get_token sd p"] show ?thesis by simp
qed

lemma comma_key_sound:
  assumes "reads sd (pr_lexer p) (ws @ 0x2c # bs)" "spaces ws" "pr_states p = False # st" "sax_eval sd p = Inr pf"
  obtains q where "reads sd (pr_lexer q) bs" "pr_dom q = pr_dom p" "pr_states q = pr_states p" "pr_skip q = pr_skip p"
    "\<forall>p1. parse_key sd (get_token sd q) = Inr p1 \<longrightarrow> sax_eval sd p = sax_parse_internal sd (get_token sd p1)"
    "\<exists>p1. parse_key sd (get_token sd q) = Inr p1"
proof -
  obtain s where s: "get_token sd p = p\<lparr>pr_lexer := s, pr_token := T_value_separator\<rparr>" "reads sd s bs"
    using get_token_structural [OF assms(1,2) structural_simps(6)] .
  let ?q = "get_token sd p"
  have run: "sax_eval sd p = (case parse_key sd (get_token sd ?q) of Inl e \<Rightarrow> Inl e | Inr p1 \<Rightarrow> sax_parse_internal sd (get_token sd p1))"
    using assms(3) s(1) by (cases "parse_key sd (get_token sd ?q)") (simp_all add: sax_eval_def sax_state_def Let_def del: get_token_simps)
  then have "\<exists>p1. parse_key sd (get_token sd ?q) = Inr p1" using assms(4) by (cases "parse_key sd (get_token sd ?q)") simp_all
  then show ?thesis using s run that [of ?q] by simp
qed

lemma parses_members_more:
  assumes "parses_value sd t v" "json_chars k s" "spaces w1" "spaces w2" "spaces w3" "spaces w4" "parses_members sd ts kvs"
  shows "parses_members sd (w1 @ 0x22 # k @ 0x22 # w2 @ 0x3a # w3 @ t @ w4 @ 0x2c # ts) ((s, v) # kvs)"
  unfolding parses_members_def
proof (intro allI impI)
  fix p :: parser and bs r rs st kvs0
  assume at: "reads sd (pr_lexer p) ((w1 @ 0x22 # k @ 0x22 # w2 @ 0x3a # w3 @ t @ w4 @ 0x2c # ts) @ 0x7d # bs)"
    and p: "\<not> pr_skip p" "dom_refs (pr_dom p) = r # rs" "valid_ref r (dom_root (pr_dom p))" "get_ref r (dom_root (pr_dom p)) = JObj kvs0"
  then have "reads sd (pr_lexer p) (w1 @ 0x22 # k @ 0x22 # w2 @ 0x3a # w3 @ t @ w4 @ 0x2c # ts @ 0x7d # bs)" by simp
  from parses_member [OF assms(1-6) ends_number_simps(4) this p, of "False # st"] obtain p1 p2 where
      p1: "parse_key sd (get_token sd p) = Inr p1" "pr_states p1 = pr_states p"
      "sax_parse_internal sd (get_token sd (p1\<lparr>pr_states := False # st\<rparr>)) = sax_eval sd p2"
      "reads sd (pr_lexer p2) (w4 @ 0x2c # ts @ 0x7d # bs)" "\<not> pr_skip p2" "pr_states p2 = False # st" "dom_refs (pr_dom p2) = r # rs"
      "dom_root (pr_dom p2) = put_ref r (JObj (insert_key s v kvs0)) (dom_root (pr_dom p))"
    by metis
  obtain q where q: "reads sd (pr_lexer q) (ts @ 0x7d # bs)" "pr_dom q = pr_dom p2" "pr_states q = pr_states p2" "pr_skip q = pr_skip p2"
      "\<forall>p1. parse_key sd (get_token sd q) = Inr p1 \<longrightarrow> sax_eval sd p2 = sax_parse_internal sd (get_token sd p1)"
    using p1(4) assms(6) p1(6) by (rule comma_key)
  have d: "\<not> pr_skip q" "dom_refs (pr_dom q) = r # rs" "valid_ref r (dom_root (pr_dom q))"
      "get_ref r (dom_root (pr_dom q)) = JObj (insert_key s v kvs0)"
    using p(3) p1 q by (simp_all add: put_ref_at)
  obtain p3 where p3: "parse_key sd (get_token sd q) = Inr p3" "pr_states p3 = pr_states q"
      "runs_to sd (get_token sd (p3\<lparr>pr_states := False # st\<rparr>)) st rs
        (put_ref r (JObj (members_map (insert_key s v kvs0) kvs)) (dom_root (pr_dom q))) bs"
    using assms(7) [unfolded parses_members_def, rule_format, OF q(1) d, of st] by blast
  have "p3\<lparr>pr_states := False # st\<rparr> = p3" using p3(2) q(3) p1(6) by simp
  with p1 q p3 p(3)
  show "\<exists>p1. parse_key sd (get_token sd p) = Inr p1 \<and> pr_states p1 = pr_states p \<and>
      runs_to sd (get_token sd (p1\<lparr>pr_states := False # st\<rparr>)) st rs
        (put_ref r (JObj (members_map kvs0 ((s, v) # kvs))) (dom_root (pr_dom p))) bs"
    by (intro exI [of _ p1]) (simp add: runs_to_def put_ref_at)
qed

lemma grammar_parses:
  "json_value sd t v \<Longrightarrow> parses_value sd t v"
  "json_elements sd t vs \<Longrightarrow> parses_elements sd t vs"
  "json_members sd t kvs \<Longrightarrow> parses_members sd t kvs"
proof (induction rule: json_value_json_elements_json_members.inducts)
qed (simp_all add: parses_scalar parses_empty parses_array parses_object parses_elements_last parses_elements_more
    parses_members_last parses_members_more)

section \<open>What is parsed is a text of the grammar\<close>

lemma structural_inject: "structural c = Some tok \<Longrightarrow> structural d = Some tok \<Longrightarrow> c = d"
  by (auto simp: structural_def split: if_splits)

lemma structural_not_scalar: "structural c = Some tok \<Longrightarrow> \<not> scalar_token tok \<and> tok \<noteq> T_end_of_input \<and> tok \<noteq> T_parse_error"
  by (auto simp: structural_def scalar_token_def split: if_splits)

lemma reads_structural_sound:
  assumes "reads sd (pr_lexer p) bs" "pr_token (get_token sd p) = tok" "structural c = Some tok"
  obtains ws r where "bs = ws @ c # r" "spaces ws" "reads sd (pr_lexer (get_token sd p)) r"
proof -
  obtain s where s: "scan sd (pr_lexer p) = (s, tok)" using assms(2) by (cases "scan sd (pr_lexer p)") simp
  have tok: "tok \<noteq> T_parse_error" "tok \<noteq> T_end_of_input" "\<not> scalar_token tok" using structural_not_scalar [OF assms(3)] by simp_all
  show ?thesis
  proof (rule reads_sound [OF assms(1) s tok(1)])
    fix ws u r
    assume u: "bs = ws @ u @ r" "spaces ws" "reads sd s r" "token_text sd u s tok"
    with tok(3) structural_inject [OF assms(3)] have "u = [c]" by (auto simp: token_text_def)
    with u s that [of ws r] show ?thesis by simp
  qed (use tok(2) in simp)
qed

lemma json_value_nonempty: "json_value sd t v \<Longrightarrow> t \<noteq> []"
  by (cases rule: json_value.cases) (auto elim!: json_scalar.cases simp: cstr_def json_number_accepts)

lemma sax_parse_Inr:
  assumes "sax_parse_internal sd q = Inr pf" "\<not> pr_skip q"
  obtains q' where "sax_value sd q = Inr (q', False)" "sax_eval sd q' = Inr pf"
  | q' where "sax_value sd q = Inr (q', True)" "sax_parse_internal sd q' = Inr pf"
proof (cases "sax_value sd q")
  case (Inl e)
  with assms show ?thesis by (simp add: sax_parse_internal.simps [of sd q] sax_step_def)
next
  case (Inr r)
  obtain q' c where "r = (q', c)" by fastforce
  with Inr assms run_steps(1,2) [of q sd q'] that show ?thesis by (cases c) simp_all
qed

lemma sax_value_cases:
  assumes "sax_value sd q = Inr (q', c)"
  obtains (scalar) v where "token_value (pr_lexer q) (pr_token q) = Some v"
  | (empty_object) "pr_token q = T_begin_object" "pr_token (get_token sd (on_dom start_object q)) = T_end_object"
  | (object) p1 where "pr_token q = T_begin_object" "parse_key sd (get_token sd (on_dom start_object q)) = Inr p1"
      "q' = get_token sd (p1\<lparr>pr_states := False # pr_states p1\<rparr>)" "c"
  | (empty_array) "pr_token q = T_begin_array" "pr_token (get_token sd (on_dom start_array q)) = T_end_array"
  | (array) "pr_token q = T_begin_array" "q' = (get_token sd (on_dom start_array q))\<lparr>pr_states := True # pr_states q\<rparr>" "c"
  using assms that
  by (cases "pr_token q") (auto simp: sax_value_def token_value_def Let_def simp del: get_token_simps(4,5) split: if_splits)

lemma sax_eval_array:
  assumes "sax_eval sd p = Inr pf" "pr_states p = True # st" "reads sd (pr_lexer p) bs"
  obtains (comma) ws r where "bs = ws @ 0x2c # r" "spaces ws" | (close) ws r where "bs = ws @ 0x5d # r" "spaces ws"
proof -
  have "pr_token (get_token sd p) = T_value_separator \<or> pr_token (get_token sd p) = T_end_array"
    using assms(1,2) by (auto simp: sax_eval_def sax_state_def Let_def simp del: get_token_simps split: if_splits)
  then show ?thesis using that reads_structural_sound [OF assms(3)] structural_simps(2,6) by metis
qed

lemma sax_eval_object:
  assumes "sax_eval sd p = Inr pf" "pr_states p = False # st" "reads sd (pr_lexer p) bs"
  obtains (comma) ws r where "bs = ws @ 0x2c # r" "spaces ws" | (close) ws r where "bs = ws @ 0x7d # r" "spaces ws"
proof -
  have "pr_token (get_token sd p) = T_value_separator \<or> pr_token (get_token sd p) = T_end_object"
    using assms(1,2) by (auto simp: sax_eval_def sax_state_def Let_def simp del: get_token_simps split: if_splits)
  then show ?thesis using that reads_structural_sound [OF assms(3)] structural_simps(4,6) by metis
qed

definition sound_value :: "(byte list \<Rightarrow> u64) \<Rightarrow> nat \<Rightarrow> bool" where
  "sound_value sd n \<longleftrightarrow>
     (\<forall>p bs pf. length bs < n \<longrightarrow> reads sd (pr_lexer p) bs \<longrightarrow> dom_ready (pr_dom p) \<longrightarrow> \<not> pr_skip p \<longrightarrow>
       sax_parse_internal sd (get_token sd p) = Inr pf \<longrightarrow>
       (\<exists>ws t v r. bs = ws @ t @ r \<and> spaces ws \<and> json_value sd t v \<and>
         runs_to sd (get_token sd p) (pr_states p) (dom_refs (pr_dom p)) (with_value v (pr_dom p)) r))"

lemma sound_elements:
  assumes "sound_value sd n"
  shows "length bs < n \<Longrightarrow> reads sd (pr_lexer p) bs \<Longrightarrow> \<not> pr_skip p \<Longrightarrow> dom_refs (pr_dom p) = r # rs \<Longrightarrow>
    valid_ref r (dom_root (pr_dom p)) \<Longrightarrow> get_ref r (dom_root (pr_dom p)) = JArr vs0 \<Longrightarrow> pr_states p = True # st \<Longrightarrow>
    sax_parse_internal sd (get_token sd p) = Inr pf \<Longrightarrow>
    \<exists>t vs w. bs = t @ 0x5d # w \<and> json_elements sd t vs \<and>
      runs_to sd (get_token sd p) st rs (put_ref r (JArr (vs0 @ vs)) (dom_root (pr_dom p))) w"
proof (induction bs arbitrary: p vs0 rule: measure_induct_rule [of length])
  case (less bs)
  note p = less.prems
  obtain ws t v r1 where v: "bs = ws @ t @ r1" "spaces ws" "json_value sd t v"
      "runs_to sd (get_token sd p) (True # st) (r # rs) (put_ref r (JArr (vs0 @ [v])) (dom_root (pr_dom p))) r1"
    using assms [unfolded sound_value_def, rule_format, OF p(1,2) array_ready [OF p(4-6)] p(3,8)] p(4,6,7)
    by (auto simp: with_value_array)
  then obtain p1 where p1: "sax_parse_internal sd (get_token sd p) = sax_eval sd p1" "reads sd (pr_lexer p1) r1" "\<not> pr_skip p1"
      "pr_states p1 = True # st" "dom_refs (pr_dom p1) = r # rs" "dom_root (pr_dom p1) = put_ref r (JArr (vs0 @ [v])) (dom_root (pr_dom p))"
    by (auto simp: runs_to_def)
  have "sax_eval sd p1 = Inr pf" using p1(1) p(8) by simp
  from this p1(4,2) show ?case
  proof (cases rule: sax_eval_array)
    case (close ws' w)
    have "reads sd (pr_lexer p1) (ws' @ 0x5d # w)" using p1(2) close(1) by simp
    from closes [OF this close(2) _ p1(4,5,3,1,6)]
    have "runs_to sd (get_token sd p) st rs (put_ref r (JArr (vs0 @ [v])) (dom_root (pr_dom p))) w" by simp
    moreover have "bs = (ws @ t @ ws') @ 0x5d # w" using v(1) close(1) by simp
    ultimately show ?thesis
      using json_value_json_elements_json_members.last_element [OF v(2,3) close(2)] by blast
  next
    case (comma ws' r2)
    have "reads sd (pr_lexer p1) (ws' @ 0x2c # r2)" using p1(2) comma(1) by simp
    then obtain q where q: "sax_eval sd p1 = sax_parse_internal sd (get_token sd q)" "reads sd (pr_lexer q) r2"
        "pr_dom q = pr_dom p1" "pr_states q = pr_states p1" "pr_skip q = pr_skip p1"
      using comma(2) p1(4) by (rule Json_Language.comma)
    have d: "\<not> pr_skip q" "dom_refs (pr_dom q) = r # rs" "valid_ref r (dom_root (pr_dom q))"
        "get_ref r (dom_root (pr_dom q)) = JArr (vs0 @ [v])" "pr_states q = True # st" "sax_parse_internal sd (get_token sd q) = Inr pf"
      using p(5,8) p1 q by (simp_all add: put_ref_at)
    have "length r2 < length bs" using v(1) comma(1) by simp
    moreover from this p(1) have "length r2 < n" by simp
    ultimately obtain ts vs w where ts: "r2 = ts @ 0x5d # w" "json_elements sd ts vs"
        "runs_to sd (get_token sd q) st rs (put_ref r (JArr ((vs0 @ [v]) @ vs)) (dom_root (pr_dom q))) w"
      using less.IH [OF _ _ q(2) d] by blast
    have "runs_to sd (get_token sd p) st rs (put_ref r (JArr (vs0 @ v # vs)) (dom_root (pr_dom p))) w"
      using ts(3) p(5) p1(1,6) q(1,3) by (simp add: runs_to_def put_ref_at)
    moreover have "bs = (ws @ t @ ws' @ 0x2c # ts) @ 0x5d # w" using v(1) comma(1) ts(1) by simp
    ultimately show ?thesis
      using json_value_json_elements_json_members.more_elements [OF v(2,3) comma(2) ts(2)] by blast
  qed
qed

lemma parse_key_sound:
  assumes "parse_key sd (get_token sd p) = Inr p1" "reads sd (pr_lexer p) bs"
  obtains w1 k s w2 r where "bs = w1 @ 0x22 # k @ 0x22 # w2 @ 0x3a # r" "json_chars k s" "spaces w1" "spaces w2"
    "reads sd (pr_lexer p1) r" "pr_dom p1 = dom_key s (pr_dom p)" "pr_states p1 = pr_states p" "pr_skip p1 = pr_skip p"
proof -
  let ?s = "fst (scan sd (pr_lexer p))"
  let ?p = "on_dom (dom_key (lx_token_buffer ?s)) (get_token sd p)"
  have tok: "snd (scan sd (pr_lexer p)) = T_value_string" "pr_token (get_token sd ?p) = T_name_separator" "p1 = get_token sd ?p"
    using assms(1) by (auto simp: parse_key_def Let_def split: if_splits)
  then have scan: "scan sd (pr_lexer p) = (?s, T_value_string)" by (metis prod.collapse)
  have "\<exists>w1 u r. bs = w1 @ u @ r \<and> spaces w1 \<and> reads sd ?s r \<and> token_text sd u ?s T_value_string"
    by (rule reads_sound [OF assms(2) scan]) (simp | blast)+
  then obtain w1 u r where u: "bs = w1 @ u @ r" "spaces w1" "reads sd ?s r" "token_text sd u ?s T_value_string" by blast
  have "json_scalar sd u (JStr (lx_token_buffer ?s))"
    using u(4) structural_not_scalar by (auto simp: token_text_def scalar_token_def)
  then obtain k where k: "u = 0x22 # k @ [0x22]" "json_chars k (lx_token_buffer ?s)"
    by (cases rule: json_scalar.cases) (auto simp: json_number_def split: if_splits)
  have "reads sd (pr_lexer ?p) r" using u(3) by simp
  from reads_structural_sound [OF this tok(2) structural_simps(5)] obtain w2 r' where
      "r = w2 @ 0x3a # r'" "spaces w2" "reads sd (pr_lexer p1) r'"
    unfolding tok(3) .
  with that [of w1 k w2 r'] u(1,2) k tok(3) show ?thesis by simp
qed

lemma sound_members:
  assumes "sound_value sd n"
  shows "length bs < n \<Longrightarrow> reads sd (pr_lexer p) bs \<Longrightarrow> \<not> pr_skip p \<Longrightarrow> dom_refs (pr_dom p) = r # rs \<Longrightarrow>
    valid_ref r (dom_root (pr_dom p)) \<Longrightarrow> get_ref r (dom_root (pr_dom p)) = JObj kvs0 \<Longrightarrow>
    parse_key sd (get_token sd p) = Inr p1 \<Longrightarrow>
    sax_parse_internal sd (get_token sd (p1\<lparr>pr_states := False # st\<rparr>)) = Inr pf \<Longrightarrow>
    \<exists>t kvs w. bs = t @ 0x7d # w \<and> json_members sd t kvs \<and>
      runs_to sd (get_token sd (p1\<lparr>pr_states := False # st\<rparr>)) st rs
        (put_ref r (JObj (members_map kvs0 kvs)) (dom_root (pr_dom p))) w"
proof (induction bs arbitrary: p p1 kvs0 rule: measure_induct_rule [of length])
  case (less bs)
  note p = less.prems
  let ?q = "p1\<lparr>pr_states := False # st\<rparr>"
  obtain w1 k s w2 r0 where k: "bs = w1 @ 0x22 # k @ 0x22 # w2 @ 0x3a # r0" "json_chars k s" "spaces w1" "spaces w2"
      "reads sd (pr_lexer p1) r0" "pr_dom p1 = dom_key s (pr_dom p)" "pr_states p1 = pr_states p" "pr_skip p1 = pr_skip p"
    using p(7,2) by (rule parse_key_sound)
  note key = dom_key_at [OF p(4-6), where k = s]
  have q: "length r0 < n" "reads sd (pr_lexer ?q) r0" "dom_ready (pr_dom ?q)" "\<not> pr_skip ?q"
    using k p(1,3) key(1) by simp_all
  obtain w3 t v r1 where v: "r0 = w3 @ t @ r1" "spaces w3" "json_value sd t v"
      "runs_to sd (get_token sd ?q) (False # st) (r # rs) (put_ref r (JObj (insert_key s v kvs0)) (dom_root (pr_dom p))) r1"
    using assms [unfolded sound_value_def, rule_format, OF q p(8)] key(2,3) k(6) by auto
  then obtain p2 where p2: "sax_parse_internal sd (get_token sd ?q) = sax_eval sd p2" "reads sd (pr_lexer p2) r1" "\<not> pr_skip p2"
      "pr_states p2 = False # st" "dom_refs (pr_dom p2) = r # rs"
      "dom_root (pr_dom p2) = put_ref r (JObj (insert_key s v kvs0)) (dom_root (pr_dom p))"
    by (auto simp: runs_to_def)
  have "sax_eval sd p2 = Inr pf" using p2(1) p(8) by simp
  from this p2(4,2) show ?case
  proof (cases rule: sax_eval_object)
    case (close w4 w)
    have "reads sd (pr_lexer p2) (w4 @ 0x7d # w)" using p2(2) close(1) by simp
    from closes [OF this close(2) _ p2(4,5,3,1,6)]
    have "runs_to sd (get_token sd ?q) st rs (put_ref r (JObj (members_map kvs0 [(s, v)])) (dom_root (pr_dom p))) w" by simp
    moreover have "bs = (w1 @ 0x22 # k @ 0x22 # w2 @ 0x3a # w3 @ t @ w4) @ 0x7d # w" using k(1) v(1) close(1) by simp
    ultimately show ?thesis
      using json_value_json_elements_json_members.last_member [OF k(3,2,4) v(2,3) close(2)] by blast
  next
    case (comma w4 r2)
    have "reads sd (pr_lexer p2) (w4 @ 0x2c # r2)" using p2(2) comma(1) by simp
    then obtain q where q: "reads sd (pr_lexer q) r2" "pr_dom q = pr_dom p2" "pr_states q = pr_states p2" "pr_skip q = pr_skip p2"
        "\<forall>p1. parse_key sd (get_token sd q) = Inr p1 \<longrightarrow> sax_eval sd p2 = sax_parse_internal sd (get_token sd p1)"
        "\<exists>p1. parse_key sd (get_token sd q) = Inr p1"
      using comma(2) p2(4) \<open>sax_eval sd p2 = Inr pf\<close> by (rule comma_key_sound)
    then obtain p3 where p3: "parse_key sd (get_token sd q) = Inr p3" "sax_eval sd p2 = sax_parse_internal sd (get_token sd p3)" by blast
    have "pr_states p3 = pr_states q" by (rule parse_key_sound [OF p3(1) q(1)])
    then have same: "p3\<lparr>pr_states := False # st\<rparr> = p3" using q(3) p2(4) by simp
    have d: "\<not> pr_skip q" "dom_refs (pr_dom q) = r # rs" "valid_ref r (dom_root (pr_dom q))"
        "get_ref r (dom_root (pr_dom q)) = JObj (insert_key s v kvs0)"
        "sax_parse_internal sd (get_token sd (p3\<lparr>pr_states := False # st\<rparr>)) = Inr pf"
      using p(5,8) p2 q(2,4) p3(2) same by (simp_all add: put_ref_at)
    have "length r2 < length bs" using k(1) v(1) comma(1) by simp
    moreover from this p(1) have "length r2 < n" by simp
    ultimately obtain ts kvs w where ts: "r2 = ts @ 0x7d # w" "json_members sd ts kvs"
        "runs_to sd (get_token sd p3) st rs (put_ref r (JObj (members_map (insert_key s v kvs0) kvs)) (dom_root (pr_dom q))) w"
      using less.IH [OF _ _ q(1) d(1-4) p3(1) d(5)] unfolding same by blast
    have "runs_to sd (get_token sd ?q) st rs (put_ref r (JObj (members_map kvs0 ((s, v) # kvs))) (dom_root (pr_dom p))) w"
      using ts(3) p(5) p2(1,6) q(2) p3(2) by (simp add: runs_to_def put_ref_at)
    moreover have "bs = (w1 @ 0x22 # k @ 0x22 # w2 @ 0x3a # w3 @ t @ w4 @ 0x2c # ts) @ 0x7d # w"
      using k(1) v(1) comma(1) ts(1) by simp
    ultimately show ?thesis
      using json_value_json_elements_json_members.more_members [OF k(3,2,4) v(2,3) comma(2) ts(2)] by blast
  qed
qed

text \<open>The cases of a value, with the result as in the statement above.\<close>

definition found :: "(byte list \<Rightarrow> u64) \<Rightarrow> parser \<Rightarrow> byte list \<Rightarrow> bool" where
  "found sd p bs \<longleftrightarrow>
     (\<exists>ws t v r. bs = ws @ t @ r \<and> spaces ws \<and> json_value sd t v \<and>
       runs_to sd (get_token sd p) (pr_states p) (dom_refs (pr_dom p)) (with_value v (pr_dom p)) r)"

lemma found_scalar:
  assumes "reads sd (pr_lexer p) bs" "\<not> pr_skip p"
    and v: "token_value (fst (scan sd (pr_lexer p))) (snd (scan sd (pr_lexer p))) = Some v"
  shows "found sd p bs"
proof -
  let ?s = "fst (scan sd (pr_lexer p))" and ?tok = "snd (scan sd (pr_lexer p))"
  have tok: "?tok \<noteq> T_parse_error" "?tok \<noteq> T_end_of_input" using v by (auto simp: token_value_def)
  have "\<exists>ws u r. bs = ws @ u @ r \<and> spaces ws \<and> reads sd ?s r \<and> token_text sd u ?s ?tok"
    by (rule reads_sound [OF assms(1) prod.collapse [symmetric] tok(1)]) (use tok(2) in blast)+
  then obtain ws u r where u: "bs = ws @ u @ r" "spaces ws" "reads sd ?s r" "token_text sd u ?s ?tok" by blast
  have "json_scalar sd u v"
    using u(4) v structural_not_scalar [of _ ?tok] by (auto simp: token_text_def scalar_token_def token_value_def split: token_type.splits)
  then have "json_value sd u v" by (rule json_value_json_elements_json_members.scalar)
  with runs_to_scalar [OF v prod.collapse [symmetric] u(3) assms(2)] u(1,2) show ?thesis unfolding found_def by blast
qed

lemma found_empty:
  assumes "reads sd (pr_lexer p) bs" "dom_ready (pr_dom p)" "\<not> pr_skip p"
    and "(c :: byte, d :: byte, f, tok, tok', v) \<in>
      {(0x5b, 0x5d, start_array, T_begin_array, T_end_array, JArr []), (0x7b, 0x7d, start_object, T_begin_object, T_end_object, JObj [])}"
    and "pr_token (get_token sd p) = tok" "pr_token (get_token sd (on_dom f (get_token sd p))) = tok'"
  shows "found sd p bs"
proof -
  have st: "structural c = Some tok" "structural d = Some tok'" using assms(4) by auto
  obtain ws r where r: "bs = ws @ c # r" "spaces ws" "reads sd (pr_lexer (get_token sd p)) r"
    using reads_structural_sound [OF assms(1,5) st(1)] .
  have "reads sd (pr_lexer (on_dom f (get_token sd p))) r" using r(3) by simp
  from reads_structural_sound [OF this assms(6) st(2)] obtain w r' where r': "r = w @ d # r'" "spaces w" .
  have "reads sd (pr_lexer p) (ws @ c # w @ d # r')" using r(1) r'(1) assms(1) by simp
  then have "runs_to sd (get_token sd p) (pr_states p) (dom_refs (pr_dom p)) (with_value v (pr_dom p)) r'"
    using runs_to_empty [OF r(2) assms(2,3) r'(2)] assms(4) by auto
  moreover have "json_value sd (c # w @ [d]) v"
    using assms(4) json_value_json_elements_json_members.empty_array [OF r'(2)]
      json_value_json_elements_json_members.empty_object [OF r'(2)] by auto
  moreover have "bs = ws @ (c # w @ [d]) @ r'" using r(1) r'(1) by simp
  ultimately show ?thesis using r(2) unfolding found_def by blast
qed

text \<open>After an opening bracket the container is at the top of the stack.\<close>

lemma found_enters:
  assumes "reads sd (pr_lexer p) bs" "dom_ready (pr_dom p)"
    and "(c :: byte, f, tok, v) \<in> {(0x5b, start_array, T_begin_array, JArr []), (0x7b, start_object, T_begin_object, JObj [])}"
    and "pr_token (get_token sd p) = tok"
  obtains ws bs' r where "bs = ws @ c # bs'" "spaces ws" "reads sd (pr_lexer (on_dom f (get_token sd p))) bs'"
    "dom_refs (pr_dom (on_dom f (get_token sd p))) = r # dom_refs (pr_dom p)"
    "valid_ref r (dom_root (pr_dom (on_dom f (get_token sd p))))" "get_ref r (dom_root (pr_dom (on_dom f (get_token sd p)))) = v"
    "\<forall>w. put_ref r w (dom_root (pr_dom (on_dom f (get_token sd p)))) = with_value w (pr_dom p)"
proof -
  have "structural c = Some tok" using assms(3) by auto
  then obtain ws bs' where r: "bs = ws @ c # bs'" "spaces ws" "reads sd (pr_lexer (get_token sd p)) bs'"
    by (rule reads_structural_sound [OF assms(1,4)])
  have f: "f (pr_dom p) = start_container v (pr_dom p)" using assms(3) by (auto simp: start_array_def start_object_def)
  obtain q where "dom_refs (f (pr_dom p)) = q # dom_refs (pr_dom p)" "valid_ref q (dom_root (f (pr_dom p)))"
      "get_ref q (dom_root (f (pr_dom p))) = v" "\<forall>w. put_ref q w (dom_root (f (pr_dom p))) = with_value w (pr_dom p)"
    unfolding f using start_container_at [OF assms(2), of v] by metis
  with r that [of ws bs' q] show ?thesis by simp
qed

lemma found_array:
  assumes "sound_value sd n" "length bs \<le> n" "reads sd (pr_lexer p) bs" "dom_ready (pr_dom p)" "\<not> pr_skip p"
    and "pr_token (get_token sd p) = T_begin_array"
    and run: "sax_value sd (get_token sd p) = Inr (q', True)" "sax_parse_internal sd q' = Inr pf"
    and q': "q' = (get_token sd (on_dom start_array (get_token sd p)))\<lparr>pr_states := True # pr_states p\<rparr>"
  shows "found sd p bs"
proof -
  obtain ws bs' r where r: "bs = ws @ 0x5b # bs'" "spaces ws" "reads sd (pr_lexer (on_dom start_array (get_token sd p))) bs'"
    "dom_refs (pr_dom (on_dom start_array (get_token sd p))) = r # dom_refs (pr_dom p)"
    "valid_ref r (dom_root (pr_dom (on_dom start_array (get_token sd p))))"
    "get_ref r (dom_root (pr_dom (on_dom start_array (get_token sd p)))) = JArr []"
    "\<forall>w. put_ref r w (dom_root (pr_dom (on_dom start_array (get_token sd p)))) = with_value w (pr_dom p)"
    using assms(3,4) _ assms(6) by (rule found_enters [where f = start_array and v = "JArr []"]) simp
  let ?q = "(on_dom start_array (get_token sd p))\<lparr>pr_states := True # pr_states p\<rparr>"
  have q: "reads sd (pr_lexer ?q) bs'" "\<not> pr_skip ?q" "dom_refs (pr_dom ?q) = r # dom_refs (pr_dom p)"
      "valid_ref r (dom_root (pr_dom ?q))" "get_ref r (dom_root (pr_dom ?q)) = JArr []" "pr_states ?q = True # pr_states p"
    using r(3-6) assms(5) by simp_all
  have q'q: "q' = get_token sd ?q" using q' by (simp add: get_token_states)
  have "length bs' < n" "sax_parse_internal sd (get_token sd ?q) = Inr pf" using assms(2) r(1) run(2) q'q by simp_all
  from sound_elements [OF assms(1) this(1) q this(2)] obtain t vs w where t: "bs' = t @ 0x5d # w" "json_elements sd t vs"
      "runs_to sd q' (pr_states p) (dom_refs (pr_dom p)) (with_value (JArr vs) (pr_dom p)) w"
    using r(7) unfolding q'q by auto
  have "sax_parse_internal sd (get_token sd p) = sax_parse_internal sd q'" using run(1) assms(5) by (simp add: run_steps(2))
  with t(3) have "runs_to sd (get_token sd p) (pr_states p) (dom_refs (pr_dom p)) (with_value (JArr vs) (pr_dom p)) w"
    by (simp add: runs_to_def)
  moreover have "bs = ws @ (0x5b # t @ [0x5d]) @ w" using r(1) t(1) by simp
  ultimately show ?thesis
    using r(2) json_value_json_elements_json_members.array [OF t(2)] unfolding found_def by blast
qed

lemma found_object:
  assumes "sound_value sd n" "length bs \<le> n" "reads sd (pr_lexer p) bs" "dom_ready (pr_dom p)" "\<not> pr_skip p"
    and "pr_token (get_token sd p) = T_begin_object"
    and run: "sax_value sd (get_token sd p) = Inr (q', True)" "sax_parse_internal sd q' = Inr pf"
    and key: "parse_key sd (get_token sd (on_dom start_object (get_token sd p))) = Inr p1"
    and q': "q' = get_token sd (p1\<lparr>pr_states := False # pr_states p1\<rparr>)"
  shows "found sd p bs"
proof -
  obtain ws bs' r where r: "bs = ws @ 0x7b # bs'" "spaces ws" "reads sd (pr_lexer (on_dom start_object (get_token sd p))) bs'"
    "dom_refs (pr_dom (on_dom start_object (get_token sd p))) = r # dom_refs (pr_dom p)"
    "valid_ref r (dom_root (pr_dom (on_dom start_object (get_token sd p))))"
    "get_ref r (dom_root (pr_dom (on_dom start_object (get_token sd p)))) = JObj []"
    "\<forall>w. put_ref r w (dom_root (pr_dom (on_dom start_object (get_token sd p)))) = with_value w (pr_dom p)"
    using assms(3,4) _ assms(6) by (rule found_enters [where f = start_object and v = "JObj []"]) simp
  let ?q = "on_dom start_object (get_token sd p)"
  have skip: "\<not> pr_skip ?q" using assms(5) by simp
  have "pr_states p1 = pr_states ?q" by (rule parse_key_sound [OF key r(3)])
  then have q'q: "q' = get_token sd (p1\<lparr>pr_states := False # pr_states p\<rparr>)" using q' by simp
  have "length bs' < n" "sax_parse_internal sd (get_token sd (p1\<lparr>pr_states := False # pr_states p\<rparr>)) = Inr pf"
    using assms(2) r(1) run(2) q'q by simp_all
  from sound_members [OF assms(1) this(1) r(3) skip r(4-6) key this(2)] obtain t kvs w where t: "bs' = t @ 0x7d # w" "json_members sd t kvs"
      "runs_to sd q' (pr_states p) (dom_refs (pr_dom p)) (with_value (JObj (members_map [] kvs)) (pr_dom p)) w"
    using r(7) unfolding q'q by auto
  have "sax_parse_internal sd (get_token sd p) = sax_parse_internal sd q'" using run(1) assms(5) by (simp add: run_steps(2))
  with t(3) have "runs_to sd (get_token sd p) (pr_states p) (dom_refs (pr_dom p)) (with_value (JObj (members_map [] kvs)) (pr_dom p)) w"
    by (simp add: runs_to_def)
  moreover have "bs = ws @ (0x7b # t @ [0x7d]) @ w" using r(1) t(1) by simp
  ultimately show ?thesis
    using r(2) json_value_json_elements_json_members.object [OF t(2)] unfolding found_def by blast
qed

lemma sound_value: "sound_value sd n"
proof (induction n)
  case 0
  then show ?case by (simp add: sound_value_def)
next
  case (Suc n)
  have "found sd p bs" if p: "length bs < Suc n" "reads sd (pr_lexer p) bs" "dom_ready (pr_dom p)" "\<not> pr_skip p"
      "sax_parse_internal sd (get_token sd p) = Inr pf" for p bs pf
  proof -
    have skip: "\<not> pr_skip (get_token sd p)" using p(4) by simp
    have "\<exists>q' c. sax_value sd (get_token sd p) = Inr (q', c) \<and> (c \<longrightarrow> sax_parse_internal sd q' = Inr pf)"
      by (rule sax_parse_Inr [OF p(5) skip]) blast+
    then obtain q' c where q': "sax_value sd (get_token sd p) = Inr (q', c)" "c \<longrightarrow> sax_parse_internal sd q' = Inr pf" by blast
    have n: "length bs \<le> n" using p(1) by simp
    from q'(1) show "found sd p bs"
    proof (cases rule: sax_value_cases)
      case (scalar v)
      then show ?thesis by (intro found_scalar [OF p(2,4)]) simp
    next
      case empty_array
      then show ?thesis by (intro found_empty [OF p(2-4)]) auto
    next
      case empty_object
      then show ?thesis by (intro found_empty [OF p(2-4)]) auto
    next
      case array
      then show ?thesis using q' by (intro found_array [OF Suc n p(2-4)]) auto
    next
      case (object p1)
      then show ?thesis using q' by (intro found_object [OF Suc n p(2-4)]) auto
    qed
  qed
  then show ?case unfolding sound_value_def found_def by blast
qed

section \<open>JSON texts\<close>

lemma skip_bom_cases:
  assumes "lx_at s t" "lx_total s = 0"
  shows "t = byte_order_mark @ t' \<Longrightarrow> reads sd s t'"
    and "t = [] \<or> hd t \<noteq> 0xEF \<Longrightarrow> reads sd s t"
    and "snd (scan sd s) \<noteq> T_parse_error \<Longrightarrow> \<exists>m t'. t = m @ t' \<and> m \<in> {[], byte_order_mark} \<and> reads sd s t'"
proof -
  have scan: "scan sd s = (case skip_bom s of (s, valid) \<Rightarrow>
      if \<not> valid then (lx_fail (cstr ''invalid BOM; must be 0xEF 0xBB 0xBF if given'') s, T_parse_error)
      else scan_token sd (skip_whitespace s))"
    using assms(2) by (simp add: scan_def)
  show bom: "reads sd s t'" if "t = byte_order_mark @ t'" for t'
  proof -
    have 1: "lx_current (lx_get s) = Some 0xEF" "lx_at (lx_get s) (0xBB # 0xBF # t')"
      using get_at(1) [of s "0xEF"] assms(1) that by (simp_all add: byte_order_mark_def)
    have 2: "lx_current (lx_get (lx_get s)) = Some 0xBB" "lx_at (lx_get (lx_get s)) (0xBF # t')"
      using get_at(1) [OF 1(2)] by simp_all
    have 3: "lx_current (lx_get (lx_get (lx_get s))) = Some 0xBF" "lx_at (lx_get (lx_get (lx_get s))) t'"
      using get_at(1) [OF 2(2)] by simp_all
    have "skip_bom s = (lx_get (lx_get (lx_get s)), True)" using 1(1) 2(1) 3(1) by (simp add: skip_bom_def Let_def)
    with scan 3(2) show ?thesis by (auto simp: reads_def)
  qed
  show plain: "reads sd s t" if "t = [] \<or> hd t \<noteq> 0xEF"
    using skip_bom_at [OF assms(1) that] scan by (auto simp: reads_def)
  show "\<exists>m t'. t = m @ t' \<and> m \<in> {[], byte_order_mark} \<and> reads sd s t'" if "snd (scan sd s) \<noteq> T_parse_error"
  proof (cases "t = [] \<or> hd t \<noteq> 0xEF")
    case True
    with plain show ?thesis by auto
  next
    case False
    then obtain t1 where t1: "t = 0xEF # t1" by (cases t) auto
    then have 1: "lx_current (lx_get s) = Some 0xEF" "lx_at (lx_get s) t1" using get_at(1) [of s "0xEF" t1] assms(1) by simp_all
    have b: "lx_current (lx_get (lx_get s)) = Some 0xBB" "lx_current (lx_get (lx_get (lx_get s))) = Some 0xBF"
      using that 1(1) scan by (auto simp: skip_bom_def Let_def split: if_splits)
    obtain t2 where t2: "t1 = 0xBB # t2" "lx_at (lx_get (lx_get s)) t2" using b(1) get_at [of "lx_get s"] 1(2) by (cases t1) auto
    obtain t3 where t3: "t2 = 0xBF # t3" using b(2) get_at [of "lx_get (lx_get s)"] t2(2) by (cases t2) auto
    have "t = byte_order_mark @ t3" using t1 t2(1) t3 by (simp add: byte_order_mark_def)
    with bom show ?thesis by blast
  qed
qed

lemma json_value_first:
  assumes "json_value sd t v"
  shows "t \<noteq> []" "hd t \<noteq> 0xEF"
proof -
  show "t \<noteq> []" using assms by (rule json_value_nonempty)
  show "hd t \<noteq> 0xEF"
    using assms by (cases rule: json_value.cases)
      (auto elim!: json_scalar.cases simp: cstr_def json_number_accepts is_digit_byte_def)
qed

lemma text_end_number: "text_end bs \<Longrightarrow> ends_number bs"
  using ends_number_spaces [of _ "[]"] ends_number_spaces [of _ "0 # _"]
  by (auto simp: text_end_def ends_number_def is_digit_def is_exponent_def)

definition start_parser :: "byte list \<Rightarrow> parser" where
  "start_parser t =
     \<lparr>pr_token = T_uninitialized, pr_lexer = lexer_init t,
      pr_dom = \<lparr>dom_root = JNull, dom_refs = [], dom_element = []\<rparr>, pr_states = [], pr_skip = False\<rparr>"

lemma start_simps [simp]:
  "pr_lexer (start_parser t) = lexer_init t" "pr_states (start_parser t) = []" "\<not> pr_skip (start_parser t)"
  "dom_ready (pr_dom (start_parser t))" "dom_refs (pr_dom (start_parser t)) = []" "with_value v (pr_dom (start_parser t)) = v"
  "parser_init sd t = get_token sd (start_parser t)"
  by (simp_all add: start_parser_def dom_ready_def with_value_def handle_value_def parser_init_def)

lemma parse_text_run:
  assumes "runs_to sd (parser_init sd t) [] [] v bs"
  shows "parse_text sd t = Inr w \<longleftrightarrow> text_end bs \<and> v = w"
proof -
  obtain p where p: "sax_parse_internal sd (parser_init sd t) = sax_eval sd p" "reads sd (pr_lexer p) bs" "pr_states p = []"
      "dom_root (pr_dom p) = v"
    using assms by (auto simp: runs_to_def)
  have "sax_eval sd p = Inr p" using p(3) by (simp add: sax_eval_def sax_state_def)
  then have run: "parse_text sd t = (if snd (scan sd (pr_lexer p)) \<noteq> T_end_of_input
      then Inl (syntax_error T_end_of_input ''value'' (get_token sd p)) else Inr v)"
    using p(1,4) by (simp add: parse_text_def Let_def)
  have "text_end bs" if "snd (scan sd (pr_lexer p)) = T_end_of_input"
  proof -
    have scan: "scan sd (pr_lexer p) = (fst (scan sd (pr_lexer p)), T_end_of_input)" using that by (metis prod.collapse)
    show ?thesis
    proof (rule reads_sound [OF p(2) scan])
      fix u s
      assume "token_text sd u s T_end_of_input"
      then show ?thesis using structural_not_scalar by (auto simp: token_text_def scalar_token_def)
    qed simp_all
  qed
  with run reads_end [OF p(2)] show ?thesis by auto
qed

lemma parse_text_grammar: "parse_text sd t = Inr v \<longleftrightarrow> json_text sd t v"
proof
  assume v: "parse_text sd t = Inr v"
  obtain pf where pf: "sax_parse_internal sd (parser_init sd t) = Inr pf" using v by (auto simp: parse_text_def)
  have "snd (scan sd (lexer_init t)) \<noteq> T_parse_error"
  proof
    assume "snd (scan sd (lexer_init t)) = T_parse_error"
    then have "sax_parse_internal sd (parser_init sd t) = Inl (syntax_error T_uninitialized ''value'' (parser_init sd t))"
      by (simp add: sax_parse_internal.simps [of sd "get_token sd (start_parser t)"] sax_step_def sax_value_def)
    with pf show False by simp
  qed
  then obtain m t' where t: "t = m @ t'" "m \<in> {[], byte_order_mark}" "reads sd (lexer_init t) t'"
    using skip_bom_cases(3) [OF at_init, of t sd] by (auto simp: lexer_init_def)
  have "found sd (start_parser t) t'"
    using sound_value [of sd "Suc (length t')", unfolded sound_value_def, rule_format, of t' "start_parser t" pf] t(3) pf
    by (simp add: found_def)
  then obtain ws u w bs where u: "t' = ws @ u @ bs" "spaces ws" "json_value sd u w" "runs_to sd (parser_init sd t) [] [] w bs"
    by (auto simp: found_def)
  from parse_text_run [OF u(4)] v have "text_end bs" "w = v" by auto
  with t(1,2) u(1-3) show "json_text sd t v" unfolding json_text_def by blast
next
  assume "json_text sd t v"
  then obtain m ws u bs where t: "t = m @ ws @ u @ bs" "m \<in> {[], byte_order_mark}" "spaces ws" "json_value sd u v" "text_end bs"
    by (auto simp: json_text_def)
  have "hd (ws @ u @ bs) \<noteq> 0xEF" using json_value_first [OF t(4)] t(3) by (cases ws) (auto simp: is_space_def)
  then have "reads sd (lexer_init t) (ws @ u @ bs)"
    using t(1,2) skip_bom_cases(1,2) [OF at_init, of t] by (auto simp: lexer_init_def)
  then have "runs_to sd (parser_init sd t) [] [] v bs"
    using grammar_parses(1) [OF t(4), unfolded parses_value_def, rule_format, of "start_parser t" ws bs] t(3)
      text_end_number [OF t(5)] by simp
  from parse_text_run [OF this] t(5) show "parse_text sd t = Inr v" by simp
qed

text \<open>
  C3. The parser accepts exactly the texts of RFC 8259 and gives each its value: \<open>parse\<close> returns a
  value for a byte string if and only if the string is a text of the grammar with that value. For
  every other byte string it raises an exception; it returns for all of them.
\<close>

theorem json_parser_is_rfc8259: "parse_text sd t = Inr v \<longleftrightarrow> json_text sd t v"
  by (rule parse_text_grammar)

end
