(* ===== verification/Json_Text.thy ===== *)
theory Json_Text
  imports Json_Language
begin

text \<open>
  JSON text as the programs exchange it: what \<open>dump\<close> writes for a value without floating point
  numbers, compact or with an indentation of at most 1024, is a text of the grammar, so it is parsed to the value,
  also with white space around it and with anything after a byte 0; values are written exactly
  when their strings are UTF-8; parsed values are well-formed.
  So the functions of \<open>src/ext/json-3.11.2/single_include/nlohmann/json.hpp\<close> modelled in
  \<open>Json_Dump\<close>, \<open>Json_Lexer\<close> and \<open>Json_Parser\<close> keep the contract \<open>json_lib_ok\<close> of \<open>Cpp_Json\<close>, on
  which the results about the programs rest.
\<close>

section \<open>Written values are texts of the grammar\<close>

subsection \<open>Keys in order\<close>

lemma bytes_less_irrefl [simp]: "\<not> bytes_less a a"
  by (induction a) auto

lemma bytes_less_trans: "bytes_less a b \<Longrightarrow> bytes_less b c \<Longrightarrow> bytes_less a c"
proof (induction a b arbitrary: c rule: bytes_less.induct)
  case (3 a as b bs)
  then show ?case by (cases c) auto
qed (auto elim: bytes_less.elims)

lemma bytes_less_asym: "bytes_less a b \<Longrightarrow> \<not> bytes_less b a"
  using bytes_less_trans [of a b a] by auto

lemma keys_sorted_wrt: "keys_sorted kvs \<longleftrightarrow> sorted_wrt (\<lambda>a b. bytes_less (fst a) (fst b)) kvs"
  by (induction kvs rule: keys_sorted.induct) (auto intro: bytes_less_trans)

lemma insert_key_last:
  assumes "\<forall>(k', v') \<in> set kvs. bytes_less k' k"
  shows "insert_key k w kvs = kvs @ [(k, w)]" "insert_key k w (kvs @ [(k, v)]) = kvs @ [(k, w)]" "map_of kvs k = None"
  using assms by (induction kvs) (auto dest: bytes_less_asym)

lemma members_map_sorted: "keys_sorted (kvs0 @ kvs) \<Longrightarrow> members_map kvs0 kvs = kvs0 @ kvs"
proof (induction kvs arbitrary: kvs0)
  case (Cons m kvs)
  obtain k v where m: "m = (k, v)" by fastforce
  have "\<forall>(k', v') \<in> set kvs0. bytes_less k' k" using Cons.prems by (auto simp: m keys_sorted_wrt sorted_wrt_append)
  then have "insert_key k v kvs0 = kvs0 @ [(k, v)]" by (rule insert_key_last(1))
  with Cons.IH [of "kvs0 @ [(k, v)]"] Cons.prems show ?case by (simp add: m)
qed simp

subsection \<open>White space around elements and members\<close>

lemma elements_spaces:
  assumes "json_elements sd t vs" "spaces a" "spaces b"
  shows "json_elements sd (a @ t @ b) vs"
proof -
  have lead: "json_elements sd (a @ t) vs"
    using assms(1)
  proof (cases rule: json_elements.cases)
    case (last_element ws u v ws')
    then show ?thesis using json_value_json_elements_json_members.last_element [of "a @ ws" sd u v ws'] assms(2) by simp
  next
    case (more_elements ws u v ws' ts vs')
    then show ?thesis using json_value_json_elements_json_members.more_elements [of "a @ ws" sd u v ws' ts vs'] assms(2) by simp
  qed
  have "json_elements sd u vs \<Longrightarrow> json_elements sd (u @ b) vs" for u
  proof (induction vs arbitrary: u)
    case (Cons v vs)
    from Cons.prems show ?case
    proof (cases rule: json_elements.cases)
      case (last_element ws w ws')
      then show ?thesis using json_value_json_elements_json_members.last_element [of ws sd w v "ws' @ b"] assms(3) by simp
    next
      case (more_elements ws w ws' ts)
      then show ?thesis
        using json_value_json_elements_json_members.more_elements [of ws sd w v ws' "ts @ b" vs] Cons.IH [of ts] by simp
    qed
  qed (auto elim: json_elements.cases)
  from this [OF lead] show ?thesis by simp
qed

lemma members_spaces:
  assumes "json_members sd t kvs" "spaces a" "spaces b"
  shows "json_members sd (a @ t @ b) kvs"
proof -
  have lead: "json_members sd (a @ t) kvs"
    using assms(1)
  proof (cases rule: json_members.cases)
    case (last_member w1 k s w2 w3 u v w4)
    then show ?thesis using json_value_json_elements_json_members.last_member [of "a @ w1" k s w2 w3 sd u v w4] assms(2) by simp
  next
    case (more_members w1 k s w2 w3 u v w4 ts kvs')
    then show ?thesis
      using json_value_json_elements_json_members.more_members [of "a @ w1" k s w2 w3 sd u v w4 ts kvs'] assms(2) by simp
  qed
  have "json_members sd u kvs \<Longrightarrow> json_members sd (u @ b) kvs" for u
  proof (induction kvs arbitrary: u)
    case (Cons m kvs)
    from Cons.prems show ?case
    proof (cases rule: json_members.cases)
      case (last_member w1 k s w2 w3 w v w4)
      then show ?thesis using json_value_json_elements_json_members.last_member [of w1 k s w2 w3 sd w v "w4 @ b"] assms(3) by simp
    next
      case (more_members w1 k s w2 w3 w v w4 ts)
      then show ?thesis
        using json_value_json_elements_json_members.more_members [of w1 k s w2 w3 sd w v w4 "ts @ b" kvs] Cons.IH [of ts] by simp
    qed
  qed (auto elim: json_members.cases)
  from this [OF lead] show ?thesis by simp
qed

subsection \<open>What \<open>dump\<close> writes\<close>

lemma cstr_punctuation [simp]:
  "cstr ''{'' = [0x7b]" "cstr ''}'' = [0x7d]" "cstr ''['' = [0x5b]" "cstr '']'' = [0x5d]" "cstr '','' = [0x2c]"
  by (simp_all add: cstr_def)

lemma json_exact_simps [simp]:
  "json_exact (JArr js) \<longleftrightarrow> (\<forall>j \<in> set js. json_exact j)"
  "json_exact (JObj kvs) \<longleftrightarrow> keys_sorted kvs \<and> (\<forall>(k, j) \<in> set kvs. json_exact j)"
  by (auto simp: list_all_iff)

declare json_exact.simps(6,7) [simp del]

lemma int_part_dec_nat: "int_part (dec_nat n)"
proof (cases "n = 0")
  case False
  obtain c ds where c: "dec_nat n = c # ds" by (cases "dec_nat n") auto
  have "\<forall>d \<in> set (c # ds). is_digit_byte d" using dec_nat_digits [of _ n] c by metis
  moreover have "c \<noteq> 0x30" using dec_nat_first [of n] False c by simp
  ultimately show ?thesis unfolding c int_part_Cons by (simp add: digits_def)
qed (simp add: int_part_def dec_nat.simps [of 0])

lemma dec_int_number:
  assumes "- (2 ^ 63) \<le> i" "i < 2 ^ 64"
  shows "json_number sd (dec_int i) (JInt i)"
proof (cases "i < 0")
  case True
  then have "dec_int i = [0x2d] @ dec_nat (nat (- i)) @ [] @ []" "nat (- i) \<le> 2 ^ 63" using assms(1) by (simp_all add: dec_int_def)
  with int_part_dec_nat [of "nat (- i)"] show ?thesis unfolding json_number_def
    by (intro exI [of _ "[0x2d]"] exI [of _ "dec_nat (nat (- i))"] exI [of _ "[] :: byte list"]) (use True in simp)
next
  case False
  then have "dec_int i = [] @ dec_nat (nat i) @ [] @ []" "nat i < 2 ^ 64" using assms(2) by (simp_all add: dec_int_def nat_less_iff)
  with int_part_dec_nat [of "nat i"] show ?thesis unfolding json_number_def
    by (intro exI [of _ "[] :: byte list"] exI [of _ "dec_nat (nat i)"]) (use False in simp)
qed

lemma dump_escaped_Inr: "dump_escaped s = Inr t \<longleftrightarrow> utf8 s \<and> t = escape_json s"
  by (auto simp: dump_escaped_utf8)

lemma layout_grammar:
  shows "json_exact j \<Longrightarrow> layout_value tc pretty step cur j = Inr t \<Longrightarrow> json_value sd t j"
    and "js \<noteq> [] \<Longrightarrow> \<forall>j \<in> set js. json_exact j \<Longrightarrow> layout_elements tc pretty step ind js = Inr t \<Longrightarrow> json_elements sd t js"
    and "kvs \<noteq> [] \<Longrightarrow> \<forall>(k, j) \<in> set kvs. json_exact j \<Longrightarrow> layout_members tc pretty step ind kvs = Inr t \<Longrightarrow>
      json_members sd t kvs"
proof (induction tc pretty step cur j and tc pretty step ind js and tc pretty step ind kvs arbitrary: t and t and t
    rule: layout_value_layout_elements_layout_members.induct)
  case (1 tc pretty step cur kvs)
  show ?case
  proof (cases "kvs = []")
    case True
    then show ?thesis using "1.prems"(2) json_value_json_elements_json_members.empty_object [of "[]"] by (simp add: cstr_def)
  next
    case False
    have sorted: "members_map [] kvs = kvs" using members_map_sorted [of "[]" kvs] "1.prems"(1) by simp
    have mem: "\<forall>(k, j) \<in> set kvs. json_exact j" using "1.prems"(1) by simp
    have "\<exists>u. json_members sd u kvs \<and> t = 0x7b # u @ [0x7d]"
    proof (cases pretty)
      case True
      with False "1.prems"(2) obtain u where u: "layout_members tc True step (cur + step) kvs = Inr u"
          "t = 0x7b # ([0x0a] @ u @ (0x0a # margin cur)) @ [0x7d]"
        by auto
      have "json_members sd u kvs" using "1.IH"(1) [OF False True False mem u(1)] .
      then have "json_members sd ([0x0a] @ u @ (0x0a # margin cur)) kvs"
        by (rule members_spaces) (simp_all add: is_space_def)
      with u(2) show ?thesis by blast
    next
      case pretty: False
      with False "1.prems"(2) obtain u where u: "layout_members tc False step cur kvs = Inr u" "t = 0x7b # u @ [0x7d]" by auto
      with "1.IH"(2) [OF False pretty False mem u(1)] show ?thesis by blast
    qed
    then show ?thesis using json_value_json_elements_json_members.object sorted by metis
  qed
next
  case (2 tc pretty step cur js)
  show ?case
  proof (cases "js = []")
    case True
    then show ?thesis using "2.prems"(2) json_value_json_elements_json_members.empty_array [of "[]"] by (simp add: cstr_def)
  next
    case False
    have mem: "\<forall>j \<in> set js. json_exact j" using "2.prems"(1) by simp
    have "\<exists>u. json_elements sd u js \<and> t = 0x5b # u @ [0x5d]"
    proof (cases pretty)
      case True
      with False "2.prems"(2) obtain u where u: "layout_elements tc True step (cur + step) js = Inr u"
          "t = 0x5b # ([0x0a] @ u @ (0x0a # margin cur)) @ [0x5d]"
        by auto
      have "json_elements sd u js" using "2.IH"(1) [OF False True False mem u(1)] .
      then have "json_elements sd ([0x0a] @ u @ (0x0a # margin cur)) js"
        by (rule elements_spaces) (simp_all add: is_space_def)
      with u(2) show ?thesis by blast
    next
      case pretty: False
      with False "2.prems"(2) obtain u where u: "layout_elements tc False step cur js = Inr u" "t = 0x5b # u @ [0x5d]" by auto
      with "2.IH"(2) [OF False pretty False mem u(1)] show ?thesis by blast
    qed
    then show ?thesis using json_value_json_elements_json_members.array by metis
  qed
next
  case (3 tc pretty step cur s)
  then show ?case
    by (auto simp: dump_escaped_Inr intro: json_value_json_elements_json_members.scalar json_scalar.string escape_json_chars)
next
  case (4 tc pretty step cur b)
  then show ?case
    by (auto intro: json_value_json_elements_json_members.scalar json_scalar.true json_scalar.false split: if_splits)
next
  case (5 tc pretty step cur i)
  then show ?case
    by (auto simp: dump_integer_dec intro!: json_value_json_elements_json_members.scalar json_scalar.number dec_int_number)
next
  case (7 tc pretty step cur)
  then show ?case by (auto intro: json_value_json_elements_json_members.scalar json_scalar.null)
next
  case (9 tc pretty step ind j)
  then obtain u where u: "layout_value tc pretty step ind j = Inr u" "t = (if pretty then margin ind else []) @ u" by auto
  with "9.IH" [of u] "9.prems"(2) show ?case
    using json_value_json_elements_json_members.last_element [of "if pretty then margin ind else []" sd u j "[]"] by simp
next
  case (10 tc pretty step ind j j' js)
  then obtain u ts where u: "layout_value tc pretty step ind j = Inr u" "layout_elements tc pretty step ind (j' # js) = Inr ts"
      "t = (if pretty then margin ind else []) @ u @ [] @ 0x2c # (if pretty then [0x0a] else []) @ ts"
    by (auto split: if_splits)
  have "json_elements sd ts (j' # js)" using "10.IH"(2) [OF _ _ u(2)] "10.prems"(2) by simp
  then have "json_elements sd ((if pretty then [0x0a] else []) @ ts @ []) (j' # js)"
    by (rule elements_spaces) (simp_all add: is_space_def)
  moreover have "json_value sd u j" using "10.IH"(1) [of u] u(1) "10.prems"(2) by simp
  ultimately show ?case
    unfolding u(3) by (intro json_value_json_elements_json_members.more_elements) simp_all
next
  case (12 tc pretty step ind k j)
  then obtain u where u: "utf8 k" "layout_value tc pretty step ind j = Inr u"
      "t = (if pretty then margin ind else []) @ 0x22 # escape_json k @ 0x22 # [] @ 0x3a # (if pretty then [0x20] else []) @ u @ []"
    by (auto simp: dump_escaped_Inr split: if_splits)
  then have "json_value sd u j" using "12.IH" [OF _ u(2)] "12.prems"(2) by (simp add: dump_escaped_Inr)
  with u(1) show ?case
    unfolding u(3) by (intro json_value_json_elements_json_members.last_member escape_json_chars) (simp_all add: is_space_def)
next
  case (13 tc pretty step ind k j m kvs)
  then obtain u ts where u: "utf8 k" "layout_value tc pretty step ind j = Inr u" "layout_members tc pretty step ind (m # kvs) = Inr ts"
      "t = (if pretty then margin ind else []) @ 0x22 # escape_json k @ 0x22 # [] @ 0x3a # (if pretty then [0x20] else []) @ u
        @ [] @ 0x2c # (if pretty then [0x0a] else []) @ ts"
    by (auto simp: dump_escaped_Inr split: if_splits)
  then have "json_value sd u j" "json_members sd ts (m # kvs)"
    using "13.IH"(1) [OF _ u(2)] "13.IH"(2) [OF _ _ u(3)] "13.prems"(2) by (simp_all add: dump_escaped_Inr)
  then have "json_members sd ((if pretty then [0x0a] else []) @ ts @ []) (m # kvs)"
    by (intro members_spaces) (simp_all add: is_space_def)
  with u(1) \<open>json_value sd u j\<close> show ?case
    unfolding u(4) by (intro json_value_json_elements_json_members.more_members escape_json_chars) (simp_all add: is_space_def)
qed (simp_all)

section \<open>Values are written exactly when they are UTF-8\<close>

definition written :: "bool \<Rightarrow> byte list throwing \<Rightarrow> bool" where
  "written c r \<longleftrightarrow> (if c then \<exists>t. r = Inr t else r = Inl (Type_error 316))"

lemma written_then: "written c r \<Longrightarrow> (\<And>t. written c' (f t)) \<Longrightarrow> written (c \<and> c') (then_try r f)"
  by (auto simp: written_def split: if_splits)

lemma written_Inr: "written True (Inr t)"
  by (simp add: written_def)

lemma written_map: "written c r \<Longrightarrow> written c (then_try r (\<lambda>t. Inr (f t)))"
  using written_then [of c r True] written_Inr by simp

lemma written_string: "written (utf8 s) (dump_escaped s)"
  by (simp add: written_def dump_escaped_utf8)

lemma layout_written:
  shows "written (json_utf8 j) (layout_value tc pretty step cur j)"
    and "written (\<forall>j \<in> set js. json_utf8 j) (layout_elements tc pretty step ind js)"
    and "written (\<forall>(k, j) \<in> set kvs. utf8 k \<and> json_utf8 j) (layout_members tc pretty step ind kvs)"
proof (induction tc pretty step cur j and tc pretty step ind js and tc pretty step ind kvs
    rule: layout_value_layout_elements_layout_members.induct)
  case (1 tc pretty step cur kvs)
  then show ?case by (cases "kvs = []"; cases pretty) (simp_all add: written_map written_Inr del: then_try_Inr)
next
  case (2 tc pretty step cur js)
  then show ?case by (cases "js = []"; cases pretty) (simp_all add: written_map written_Inr del: then_try_Inr)
next
  case (3 tc pretty step cur s)
  then show ?case using written_string by (simp add: written_map)
next
  case (10 tc pretty step ind j j' js)
  then show ?case unfolding layout_elements.simps list.set ball_simps by (intro written_then written_map) auto
next
  case (12 tc pretty step ind k j)
  have "written (utf8 k \<and> json_utf8 j) (layout_members tc pretty step ind [(k, j)])"
    unfolding layout_members.simps by (intro written_then written_map written_string 12)
  then show ?case by simp
next
  case (13 tc pretty step ind k j m kvs)
  have "written (utf8 k \<and> json_utf8 j \<and> (\<forall>(k, j) \<in> set (m # kvs). utf8 k \<and> json_utf8 j))
      (layout_members tc pretty step ind ((k, j) # m # kvs))"
    unfolding layout_members.simps by (intro written_then written_map written_string 13)
  then show ?case by (simp add: case_prod_beta)
qed (simp_all add: written_map written_Inr)

section \<open>Well-formed values\<close>

text \<open>
  What every parsed value satisfies beside UTF-8: integers in the range of the two integer types
  of the library, finite floating point numbers, keys in order and without duplicates.
\<close>

primrec json_wf :: "json \<Rightarrow> bool" where
  "json_wf JNull = True"
| "json_wf (JBool b) = True"
| "json_wf (JInt i) = (- (2 ^ 63) \<le> i \<and> i < 2 ^ 64)"
| "json_wf (JFloat d) = isfinite d"
| "json_wf (JStr s) = True"
| "json_wf (JArr js) = list_all (\<lambda>b. b) (map json_wf js)"
| "json_wf (JObj kvs) = (keys_sorted kvs \<and> list_all snd (map (map_prod id json_wf) kvs))"

primrec float_free :: "json \<Rightarrow> bool" where
  "float_free JNull = True"
| "float_free (JBool b) = True"
| "float_free (JInt i) = True"
| "float_free (JFloat d) = False"
| "float_free (JStr s) = True"
| "float_free (JArr js) = list_all (\<lambda>b. b) (map float_free js)"
| "float_free (JObj kvs) = list_all snd (map (map_prod id float_free) kvs)"

lemma json_wf_simps [simp]:
  "json_wf (JArr js) \<longleftrightarrow> (\<forall>j \<in> set js. json_wf j)"
  "json_wf (JObj kvs) \<longleftrightarrow> keys_sorted kvs \<and> (\<forall>(k, j) \<in> set kvs. json_wf j)"
  "float_free (JArr js) \<longleftrightarrow> (\<forall>j \<in> set js. float_free j)"
  "float_free (JObj kvs) \<longleftrightarrow> (\<forall>(k, j) \<in> set kvs. float_free j)"
  by (auto simp: list_all_iff)

declare json_wf.simps(6,7) [simp del] float_free.simps(6,7) [simp del]

lemma json_wf_exact: "json_wf j \<Longrightarrow> float_free j \<Longrightarrow> json_exact j"
  by (induction j) (fastforce simp: case_prod_beta)+

lemma bytes_less_total: "a \<noteq> b \<Longrightarrow> \<not> bytes_less a b \<Longrightarrow> bytes_less b a"
proof (induction a b rule: bytes_less.induct)
  case (1 a)
  then show ?case by (cases a) simp_all
next
  case (3 a as b bs)
  then show ?case by (cases "a = b") auto
qed simp

lemma insert_key_sorted:
  assumes "keys_sorted kvs"
  shows "keys_sorted (insert_key k v kvs)"
  using assms
proof (induction kvs)
  case (Cons m kvs)
  obtain k' v' where m: "m = (k', v')" by fastforce
  have less: "bytes_less k k' \<Longrightarrow> \<forall>x \<in> set kvs. bytes_less k (fst x)"
    using Cons.prems by (auto simp: m keys_sorted_wrt intro: bytes_less_trans)
  show ?case
  proof (cases "k = k' \<or> bytes_less k k'")
    case True
    then show ?thesis using Cons.prems less by (auto simp: m keys_sorted_wrt)
  next
    case False
    then have "bytes_less k' k" using bytes_less_total by blast
    moreover have "set (insert_key k v kvs) \<subseteq> insert (k, v) (set kvs)" by (rule set_insert_key)
    ultimately have "\<forall>x \<in> set (insert_key k v kvs). bytes_less k' (fst x)"
      using Cons.prems by (auto simp: m keys_sorted_wrt)
    moreover have "keys_sorted (insert_key k v kvs)" using Cons.IH Cons.prems by (simp add: m keys_sorted_wrt)
    ultimately show ?thesis using False by (simp add: m keys_sorted_wrt)
  qed
qed simp

lemma members_map_wf:
  "keys_sorted kvs0 \<Longrightarrow> \<forall>(k, j) \<in> set kvs0. json_wf j \<Longrightarrow> \<forall>(k, j) \<in> set kvs. json_wf j \<Longrightarrow> json_wf (JObj (members_map kvs0 kvs))"
proof (induction kvs arbitrary: kvs0)
  case (Cons m kvs)
  obtain k v where m: "m = (k, v)" by fastforce
  have "\<forall>(k', j) \<in> set (insert_key k v kvs0). json_wf j"
    using set_insert_key [of k v kvs0] Cons.prems(2,3) by (auto simp: m)
  with Cons.IH [OF insert_key_sorted [OF Cons.prems(1)]] Cons.prems(3) show ?case by (simp add: m)
qed simp

lemma scalar_wf: "json_scalar sd t v \<Longrightarrow> json_wf v"
  by (cases rule: json_scalar.cases) (auto simp: json_number_def split: if_splits)

lemma empty_object_wf: "json_wf (JObj [])"
  by simp

lemma grammar_wf:
  "json_value sd t v \<Longrightarrow> json_wf v"
  "json_elements sd t vs \<Longrightarrow> \<forall>j \<in> set vs. json_wf j"
  "json_members sd t kvs \<Longrightarrow> \<forall>(k, j) \<in> set kvs. json_wf j"
  by (induction rule: json_value_json_elements_json_members.inducts)
    (simp_all add: scalar_wf members_map_wf empty_object_wf del: json_wf_simps(2))

section \<open>The library\<close>

text \<open>
  The parameters: \<open>strtod\<close> of the C library, the digits that \<open>to_chars\<close> finds for a floating point
  number, the bytes behind the string of spaces that the serialiser keeps, the conversion of such a number to an integer, and the texts of the exceptions other
  than syntax errors. No program of the repository writes a floating point number.
\<close>

record json_env =
  env_strtod :: "byte list \<Rightarrow> u64"
  env_to_chars :: "u64 \<Rightarrow> byte list"
  env_beyond :: "nat \<Rightarrow> nat \<Rightarrow> byte list"
  env_cast_double :: "u64 \<Rightarrow> int"
  env_what :: "json_exn \<Rightarrow> byte list"

definition exception_what :: "json_env \<Rightarrow> json_exn \<Rightarrow> byte list" where
  "exception_what E e = (case e of Parse_error m \<Rightarrow> m | _ \<Rightarrow> env_what E e)"

text \<open>The argument of \<open>dump\<close> is -1 by default.\<close>

primrec indentation :: "layout \<Rightarrow> int" where
  "indentation Compact = - 1"
| "indentation Indent_1 = 1"
| "indentation Indent_2 = 2"

lemma indentation_bound: "indentation n \<le> 1024"
  by (cases n) simp_all

definition nlohmann :: "json_env \<Rightarrow> json_lib" where
  "nlohmann E =
     \<lparr>json_parse = parse_text (env_strtod E),
      json_dump = (\<lambda>n. dump (env_beyond E) (env_to_chars E) (indentation n)),
      double_to_int = env_cast_double E, what = exception_what E\<rparr>"

lemma dump_parse_text:
  assumes "json_exact j" "n \<le> 1024" "dump bey tc n j = Inr t" "spaces ws" "text_end bs"
  shows "parse_text sd (ws @ t @ bs) = Inr j"
proof -
  have "json_value sd t j"
    using assms(3) layout_grammar(1) [OF assms(1), of tc _ _ _ t sd]
    by (auto simp: dump_layout [OF assms(2)] layout_text_def split: if_splits)
  then have "ws @ t @ bs = [] @ ws @ t @ bs \<and> [] \<in> {[], byte_order_mark} \<and> spaces ws \<and> json_value sd t j \<and> text_end bs"
    using assms(4,5) by simp
  then have "json_text sd (ws @ t @ bs) j" unfolding json_text_def by blast
  then show ?thesis by (simp add: parse_text_grammar)
qed

lemma dump_utf8: "n \<le> 1024 \<Longrightarrow> written (json_utf8 j) (dump bey tc n j)"
  by (simp add: dump_layout layout_text_def layout_written)

lemma parse_text_empty: "\<exists>m. parse_text sd [] = Inl (Parse_error m)"
proof -
  have "text_end []" by (auto simp: text_end_def)
  moreover have "reads sd (lexer_init []) []"
    by (rule skip_bom_cases(2) [OF at_init]) (simp_all add: lexer_init_def)
  ultimately have "snd (scan sd (lexer_init [])) = T_end_of_input" using reads_end by blast
  then show ?thesis
    by (simp add: parse_text_def sax_parse_internal.simps [of sd "get_token sd (start_parser [])"] sax_step_def sax_value_def syntax_error_def)
qed

text \<open>The library keeps the contract that the programs rely on.\<close>

lemma nlohmann_ok: "json_lib_ok (nlohmann E)"
proof -
  have w: "written (json_utf8 j) (json_dump (nlohmann E) n j)" for n j by (simp add: nlohmann_def dump_utf8 indentation_bound)
  have "\<exists>t. json_dump (nlohmann E) n j = Inr t" if "json_utf8 j" for n j using w [of j n] that by (simp add: written_def)
  moreover have "json_dump (nlohmann E) n j = Inl (Type_error 316)" if "\<not> json_utf8 j" for n j
    using w [of j n] that by (simp add: written_def)
  moreover have "json_parse (nlohmann E) t = Inr j" if "json_exact j" "json_dump (nlohmann E) n j = Inr t" for n j t
    using dump_parse_text [OF that(1) indentation_bound, of _ _ n t "[]" "[]"] that(2) by (simp add: nlohmann_def text_end_def)
  moreover have "json_utf8 j" if "json_parse (nlohmann E) t = Inr j" for t j
    using that parse_text_utf8 by (simp add: nlohmann_def)
  moreover have "\<exists>m. json_parse (nlohmann E) [] = Inl (Parse_error m)"
    using parse_text_empty by (simp add: nlohmann_def)
  ultimately show ?thesis unfolding json_lib_ok_def by blast
qed

text \<open>An instance, for examples: the numbers with a fraction are all zero.\<close>

definition sample_json :: json_lib where
  "sample_json =
     nlohmann \<lparr>env_strtod = (\<lambda>_. 0), env_to_chars = (\<lambda>_. cstr ''0.0''), env_beyond = (\<lambda>_ k. replicate k 0),
       env_cast_double = (\<lambda>_. 0), env_what = (\<lambda>_. [])\<rparr>"

lemma sample_json_ok: "json_lib_ok sample_json"
  unfolding sample_json_def by (rule nlohmann_ok)

text \<open>
  C20. The reader inverts the writer: a value whose strings are UTF-8, with integers in the range of
  the library and no floating point numbers, is written, compactly or with an indentation of at most 512, as a
  text that is read as the very value, also with white space around it and with a byte 0 and
  anything behind it.
\<close>

theorem json_round_trip:
  assumes "json_utf8 j" "json_exact j" "n \<le> 512" "spaces ws" "text_end bs"
  shows "\<exists>t. dump bey tc n j = Inr t \<and> parse_text sd (ws @ t @ bs) = Inr j"
proof -
  have n: "n \<le> 1024" using assms(3) by simp
  obtain t where "dump bey tc n j = Inr t" using dump_utf8 [OF n, of j bey tc] assms(1) by (auto simp: written_def)
  with dump_parse_text [OF assms(2) n _ assms(4,5)] show ?thesis by blast
qed

theorem json_round_trip_witness:
  "\<exists>t. dump (\<lambda>_ _. []) (\<lambda>_. []) 2 (JArr [JStr (cstr ''EVENT''), JObj [(cstr ''kind'', JInt (- 1))], JNull]) = Inr t
     \<and> parse_text (\<lambda>_. 0) ([0x20] @ t @ [0x0a, 0]) = Inr (JArr [JStr (cstr ''EVENT''), JObj [(cstr ''kind'', JInt (- 1))], JNull])"
proof (rule json_round_trip)
  show "json_utf8 (JArr [JStr (cstr ''EVENT''), JObj [(cstr ''kind'', JInt (- 1))], JNull])" by (simp add: utf8_ascii cstr_def)
  show "json_exact (JArr [JStr (cstr ''EVENT''), JObj [(cstr ''kind'', JInt (- 1))], JNull])" by simp
  show "(2 :: int) \<le> 512" by simp
  show "spaces [0x20]" by (simp add: is_space_def)
  show "text_end [0x0a, 0]" unfolding text_end_def by (rule exI [of _ "[0x0a]"]) (simp add: is_space_def)
qed

text \<open>
  C22. Parsed values are well-formed: their strings are UTF-8, their integers fit the library's types,
  their floating point numbers are finite and the keys of their objects are in order. Unless it
  holds a floating point number such a value can be written, compactly or with an indentation of at most 1024
  columns, where the string of spaces of the serialiser never ends before a prefix does, and what is
  written is read as the same value.
\<close>

theorem parsed_json_wf:
  assumes "parse_text sd t = Inr v" "n \<le> 1024"
  shows "json_utf8 v \<and> json_wf v \<and> (float_free v \<longrightarrow> (\<exists>t'. dump bey tc n v = Inr t' \<and> parse_text sd t' = Inr v))"
proof -
  have utf8: "json_utf8 v" using assms(1) by (rule parse_text_utf8)
  obtain u where "json_value sd u v" using assms(1) by (auto simp: parse_text_grammar json_text_def)
  then have wf: "json_wf v" by (rule grammar_wf)
  have "\<exists>t'. dump bey tc n v = Inr t' \<and> parse_text sd t' = Inr v" if "float_free v"
  proof -
    obtain t' where t': "dump bey tc n v = Inr t'" using dump_utf8 [OF assms(2), of v bey tc] utf8 by (auto simp: written_def)
    have "parse_text sd ([] @ t' @ []) = Inr v"
      by (rule dump_parse_text [OF json_wf_exact [OF wf that] assms(2) t']) (simp_all add: text_end_def)
    with t' show ?thesis by simp
  qed
  with utf8 wf show ?thesis by blast
qed

theorem parsed_json_wf_witness:
  "\<exists>t t'. parse_text (\<lambda>_. 0) t = Inr (JObj [(cstr ''a'', JInt 7), (cstr ''b'', JArr [JNull])])
     \<and> json_wf (JObj [(cstr ''a'', JInt 7), (cstr ''b'', JArr [JNull])])
     \<and> dump (\<lambda>_ _. []) (\<lambda>_. []) 1024 (JObj [(cstr ''a'', JInt 7), (cstr ''b'', JArr [JNull])]) = Inr t'
     \<and> parse_text (\<lambda>_. 0) t' = Inr (JObj [(cstr ''a'', JInt 7), (cstr ''b'', JArr [JNull])])"
proof -
  let ?v = "JObj [(cstr ''a'', JInt 7), (cstr ''b'', JArr [JNull])]"
  have v: "json_exact ?v" "json_utf8 ?v" by (simp_all add: cstr_def)
  then obtain t where t: "dump (\<lambda>_ _. []) (\<lambda>_. []) 0 ?v = Inr t"
    using dump_utf8 [of 0 ?v "\<lambda>_ _. []" "\<lambda>_. []"] by (auto simp: written_def)
  have "parse_text (\<lambda>_. 0) ([] @ t @ []) = Inr ?v"
    by (rule dump_parse_text [OF v(1) _ t]) (simp_all add: text_end_def)
  moreover from this have "json_utf8 ?v \<and> json_wf ?v
      \<and> (float_free ?v \<longrightarrow> (\<exists>t'. dump (\<lambda>_ _. []) (\<lambda>_. []) 1024 ?v = Inr t' \<and> parse_text (\<lambda>_. 0) t' = Inr ?v))"
    by (intro parsed_json_wf) simp_all
  ultimately show ?thesis by auto
qed

text \<open>
  C21. The library of the sources is one that the programs may rely on: in the three layouts that the
  programs use (compact, and indented by one or two columns) text is written exactly for
  values whose strings are UTF-8, and written values are read back; what is read is UTF-8, and there
  is nothing to read in an empty text. This holds for any conversion of floating point numbers.
\<close>

theorem json_contract: "json_lib_ok (nlohmann E)"
  by (rule nlohmann_ok)

end
