(* ===== verification/Endian.thy ===== *)
theory Endian
  imports Nostr_Prelude
begin

text \<open>
  Byte order: \<open>src/src/nostril/endian.h\<close>. The repository's \<open>config.h\<close> sets
  \<open>HAVE_LITTLE_ENDIAN 1\<close>, \<open>HAVE_BIG_ENDIAN 0\<close>, \<open>HAVE_BYTESWAP_H 0\<close> and
  \<open>HAVE_BSWAP_64 0\<close>, so the macros of the little-endian branch and the portable
  \<open>bswap_*\<close> functions are the ones compiled; the big-endian branch of every conversion
  is the value of a second parameter-free variant and is not compiled.
  The memory image of an integer on that machine is \<open>le_image\<close>, and the theorems say
  what the conversions are for: the memory image of \<open>cpu_to_be32 v\<close> is the big-endian
  encoding of \<open>v\<close>, and every conversion undoes its counterpart.
\<close>

section \<open>Byte swapping\<close>

definition BSWAP_16 :: "u16 \<Rightarrow> u16" where
  "BSWAP_16 val = push_bit 8 (val AND 0x00ff) OR drop_bit 8 (val AND 0xff00)"

definition BSWAP_32 :: "u32 \<Rightarrow> u32" where
  "BSWAP_32 val = push_bit 24 (val AND 0x000000ff) OR push_bit 8 (val AND 0x0000ff00)
     OR drop_bit 8 (val AND 0x00ff0000) OR drop_bit 24 (val AND 0xff000000)"

definition BSWAP_64 :: "u64 \<Rightarrow> u64" where
  "BSWAP_64 val = push_bit 56 (val AND 0x00000000000000ff)
     OR push_bit 40 (val AND 0x000000000000ff00)
     OR push_bit 24 (val AND 0x0000000000ff0000)
     OR push_bit 8 (val AND 0x00000000ff000000)
     OR drop_bit 8 (val AND 0x000000ff00000000)
     OR drop_bit 24 (val AND 0x0000ff0000000000)
     OR drop_bit 40 (val AND 0x00ff000000000000)
     OR drop_bit 56 (val AND 0xff00000000000000)"

definition bswap_16 :: "u16 \<Rightarrow> u16" where
  "bswap_16 val = BSWAP_16 val"

definition bswap_32 :: "u32 \<Rightarrow> u32" where
  "bswap_32 val = BSWAP_32 val"

definition bswap_64 :: "u64 \<Rightarrow> u64" where
  "bswap_64 val = BSWAP_64 val"

section \<open>Conversions\<close>

definition cpu_to_le64 :: "u64 \<Rightarrow> u64" where
  "cpu_to_le64 native = native"

definition cpu_to_le32 :: "u32 \<Rightarrow> u32" where
  "cpu_to_le32 native = native"

definition cpu_to_le16 :: "u16 \<Rightarrow> u16" where
  "cpu_to_le16 native = native"

definition le64_to_cpu :: "u64 \<Rightarrow> u64" where
  "le64_to_cpu le_val = le_val"

definition le32_to_cpu :: "u32 \<Rightarrow> u32" where
  "le32_to_cpu le_val = le_val"

definition le16_to_cpu :: "u16 \<Rightarrow> u16" where
  "le16_to_cpu le_val = le_val"

definition cpu_to_be64 :: "u64 \<Rightarrow> u64" where
  "cpu_to_be64 native = BSWAP_64 native"

definition cpu_to_be32 :: "u32 \<Rightarrow> u32" where
  "cpu_to_be32 native = BSWAP_32 native"

definition cpu_to_be16 :: "u16 \<Rightarrow> u16" where
  "cpu_to_be16 native = BSWAP_16 native"

definition be64_to_cpu :: "u64 \<Rightarrow> u64" where
  "be64_to_cpu be_val = BSWAP_64 be_val"

definition be32_to_cpu :: "u32 \<Rightarrow> u32" where
  "be32_to_cpu be_val = BSWAP_32 be_val"

definition be16_to_cpu :: "u16 \<Rightarrow> u16" where
  "be16_to_cpu be_val = BSWAP_16 be_val"

text \<open>
  The bytes of an integer object in memory, lowest address first, on the little-endian
  machine the configuration is for, and the integer such bytes make.
\<close>

definition le_image :: "'a::len word \<Rightarrow> byte list" where
  "le_image w = map (\<lambda>i. ucast (drop_bit (8 * i) w)) [0..<LENGTH('a) div 8]"

fun le_value :: "byte list \<Rightarrow> 'a::len word" where
  "le_value [] = 0"
| "le_value (b # bs) = ucast b OR push_bit 8 (le_value bs)"

text \<open>Big-endian encodings, the reference the conversions are compared with.\<close>

definition be_bytes32 :: "u32 \<Rightarrow> byte list" where
  "be_bytes32 w = [ucast (drop_bit 24 w), ucast (drop_bit 16 w), ucast (drop_bit 8 w), ucast w]"

definition be_bytes64 :: "u64 \<Rightarrow> byte list" where
  "be_bytes64 w = [ucast (drop_bit 56 w), ucast (drop_bit 48 w), ucast (drop_bit 40 w),
     ucast (drop_bit 32 w), ucast (drop_bit 24 w), ucast (drop_bit 16 w),
     ucast (drop_bit 8 w), ucast w]"

definition be_word32 :: "byte \<Rightarrow> byte \<Rightarrow> byte \<Rightarrow> byte \<Rightarrow> u32" where
  "be_word32 b0 b1 b2 b3 =
     push_bit 24 (ucast b0) OR push_bit 16 (ucast b1) OR push_bit 8 (ucast b2) OR ucast b3"

lemmas endian_defs = BSWAP_16_def BSWAP_32_def BSWAP_64_def bswap_16_def bswap_32_def
  bswap_64_def cpu_to_le64_def cpu_to_le32_def cpu_to_le16_def le64_to_cpu_def
  le32_to_cpu_def le16_to_cpu_def cpu_to_be64_def cpu_to_be32_def cpu_to_be16_def
  be64_to_cpu_def be32_to_cpu_def be16_to_cpu_def

section \<open>The conversions are inverse to each other\<close>

lemma BSWAP_16_BSWAP_16 [simp]: "BSWAP_16 (BSWAP_16 x) = x"
  by (rule word_eq_upt) (simp add: BSWAP_16_def bit_simps upt_explicit)

lemma BSWAP_32_BSWAP_32 [simp]: "BSWAP_32 (BSWAP_32 x) = x"
  by (rule word_eq_upt) (simp add: BSWAP_32_def bit_simps upt_explicit)

lemma BSWAP_64_BSWAP_64 [simp]: "BSWAP_64 (BSWAP_64 x) = x"
  by (rule word_eq_upt) (simp add: BSWAP_64_def bit_simps upt_explicit)

text \<open>
  What a user of a pair of conversions relies on: the value survives the way to the other
  representation and back, whichever end it starts from.
\<close>

locale conversion =
  fixes to_wire :: "'a::len word \<Rightarrow> 'a word"
    and of_wire :: "'a word \<Rightarrow> 'a word"
  assumes of_to: "of_wire (to_wire x) = x"
    and to_of: "to_wire (of_wire x) = x"
begin

lemma bij_to_wire: "bij to_wire"
  by (rule bij_betw_byWitness [where f' = of_wire]) (auto simp: of_to to_of)

lemma to_wire_eq_iff: "to_wire x = to_wire y \<longleftrightarrow> x = y"
  using bij_to_wire by (auto simp: bij_def inj_eq)

end

interpretation le64: conversion cpu_to_le64 le64_to_cpu
  by unfold_locales (simp_all add: cpu_to_le64_def le64_to_cpu_def)

interpretation le32: conversion cpu_to_le32 le32_to_cpu
  by unfold_locales (simp_all add: cpu_to_le32_def le32_to_cpu_def)

interpretation le16: conversion cpu_to_le16 le16_to_cpu
  by unfold_locales (simp_all add: cpu_to_le16_def le16_to_cpu_def)

interpretation be64: conversion cpu_to_be64 be64_to_cpu
  by unfold_locales (simp_all add: cpu_to_be64_def be64_to_cpu_def)

interpretation be32: conversion cpu_to_be32 be32_to_cpu
  by unfold_locales (simp_all add: cpu_to_be32_def be32_to_cpu_def)

interpretation be16: conversion cpu_to_be16 be16_to_cpu
  by unfold_locales (simp_all add: cpu_to_be16_def be16_to_cpu_def)

section \<open>Memory images\<close>

lemma length_le_image: "length (le_image (w :: 'a::len word)) = LENGTH('a) div 8"
  by (simp add: le_image_def)

lemma le_value_le_image_32 [simp]: "le_value (le_image v) = (v :: u32)"
  unfolding le_image_def
  by (simp add: upt_explicit, rule word_eq_upt, simp add: bit_simps upt_explicit)

lemma le_image_cpu_to_be32: "le_image (cpu_to_be32 v) = be_bytes32 v"
  by (simp add: le_image_def upt_explicit be_bytes32_def cpu_to_be32_def BSWAP_32_def,
      intro conjI; rule word_eq_upt; simp add: bit_simps upt_explicit)

lemma le_image_cpu_to_be64: "le_image (cpu_to_be64 v) = be_bytes64 v"
  by (simp add: le_image_def upt_explicit be_bytes64_def cpu_to_be64_def BSWAP_64_def,
      intro conjI; rule word_eq_upt; simp add: bit_simps upt_explicit)

text \<open>
  A 32-bit word loaded from four bytes and converted from big-endian is the big-endian
  value of those bytes: the load of a SHA-256 message word.
\<close>

lemma be32_to_cpu_le_value:
  "be32_to_cpu (le_value [b0, b1, b2, b3]) = be_word32 b0 b1 b2 b3"
  by (rule word_eq_upt)
    (simp add: be32_to_cpu_def BSWAP_32_def be_word32_def bit_simps upt_explicit word_eval)

text \<open>
  On the little-endian configuration the bytes that a big-endian conversion leaves in
  memory are the big-endian encoding of the value (most significant byte first), for the
  two widths the hash code stores.
\<close>

theorem cpu_to_be_memory_image:
  "le_image (cpu_to_be32 v) = be_bytes32 v \<and> le_image (cpu_to_be64 w) = be_bytes64 w"
  by (simp add: le_image_cpu_to_be32 le_image_cpu_to_be64)

text \<open>
  Every pair of conversions of endian.h is a bijection and its inverse: for the three
  widths and both byte orders, converting and converting back gives the value.
\<close>

theorem endian_round_trips:
  "le64_to_cpu (cpu_to_le64 a) = a \<and> le32_to_cpu (cpu_to_le32 b) = b
   \<and> le16_to_cpu (cpu_to_le16 c) = c \<and> be64_to_cpu (cpu_to_be64 a) = a
   \<and> be32_to_cpu (cpu_to_be32 b) = b \<and> be16_to_cpu (cpu_to_be16 c) = c
   \<and> bij cpu_to_be64 \<and> bij cpu_to_be32 \<and> bij cpu_to_be16"
  by (simp add: le64.of_to le32.of_to le16.of_to be64.of_to be32.of_to be16.of_to
      be64.bij_to_wire be32.bij_to_wire be16.bij_to_wire)

end
