(* ===== verification/Proof_Bits.thy ===== *)
theory Proof_Bits
  imports Nostr_Prelude
begin

text \<open>
  The proof-of-work measure: \<open>src/src/nostril/proof.h\<close>. The theorem relates the loops to
  what NIP-13 calls the difficulty: a hash of 32 bytes has at least \<open>d\<close> leading zero bits
  exactly when its big-endian value is below \<open>2 ^ (256 - d)\<close>.
\<close>

section \<open>Definitions\<close>

lemma drop_bit_1_less:
  "drop_bit (Suc 0) (b :: byte) \<noteq> 0 \<Longrightarrow> unat (drop_bit (Suc 0) b) < unat b"
  by (auto simp: unat_drop_bit_eq drop_bit_nat_def word_unat_eq_iff)

text \<open>The loop \<open>while (b >>= 1) n++\<close>.\<close>

function zero_bits_loop :: "byte \<Rightarrow> nat \<Rightarrow> nat" where
  "zero_bits_loop b n =
     (let b' = drop_bit 1 b in if b' = 0 then n else zero_bits_loop b' (n + 1))"
  by pat_completeness auto

termination
  by (relation "measure (\<lambda>(b, n). unat b)") (simp_all add: drop_bit_1_less)

declare zero_bits_loop.simps [simp del]

definition zero_bits :: "byte \<Rightarrow> nat" where
  "zero_bits b = (if b = 0 then 8 else 7 - zero_bits_loop b 0)"

function count_loop :: "byte list \<Rightarrow> nat \<Rightarrow> nat \<Rightarrow> nat" where
  "count_loop hash i acc =
     (if i < 32
      then let bits = zero_bits (hash ! i)
           in if bits \<noteq> 8 then acc + bits else count_loop hash (i + 1) (acc + bits)
      else acc)"
  by pat_completeness auto
termination
  by (relation "measure (\<lambda>(hash, i, acc). 32 - i)") auto

declare count_loop.simps [simp del]

definition count_leading_zero_bits :: "byte list \<Rightarrow> nat" where
  "count_leading_zero_bits hash = count_loop hash 0 0"

text \<open>The number a hash stands for, most significant byte first.\<close>

fun be_value :: "byte list \<Rightarrow> nat" where
  "be_value [] = 0"
| "be_value (b # bs) = unat b * 256 ^ length bs + be_value bs"

section \<open>One byte\<close>

lemma zero_bits_loop_log:
  "b \<noteq> 0 \<Longrightarrow> \<exists>m. zero_bits_loop b n = n + m \<and> 2 ^ m \<le> unat b \<and> unat b < 2 ^ (m + 1)"
proof (induction b n rule: zero_bits_loop.induct)
  case (1 b n)
  have half: "unat (drop_bit 1 b) = unat b div 2"
    by (simp add: unat_drop_bit_eq drop_bit_nat_def)
  show ?case
  proof (cases "drop_bit 1 b = 0")
    case True
    then have "unat b div 2 = 0" using half by simp
    moreover have "0 < unat b" using "1.prems" by (simp add: unat_gt_0)
    ultimately show ?thesis using True
      by (intro exI [of _ 0]) (simp add: zero_bits_loop.simps [of b n])
  next
    case False
    then obtain m where m: "zero_bits_loop (drop_bit 1 b) (n + 1) = n + 1 + m"
        "2 ^ m \<le> unat b div 2" "unat b div 2 < 2 ^ (m + 1)"
      using "1.IH" [OF refl False False] half by auto
    then show ?thesis using False
      by (intro exI [of _ "m + 1"]) (auto simp: zero_bits_loop.simps [of b n] Let_def)
  qed
qed

lemma zero_bits_ge_iff: "k \<le> 8 \<Longrightarrow> k \<le> zero_bits b \<longleftrightarrow> unat b < 2 ^ (8 - k)"
proof (cases "b = 0")
  case False
  obtain m where m: "zero_bits_loop b 0 = m" "2 ^ m \<le> unat b" "unat b < 2 ^ (m + 1)"
    using zero_bits_loop_log [OF False, of 0] by auto
  have "(2::nat) ^ m < 2 ^ 8" using m(2) unat_byte_less [of b] by simp
  then have "m < 8" by (rule power_less_imp_less_exp [rotated]) simp
  have below: "unat b < 2 ^ j \<longleftrightarrow> m < j" for j
  proof
    assume "unat b < 2 ^ j"
    with m(2) have "(2::nat) ^ m < 2 ^ j" by linarith
    then show "m < j" by simp
  next
    assume "m < j"
    then have "(2::nat) ^ (m + 1) \<le> 2 ^ j" by (intro power_increasing) auto
    with m(3) show "unat b < 2 ^ j" by linarith
  qed
  assume "k \<le> 8"
  with \<open>m < 8\<close> have "k \<le> 7 - m \<longleftrightarrow> m < 8 - k" by linarith
  then show ?thesis using False m(1) below [of "8 - k"] by (simp add: zero_bits_def)
qed (simp add: zero_bits_def)

lemma zero_bits_le_8: "zero_bits b \<le> 8"
  unfolding zero_bits_def by (split if_split) linarith

lemma zero_bits_8_iff: "zero_bits b = 8 \<longleftrightarrow> b = 0"
  using zero_bits_ge_iff [of 8 b] zero_bits_le_8 [of b] by (auto simp: unat_eq_zero)

section \<open>A hash\<close>

text \<open>The loop as a recursion over the bytes that are left.\<close>

fun leading_zeros :: "byte list \<Rightarrow> nat" where
  "leading_zeros [] = 0"
| "leading_zeros (b # bs) = (if b = 0 then 8 + leading_zeros bs else zero_bits b)"

lemma count_loop_leading_zeros:
  "length hash = 32 \<Longrightarrow> count_loop hash i acc = acc + leading_zeros (drop i hash)"
proof (induction hash i acc rule: count_loop.induct)
  case (1 hash i acc)
  show ?case
  proof (cases "i < 32")
    case True
    then have "drop i hash = hash ! i # drop (i + 1) hash"
      using "1.prems" by (simp add: Cons_nth_drop_Suc)
    moreover have "zero_bits (hash ! i) = 8 \<longleftrightarrow> hash ! i = 0" by (rule zero_bits_8_iff)
    ultimately show ?thesis
      using True "1.IH" [OF True refl] "1.prems" by (auto simp: count_loop.simps [of hash i] Let_def)
  next
    case False
    then show ?thesis using "1.prems" by (simp add: count_loop.simps [of hash i])
  qed
qed

lemma be_value_bound: "be_value bs < 256 ^ length bs"
proof (induction bs)
  case (Cons b bs)
  have "be_value (b # bs) < unat b * 256 ^ length bs + 256 ^ length bs" using Cons by simp
  also have "\<dots> = (unat b + 1) * 256 ^ length bs" by simp
  also have "\<dots> \<le> 256 * 256 ^ length bs"
    using unat_byte_less [of b] by (intro mult_le_mono1) simp
  finally show ?case by simp
qed simp

lemma leading_zeros_ge_iff:
  "d \<le> 8 * length bs \<Longrightarrow> d \<le> leading_zeros bs \<longleftrightarrow> be_value bs < 2 ^ (8 * length bs - d)"
proof (induction bs arbitrary: d)
  case (Cons b bs)
  let ?n = "length bs"
  have p: "(256::nat) ^ ?n = 2 ^ (8 * ?n)" by (simp add: power_mult)
  have low: "be_value bs < 2 ^ (8 * ?n)" using be_value_bound [of bs] p by simp
  show ?case
  proof (cases "d \<le> 8")
    case True
    then have split: "(2::nat) ^ (8 * length (b # bs) - d) = 2 ^ (8 - d) * 2 ^ (8 * ?n)"
      by (simp flip: power_add)
    have "unat b * 2 ^ (8 * ?n) + be_value bs < 2 ^ (8 - d) * 2 ^ (8 * ?n) \<longleftrightarrow> unat b < 2 ^ (8 - d)"
    proof
      assume "unat b < 2 ^ (8 - d)"
      then have "(unat b + 1) * 2 ^ (8 * ?n) \<le> 2 ^ (8 - d) * (2::nat) ^ (8 * ?n)"
        by (intro mult_le_mono1) simp
      with low show "unat b * 2 ^ (8 * ?n) + be_value bs < 2 ^ (8 - d) * 2 ^ (8 * ?n)" by simp
    next
      assume "unat b * 2 ^ (8 * ?n) + be_value bs < 2 ^ (8 - d) * 2 ^ (8 * ?n)"
      then have "unat b * 2 ^ (8 * ?n) < 2 ^ (8 - d) * (2::nat) ^ (8 * ?n)" by linarith
      then show "unat b < 2 ^ (8 - d)" by simp
    qed
    then show ?thesis
      using True split p zero_bits_ge_iff [OF True, of b] by auto
  next
    case False
    have "d \<le> leading_zeros (b # bs) \<longleftrightarrow> b = 0 \<and> d - 8 \<le> leading_zeros bs"
      using False zero_bits_le_8 [of b] by auto
    also have "\<dots> \<longleftrightarrow> b = 0 \<and> be_value bs < 2 ^ (8 * ?n - (d - 8))"
      using Cons.IH [of "d - 8"] Cons.prems by auto
    also have "\<dots> \<longleftrightarrow> be_value (b # bs) < 2 ^ (8 * length (b # bs) - d)"
    proof (cases "b = 0")
      case False
      then have "1 \<le> unat b" by (simp add: Suc_le_eq unat_gt_0)
      then have "2 ^ (8 * ?n) \<le> unat b * 2 ^ (8 * ?n)" by simp
      moreover have "(2::nat) ^ (8 * length (b # bs) - d) \<le> 2 ^ (8 * ?n)"
        using \<open>\<not> d \<le> 8\<close> by (intro power_increasing) auto
      ultimately have "2 ^ (8 * length (b # bs) - d) \<le> be_value (b # bs)"
        unfolding be_value.simps p by linarith
      then show ?thesis using False by (simp only: not_less simp_thms)
    qed (use \<open>\<not> d \<le> 8\<close> in \<open>simp add: add.commute\<close>)
    finally show ?thesis .
  qed
qed simp

lemma be_value_zeros: "be_value (replicate n 0) = 0"
  by (induction n) auto

section \<open>Properties\<close>

text \<open>
  The leading zero count decides the difficulty: for every \<open>d\<close> up to 256 the count of
  a 32-byte hash is at least \<open>d\<close> exactly when the hash, read as a big-endian number, is
  smaller than \<open>2 ^ (256 - d)\<close>.
\<close>

theorem count_leading_zero_bits_difficulty:
  assumes "length hash = 32" and "d \<le> 256"
  shows "d \<le> count_leading_zero_bits hash \<longleftrightarrow> be_value hash < 2 ^ (256 - d)"
  using assms leading_zeros_ge_iff [of d hash]
  by (simp add: count_leading_zero_bits_def count_loop_leading_zeros)

theorem count_leading_zero_bits_difficulty_witness:
  "11 \<le> count_leading_zero_bits (0 # 0x1f # replicate 30 0)
   \<and> \<not> 12 \<le> count_leading_zero_bits (0 # 0x1f # replicate 30 0)"
  using count_leading_zero_bits_difficulty [of "0 # 0x1f # replicate 30 0" 11]
    count_leading_zero_bits_difficulty [of "0 # 0x1f # replicate 30 0" 12]
  by (simp add: be_value_zeros)

end
