(* ===== verification/Cursor.thy ===== *)
theory Cursor
  imports Nostr_Prelude Endian Hex
begin

text \<open>
  The bounded buffer cursor: \<open>src/src/nostril/cursor.h\<close>. The three pointers of
  \<open>struct cursor\<close> are addresses, and an operation that dereferences takes the memory and
  returns it; an \<open>int\<close> result used as a truth value is a \<open>bool\<close>, a returned pointer
  that may be \<open>NULL\<close> an option. A pointer with a length, as \<open>memcpy\<close> and the pushes
  take it, is the list of the bytes there. The lengths of the pushes are \<open>int\<close> in the code: the
  definitions are exact for data of less than 2^31 bytes and do not cut longer lengths to 32 bits. The guards keep the sources' comparisons, so that
  \<open>cursor_push\<close> refuses to fill the last byte (\<open>>=\<close>) where \<open>cursor_push_byte\<close>
  does not (\<open>>\<close>).

  The second half states what the writers of \<open>nostri.c\<close> rely on as the interface
  \<open>byte_sink\<close> and proves it of these definitions: a write never leaves the buffer, it
  appends on success, and it fails exactly when the room is too small. Inside the interface a
  sequence of pushes is analysed once, for every client.
\<close>

section \<open>Data\<close>

record cursor =
  cur_start :: addr
  cur_p :: addr
  cur_end :: addr

record array =
  arr_cur :: cursor
  elem_size :: u32

type_synonym cstate = "memory \<times> cursor"

section \<open>Operations\<close>

definition reset_cursor :: "cursor \<Rightarrow> cursor" where
  "reset_cursor cur = cur\<lparr>cur_p := cur_start cur\<rparr>"

definition wipe_cursor :: "cstate \<Rightarrow> cstate" where
  "wipe_cursor s = (case s of (m, cur) \<Rightarrow>
     (mem_write m (cur_start cur) (replicate (nat (cur_end cur - cur_start cur)) 0),
      reset_cursor cur))"

definition make_cursor :: "addr \<Rightarrow> addr \<Rightarrow> cursor" where
  "make_cursor st en = \<lparr>cur_start = st, cur_p = st, cur_end = en\<rparr>"

definition make_array :: "addr \<Rightarrow> addr \<Rightarrow> u32 \<Rightarrow> array" where
  "make_array st en esize = \<lparr>arr_cur = make_cursor st en, elem_size = esize\<rparr>"

definition cursor_eof :: "cursor \<Rightarrow> bool" where
  "cursor_eof c \<longleftrightarrow> cur_p c = cur_end c"

definition cursor_malloc :: "nat \<Rightarrow> cursor \<Rightarrow> addr option \<times> cursor" where
  "cursor_malloc n mem =
     (if cur_p mem + int n > cur_end mem then (None, mem)
      else (Some (cur_p mem), mem\<lparr>cur_p := cur_p mem + int n\<rparr>))"

definition cursor_alloc :: "nat \<Rightarrow> cstate \<Rightarrow> addr option \<times> cstate" where
  "cursor_alloc n s = (case s of (m, mem) \<Rightarrow>
     (case cursor_malloc n mem of
        (None, mem') \<Rightarrow> (None, m, mem')
      | (Some ret, mem') \<Rightarrow> (Some ret, mem_write m ret (replicate n 0), mem')))"

definition cursor_slice :: "nat \<Rightarrow> cursor \<Rightarrow> cstate \<Rightarrow> bool \<times> cursor \<times> cstate" where
  "cursor_slice n sl s =
     (case cursor_alloc n s of
        (None, s') \<Rightarrow> (False, sl, s')
      | (Some p, m', mem') \<Rightarrow> (True, make_cursor p (cur_p mem'), m', mem'))"

definition copy_cursor :: "cursor \<Rightarrow> cursor" where
  "copy_cursor src = \<lparr>cur_start = cur_start src, cur_p = cur_p src, cur_end = cur_end src\<rparr>"

definition pull_byte :: "cstate \<Rightarrow> byte option \<times> cursor" where
  "pull_byte s = (case s of (m, cur) \<Rightarrow>
     (if cur_p cur + 1 > cur_end cur then (None, cur)
      else (Some (m (cur_p cur)), cur\<lparr>cur_p := cur_p cur + 1\<rparr>)))"

text \<open>
  \<open>cursor_pull_c_str\<close> stores the start of the string in \<open>*str\<close> before the loop, also
  when it then fails; the loop moves the cursor up to the first NUL and past it.
\<close>

function pull_c_str_loop :: "memory \<Rightarrow> cursor \<Rightarrow> bool \<times> cursor" where
  "pull_c_str_loop m cur =
     (if cur_p cur < cur_end cur
      then if m (cur_p cur) = 0 then (True, cur\<lparr>cur_p := cur_p cur + 1\<rparr>)
           else pull_c_str_loop m (cur\<lparr>cur_p := cur_p cur + 1\<rparr>)
      else (False, cur))"
  by pat_completeness auto
termination
  by (relation "measure (\<lambda>(m, cur). nat (cur_end cur - cur_p cur))") auto

declare pull_c_str_loop.simps [simp del]

definition cursor_pull_c_str :: "cstate \<Rightarrow> bool \<times> addr \<times> cursor" where
  "cursor_pull_c_str s = (case s of (m, cur) \<Rightarrow>
     (case pull_c_str_loop m cur of (ok, cur') \<Rightarrow> (ok, cur_p cur, cur')))"

definition cursor_push_byte :: "byte \<Rightarrow> cstate \<Rightarrow> bool \<times> cstate" where
  "cursor_push_byte c s = (case s of (m, cur) \<Rightarrow>
     (if cur_p cur + 1 > cur_end cur then (False, m, cur)
      else (True, m(cur_p cur := c), cur\<lparr>cur_p := cur_p cur + 1\<rparr>)))"

text \<open>\<open>cursor_pull\<close>, with the bytes copied to \<open>data\<close> as its result.\<close>

definition cursor_pull :: "nat \<Rightarrow> cstate \<Rightarrow> byte list option \<times> cursor" where
  "cursor_pull len s = (case s of (m, cur) \<Rightarrow>
     (if cur_p cur + int len > cur_end cur then (None, cur)
      else (Some (mem_read m (cur_p cur) len), cur\<lparr>cur_p := cur_p cur + int len\<rparr>)))"

definition pull_data_into_cursor ::
  "nat \<Rightarrow> memory \<Rightarrow> cursor \<Rightarrow> cursor \<Rightarrow> addr option \<times> memory \<times> cursor \<times> cursor" where
  "pull_data_into_cursor len m cur dest =
     (if cur_p dest + int len > cur_end dest then (None, m, cur, dest)
      else case cursor_pull len (m, cur) of
             (None, cur') \<Rightarrow> (None, m, cur', dest)
           | (Some bs, cur') \<Rightarrow>
               (Some (cur_p dest), mem_write m (cur_p dest) bs, cur',
                dest\<lparr>cur_p := cur_p dest + int len\<rparr>))"

definition cursor_dropn :: "int \<Rightarrow> int \<Rightarrow> cursor \<Rightarrow> bool \<times> cursor" where
  "cursor_dropn sz n cur =
     (if n = 0 then (True, cur)
      else if cur_p cur - sz * n < cur_start cur then (False, cur)
      else (True, cur\<lparr>cur_p := cur_p cur - sz * n\<rparr>))"

definition cursor_drop :: "int \<Rightarrow> cursor \<Rightarrow> bool \<times> cursor" where
  "cursor_drop sz cur = cursor_dropn sz 1 cur"

definition cursor_topn :: "int \<Rightarrow> int \<Rightarrow> cursor \<Rightarrow> addr option" where
  "cursor_topn len n cur =
     (let n = n + 1
      in if cur_p cur - len * n < cur_start cur then None else Some (cur_p cur - len * n))"

definition cursor_top :: "int \<Rightarrow> cursor \<Rightarrow> addr option" where
  "cursor_top len cur =
     (if cur_p cur - len < cur_start cur then None else Some (cur_p cur - len))"

definition cursor_top_int :: "cstate \<Rightarrow> u32 option" where
  "cursor_top_int s = (case s of (m, cur) \<Rightarrow>
     (case cursor_top 4 cur of None \<Rightarrow> None | Some p \<Rightarrow> Some (le_value (mem_read m p 4))))"

definition cursor_pop :: "nat \<Rightarrow> cstate \<Rightarrow> byte list option \<times> cursor" where
  "cursor_pop len s = (case s of (m, cur) \<Rightarrow>
     (if cur_p cur - int len < cur_start cur then (None, cur)
      else (Some (mem_read m (cur_p cur - int len) len), cur\<lparr>cur_p := cur_p cur - int len\<rparr>)))"

definition cursor_push :: "byte list \<Rightarrow> cstate \<Rightarrow> bool \<times> cstate" where
  "cursor_push data s = (case s of (m, cur) \<Rightarrow>
     (if cur_p cur + int (length data) \<ge> cur_end cur then (False, m, cur)
      else (True, mem_write m (cur_p cur) data,
            cur\<lparr>cur_p := cur_p cur + int (length data)\<rparr>)))"

definition cursor_push_int :: "u32 \<Rightarrow> cstate \<Rightarrow> bool \<times> cstate" where
  "cursor_push_int i = cursor_push (le_image i)"

definition cursor_len :: "cursor \<Rightarrow> int" where
  "cursor_len cur = cur_p cur - cur_start cur"

definition cursor_count :: "nat \<Rightarrow> cursor \<Rightarrow> nat" where
  "cursor_count esize cur = nat (cursor_len cur) div esize"

definition cursor_pull_int :: "cstate \<Rightarrow> u32 option \<times> cursor" where
  "cursor_pull_int s = apfst (map_option le_value) (cursor_pull 4 s)"

definition cursor_push_u16 :: "u16 \<Rightarrow> cstate \<Rightarrow> bool \<times> cstate" where
  "cursor_push_u16 i = cursor_push (le_image i)"

text \<open>The index computation is unsigned: \<open>elem_size * index\<close> wraps at \<open>2 ^ 32\<close>.\<close>

definition index_cursor :: "u32 \<Rightarrow> int \<Rightarrow> cursor \<Rightarrow> addr option" where
  "index_cursor index esize cur =
     (let p = cur_start cur + int (unat (word_of_int esize * index))
      in if p \<ge> cur_end cur then None else Some p)"

definition push_sized_str :: "byte list \<Rightarrow> nat \<Rightarrow> cstate \<Rightarrow> bool \<times> cstate" where
  "push_sized_str str len = cursor_push (take len str)"

definition cursor_push_str :: "byte list \<Rightarrow> cstate \<Rightarrow> bool \<times> cstate" where
  "cursor_push_str str = cursor_push (c_str str)"

text \<open>\<open>a && b\<close> and \<open>if (!a) return 0; b\<close> on operations that change the state.\<close>

definition and_then :: "('s \<Rightarrow> bool \<times> 's) \<Rightarrow> ('s \<Rightarrow> bool \<times> 's) \<Rightarrow> 's \<Rightarrow> bool \<times> 's" where
  "and_then f g s = (case f s of (ok, s') \<Rightarrow> if ok then g s' else (False, s'))"

definition cursor_push_c_str :: "byte list \<Rightarrow> cstate \<Rightarrow> bool \<times> cstate" where
  "cursor_push_c_str str = and_then (cursor_push_str str) (cursor_push_byte 0)"

definition cursor_remaining_capacity :: "cursor \<Rightarrow> int" where
  "cursor_remaining_capacity cur = cur_end cur - cur_p cur"

text \<open>
  \<open>cursor_print_around\<close> prints to standard output; its result is the text. The two loops
  share their head and differ in what they print for an address.
\<close>

function around_loop :: "(addr \<Rightarrow> byte list) \<Rightarrow> addr \<Rightarrow> int \<Rightarrow> cursor \<Rightarrow> byte list" where
  "around_loop pr c rng cur =
     (if c < cur_end cur \<and> c < cur_p cur + rng
      then pr c @ around_loop pr (c + 1) rng cur else [])"
  by pat_completeness auto
termination
  by (relation "measure (\<lambda>(pr, c, rng, cur). nat (cur_end cur - c))") auto

declare around_loop.simps [simp del]

definition cursor_print_around :: "int \<Rightarrow> cstate \<Rightarrow> byte list" where
  "cursor_print_around rng s = (case s of (m, cur) \<Rightarrow>
     (let c = max (cur_p cur - rng) (cur_start cur)
      in cstr ''['' @ dec_int (cur_p cur - cur_start cur) @ cstr ''/''
           @ dec_int (cur_end cur - cur_start cur) @ cstr '']'' @ [0x0a]
         @ around_loop (\<lambda>c. hex_text [m c]) c rng cur @ [0x0a]
         @ around_loop (\<lambda>c. if c = cur_p cur then cstr ''^'' else cstr ''  '') c rng cur
         @ [0x0a]))"

section \<open>The interface of a bounded byte writer\<close>

text \<open>
  \<open>frame s s'\<close> says that nothing outside the buffer differs between the two states. The two
  operations differ in the room they ask for, as the sources' guards do.
\<close>

locale byte_sink =
  fixes invar :: "'s \<Rightarrow> bool"
    and contents :: "'s \<Rightarrow> byte list"
    and room :: "'s \<Rightarrow> nat"
    and frame :: "'s \<Rightarrow> 's \<Rightarrow> bool"
    and push_byte :: "byte \<Rightarrow> 's \<Rightarrow> bool \<times> 's"
    and push_bytes :: "byte list \<Rightarrow> 's \<Rightarrow> bool \<times> 's"
  assumes push_byte_ok: "invar s \<Longrightarrow> 1 \<le> room s \<Longrightarrow>
      \<exists>s'. push_byte b s = (True, s') \<and> invar s' \<and> frame s s'
         \<and> contents s' = contents s @ [b] \<and> room s' + 1 = room s"
    and push_byte_full: "invar s \<Longrightarrow> room s < 1 \<Longrightarrow> push_byte b s = (False, s)"
    and push_bytes_ok: "invar s \<Longrightarrow> length bs + 1 \<le> room s \<Longrightarrow>
      \<exists>s'. push_bytes bs s = (True, s') \<and> invar s' \<and> frame s s'
         \<and> contents s' = contents s @ bs \<and> room s' + length bs = room s"
    and push_bytes_full: "invar s \<Longrightarrow> room s < length bs + 1 \<Longrightarrow> push_bytes bs s = (False, s)"
    and frame_refl: "frame s s"
    and frame_trans: "frame s t \<Longrightarrow> frame t u \<Longrightarrow> frame s u"
begin

text \<open>
  \<open>emits f w n\<close>: the operation succeeds exactly with room \<open>n\<close>, then it has appended
  \<open>w\<close>; whether or not it succeeds the invariant and the frame hold.
\<close>

definition emits :: "('s \<Rightarrow> bool \<times> 's) \<Rightarrow> byte list \<Rightarrow> nat \<Rightarrow> bool" where
  "emits f w n \<longleftrightarrow> length w \<le> n \<and> (\<forall>s. invar s \<longrightarrow>
     (\<exists>ok s'. f s = (ok, s') \<and> invar s' \<and> frame s s' \<and> (ok \<longleftrightarrow> n \<le> room s)
        \<and> (ok \<longrightarrow> contents s' = contents s @ w \<and> room s' + length w = room s)))"

lemma emits_byte: "emits (push_byte b) [b] 1"
  unfolding emits_def
proof (intro conjI allI impI)
  fix s assume s: "invar s"
  show "\<exists>ok s'. push_byte b s = (ok, s') \<and> invar s' \<and> frame s s' \<and> (ok \<longleftrightarrow> 1 \<le> room s)
        \<and> (ok \<longrightarrow> contents s' = contents s @ [b] \<and> room s' + length [b] = room s)"
  proof (cases "1 \<le> room s")
    case True
    then show ?thesis using push_byte_ok [OF s True, of b] by auto
  next
    case False
    then show ?thesis using push_byte_full [OF s, of b] s by (auto intro: frame_refl)
  qed
qed simp

lemma emits_bytes: "emits (push_bytes bs) bs (length bs + 1)"
  unfolding emits_def
proof (intro conjI allI impI)
  fix s assume s: "invar s"
  show "\<exists>ok s'. push_bytes bs s = (ok, s') \<and> invar s' \<and> frame s s' \<and> (ok \<longleftrightarrow> length bs + 1 \<le> room s)
        \<and> (ok \<longrightarrow> contents s' = contents s @ bs \<and> room s' + length bs = room s)"
  proof (cases "length bs + 1 \<le> room s")
    case True
    then show ?thesis using push_bytes_ok [OF s True] by auto
  next
    case False
    then show ?thesis using push_bytes_full [OF s, of bs] s by (auto intro: frame_refl)
  qed
qed simp

lemma emits_skip: "emits (\<lambda>s. (True, s)) [] 0"
  by (auto simp: emits_def intro: frame_refl)

lemma emits_cong: "emits f w n \<Longrightarrow> w = w' \<Longrightarrow> n = n' \<Longrightarrow> emits f w' n'"
  by simp

lemma emits_and_then:
  assumes f: "emits f w1 n1" and g: "emits g w2 n2"
  shows "emits (and_then f g) (w1 @ w2) (max n1 (length w1 + n2))"
  unfolding emits_def
proof (intro conjI allI impI)
  show "length (w1 @ w2) \<le> max n1 (length w1 + n2)"
    using g by (auto simp: emits_def max_def)
next
  fix s assume s: "invar s"
  from f s obtain ok1 t where t: "f s = (ok1, t)" "invar t" "frame s t" "ok1 \<longleftrightarrow> n1 \<le> room s"
      "ok1 \<longrightarrow> contents t = contents s @ w1 \<and> room t + length w1 = room s"
    by (auto simp: emits_def)
  from g t(2) obtain ok2 u where u: "g t = (ok2, u)" "invar u" "frame t u" "ok2 \<longleftrightarrow> n2 \<le> room t"
      "ok2 \<longrightarrow> contents u = contents t @ w2 \<and> room u + length w2 = room t"
    by (auto simp: emits_def)
  show "\<exists>ok s'. and_then f g s = (ok, s') \<and> invar s' \<and> frame s s'
      \<and> (ok \<longleftrightarrow> max n1 (length w1 + n2) \<le> room s)
      \<and> (ok \<longrightarrow> contents s' = contents s @ w1 @ w2 \<and> room s' + length (w1 @ w2) = room s)"
  proof (cases ok1)
    case True
    have "frame s u" using t(3) u(3) by (rule frame_trans)
    with True t u show ?thesis by (auto simp: and_then_def)
  next
    case False
    with t show ?thesis by (auto simp: and_then_def)
  qed
qed

text \<open>
  Sequences of pushes are composed with \<open>writes\<close>, which leaves the room open within the one
  byte that the two kinds of push differ by; the last push of a sequence fixes it.
\<close>

definition writes :: "('s \<Rightarrow> bool \<times> 's) \<Rightarrow> byte list \<Rightarrow> bool" where
  "writes f w \<longleftrightarrow> (\<exists>n \<le> length w + 1. emits f w n)"

lemma writes_byte: "writes (push_byte b) [b]"
  unfolding writes_def using emits_byte by (intro exI [of _ 1]) simp

lemma writes_bytes: "writes (push_bytes bs) bs"
  unfolding writes_def using emits_bytes by (intro exI [of _ "length bs + 1"]) simp

lemma writes_skip: "writes (\<lambda>s. (True, s)) []"
  unfolding writes_def using emits_skip by (intro exI [of _ 0]) simp

lemma writes_and_then: "writes f w1 \<Longrightarrow> writes g w2 \<Longrightarrow> writes (and_then f g) (w1 @ w2)"
  unfolding writes_def
proof (elim exE conjE)
  fix n1 n2
  assume "n1 \<le> length w1 + 1" "emits f w1 n1" "n2 \<le> length w2 + 1" "emits g w2 n2"
  then show "\<exists>n \<le> length (w1 @ w2) + 1. emits (and_then f g) (w1 @ w2) n"
    by (intro exI [of _ "max n1 (length w1 + n2)"]) (simp add: emits_and_then)
qed

lemma writes_then_emits:
  assumes "writes f w1" "emits g w2 (length w2 + k)" "1 \<le> length w2 + k"
  shows "emits (and_then f g) (w1 @ w2) (length (w1 @ w2) + k)"
proof -
  obtain n1 where "n1 \<le> length w1 + 1" "emits f w1 n1"
    using assms(1) by (auto simp: writes_def)
  then show ?thesis
    using emits_and_then [OF _ assms(2), of f w1 n1] assms(3) by (simp add: max_def add.assoc)
qed

text \<open>A result of \<open>emits\<close> at a state, as the clients use it.\<close>

lemma emitsD:
  assumes "emits f w n" and "invar s"
  shows "fst (f s) \<longleftrightarrow> n \<le> room s"
    and "n \<le> room s \<Longrightarrow> contents (snd (f s)) = contents s @ w"
    and "n \<le> room s \<Longrightarrow> room (snd (f s)) + length w = room s"
    and "invar (snd (f s))" and "frame s (snd (f s))"
  using assms by (fastforce simp: emits_def)+

end

section \<open>The cursor is a bounded byte writer\<close>

definition cursor_ok :: "cstate \<Rightarrow> bool" where
  "cursor_ok s \<longleftrightarrow> (case s of (m, cur) \<Rightarrow> cur_start cur \<le> cur_p cur \<and> cur_p cur \<le> cur_end cur)"

definition cursor_contents :: "cstate \<Rightarrow> byte list" where
  "cursor_contents s = (case s of (m, cur) \<Rightarrow> mem_read m (cur_start cur) (nat (cursor_len cur)))"

definition cursor_room :: "cstate \<Rightarrow> nat" where
  "cursor_room s = (case s of (m, cur) \<Rightarrow> nat (cursor_remaining_capacity cur))"

definition cursor_frame :: "cstate \<Rightarrow> cstate \<Rightarrow> bool" where
  "cursor_frame s s' \<longleftrightarrow> (case s of (m, cur) \<Rightarrow> case s' of (m', cur') \<Rightarrow>
     cur_start cur' = cur_start cur \<and> cur_end cur' = cur_end cur
     \<and> (\<forall>x. x < cur_start cur \<or> cur_end cur \<le> x \<longrightarrow> m' x = m x))"

lemmas cursor_spec_defs = cursor_ok_def cursor_contents_def cursor_room_def cursor_frame_def
  cursor_len_def cursor_remaining_capacity_def

lemma cursor_push_store:
  assumes "cursor_ok (m, cur)" and "length bs \<le> cursor_room (m, cur)"
  defines "s' \<equiv> (mem_write m (cur_p cur) bs, cur\<lparr>cur_p := cur_p cur + int (length bs)\<rparr>)"
  shows "cursor_ok s' \<and> cursor_frame (m, cur) s'
       \<and> cursor_contents s' = cursor_contents (m, cur) @ bs
       \<and> cursor_room s' + length bs = cursor_room (m, cur)"
proof -
  define n where "n = nat (cur_p cur - cur_start cur)"
  have p: "cur_p cur = cur_start cur + int n"
    using assms(1) by (simp add: n_def cursor_ok_def)
  have "mem_read (mem_write m (cur_p cur) bs) (cur_start cur) (n + length bs)
      = mem_read m (cur_start cur) n @ bs"
    unfolding p by (rule mem_read_write_append)
  moreover have "nat (int n + int (length bs)) = n + length bs" by simp
  ultimately show ?thesis
    using assms p by (auto simp: cursor_spec_defs s'_def)
qed

interpretation sink: byte_sink cursor_ok cursor_contents cursor_room cursor_frame
  cursor_push_byte cursor_push
proof unfold_locales
  fix s :: cstate and b :: byte
  assume s: "cursor_ok s" and "1 \<le> cursor_room s"
  then show "\<exists>s'. cursor_push_byte b s = (True, s') \<and> cursor_ok s' \<and> cursor_frame s s'
      \<and> cursor_contents s' = cursor_contents s @ [b] \<and> cursor_room s' + 1 = cursor_room s"
    using cursor_push_store [of "fst s" "snd s" "[b]"]
    by (cases s) (auto simp: cursor_push_byte_def cursor_room_def cursor_remaining_capacity_def)
next
  fix s :: cstate and bs :: "byte list"
  assume s: "cursor_ok s" and "length bs + 1 \<le> cursor_room s"
  then show "\<exists>s'. cursor_push bs s = (True, s') \<and> cursor_ok s' \<and> cursor_frame s s'
      \<and> cursor_contents s' = cursor_contents s @ bs \<and> cursor_room s' + length bs = cursor_room s"
    using cursor_push_store [of "fst s" "snd s" bs]
    by (cases s) (auto simp: cursor_push_def cursor_room_def cursor_remaining_capacity_def)
qed (auto simp: cursor_push_byte_def cursor_push_def cursor_spec_defs split: prod.splits)

section \<open>Every operation keeps the invariant\<close>

text \<open>The pointers stay ordered and the buffer of a cursor stays the same one.\<close>

definition cursor_wf :: "cursor \<Rightarrow> bool" where
  "cursor_wf cur \<longleftrightarrow> cur_start cur \<le> cur_p cur \<and> cur_p cur \<le> cur_end cur"

definition same_buffer :: "cursor \<Rightarrow> cursor \<Rightarrow> bool" where
  "same_buffer cur cur' \<longleftrightarrow> cur_start cur' = cur_start cur \<and> cur_end cur' = cur_end cur"

lemma cursor_ok_wf [simp]: "cursor_ok (m, cur) = cursor_wf cur"
  by (simp add: cursor_ok_def cursor_wf_def)

lemma pull_c_str_loop_wf:
  "cursor_wf cur \<Longrightarrow> cursor_wf (snd (pull_c_str_loop m cur))
     \<and> same_buffer cur (snd (pull_c_str_loop m cur))"
proof (induction m cur rule: pull_c_str_loop.induct)
  case (1 m cur)
  show ?case
  proof (cases "cur_p cur < cur_end cur \<and> m (cur_p cur) \<noteq> 0")
    case True
    then have "pull_c_str_loop m cur = pull_c_str_loop m (cur\<lparr>cur_p := cur_p cur + 1\<rparr>)"
      by (simp add: pull_c_str_loop.simps [of m cur])
    moreover have "cursor_wf (cur\<lparr>cur_p := cur_p cur + 1\<rparr>)"
      using True "1.prems" by (simp add: cursor_wf_def)
    ultimately show ?thesis using "1.IH" True by (simp add: same_buffer_def)
  next
    case False
    then show ?thesis using "1.prems"
      by (auto simp: pull_c_str_loop.simps [of m cur] cursor_wf_def same_buffer_def)
  qed
qed

lemma pull_c_str_loop_nul:
  "fst (pull_c_str_loop m cur) \<longleftrightarrow> (\<exists>x. cur_p cur \<le> x \<and> x < cur_end cur \<and> m x = 0)"
proof (induction m cur rule: pull_c_str_loop.induct)
  case (1 m cur)
  show ?case
  proof (cases "cur_p cur < cur_end cur \<and> m (cur_p cur) \<noteq> 0")
    case True
    then have "pull_c_str_loop m cur = pull_c_str_loop m (cur\<lparr>cur_p := cur_p cur + 1\<rparr>)"
      by (simp add: pull_c_str_loop.simps [of m cur])
    moreover have "cur_p cur \<le> x \<and> m x = 0 \<longleftrightarrow> cur_p cur + 1 \<le> x \<and> m x = 0" for x
      using True by (cases "x = cur_p cur") auto
    ultimately show ?thesis using "1.IH" True by auto
  next
    case False
    then show ?thesis by (auto simp: pull_c_str_loop.simps [of m cur])
  qed
qed

lemma around_loop_cong:
  "(\<And>x. c \<le> x \<Longrightarrow> x < cur_end cur \<Longrightarrow> pr x = pr' x) \<Longrightarrow>
   around_loop pr c rng cur = around_loop pr' c rng cur"
proof (induction pr c rng cur rule: around_loop.induct)
  case (1 pr c rng cur)
  then show ?case
    by (auto simp: around_loop.simps [of pr c] around_loop.simps [of pr' c])
qed

text \<open>A sequence of pushes on a fresh cursor over \<open>len\<close> bytes at \<open>buf\<close>.\<close>

lemma emits_from_start:
  assumes f: "sink.emits f w n" and len: "0 \<le> len"
    and run: "f (m, make_cursor buf (buf + len)) = (ok, m', cur')"
  shows "ok \<longleftrightarrow> int n \<le> len"
    and "cur_start cur' = buf" and "cur_end cur' = buf + len"
    and "ok \<Longrightarrow> cur_p cur' = buf + int (length w)"
    and "ok \<Longrightarrow> mem_read m' buf (length w) = w"
    and "a < buf \<or> buf + len \<le> a \<Longrightarrow> m' a = m a"
proof -
  let ?s = "(m, make_cursor buf (buf + len))"
  have s: "cursor_ok ?s" "cursor_room ?s = nat len" "cursor_contents ?s = []"
    using len by (simp_all add: make_cursor_def cursor_wf_def cursor_spec_defs)
  note D = sink.emitsD [OF f s(1), unfolded run fst_conv snd_conv]
  show ok: "ok \<longleftrightarrow> int n \<le> len" using D(1) s(2) len by (simp add: nat_le_iff le_nat_iff)
  show st: "cur_start cur' = buf" "cur_end cur' = buf + len"
    and "a < buf \<or> buf + len \<le> a \<Longrightarrow> m' a = m a"
    using D(5) by (auto simp: cursor_frame_def make_cursor_def)
  assume ok
  then have *: "cursor_contents (m', cur') = w" "cursor_room (m', cur') + length w = nat len"
    using D(1-3) s by simp_all
  show p: "cur_p cur' = buf + int (length w)"
    using *(2) D(4) st len by (simp add: cursor_spec_defs cursor_wf_def) linarith
  show "mem_read m' buf (length w) = w"
    using *(1) p st by (simp add: cursor_spec_defs)
qed

section \<open>Properties\<close>

text \<open>
  The pushes are memory safe and exact. A NUL terminated push of a string into a
  well-formed cursor succeeds exactly when \<open>strlen + 1\<close> bytes are free. On success the
  written part of the buffer is extended by the string and its NUL; in every case the cursor
  stays well-formed and no byte outside the buffer changes.
\<close>

theorem cursor_push_c_str_exact:
  assumes "cursor_ok s"
  shows "(fst (cursor_push_c_str str s) \<longleftrightarrow> strlen str + 1 \<le> cursor_room s)
       \<and> (fst (cursor_push_c_str str s) \<longrightarrow>
            cursor_contents (snd (cursor_push_c_str str s)) = cursor_contents s @ c_str str @ [0])
       \<and> cursor_ok (snd (cursor_push_c_str str s))
       \<and> cursor_frame s (snd (cursor_push_c_str str s))"
proof -
  have "sink.emits (cursor_push_c_str str) (c_str str @ [0]) (strlen str + 1)"
    using sink.emits_and_then [OF sink.emits_bytes sink.emits_byte, of "c_str str" 0]
    by (simp add: cursor_push_c_str_def cursor_push_str_def strlen_def)
  from sink.emitsD [OF this assms] show ?thesis by auto
qed

theorem cursor_push_c_str_exact_witness:
  "fst (cursor_push_c_str (cstr ''ab'') (\<lambda>_. 0, make_cursor 0 3))
   \<and> \<not> fst (cursor_push_c_str (cstr ''ab'') (\<lambda>_. 0, make_cursor 0 2))"
  using cursor_push_c_str_exact [of "(\<lambda>_. 0, make_cursor 0 3)" "cstr ''ab''"]
    cursor_push_c_str_exact [of "(\<lambda>_. 0, make_cursor 0 2)" "cstr ''ab''"]
  by (simp add: make_cursor_def cursor_wf_def cursor_room_def cursor_remaining_capacity_def
      strlen_def cstr_def c_str_def)

text \<open>
  Last in, first out: what \<open>cursor_push\<close> stores, \<open>cursor_pop\<close> of the same length
  returns, and the cursor is back where it was. What was pushed from the start of the buffer
  is pulled in order after \<open>reset_cursor\<close>.
\<close>

theorem cursor_push_pop_pull:
  assumes "cursor_ok (m, cur)" and "cursor_push bs (m, cur) = (True, m', cur')"
  shows "cursor_pop (length bs) (m', cur') = (Some bs, cur)
       \<and> (cur_p cur = cur_start cur \<longrightarrow>
            cursor_pull (length bs) (m', reset_cursor cur') = (Some bs, cur'))"
proof -
  have m': "m' = mem_write m (cur_p cur) bs"
    and cur': "cur' = cur\<lparr>cur_p := cur_p cur + int (length bs)\<rparr>"
    and room: "cur_p cur + int (length bs) < cur_end cur"
    using assms(2) by (auto simp: cursor_push_def split: if_splits)
  show ?thesis
    using assms(1) room
    by (auto simp: m' cur' cursor_pop_def cursor_pull_def reset_cursor_def cursor_wf_def)
qed

theorem cursor_push_pop_pull_witness:
  "\<exists>m' cur'. cursor_push [7, 8] (\<lambda>_. 0, make_cursor 0 4) = (True, m', cur')
     \<and> cursor_pop 2 (m', cur') = (Some [7, 8], make_cursor 0 4)"
proof -
  obtain m' cur' where p: "cursor_push [7, 8] (\<lambda>_. 0, make_cursor 0 4) = (True, m', cur')"
    by (simp add: cursor_push_def make_cursor_def)
  have "cursor_ok (\<lambda>_. 0, make_cursor 0 4)" by (simp add: make_cursor_def cursor_wf_def)
  from cursor_push_pop_pull [OF this p] p show ?thesis by (auto simp: numeral_2_eq_2)
qed

text \<open>
  A 32-bit integer survives the cursor: after a successful \<open>cursor_push_int\<close> the top
  of the buffer reads as that integer, and popping it restores the cursor.
\<close>

theorem cursor_push_int_round_trip:
  assumes "cursor_ok (m, cur)" and "cursor_push_int i (m, cur) = (True, m', cur')"
  shows "cursor_top_int (m', cur') = Some i
       \<and> cursor_pull_int (m', cur\<lparr>cur_end := cur_end cur'\<rparr>) = (Some i, cur')
       \<and> cursor_dropn 4 1 cur' = (True, cur)"
proof -
  have len: "length (le_image i) = 4" by (simp add: length_le_image)
  have m': "m' = mem_write m (cur_p cur) (le_image i)"
    and cur': "cur' = cur\<lparr>cur_p := cur_p cur + 4\<rparr>"
    and room: "cur_p cur + 4 < cur_end cur"
    using assms(2) len by (auto simp: cursor_push_int_def cursor_push_def split: if_splits)
  have "mem_read m' (cur_p cur) 4 = le_image i"
    using mem_read_write_same [of m "cur_p cur" "le_image i"] len by (simp add: m')
  then show ?thesis
    using assms(1) room
    by (simp add: cur' cursor_top_int_def cursor_top_def cursor_pull_int_def cursor_pull_def
        cursor_dropn_def cursor_wf_def)
qed

theorem cursor_push_int_round_trip_witness:
  "\<exists>m' cur'. cursor_push_int 0x01020304 (\<lambda>_. 0, make_cursor 0 8) = (True, m', cur')
     \<and> cursor_top_int (m', cur') = Some 0x01020304"
proof -
  obtain m' cur' where p: "cursor_push_int 0x01020304 (\<lambda>_. 0, make_cursor 0 8) = (True, m', cur')"
    by (simp add: cursor_push_int_def cursor_push_def make_cursor_def length_le_image)
  have "cursor_ok (\<lambda>_. 0, make_cursor 0 8)" by (simp add: make_cursor_def cursor_wf_def)
  from cursor_push_int_round_trip [OF this p] p show ?thesis by blast
qed

text \<open>
  Two allocations from one cursor are two zeroed regions inside its buffer that do not
  overlap, the second behind the first; the allocator writes nowhere else.
\<close>

theorem cursor_alloc_disjoint:
  assumes "cursor_ok (m, mem)"
    and "cursor_alloc n (m, mem) = (Some a, m1, mem1)"
    and "cursor_alloc k (m1, mem1) = (Some b, m2, mem2)"
  shows "cur_start mem \<le> a \<and> a + int n \<le> b \<and> b + int k \<le> cur_end mem
       \<and> mem_read m2 a n = replicate n 0 \<and> mem_read m2 b k = replicate k 0
       \<and> (\<forall>x. x < a \<or> b + int k \<le> x \<longrightarrow> m2 x = m x)"
proof -
  have a: "a = cur_p mem" "m1 = mem_write m a (replicate n 0)"
      "mem1 = mem\<lparr>cur_p := cur_p mem + int n\<rparr>"
    using assms(2) by (auto simp: cursor_alloc_def cursor_malloc_def split: if_splits)
  have b: "b = cur_p mem1" "m2 = mem_write m1 b (replicate k 0)" "cur_p mem1 + int k \<le> cur_end mem1"
    using assms(3) by (auto simp: cursor_alloc_def cursor_malloc_def split: if_splits)
  have "mem_read m2 a n = replicate n 0"
    using mem_read_write_before [of a n b m1 "replicate k 0"]
      mem_read_write_same [of m a "replicate n 0"] a b by simp
  moreover have "mem_read m2 b k = replicate k 0"
    using mem_read_write_same [of m1 b "replicate k 0"] b by simp
  ultimately show ?thesis
    using assms(1) a b by (auto simp: cursor_wf_def mem_write_apply)
qed

theorem cursor_alloc_disjoint_witness:
  "\<exists>m1 mem1 m2 mem2. cursor_alloc 2 (\<lambda>_. 5, make_cursor 0 5) = (Some 0, m1, mem1)
     \<and> cursor_alloc 3 (m1, mem1) = (Some 2, m2, mem2) \<and> mem_read m2 2 3 = [0, 0, 0]"
proof -
  obtain m1 mem1 m2 mem2 where
      a: "cursor_alloc 2 (\<lambda>_. 5, make_cursor 0 5) = (Some 0, m1, mem1)"
    and b: "cursor_alloc 3 (m1, mem1) = (Some 2, m2, mem2)"
    by (simp add: cursor_alloc_def cursor_malloc_def make_cursor_def)
  have "cursor_ok (\<lambda>_. 5, make_cursor 0 5)" by (simp add: make_cursor_def cursor_wf_def)
  from cursor_alloc_disjoint [OF this a b] a b show ?thesis
    by (auto simp: numeral_3_eq_3)
qed

text \<open>
  Every operation of the cursor keeps the invariant: started on a well-formed cursor the
  pulls, pops, drops by a non-negative size, allocations and the string scan leave a
  well-formed cursor on the same buffer, whether they succeed or fail.
\<close>

theorem cursor_operations_preserve_wf:
  assumes "cursor_wf cur" and "0 \<le> sz" and "0 \<le> n"
  shows "\<forall>cur' \<in> {reset_cursor cur, snd (cursor_malloc k cur), snd (pull_byte (m, cur)),
             snd (cursor_pull k (m, cur)), snd (cursor_pop k (m, cur)),
             snd (cursor_dropn sz n cur), snd (snd (cursor_pull_c_str (m, cur)))}.
           cursor_wf cur' \<and> same_buffer cur cur'"
proof -
  have "0 \<le> sz * n" using assms(2,3) by simp
  then have "cursor_wf (snd (cursor_dropn sz n cur)) \<and> same_buffer cur (snd (cursor_dropn sz n cur))"
    using assms(1) by (auto simp: cursor_dropn_def cursor_wf_def same_buffer_def)
  moreover have "cursor_wf (snd (snd (cursor_pull_c_str (m, cur))))
       \<and> same_buffer cur (snd (snd (cursor_pull_c_str (m, cur))))"
    using pull_c_str_loop_wf [OF assms(1), of m]
    by (auto simp: cursor_pull_c_str_def split: prod.splits)
  moreover have "cursor_wf cur' \<and> same_buffer cur cur'"
    if "cur' \<in> {reset_cursor cur, snd (cursor_malloc k cur), snd (pull_byte (m, cur)),
          snd (cursor_pull k (m, cur)), snd (cursor_pop k (m, cur))}" for cur'
    using that assms(1)
    by (auto simp: reset_cursor_def cursor_malloc_def pull_byte_def cursor_pull_def
        cursor_pop_def cursor_wf_def same_buffer_def)
  ultimately show ?thesis by auto
qed

theorem cursor_operations_preserve_wf_witness:
  "cursor_wf (snd (cursor_dropn 4 1 (make_cursor 0 8)))"
  using cursor_operations_preserve_wf [of "make_cursor 0 8" 4 1]
  by (simp add: make_cursor_def cursor_wf_def)

end
