(* ===== verification/Sha256.thy ===== *)
theory Sha256
  imports Nostr_Prelude Endian
begin

text \<open>
  SHA-256: \<open>src/src/nostril/sha256.c\<close> and \<open>sha256.h\<close>, in the configuration without
  OpenSSL that the headers select. The context is a record with the eight state words, the
  64-byte buffer (the union of \<open>buf.u8\<close> and \<open>buf.u32\<close> is the list of its bytes) and the
  64-bit byte counter; the assertion of \<open>check_sha256\<close> is an option. The 64 rounds are
  written out as in the source, in its four groups.

  The reference is the hash of FIPS 180-4 (message schedule, compression loop, padding). The
  refinement invariant \<open>ctx_repr\<close> relates a context to the message hashed so far; every
  operation is proved against it, which gives the equality with the standard for one call
  and for any way of splitting the message into updates.
\<close>

section \<open>Data\<close>

record sha256_ctx =
  ctx_s :: "u32 list"
  ctx_buf :: "byte list"
  ctx_bytes :: u64

definition SHA256_INIT :: sha256_ctx where
  "SHA256_INIT =
     \<lparr>ctx_s = [0x6a09e667, 0xbb67ae85, 0x3c6ef372, 0xa54ff53a,
           0x510e527f, 0x9b05688c, 0x1f83d9ab, 0x5be0cd19],
      ctx_buf = replicate 64 0, ctx_bytes = 0\<rparr>"

definition invalidate_sha256 :: "sha256_ctx \<Rightarrow> sha256_ctx" where
  "invalidate_sha256 ctx = ctx\<lparr>ctx_bytes := - 1\<rparr>"

text \<open>\<open>None\<close> is the failed assertion.\<close>

definition check_sha256 :: "sha256_ctx \<Rightarrow> unit option" where
  "check_sha256 ctx = (if ctx_bytes ctx \<noteq> - 1 then Some () else None)"

section \<open>The compression function\<close>

definition Ch :: "u32 \<Rightarrow> u32 \<Rightarrow> u32 \<Rightarrow> u32" where
  "Ch x y z = z XOR (x AND (y XOR z))"

definition Maj :: "u32 \<Rightarrow> u32 \<Rightarrow> u32 \<Rightarrow> u32" where
  "Maj x y z = (x AND y) OR (z AND (x OR y))"

definition Sigma0 :: "u32 \<Rightarrow> u32" where
  "Sigma0 x = (drop_bit 2 x OR push_bit 30 x) XOR (drop_bit 13 x OR push_bit 19 x)
     XOR (drop_bit 22 x OR push_bit 10 x)"

definition Sigma1 :: "u32 \<Rightarrow> u32" where
  "Sigma1 x = (drop_bit 6 x OR push_bit 26 x) XOR (drop_bit 11 x OR push_bit 21 x)
     XOR (drop_bit 25 x OR push_bit 7 x)"

definition sigma0 :: "u32 \<Rightarrow> u32" where
  "sigma0 x = (drop_bit 7 x OR push_bit 25 x) XOR (drop_bit 18 x OR push_bit 14 x) XOR drop_bit 3 x"

definition sigma1 :: "u32 \<Rightarrow> u32" where
  "sigma1 x = (drop_bit 17 x OR push_bit 15 x) XOR (drop_bit 19 x OR push_bit 13 x) XOR drop_bit 10 x"

text \<open>\<open>Round\<close> updates \<open>*d\<close> and \<open>*h\<close>: the pair of their new values.\<close>

definition Round ::
  "u32 \<Rightarrow> u32 \<Rightarrow> u32 \<Rightarrow> u32 \<Rightarrow> u32 \<Rightarrow> u32 \<Rightarrow> u32 \<Rightarrow> u32 \<Rightarrow> u32 \<Rightarrow> u32 \<Rightarrow> u32 \<times> u32" where
  "Round a b c d e f g h k w =
     (let t1 = h + Sigma1 e + Ch e f g + k + w;
          t2 = Sigma0 a + Maj a b c
      in (d + t1, t1 + t2))"

type_synonym regs = "u32 \<times> u32 \<times> u32 \<times> u32 \<times> u32 \<times> u32 \<times> u32 \<times> u32"
type_synonym msg16 = "u32 \<times> u32 \<times> u32 \<times> u32 \<times> u32 \<times> u32 \<times> u32 \<times> u32
  \<times> u32 \<times> u32 \<times> u32 \<times> u32 \<times> u32 \<times> u32 \<times> u32 \<times> u32"

text \<open>The four groups of sixteen rounds of \<open>Transform\<close>, with the message words in \<open>w0\<close> to \<open>w15\<close>.\<close>

definition rounds_00_15 :: "regs \<Rightarrow> u32 list \<Rightarrow> regs \<times> msg16" where
  "rounds_00_15 rs chunk = (case rs of (a, b, c, d, e, f, g, h) \<Rightarrow>
     (let w0 = be32_to_cpu (chunk ! 0); (d, h) = Round a b c d e f g h 0x428a2f98 w0;
         w1 = be32_to_cpu (chunk ! 1); (c, g) = Round h a b c d e f g 0x71374491 w1;
         w2 = be32_to_cpu (chunk ! 2); (b, f) = Round g h a b c d e f 0xb5c0fbcf w2;
         w3 = be32_to_cpu (chunk ! 3); (a, e) = Round f g h a b c d e 0xe9b5dba5 w3;
         w4 = be32_to_cpu (chunk ! 4); (h, d) = Round e f g h a b c d 0x3956c25b w4;
         w5 = be32_to_cpu (chunk ! 5); (g, c) = Round d e f g h a b c 0x59f111f1 w5;
         w6 = be32_to_cpu (chunk ! 6); (f, b) = Round c d e f g h a b 0x923f82a4 w6;
         w7 = be32_to_cpu (chunk ! 7); (e, a) = Round b c d e f g h a 0xab1c5ed5 w7;
         w8 = be32_to_cpu (chunk ! 8); (d, h) = Round a b c d e f g h 0xd807aa98 w8;
         w9 = be32_to_cpu (chunk ! 9); (c, g) = Round h a b c d e f g 0x12835b01 w9;
         w10 = be32_to_cpu (chunk ! 10); (b, f) = Round g h a b c d e f 0x243185be w10;
         w11 = be32_to_cpu (chunk ! 11); (a, e) = Round f g h a b c d e 0x550c7dc3 w11;
         w12 = be32_to_cpu (chunk ! 12); (h, d) = Round e f g h a b c d 0x72be5d74 w12;
         w13 = be32_to_cpu (chunk ! 13); (g, c) = Round d e f g h a b c 0x80deb1fe w13;
         w14 = be32_to_cpu (chunk ! 14); (f, b) = Round c d e f g h a b 0x9bdc06a7 w14;
         w15 = be32_to_cpu (chunk ! 15); (e, a) = Round b c d e f g h a 0xc19bf174 w15
      in ((a, b, c, d, e, f, g, h), (w0, w1, w2, w3, w4, w5, w6, w7, w8, w9, w10, w11, w12, w13, w14, w15))))"

definition rounds_16_31 :: "regs \<times> msg16 \<Rightarrow> regs \<times> msg16" where
  "rounds_16_31 st = (case st of
     ((a, b, c, d, e, f, g, h), (w0, w1, w2, w3, w4, w5, w6, w7, w8, w9, w10, w11, w12, w13, w14, w15)) \<Rightarrow>
     (let w0 = w0 + (sigma1 w14 + w9 + sigma0 w1); (d, h) = Round a b c d e f g h 0xe49b69c1 w0;
         w1 = w1 + (sigma1 w15 + w10 + sigma0 w2); (c, g) = Round h a b c d e f g 0xefbe4786 w1;
         w2 = w2 + (sigma1 w0 + w11 + sigma0 w3); (b, f) = Round g h a b c d e f 0x0fc19dc6 w2;
         w3 = w3 + (sigma1 w1 + w12 + sigma0 w4); (a, e) = Round f g h a b c d e 0x240ca1cc w3;
         w4 = w4 + (sigma1 w2 + w13 + sigma0 w5); (h, d) = Round e f g h a b c d 0x2de92c6f w4;
         w5 = w5 + (sigma1 w3 + w14 + sigma0 w6); (g, c) = Round d e f g h a b c 0x4a7484aa w5;
         w6 = w6 + (sigma1 w4 + w15 + sigma0 w7); (f, b) = Round c d e f g h a b 0x5cb0a9dc w6;
         w7 = w7 + (sigma1 w5 + w0 + sigma0 w8); (e, a) = Round b c d e f g h a 0x76f988da w7;
         w8 = w8 + (sigma1 w6 + w1 + sigma0 w9); (d, h) = Round a b c d e f g h 0x983e5152 w8;
         w9 = w9 + (sigma1 w7 + w2 + sigma0 w10); (c, g) = Round h a b c d e f g 0xa831c66d w9;
         w10 = w10 + (sigma1 w8 + w3 + sigma0 w11); (b, f) = Round g h a b c d e f 0xb00327c8 w10;
         w11 = w11 + (sigma1 w9 + w4 + sigma0 w12); (a, e) = Round f g h a b c d e 0xbf597fc7 w11;
         w12 = w12 + (sigma1 w10 + w5 + sigma0 w13); (h, d) = Round e f g h a b c d 0xc6e00bf3 w12;
         w13 = w13 + (sigma1 w11 + w6 + sigma0 w14); (g, c) = Round d e f g h a b c 0xd5a79147 w13;
         w14 = w14 + (sigma1 w12 + w7 + sigma0 w15); (f, b) = Round c d e f g h a b 0x06ca6351 w14;
         w15 = w15 + (sigma1 w13 + w8 + sigma0 w0); (e, a) = Round b c d e f g h a 0x14292967 w15
      in ((a, b, c, d, e, f, g, h), (w0, w1, w2, w3, w4, w5, w6, w7, w8, w9, w10, w11, w12, w13, w14, w15))))"

definition rounds_32_47 :: "regs \<times> msg16 \<Rightarrow> regs \<times> msg16" where
  "rounds_32_47 st = (case st of
     ((a, b, c, d, e, f, g, h), (w0, w1, w2, w3, w4, w5, w6, w7, w8, w9, w10, w11, w12, w13, w14, w15)) \<Rightarrow>
     (let w0 = w0 + (sigma1 w14 + w9 + sigma0 w1); (d, h) = Round a b c d e f g h 0x27b70a85 w0;
         w1 = w1 + (sigma1 w15 + w10 + sigma0 w2); (c, g) = Round h a b c d e f g 0x2e1b2138 w1;
         w2 = w2 + (sigma1 w0 + w11 + sigma0 w3); (b, f) = Round g h a b c d e f 0x4d2c6dfc w2;
         w3 = w3 + (sigma1 w1 + w12 + sigma0 w4); (a, e) = Round f g h a b c d e 0x53380d13 w3;
         w4 = w4 + (sigma1 w2 + w13 + sigma0 w5); (h, d) = Round e f g h a b c d 0x650a7354 w4;
         w5 = w5 + (sigma1 w3 + w14 + sigma0 w6); (g, c) = Round d e f g h a b c 0x766a0abb w5;
         w6 = w6 + (sigma1 w4 + w15 + sigma0 w7); (f, b) = Round c d e f g h a b 0x81c2c92e w6;
         w7 = w7 + (sigma1 w5 + w0 + sigma0 w8); (e, a) = Round b c d e f g h a 0x92722c85 w7;
         w8 = w8 + (sigma1 w6 + w1 + sigma0 w9); (d, h) = Round a b c d e f g h 0xa2bfe8a1 w8;
         w9 = w9 + (sigma1 w7 + w2 + sigma0 w10); (c, g) = Round h a b c d e f g 0xa81a664b w9;
         w10 = w10 + (sigma1 w8 + w3 + sigma0 w11); (b, f) = Round g h a b c d e f 0xc24b8b70 w10;
         w11 = w11 + (sigma1 w9 + w4 + sigma0 w12); (a, e) = Round f g h a b c d e 0xc76c51a3 w11;
         w12 = w12 + (sigma1 w10 + w5 + sigma0 w13); (h, d) = Round e f g h a b c d 0xd192e819 w12;
         w13 = w13 + (sigma1 w11 + w6 + sigma0 w14); (g, c) = Round d e f g h a b c 0xd6990624 w13;
         w14 = w14 + (sigma1 w12 + w7 + sigma0 w15); (f, b) = Round c d e f g h a b 0xf40e3585 w14;
         w15 = w15 + (sigma1 w13 + w8 + sigma0 w0); (e, a) = Round b c d e f g h a 0x106aa070 w15
      in ((a, b, c, d, e, f, g, h), (w0, w1, w2, w3, w4, w5, w6, w7, w8, w9, w10, w11, w12, w13, w14, w15))))"

definition rounds_48_63 :: "regs \<times> msg16 \<Rightarrow> regs" where
  "rounds_48_63 st = (case st of
     ((a, b, c, d, e, f, g, h), (w0, w1, w2, w3, w4, w5, w6, w7, w8, w9, w10, w11, w12, w13, w14, w15)) \<Rightarrow>
     (let w0 = w0 + (sigma1 w14 + w9 + sigma0 w1); (d, h) = Round a b c d e f g h 0x19a4c116 w0;
         w1 = w1 + (sigma1 w15 + w10 + sigma0 w2); (c, g) = Round h a b c d e f g 0x1e376c08 w1;
         w2 = w2 + (sigma1 w0 + w11 + sigma0 w3); (b, f) = Round g h a b c d e f 0x2748774c w2;
         w3 = w3 + (sigma1 w1 + w12 + sigma0 w4); (a, e) = Round f g h a b c d e 0x34b0bcb5 w3;
         w4 = w4 + (sigma1 w2 + w13 + sigma0 w5); (h, d) = Round e f g h a b c d 0x391c0cb3 w4;
         w5 = w5 + (sigma1 w3 + w14 + sigma0 w6); (g, c) = Round d e f g h a b c 0x4ed8aa4a w5;
         w6 = w6 + (sigma1 w4 + w15 + sigma0 w7); (f, b) = Round c d e f g h a b 0x5b9cca4f w6;
         w7 = w7 + (sigma1 w5 + w0 + sigma0 w8); (e, a) = Round b c d e f g h a 0x682e6ff3 w7;
         w8 = w8 + (sigma1 w6 + w1 + sigma0 w9); (d, h) = Round a b c d e f g h 0x748f82ee w8;
         w9 = w9 + (sigma1 w7 + w2 + sigma0 w10); (c, g) = Round h a b c d e f g 0x78a5636f w9;
         w10 = w10 + (sigma1 w8 + w3 + sigma0 w11); (b, f) = Round g h a b c d e f 0x84c87814 w10;
         w11 = w11 + (sigma1 w9 + w4 + sigma0 w12); (a, e) = Round f g h a b c d e 0x8cc70208 w11;
         w12 = w12 + (sigma1 w10 + w5 + sigma0 w13); (h, d) = Round e f g h a b c d 0x90befffa w12;
         w13 = w13 + (sigma1 w11 + w6 + sigma0 w14); (g, c) = Round d e f g h a b c 0xa4506ceb w13;
         (f, b) = Round c d e f g h a b 0xbef9a3f7 (w14 + sigma1 w12 + w7 + sigma0 w15);
         (e, a) = Round b c d e f g h a 0xc67178f2 (w15 + sigma1 w13 + w8 + sigma0 w0)
      in (a, b, c, d, e, f, g, h)))"

definition Transform :: "u32 list \<Rightarrow> u32 list \<Rightarrow> u32 list" where
  "Transform st chunk =
     (let (a, b, c, d, e, f, g, h) =
            rounds_48_63 (rounds_32_47 (rounds_16_31 (rounds_00_15
              (st ! 0, st ! 1, st ! 2, st ! 3, st ! 4, st ! 5, st ! 6, st ! 7) chunk)))
      in [st ! 0 + a, st ! 1 + b, st ! 2 + c, st ! 3 + d,
          st ! 4 + e, st ! 5 + f, st ! 6 + g, st ! 7 + h])"

section \<open>The streaming interface\<close>

text \<open>The sixteen words that the bytes of a buffer make when they are read through \<open>u32\<close>.\<close>

definition u32_view :: "byte list \<Rightarrow> u32 list" where
  "u32_view bs = map (\<lambda>i. le_value (take 4 (drop (4 * i) bs))) [0..<16]"

text \<open>\<open>alignment_ok(p, n)\<close> of \<open>compiler.h\<close>, with \<open>HAVE_UNALIGNED_ACCESS\<close> 1 in \<open>config.h\<close>.\<close>

definition alignment_ok :: bool where
  "alignment_ok = True"

text \<open>The \<open>while (len >= 64)\<close> loop of \<open>add\<close>: the context and the data that is left.\<close>

function add_chunks :: "sha256_ctx \<Rightarrow> byte list \<Rightarrow> sha256_ctx \<times> byte list" where
  "add_chunks ctx data =
     (if 64 \<le> length data
      then let ctx =
                 (if alignment_ok
                  then ctx\<lparr>ctx_s := Transform (ctx_s ctx) (u32_view (take 64 data))\<rparr>
                  else let b = take 64 data
                       in ctx\<lparr>ctx_buf := b, ctx_s := Transform (ctx_s ctx) (u32_view b)\<rparr>)
           in add_chunks (ctx\<lparr>ctx_bytes := ctx_bytes ctx + 64\<rparr>) (drop 64 data)
      else (ctx, data))"
  by pat_completeness auto
termination
  by (relation "measure (\<lambda>(ctx, data). length data)") auto

declare add_chunks.simps [simp del]

definition add :: "sha256_ctx \<Rightarrow> byte list \<Rightarrow> sha256_ctx" where
  "add ctx data =
     (let bufsize = unat (ctx_bytes ctx mod 64);
          (ctx, data, bufsize) =
            (if bufsize + length data \<ge> 64
             then let b = copy_at (ctx_buf ctx) bufsize (take (64 - bufsize) data)
                  in (ctx\<lparr>ctx_buf := b, ctx_bytes := ctx_bytes ctx + word_of_nat (64 - bufsize),
                          ctx_s := Transform (ctx_s ctx) (u32_view b)\<rparr>,
                      drop (64 - bufsize) data, 0)
             else (ctx, data, bufsize));
          (ctx, data) = add_chunks ctx data
      in if data \<noteq> []
         then ctx\<lparr>ctx_buf := copy_at (ctx_buf ctx) bufsize data,
                  ctx_bytes := ctx_bytes ctx + word_of_nat (length data)\<rparr>
         else ctx)"

definition sha256_init :: sha256_ctx where
  "sha256_init = SHA256_INIT"

definition sha256_update :: "sha256_ctx \<Rightarrow> byte list \<Rightarrow> sha256_ctx option" where
  "sha256_update ctx p = (case check_sha256 ctx of None \<Rightarrow> None | Some _ \<Rightarrow> Some (add ctx p))"

definition pad :: "byte list" where
  "pad = 0x80 # replicate 63 0"

definition sha256_done :: "sha256_ctx \<Rightarrow> sha256_ctx \<times> byte list" where
  "sha256_done ctx =
     (let sizedesc = cpu_to_be64 (push_bit 3 (ctx_bytes ctx));
          ctx = add ctx (take (1 + ((128 - 8 - unat (ctx_bytes ctx mod 64) - 1) mod 64)) pad);
          ctx = add ctx (le_image sizedesc);
          res = concat (map (\<lambda>x. le_image (cpu_to_be32 x)) (ctx_s ctx))
      in (invalidate_sha256 ctx, res))"

definition sha256 :: "byte list \<Rightarrow> byte list option" where
  "sha256 p = map_option (\<lambda>ctx. snd (sha256_done ctx)) (sha256_update sha256_init p)"

definition sha256_u8 :: "sha256_ctx \<Rightarrow> byte \<Rightarrow> sha256_ctx option" where
  "sha256_u8 ctx v = sha256_update ctx (le_image v)"

definition sha256_u16 :: "sha256_ctx \<Rightarrow> u16 \<Rightarrow> sha256_ctx option" where
  "sha256_u16 ctx v = sha256_update ctx (le_image v)"

definition sha256_u32 :: "sha256_ctx \<Rightarrow> u32 \<Rightarrow> sha256_ctx option" where
  "sha256_u32 ctx v = sha256_update ctx (le_image v)"

definition sha256_u64 :: "sha256_ctx \<Rightarrow> u64 \<Rightarrow> sha256_ctx option" where
  "sha256_u64 ctx v = sha256_update ctx (le_image v)"

definition sha256_le16 :: "sha256_ctx \<Rightarrow> u16 \<Rightarrow> sha256_ctx option" where
  "sha256_le16 ctx v = sha256_update ctx (le_image (cpu_to_le16 v))"

definition sha256_le32 :: "sha256_ctx \<Rightarrow> u32 \<Rightarrow> sha256_ctx option" where
  "sha256_le32 ctx v = sha256_update ctx (le_image (cpu_to_le32 v))"

definition sha256_le64 :: "sha256_ctx \<Rightarrow> u64 \<Rightarrow> sha256_ctx option" where
  "sha256_le64 ctx v = sha256_update ctx (le_image (cpu_to_le64 v))"

definition sha256_be16 :: "sha256_ctx \<Rightarrow> u16 \<Rightarrow> sha256_ctx option" where
  "sha256_be16 ctx v = sha256_update ctx (le_image (cpu_to_be16 v))"

definition sha256_be32 :: "sha256_ctx \<Rightarrow> u32 \<Rightarrow> sha256_ctx option" where
  "sha256_be32 ctx v = sha256_update ctx (le_image (cpu_to_be32 v))"

definition sha256_be64 :: "sha256_ctx \<Rightarrow> u64 \<Rightarrow> sha256_ctx option" where
  "sha256_be64 ctx v = sha256_update ctx (le_image (cpu_to_be64 v))"

section \<open>Reference: FIPS 180-4\<close>

text \<open>Section 4.1.2 of the standard, on words with the rotation of the library.\<close>

definition fips_Ch :: "u32 \<Rightarrow> u32 \<Rightarrow> u32 \<Rightarrow> u32" where
  "fips_Ch x y z = (x AND y) XOR (NOT x AND z)"

definition fips_Maj :: "u32 \<Rightarrow> u32 \<Rightarrow> u32 \<Rightarrow> u32" where
  "fips_Maj x y z = (x AND y) XOR (x AND z) XOR (y AND z)"

definition fips_Sigma0 :: "u32 \<Rightarrow> u32" where
  "fips_Sigma0 x = word_rotr 2 x XOR word_rotr 13 x XOR word_rotr 22 x"

definition fips_Sigma1 :: "u32 \<Rightarrow> u32" where
  "fips_Sigma1 x = word_rotr 6 x XOR word_rotr 11 x XOR word_rotr 25 x"

definition fips_sigma0 :: "u32 \<Rightarrow> u32" where
  "fips_sigma0 x = word_rotr 7 x XOR word_rotr 18 x XOR drop_bit 3 x"

definition fips_sigma1 :: "u32 \<Rightarrow> u32" where
  "fips_sigma1 x = word_rotr 17 x XOR word_rotr 19 x XOR drop_bit 10 x"

text \<open>Section 4.2.2: the constants, and what the standard says they are: \<open>k\<close> holds the first
  32 bits of the fractional part of the cube root of the prime \<open>p\<close>, whose integer part is \<open>i\<close>.\<close>

definition fips_K :: "u32 list" where
  "fips_K = concat
    [[0x428a2f98, 0x71374491, 0xb5c0fbcf, 0xe9b5dba5], [0x3956c25b, 0x59f111f1, 0x923f82a4, 0xab1c5ed5],
     [0xd807aa98, 0x12835b01, 0x243185be, 0x550c7dc3], [0x72be5d74, 0x80deb1fe, 0x9bdc06a7, 0xc19bf174],
     [0xe49b69c1, 0xefbe4786, 0x0fc19dc6, 0x240ca1cc], [0x2de92c6f, 0x4a7484aa, 0x5cb0a9dc, 0x76f988da],
     [0x983e5152, 0xa831c66d, 0xb00327c8, 0xbf597fc7], [0xc6e00bf3, 0xd5a79147, 0x06ca6351, 0x14292967],
     [0x27b70a85, 0x2e1b2138, 0x4d2c6dfc, 0x53380d13], [0x650a7354, 0x766a0abb, 0x81c2c92e, 0x92722c85],
     [0xa2bfe8a1, 0xa81a664b, 0xc24b8b70, 0xc76c51a3], [0xd192e819, 0xd6990624, 0xf40e3585, 0x106aa070],
     [0x19a4c116, 0x1e376c08, 0x2748774c, 0x34b0bcb5], [0x391c0cb3, 0x4ed8aa4a, 0x5b9cca4f, 0x682e6ff3],
     [0x748f82ee, 0x78a5636f, 0x84c87814, 0x8cc70208], [0x90befffa, 0xa4506ceb, 0xbef9a3f7, 0xc67178f2]]"

definition cube_root_bits :: "int \<Rightarrow> int \<Rightarrow> u32 \<Rightarrow> bool" where
  "cube_root_bits i p k \<longleftrightarrow> (i * 2 ^ 32 + uint k) ^ 3 \<le> p * 2 ^ 96 \<and> p * 2 ^ 96 < (i * 2 ^ 32 + uint k + 1) ^ 3"

text \<open>Section 6.2.2: the message schedule, the 64 steps and the new hash value.\<close>

fun fips_W :: "u32 list \<Rightarrow> nat \<Rightarrow> u32" where
  "fips_W M t =
     (if t < 16 then M ! t
      else fips_sigma1 (fips_W M (t - 2)) + fips_W M (t - 7)
           + fips_sigma0 (fips_W M (t - 15)) + fips_W M (t - 16))"

declare fips_W.simps [simp del]

definition fips_step :: "u32 list \<Rightarrow> regs \<Rightarrow> nat \<Rightarrow> regs" where
  "fips_step M rs t = (case rs of (a, b, c, d, e, f, g, h) \<Rightarrow>
     (let T1 = h + fips_Sigma1 e + fips_Ch e f g + fips_K ! t + fips_W M t;
          T2 = fips_Sigma0 a + fips_Maj a b c
      in (T1 + T2, a, b, c, d + T1, e, f, g)))"

definition fips_compress :: "u32 list \<Rightarrow> u32 list \<Rightarrow> u32 list" where
  "fips_compress H M =
     (case foldl (fips_step M) (H ! 0, H ! 1, H ! 2, H ! 3, H ! 4, H ! 5, H ! 6, H ! 7) [0..<64]
      of (a, b, c, d, e, f, g, h) \<Rightarrow>
        [H ! 0 + a, H ! 1 + b, H ! 2 + c, H ! 3 + d, H ! 4 + e, H ! 5 + f, H ! 6 + g, H ! 7 + h])"

text \<open>The sixteen big-endian words of a 64-byte block.\<close>

definition fips_block :: "byte list \<Rightarrow> u32 list" where
  "fips_block bs = map (\<lambda>i. be_word32 (bs ! (4 * i)) (bs ! (4 * i + 1)) (bs ! (4 * i + 2))
      (bs ! (4 * i + 3))) [0..<16]"

text \<open>The hash value after the complete blocks of a message.\<close>

function fips_blocks :: "u32 list \<Rightarrow> byte list \<Rightarrow> u32 list" where
  "fips_blocks H m =
     (if length m < 64 then H
      else fips_blocks (fips_compress H (fips_block (take 64 m))) (drop 64 m))"
  by pat_completeness auto
termination
  by (relation "measure (\<lambda>(H, m). length m)") auto

declare fips_blocks.simps [simp del]

definition fips_H0 :: "u32 list" where
  "fips_H0 = [0x6a09e667, 0xbb67ae85, 0x3c6ef372, 0xa54ff53a,
              0x510e527f, 0x9b05688c, 0x1f83d9ab, 0x5be0cd19]"

text \<open>Section 5.1.1: a one bit, zero bits up to the next block less eight bytes, the bit length.\<close>

definition fips_padded :: "byte list \<Rightarrow> byte list" where
  "fips_padded m = m @ [0x80] @ replicate ((119 - length m mod 64) mod 64) 0
     @ be_bytes64 (word_of_nat (8 * length m))"

definition fips_sha256 :: "byte list \<Rightarrow> byte list" where
  "fips_sha256 m = concat (map be_bytes32 (fips_blocks fips_H0 (fips_padded m)))"

section \<open>The unrolled rounds are the loop of the standard\<close>

lemma fips_K_cube_roots:
  "list_all2 (\<lambda>(i, p) k. cube_root_bits i p k)
    (map (Pair 1) [2, 3, 5, 7] @ map (Pair 2) [11, 13, 17, 19, 23]
     @ map (Pair 3) [29, 31, 37, 41, 43, 47, 53, 59, 61]
     @ map (Pair 4) [67, 71, 73, 79, 83, 89, 97, 101, 103, 107, 109, 113]
     @ map (Pair 5) [127, 131, 137, 139, 149, 151, 157, 163, 167, 173, 179, 181, 191, 193, 197, 199, 211]
     @ map (Pair 6) [223, 227, 229, 233, 239, 241, 251, 257, 263, 269, 271, 277, 281, 283, 293, 307, 311])
    fips_K"
  by (simp add: fips_K_def cube_root_bits_def)

lemma Ch_fips: "Ch x y z = fips_Ch x y z"
  by (rule bit_word_eqI) (auto simp: Ch_def fips_Ch_def bit_simps)

lemma Maj_fips: "Maj x y z = fips_Maj x y z"
  by (rule bit_word_eqI) (auto simp: Maj_def fips_Maj_def bit_simps)

lemma Sigma0_fips: "Sigma0 x = fips_Sigma0 x"
  by (rule word_eq_upt) (simp add: Sigma0_def fips_Sigma0_def bit_simps upt_explicit word_eval
      flip: numeral_3_eq_3)

lemma Sigma1_fips: "Sigma1 x = fips_Sigma1 x"
  by (rule word_eq_upt) (simp add: Sigma1_def fips_Sigma1_def bit_simps upt_explicit word_eval)

lemma sigma0_fips: "sigma0 x = fips_sigma0 x"
  by (rule word_eq_upt) (simp add: sigma0_def fips_sigma0_def bit_simps upt_explicit word_eval)

lemma sigma1_fips: "sigma1 x = fips_sigma1 x"
  by (rule word_eq_upt) (simp add: sigma1_def fips_sigma1_def bit_simps upt_explicit word_eval)

lemmas sha_functions_fips = Ch_fips Maj_fips Sigma0_fips Sigma1_fips sigma0_fips sigma1_fips

text \<open>
  One call of \<open>Round\<close> is one step of the standard on registers that are renamed instead of
  moved; \<open>rsteps\<close> runs a list of constants and message words.
\<close>

definition rstep :: "regs \<Rightarrow> u32 \<times> u32 \<Rightarrow> regs" where
  "rstep rs kw = (case rs of (a, b, c, d, e, f, g, h) \<Rightarrow> case kw of (k, w) \<Rightarrow>
     (case Round a b c d e f g h k w of (d', h') \<Rightarrow> (h', a, b, c, d', e, f, g)))"

definition rsteps :: "regs \<Rightarrow> (u32 \<times> u32) list \<Rightarrow> regs" where
  "rsteps rs kws = foldl rstep rs kws"

lemma fips_step_rstep: "fips_step M rs t = rstep rs (fips_K ! t, fips_W M t)"
  by (simp add: fips_step_def rstep_def Round_def Let_def sha_functions_fips split: prod.split)

lemma foldl_fips_step:
  "foldl (fips_step M) rs ts = rsteps rs (map (\<lambda>t. (fips_K ! t, fips_W M t)) ts)"
  unfolding rsteps_def by (induction ts arbitrary: rs) (simp_all add: fips_step_rstep)

lemma rsteps_append: "rsteps rs (xs @ ys) = rsteps (rsteps rs xs) ys"
  by (simp add: rsteps_def)

lemma rounds_16_31_steps:
  assumes "w0 + (sigma1 w14 + w9 + sigma0 w1) = v0"
    and "w1 + (sigma1 w15 + w10 + sigma0 w2) = v1"
    and "w2 + (sigma1 v0 + w11 + sigma0 w3) = v2"
    and "w3 + (sigma1 v1 + w12 + sigma0 w4) = v3"
    and "w4 + (sigma1 v2 + w13 + sigma0 w5) = v4"
    and "w5 + (sigma1 v3 + w14 + sigma0 w6) = v5"
    and "w6 + (sigma1 v4 + w15 + sigma0 w7) = v6"
    and "w7 + (sigma1 v5 + v0 + sigma0 w8) = v7"
    and "w8 + (sigma1 v6 + v1 + sigma0 w9) = v8"
    and "w9 + (sigma1 v7 + v2 + sigma0 w10) = v9"
    and "w10 + (sigma1 v8 + v3 + sigma0 w11) = v10"
    and "w11 + (sigma1 v9 + v4 + sigma0 w12) = v11"
    and "w12 + (sigma1 v10 + v5 + sigma0 w13) = v12"
    and "w13 + (sigma1 v11 + v6 + sigma0 w14) = v13"
    and "w14 + (sigma1 v12 + v7 + sigma0 w15) = v14"
    and "w15 + (sigma1 v13 + v8 + sigma0 v0) = v15"
  shows "rounds_16_31 (rs, (w0, w1, w2, w3, w4, w5, w6, w7, w8, w9, w10, w11, w12, w13, w14, w15))
    = (rsteps rs [(0xe49b69c1, v0), (0xefbe4786, v1), (0x0fc19dc6, v2), (0x240ca1cc, v3), (0x2de92c6f, v4), (0x4a7484aa, v5), (0x5cb0a9dc, v6), (0x76f988da, v7), (0x983e5152, v8), (0xa831c66d, v9), (0xb00327c8, v10), (0xbf597fc7, v11), (0xc6e00bf3, v12), (0xd5a79147, v13), (0x06ca6351, v14), (0x14292967, v15)], (v0, v1, v2, v3, v4, v5, v6, v7, v8, v9, v10, v11, v12, v13, v14, v15))"
  by (cases rs) (simp add: rounds_16_31_def assms rsteps_def rstep_def Let_def split: prod.split)

lemma rounds_32_47_steps:
  assumes "w0 + (sigma1 w14 + w9 + sigma0 w1) = v0"
    and "w1 + (sigma1 w15 + w10 + sigma0 w2) = v1"
    and "w2 + (sigma1 v0 + w11 + sigma0 w3) = v2"
    and "w3 + (sigma1 v1 + w12 + sigma0 w4) = v3"
    and "w4 + (sigma1 v2 + w13 + sigma0 w5) = v4"
    and "w5 + (sigma1 v3 + w14 + sigma0 w6) = v5"
    and "w6 + (sigma1 v4 + w15 + sigma0 w7) = v6"
    and "w7 + (sigma1 v5 + v0 + sigma0 w8) = v7"
    and "w8 + (sigma1 v6 + v1 + sigma0 w9) = v8"
    and "w9 + (sigma1 v7 + v2 + sigma0 w10) = v9"
    and "w10 + (sigma1 v8 + v3 + sigma0 w11) = v10"
    and "w11 + (sigma1 v9 + v4 + sigma0 w12) = v11"
    and "w12 + (sigma1 v10 + v5 + sigma0 w13) = v12"
    and "w13 + (sigma1 v11 + v6 + sigma0 w14) = v13"
    and "w14 + (sigma1 v12 + v7 + sigma0 w15) = v14"
    and "w15 + (sigma1 v13 + v8 + sigma0 v0) = v15"
  shows "rounds_32_47 (rs, (w0, w1, w2, w3, w4, w5, w6, w7, w8, w9, w10, w11, w12, w13, w14, w15))
    = (rsteps rs [(0x27b70a85, v0), (0x2e1b2138, v1), (0x4d2c6dfc, v2), (0x53380d13, v3), (0x650a7354, v4), (0x766a0abb, v5), (0x81c2c92e, v6), (0x92722c85, v7), (0xa2bfe8a1, v8), (0xa81a664b, v9), (0xc24b8b70, v10), (0xc76c51a3, v11), (0xd192e819, v12), (0xd6990624, v13), (0xf40e3585, v14), (0x106aa070, v15)], (v0, v1, v2, v3, v4, v5, v6, v7, v8, v9, v10, v11, v12, v13, v14, v15))"
  by (cases rs) (simp add: rounds_32_47_def assms rsteps_def rstep_def Let_def split: prod.split)

lemma rounds_48_63_steps:
  assumes "w0 + (sigma1 w14 + w9 + sigma0 w1) = v0"
    and "w1 + (sigma1 w15 + w10 + sigma0 w2) = v1"
    and "w2 + (sigma1 v0 + w11 + sigma0 w3) = v2"
    and "w3 + (sigma1 v1 + w12 + sigma0 w4) = v3"
    and "w4 + (sigma1 v2 + w13 + sigma0 w5) = v4"
    and "w5 + (sigma1 v3 + w14 + sigma0 w6) = v5"
    and "w6 + (sigma1 v4 + w15 + sigma0 w7) = v6"
    and "w7 + (sigma1 v5 + v0 + sigma0 w8) = v7"
    and "w8 + (sigma1 v6 + v1 + sigma0 w9) = v8"
    and "w9 + (sigma1 v7 + v2 + sigma0 w10) = v9"
    and "w10 + (sigma1 v8 + v3 + sigma0 w11) = v10"
    and "w11 + (sigma1 v9 + v4 + sigma0 w12) = v11"
    and "w12 + (sigma1 v10 + v5 + sigma0 w13) = v12"
    and "w13 + (sigma1 v11 + v6 + sigma0 w14) = v13"
    and "w14 + sigma1 v12 + v7 + sigma0 w15 = v14"
    and "w15 + sigma1 v13 + v8 + sigma0 v0 = v15"
  shows "rounds_48_63 (rs, (w0, w1, w2, w3, w4, w5, w6, w7, w8, w9, w10, w11, w12, w13, w14, w15))
    = rsteps rs [(0x19a4c116, v0), (0x1e376c08, v1), (0x2748774c, v2), (0x34b0bcb5, v3), (0x391c0cb3, v4), (0x4ed8aa4a, v5), (0x5b9cca4f, v6), (0x682e6ff3, v7), (0x748f82ee, v8), (0x78a5636f, v9), (0x84c87814, v10), (0x8cc70208, v11), (0x90befffa, v12), (0xa4506ceb, v13), (0xbef9a3f7, v14), (0xc67178f2, v15)]"
  by (cases rs) (simp add: rounds_48_63_def assms rsteps_def rstep_def Let_def split: prod.split)

text \<open>The message words: the first sixteen are the block, each later one as in the source.\<close>

lemma fips_W_first: "t < 16 \<Longrightarrow> fips_W M t = M ! t"
  by (simp add: fips_W.simps)

lemma fips_W_next:
  "fips_W M n + (sigma1 (fips_W M (n + 14)) + fips_W M (n + 9) + sigma0 (fips_W M (n + 1)))
   = fips_W M (n + 16)"
  by (simp add: fips_W.simps [of M "n + 16"] sigma0_fips sigma1_fips algebra_simps)

definition window :: "u32 list \<Rightarrow> nat \<Rightarrow> msg16" where
  "window M n = (fips_W M n, fips_W M (n + 1), fips_W M (n + 2), fips_W M (n + 3),
     fips_W M (n + 4), fips_W M (n + 5), fips_W M (n + 6), fips_W M (n + 7),
     fips_W M (n + 8), fips_W M (n + 9), fips_W M (n + 10), fips_W M (n + 11),
     fips_W M (n + 12), fips_W M (n + 13), fips_W M (n + 14), fips_W M (n + 15))"

definition kw_list :: "u32 list \<Rightarrow> nat list \<Rightarrow> (u32 \<times> u32) list" where
  "kw_list M ts = map (\<lambda>t. (fips_K ! t, fips_W M t)) ts"

lemmas fips_W_eqs =
  fips_W_next [of _ 0, simplified] fips_W_next [of _ 1, simplified, folded numeral_2_eq_2]
  fips_W_next [of _ 2, simplified] fips_W_next [of _ 3, simplified]
  fips_W_next [of _ 4, simplified] fips_W_next [of _ 5, simplified]
  fips_W_next [of _ 6, simplified] fips_W_next [of _ 7, simplified]
  fips_W_next [of _ 8, simplified] fips_W_next [of _ 9, simplified]
  fips_W_next [of _ 10, simplified] fips_W_next [of _ 11, simplified]
  fips_W_next [of _ 12, simplified] fips_W_next [of _ 13, simplified]
  fips_W_next [of _ 14, simplified] fips_W_next [of _ 15, simplified]
  fips_W_next [of _ 16, simplified] fips_W_next [of _ 17, simplified]
  fips_W_next [of _ 18, simplified] fips_W_next [of _ 19, simplified]
  fips_W_next [of _ 20, simplified] fips_W_next [of _ 21, simplified]
  fips_W_next [of _ 22, simplified] fips_W_next [of _ 23, simplified]
  fips_W_next [of _ 24, simplified] fips_W_next [of _ 25, simplified]
  fips_W_next [of _ 26, simplified] fips_W_next [of _ 27, simplified]
  fips_W_next [of _ 28, simplified] fips_W_next [of _ 29, simplified]
  fips_W_next [of _ 30, simplified] fips_W_next [of _ 31, simplified]
  fips_W_next [of _ 32, simplified] fips_W_next [of _ 33, simplified]
  fips_W_next [of _ 34, simplified] fips_W_next [of _ 35, simplified]
  fips_W_next [of _ 36, simplified] fips_W_next [of _ 37, simplified]
  fips_W_next [of _ 38, simplified] fips_W_next [of _ 39, simplified]
  fips_W_next [of _ 40, simplified] fips_W_next [of _ 41, simplified]
  fips_W_next [of _ 42, simplified] fips_W_next [of _ 43, simplified]
  fips_W_next [of _ 44, simplified] fips_W_next [of _ 45, simplified]
  fips_W_next [of _ 46, simplified] fips_W_next [of _ 47, simplified]

lemmas window_simps = window_def kw_list_def fips_K_def upt_rec_numeral numeral_2_eq_2

lemma rounds_00_15_window:
  assumes "length chunk = 16"
  defines "M \<equiv> map be32_to_cpu chunk"
  shows "rounds_00_15 rs chunk = (rsteps rs (kw_list M [0..<16]), window M 0)"
  by (cases rs)
    (simp add: rounds_00_15_def Let_def assms fips_W_first rsteps_def rstep_def window_def
      kw_list_def fips_K_def upt_explicit numeral_2_eq_2 split: prod.split)

lemma rounds_16_31_window:
  "rounds_16_31 (rs, window M 0) = (rsteps rs (kw_list M [16..<32]), window M 16)"
  using rounds_16_31_steps [OF fips_W_eqs(1-16)] by (simp add: window_simps)

lemma rounds_32_47_window:
  "rounds_32_47 (rs, window M 16) = (rsteps rs (kw_list M [32..<48]), window M 32)"
  using rounds_32_47_steps [OF fips_W_eqs(17-32)] by (simp add: window_simps)

lemma rounds_48_63_window:
  "rounds_48_63 (rs, window M 32) = rsteps rs (kw_list M [48..<64])"
  using rounds_48_63_steps [OF fips_W_eqs(33-46) fips_W_eqs(47-48) [folded add.assoc]]
  by (simp add: window_simps)

lemma foldl_fips_kw: "foldl (fips_step M) rs ts = rsteps rs (kw_list M ts)"
  by (simp add: foldl_fips_step kw_list_def)

lemma kw_list_append: "kw_list M (xs @ ys) = kw_list M xs @ kw_list M ys"
  by (simp add: kw_list_def)

lemma Transform_fips:
  assumes "length chunk = 16"
  shows "Transform st chunk = fips_compress st (map be32_to_cpu chunk)"
proof -
  let ?M = "map be32_to_cpu chunk"
  have groups: "[0..<64] = [0..<16] @ [16..<32] @ [32..<48] @ [48..<64::nat]"
    by (simp add: upt_explicit upt_rec_numeral)
  have "foldl (fips_step ?M) rs [0..<64] =
      rsteps (rsteps (rsteps (rsteps rs (kw_list ?M [0..<16])) (kw_list ?M [16..<32]))
        (kw_list ?M [32..<48])) (kw_list ?M [48..<64])" for rs
    by (simp only: groups foldl_fips_kw kw_list_append rsteps_append)
  then show ?thesis
    by (simp only: Transform_def fips_compress_def rounds_00_15_window [OF assms]
        rounds_16_31_window rounds_32_47_window rounds_48_63_window Let_def)
qed

section \<open>The streaming interface hashes the concatenation of its inputs\<close>

lemma take_4_drop:
  "i + 4 \<le> length bs \<Longrightarrow> take 4 (drop i bs) = [bs ! i, bs ! (i + 1), bs ! (i + 2), bs ! (i + 3)]"
  by (rule nth_equalityI) (auto simp: less_Suc_eq numeral_eq_Suc)

lemma length_u32_view [simp]: "length (u32_view b) = 16"
  by (simp add: u32_view_def)

lemma map_u32_view:
  assumes "length b = 64"
  shows "map be32_to_cpu (u32_view b) = fips_block b"
proof -
  have "be32_to_cpu (le_value (take 4 (drop (4 * i) b)))
      = be_word32 (b ! (4 * i)) (b ! (4 * i + 1)) (b ! (4 * i + 2)) (b ! (4 * i + 3))"
    if "i \<in> set [0..<16]" for i
    using that assms take_4_drop [of "4 * i" b]
    by (simp add: be32_to_cpu_le_value del: le_value.simps)
  then show ?thesis by (simp only: u32_view_def fips_block_def map_map comp_def cong: map_cong)
qed

lemma Transform_block:
  "length b = 64 \<Longrightarrow> Transform H (u32_view b) = fips_compress H (fips_block b)"
  by (simp only: Transform_fips length_u32_view map_u32_view)

lemma fips_blocks_short [simp]: "length t < 64 \<Longrightarrow> fips_blocks H t = H"
  by (simp add: fips_blocks.simps)

lemma fips_blocks_one: "length b = 64 \<Longrightarrow> fips_blocks H b = fips_compress H (fips_block b)"
  by (simp add: fips_blocks.simps)

lemma fips_blocks_append:
  "length a mod 64 = 0 \<Longrightarrow> fips_blocks H (a @ b) = fips_blocks (fips_blocks H a) b"
proof (induction H a rule: fips_blocks.induct)
  case (1 H a)
  show ?case
  proof (cases "length a < 64")
    case True
    with 1 show ?thesis by simp
  next
    case False
    with 1 have "length (drop 64 a) mod 64 = 0" by (simp add: le_mod_geq)
    with 1 False show ?thesis
      by (simp add: fips_blocks.simps [of H a] fips_blocks.simps [of H "a @ b"])
  qed
qed

lemma length_fips_blocks [simp]: "length H = 8 \<Longrightarrow> length (fips_blocks H m) = 8"
proof (induction H m rule: fips_blocks.induct)
  case (1 H m)
  then show ?case
    by (cases "length m < 64") (simp_all add: fips_blocks.simps [of H m] fips_compress_def split: prod.split)
qed

lemma add_chunks_spec:
  "add_chunks ctx d =
     (ctx\<lparr>ctx_s := fips_blocks (ctx_s ctx) d,
          ctx_bytes := ctx_bytes ctx + word_of_nat (length d - length d mod 64)\<rparr>,
      drop (length d - length d mod 64) d)"
proof (induction ctx d rule: add_chunks.induct)
  case (1 ctx d)
  show ?case
  proof (cases "64 \<le> length d")
    case True
    have "(length d - 64) mod 64 = length d mod 64"
      using True by (simp add: le_mod_geq)
    with True 1 show ?thesis
      by (simp add: add_chunks.simps [of ctx d] alignment_ok_def Let_def Transform_block
          fips_blocks.simps [of _ d])
  next
    case False
    then show ?thesis by (simp add: add_chunks.simps [of ctx d])
  qed
qed

text \<open>
  The context represents the message hashed so far: complete blocks in the state, the rest at
  the front of the buffer, the length (modulo the width of the counter) in the counter.
\<close>

definition ctx_repr :: "sha256_ctx \<Rightarrow> byte list \<Rightarrow> bool" where
  "ctx_repr ctx m \<longleftrightarrow> (\<exists>m0 t. m = m0 @ t \<and> length m0 mod 64 = 0 \<and> length t < 64
     \<and> length (ctx_buf ctx) = 64 \<and> take (length t) (ctx_buf ctx) = t
     \<and> ctx_s ctx = fips_blocks fips_H0 m0 \<and> ctx_bytes ctx = word_of_nat (length m))"

lemma ctx_repr_init: "ctx_repr sha256_init []"
  by (simp add: ctx_repr_def sha256_init_def SHA256_INIT_def fips_H0_def)

lemma unat_u64_mod_64: "unat (word_of_nat n mod 64 :: u64) = n mod 64"
  by (simp add: unat_mod unsigned_of_nat take_bit_eq_mod mod_mod_cancel)

lemma ctx_repr_add:
  assumes "ctx_repr ctx m"
  shows "ctx_repr (add ctx d) (m @ d)"
proof -
  obtain m0 t where repr: "m = m0 @ t" "length m0 mod 64 = 0" "length t < 64"
      "length (ctx_buf ctx) = 64" "take (length t) (ctx_buf ctx) = t"
      "ctx_s ctx = fips_blocks fips_H0 m0" "ctx_bytes ctx = word_of_nat (length m)"
    using assms by (auto simp: ctx_repr_def)
  have bufsize: "unat (ctx_bytes ctx mod 64) = length t"
  proof -
    have "length m mod 64 = length t"
      using repr(1-3) by (simp add: mod_add_aligned)
    then show ?thesis by (simp only: repr(7) unat_u64_mod_64)
  qed
  show ?thesis
  proof (cases "length t + length d \<ge> 64")
    case False
    then show ?thesis
      unfolding ctx_repr_def
      using repr bufsize
      by (intro exI [of _ m0] exI [of _ "t @ d"])
        (auto simp: add_def Let_def add_chunks_spec copy_at_def)
  next
    case True
    define b where "b = t @ take (64 - length t) d"
    define r where "r = drop (64 - length t) d"
    have b: "length b = 64" "m @ d = (m0 @ b) @ r"
      using True repr by (auto simp: b_def r_def)
    define q where "q = length r - length r mod 64"
    have q: "length (take q r) mod 64 = 0" "length (drop q r) < 64" "q \<le> length r"
      by (simp_all add: q_def minus_mod_eq_mult_div)
    let ?m = "m0 @ b @ take q r"
    have state: "fips_blocks (fips_compress (fips_blocks fips_H0 m0) (fips_block b)) r
        = fips_blocks fips_H0 ?m"
    proof -
      have "fips_blocks H r = fips_blocks H (take q r)" for H
        using fips_blocks_append [of "take q r" H "drop q r"] q by simp
      then show ?thesis
        using b repr by (simp add: fips_blocks_append mod_add_eq flip: fips_blocks_one)
    qed
    have buffer: "copy_at (ctx_buf ctx) (length t) (take (64 - length t) d) = b"
      using True repr by (simp add: copy_at_def b_def)
    have bytes: "word_of_nat (length m) + word_of_nat (64 - length t) + word_of_nat q
        + word_of_nat (length r - q) = (word_of_nat (length (m @ d)) :: u64)"
    proof -
      have "length m + (64 - length t) + q + (length r - q) = length (m @ d)"
        using b repr q True by (simp add: r_def)
      then show ?thesis by (simp only: flip: of_nat_add)
    qed
    have added: "add ctx d = ctx\<lparr>ctx_buf := copy_at b 0 (drop q r),
        ctx_bytes := word_of_nat (length (m @ d)), ctx_s := fips_blocks fips_H0 ?m\<rparr>"
      using True repr(2-7) b(1) q bufsize state buffer bytes
      by (cases "length r = q") (simp_all add: add_def Let_def add_chunks_spec Transform_block copy_at_def
          del: of_nat_diff of_nat_add length_append flip: r_def q_def)
    have "m @ d = ?m @ drop q r" "length ?m mod 64 = 0"
      using b(1) q repr(2) by (simp_all only: b(2) append_assoc append_take_drop_id length_append
          mod_add_aligned) simp
    moreover have "length (copy_at b 0 (drop q r)) = 64"
        "take (length (drop q r)) (copy_at b 0 (drop q r)) = drop q r"
      using b(1) q by (simp_all add: copy_at_def)
    ultimately show ?thesis
      unfolding ctx_repr_def added using q(2) by (intro exI [of _ ?m] exI [of _ "drop q r"]) simp
  qed
qed

text \<open>The two \<open>add\<close> calls of \<open>sha256_done\<close> append the padding of the standard.\<close>

lemma take_pad: "n \<le> 63 \<Longrightarrow> take (1 + n) pad = 0x80 # replicate n 0"
  by (simp add: pad_def)

lemma push_bit_3_u64: "push_bit 3 (word_of_nat n :: u64) = word_of_nat (8 * n)"
  by (simp add: push_bit_eq_mult)

lemma padded_blocks: "length (fips_padded m) mod 64 = 0"
proof -
  let ?r = "length m mod 64"
  have "(?r + (9 + (119 - ?r) mod 64)) mod 64 = 0"
  proof (cases "?r \<le> 55")
    case True
    then have "119 - ?r = 64 + (55 - ?r)" by simp
    then have "(119 - ?r) mod 64 = 55 - ?r" by (simp only: mod_add_self1) simp
    then show ?thesis using True by simp
  next
    case False
    moreover have "?r < 64" by simp
    ultimately have "(119 - ?r) mod 64 = 119 - ?r" by (intro mod_less) linarith
    moreover from \<open>?r < 64\<close> have "?r + (9 + (119 - ?r)) = 128" by linarith
    ultimately show ?thesis by simp
  qed
  moreover have "length (fips_padded m) = length m + (9 + (119 - ?r) mod 64)"
    by (simp add: fips_padded_def be_bytes64_def)
  ultimately show ?thesis by (simp only: mod_add_left_eq)
qed

lemma ctx_repr_done:
  assumes "ctx_repr ctx m"
  shows "snd (sha256_done ctx) = fips_sha256 m"
proof -
  have bytes: "ctx_bytes ctx = word_of_nat (length m)"
    using assms by (auto simp: ctx_repr_def)
  let ?n = "(119 - length m mod 64) mod 64"
  let ?ctx = "add (add ctx (take (1 + ?n) pad)) (be_bytes64 (word_of_nat (8 * length m)))"
  have "take (1 + ?n) pad = 0x80 # replicate ?n 0"
    by (rule take_pad) (simp add: less_Suc_eq_le [symmetric])
  then have "ctx_repr ?ctx (fips_padded m)"
    using ctx_repr_add [OF ctx_repr_add [OF assms], of "take (1 + ?n) pad"]
    by (simp only: fips_padded_def append.simps append_assoc)
  then have "ctx_s ?ctx = fips_blocks fips_H0 (fips_padded m)"
    using padded_blocks [of m] by (auto simp: ctx_repr_def fips_blocks_append)
  moreover have "snd (sha256_done ctx) = concat (map be_bytes32 (ctx_s ?ctx))"
    by (simp add: sha256_done_def Let_def bytes push_bit_3_u64 unat_u64_mod_64
        le_image_cpu_to_be64 le_image_cpu_to_be32)
  ultimately show ?thesis by (simp add: fips_sha256_def)
qed

text \<open>
  A run of updates; the assertion of each one is kept.
\<close>

fun sha256_updates :: "sha256_ctx \<Rightarrow> byte list list \<Rightarrow> sha256_ctx option" where
  "sha256_updates ctx [] = Some ctx"
| "sha256_updates ctx (p # ps) =
     (case sha256_update ctx p of None \<Rightarrow> None | Some ctx' \<Rightarrow> sha256_updates ctx' ps)"

lemma sha256_update_repr:
  assumes "ctx_repr ctx m" "length m < 2 ^ 64 - 1"
  shows "sha256_update ctx p = Some (add ctx p)"
proof -
  have "ctx_bytes ctx \<noteq> - 1"
  proof
    assume "ctx_bytes ctx = - 1"
    then have "unat (word_of_nat (length m) :: u64) = unat (- 1 :: u64)"
      using assms by (auto simp: ctx_repr_def)
    then show False using assms 
      by (simp add: unsigned_of_nat take_bit_nat_eq_self unsigned_minus_1_eq_mask mask_eq_exp_minus_1)
  qed
  then show ?thesis by (simp add: sha256_update_def check_sha256_def)
qed

lemma sha256_updates_repr:
  "ctx_repr ctx m \<Longrightarrow> length m + length (concat ps) < 2 ^ 64 - 1 \<Longrightarrow>
   \<exists>ctx'. sha256_updates ctx ps = Some ctx' \<and> ctx_repr ctx' (m @ concat ps)"
proof (induction ps arbitrary: ctx m)
  case (Cons p ps)
  then have "sha256_update ctx p = Some (add ctx p)"
    by (intro sha256_update_repr) auto
  then show ?case
    using Cons.IH [OF ctx_repr_add [OF Cons.prems(1), of p]] Cons.prems(2) by simp
qed simp

lemma le_image_feeders:
  "le_image v = rev (be_bytes32 v)" "le_image w = rev (be_bytes64 w)"
  "le_image (cpu_to_be16 h) = rev (le_image h)" "le_image (b :: byte) = [b]"
proof -
  show "le_image v = rev (be_bytes32 v)" "le_image w = rev (be_bytes64 w)" "le_image (b :: byte) = [b]"
    by (simp_all add: le_image_def be_bytes32_def be_bytes64_def upt_explicit)
  show "le_image (cpu_to_be16 h) = rev (le_image h)"
    by (simp add: le_image_def cpu_to_be16_def BSWAP_16_def upt_explicit)
      (intro conjI; rule word_eq_upt; simp add: bit_simps upt_explicit)
qed

lemma sha256_fips: "length p < 2 ^ 61 \<Longrightarrow> sha256 p = Some (fips_sha256 p)"
  using sha256_update_repr [OF ctx_repr_init, of p]
    ctx_repr_done [OF ctx_repr_add [OF ctx_repr_init], of p]
  by (simp add: sha256_def)

lemma length_fips_sha256: "length (fips_sha256 p) = 32"
proof -
  have "length (fips_blocks fips_H0 (fips_padded p)) = 8" by (simp add: fips_H0_def)
  moreover have "length (concat (map be_bytes32 ws)) = 4 * length ws" for ws
    by (induction ws) (simp_all add: be_bytes32_def)
  ultimately show ?thesis by (simp add: fips_sha256_def)
qed

section \<open>Properties\<close>

text \<open>
  C8. The hash function of sha256.c computes SHA-256: for every message below 2^61 bytes
  (the length FIPS 180-4 is defined for) the assertion of the update holds and the 32 bytes
  returned are the hash of FIPS 180-4 of the message, computed there by the schedule, the
  compression loop and the padding of the standard.
\<close>

theorem sha256_is_fips:
  assumes "length p < 2 ^ 61"
  shows "sha256 p = Some (fips_sha256 p) \<and> length (fips_sha256 p) = 32"
  using assms by (simp add: sha256_fips length_fips_sha256)

theorem sha256_is_fips_witness:
  "sha256 [97, 98, 99] = Some (fips_sha256 [97, 98, 99]) \<and> length (fips_sha256 [97, 98, 99]) = 32"
  by (rule sha256_is_fips) simp

text \<open>
  C30. Streaming: however a message of fewer than 2^61 bytes is cut into calls of
  sha256_update, no assertion fails and sha256_done returns the hash of the whole message,
  and leaves a context on which a further sha256_update fails its assertion.
\<close>

theorem sha256_streaming:
  assumes "length (concat ps) < 2 ^ 61"
  shows "\<exists>ctx. sha256_updates sha256_init ps = Some ctx
     \<and> snd (sha256_done ctx) = fips_sha256 (concat ps)
     \<and> sha256_update (fst (sha256_done ctx)) q = None"
proof -
  obtain ctx where "sha256_updates sha256_init ps = Some ctx" "ctx_repr ctx (concat ps)"
    using sha256_updates_repr [OF ctx_repr_init, of ps] assms by auto
  moreover have "sha256_update (fst (sha256_done ctx)) q = None"
    by (simp add: sha256_done_def Let_def sha256_update_def check_sha256_def invalidate_sha256_def)
  ultimately show ?thesis using ctx_repr_done by blast
qed

theorem sha256_streaming_witness:
  "\<exists>ctx. sha256_updates sha256_init [[97], [], [98, 99]] = Some ctx
     \<and> snd (sha256_done ctx) = fips_sha256 (concat [[97], [], [98, 99]])
     \<and> sha256_update (fst (sha256_done ctx)) [0] = None"
  by (rule sha256_streaming) simp

text \<open>
  The fixed-width feeders hash the bytes of the integer in the byte order of their name:
  the big-endian ones are updates with the most significant byte first, the little-endian
  ones and the native ones (on the little-endian configuration) with the least significant
  byte first.
\<close>

theorem sha256_integer_feeders:
  "sha256_be32 ctx v = sha256_update ctx (be_bytes32 v)
   \<and> sha256_be64 ctx w = sha256_update ctx (be_bytes64 w)
   \<and> sha256_le32 ctx v = sha256_update ctx (rev (be_bytes32 v))
   \<and> sha256_le64 ctx w = sha256_update ctx (rev (be_bytes64 w))
   \<and> sha256_u32 ctx v = sha256_le32 ctx v \<and> sha256_u64 ctx w = sha256_le64 ctx w
   \<and> sha256_be16 ctx h = sha256_update ctx (rev (le_image h))
   \<and> sha256_le16 ctx h = sha256_u16 ctx h \<and> sha256_u8 ctx b = sha256_update ctx [b]"
  by (simp add: sha256_be32_def sha256_be64_def sha256_le32_def sha256_le64_def sha256_u32_def
      sha256_u64_def sha256_be16_def sha256_le16_def sha256_u16_def sha256_u8_def
      le_image_cpu_to_be64 le_image_cpu_to_be32 le_image_feeders(3,4) cpu_to_le32_def cpu_to_le64_def
      cpu_to_le16_def)
    (simp add: le_image_feeders(1,2))

end
