(* ===== verification/Base64.thy ===== *)
theory Base64
  imports Nostr_Prelude
begin

text \<open>
  Base64: \<open>src/src/nostril/base64.c\<close> and \<open>base64.h\<close>. A map structure is a record of the two
  tables; a \<open>char\<close> is a byte, and the \<open>(char)0xff\<close> that marks a letter outside the alphabet is
  the byte 0xff (the configuration has a signed \<open>char\<close>, like the \<open>signed char\<close> table). A
  destination is the list of its bytes; the result of an operation that can fail is the
  error left in \<open>errno\<close> or the returned count, with the destination after the call. \<open>None\<close>
  is a failed assertion, or the overrun of the four bytes of \<open>longsrc\<close>.

  The reference is the grouping of RFC 4648: three bytes are a 24-bit number, cut into four
  six-bit digits. What the code needs of a map structure is the locale \<open>b64_maps\<close>; it is
  interpreted on the pregenerated table, and holds for every structure that
  \<open>base64_init_maps\<close> makes of an alphabet of 64 distinct letters with \<open>A\<close> and without \<open>=\<close>.
\<close>

section \<open>Data\<close>

record base64_maps_t =
  encode_map :: "byte list"
  decode_map :: "byte list"

datatype b64_errno = EOVERFLOW | EDOM | EINVAL

text \<open>The outcome of a call that writes a destination: result and destination afterwards.\<close>

type_synonym b64_result = "((b64_errno + nat) \<times> byte list) option"

section \<open>Encoding\<close>

definition sixbit_to_b64 :: "base64_maps_t \<Rightarrow> byte \<Rightarrow> byte option" where
  "sixbit_to_b64 maps sixbit =
     (if sixbit \<le> 63 then Some (encode_map maps ! unat sixbit) else None)"

definition sixbit_from_b64 :: "base64_maps_t \<Rightarrow> byte \<Rightarrow> b64_errno + byte" where
  "sixbit_from_b64 maps b64letter =
     (let ret = decode_map maps ! unat b64letter
      in if ret = 0xff then Inl EDOM else Inr ret)"

definition base64_char_in_alphabet :: "base64_maps_t \<Rightarrow> byte \<Rightarrow> bool" where
  "base64_char_in_alphabet maps b64char \<longleftrightarrow> decode_map maps ! unat b64char \<noteq> 0xff"

definition base64_init_maps :: "byte list \<Rightarrow> base64_maps_t" where
  "base64_init_maps src =
     \<lparr>encode_map = take 64 src,
      decode_map = fold (\<lambda>i dm. dm[unat (src ! i) := word_of_nat i]) [0..<64]
        (replicate 256 0xff)\<rparr>"

definition base64_encoded_length :: "nat \<Rightarrow> nat" where
  "base64_encoded_length srclen = ((srclen + 2) div 3) * 4"

definition base64_encode_triplet_using_maps ::
    "base64_maps_t \<Rightarrow> byte \<Rightarrow> byte \<Rightarrow> byte \<Rightarrow> byte list option" where
  "base64_encode_triplet_using_maps maps a b c =
     those [sixbit_to_b64 maps (drop_bit 2 (a AND 0xfc)),
            sixbit_to_b64 maps (push_bit 4 (a AND 0x3) OR drop_bit 4 (b AND 0xf0)),
            sixbit_to_b64 maps (drop_bit 6 (c AND 0xc0) OR push_bit 2 (b AND 0xf)),
            sixbit_to_b64 maps (c AND 0x3f)]"

definition base64_encode_tail_using_maps :: "base64_maps_t \<Rightarrow> byte list \<Rightarrow> byte list option" where
  "base64_encode_tail_using_maps maps src =
     (if length src \<le> 3
      then let longsrc = copy_at (replicate 3 0) 0 src
           in map_option
                (\<lambda>dest. copy_at dest (1 + length src) (replicate (3 - length src) 0x3d))
                (base64_encode_triplet_using_maps maps (longsrc ! 0) (longsrc ! 1) (longsrc ! 2))
      else None)"

text \<open>The \<open>while\<close> loop: the source that is left, the destination and its offset.\<close>

fun encode_loop ::
    "base64_maps_t \<Rightarrow> byte list \<Rightarrow> byte list \<Rightarrow> nat \<Rightarrow> (byte list \<times> byte list \<times> nat) option" where
  "encode_loop maps (a # b # c # src) dest dest_offset =
     (case base64_encode_triplet_using_maps maps a b c of
        None \<Rightarrow> None
      | Some q \<Rightarrow> encode_loop maps src (copy_at dest dest_offset q) (dest_offset + 4))"
| "encode_loop maps src dest dest_offset = Some (src, dest, dest_offset)"

definition base64_encode_using_maps ::
    "base64_maps_t \<Rightarrow> byte list \<Rightarrow> nat \<Rightarrow> byte list \<Rightarrow> b64_result" where
  "base64_encode_using_maps maps dest destlen src =
     (if destlen < base64_encoded_length (length src) then Some (Inl EOVERFLOW, dest)
      else case encode_loop maps src dest 0 of
        None \<Rightarrow> None
      | Some (rest, dest, dest_offset) \<Rightarrow>
          map_option
            (\<lambda>(dest, dest_offset).
               (Inr dest_offset, copy_at dest dest_offset (replicate (destlen - dest_offset) 0)))
            (if rest \<noteq> []
             then map_option (\<lambda>q. (copy_at dest dest_offset q, dest_offset + 4))
                    (base64_encode_tail_using_maps maps rest)
             else Some (dest, dest_offset)))"

section \<open>Decoding\<close>

definition base64_decoded_length :: "nat \<Rightarrow> nat" where
  "base64_decoded_length srclen = (srclen + 3) div 4 * 3"

text \<open>The three bytes for \<open>dest\<close>; \<open>>>\<close> on the promoted \<open>signed char\<close> is arithmetic.\<close>

definition base64_decode_quartet_using_maps ::
    "base64_maps_t \<Rightarrow> byte \<Rightarrow> byte \<Rightarrow> byte \<Rightarrow> byte \<Rightarrow> b64_errno + byte list" where
  "base64_decode_quartet_using_maps maps s0 s1 s2 s3 =
     (case (sixbit_from_b64 maps s0, sixbit_from_b64 maps s1,
            sixbit_from_b64 maps s2, sixbit_from_b64 maps s3) of
        (Inr a, Inr b, Inr c, Inr d) \<Rightarrow>
          Inr [push_bit 2 a OR signed_drop_bit 4 b,
               push_bit 4 (b AND 0xf) OR signed_drop_bit 2 c,
               push_bit 6 (c AND 0x3) OR d]
      | _ \<Rightarrow> Inl EDOM)"

text \<open>The padding symbols at the end are thrown away from the right.\<close>

definition strip_padding :: "byte list \<Rightarrow> byte list" where
  "strip_padding src = rev (dropWhile (\<lambda>c. c = 0x3d) (rev src))"

definition base64_decode_tail_using_maps ::
    "base64_maps_t \<Rightarrow> byte list \<Rightarrow> nat \<Rightarrow> byte list \<Rightarrow> b64_result" where
  "base64_decode_tail_using_maps maps dest dest_offset src =
     (let stripped = strip_padding src; insize = length stripped in
      if insize = 0 then Some (Inr 0, dest)
      else if insize = 1 then Some (Inl EINVAL, dest)
      else if 4 < insize then None
      else let longsrc = stripped @ replicate (4 - insize) 0x41 in
        case base64_decode_quartet_using_maps maps
               (longsrc ! 0) (longsrc ! 1) (longsrc ! 2) (longsrc ! 3) of
          Inl e \<Rightarrow> Some (Inl e, dest)
        | Inr q \<Rightarrow> Some (Inr (insize - 1), copy_at dest dest_offset q))"

text \<open>The \<open>for\<close> loop runs while more than four letters are left.\<close>

fun decode_loop ::
    "base64_maps_t \<Rightarrow> byte list \<Rightarrow> byte list \<Rightarrow> nat \<Rightarrow> (b64_errno + byte list \<times> nat) \<times> byte list" where
  "decode_loop maps (a # b # c # d # e # src) dest dest_offset =
     (case base64_decode_quartet_using_maps maps a b c d of
        Inl err \<Rightarrow> (Inl err, dest)
      | Inr q \<Rightarrow> decode_loop maps (e # src) (copy_at dest dest_offset q) (dest_offset + 3))"
| "decode_loop maps src dest dest_offset = (Inr (src, dest_offset), dest)"

definition base64_decode_using_maps ::
    "base64_maps_t \<Rightarrow> byte list \<Rightarrow> nat \<Rightarrow> byte list \<Rightarrow> b64_result" where
  "base64_decode_using_maps maps dest destlen src =
     (if destlen < base64_decoded_length (length src) then Some (Inl EOVERFLOW, dest)
      else case decode_loop maps src dest 0 of
        (Inl err, dest) \<Rightarrow> Some (Inl err, dest)
      | (Inr (rest, dest_offset), dest) \<Rightarrow>
          (case base64_decode_tail_using_maps maps dest dest_offset rest of
             None \<Rightarrow> None
           | Some (Inl err, dest) \<Rightarrow> Some (Inl err, dest)
           | Some (Inr more_bytes, dest) \<Rightarrow>
               let dest_offset = dest_offset + more_bytes in
               Some (Inr dest_offset,
                     copy_at dest dest_offset (replicate (destlen - dest_offset) 0))))"

section \<open>The maps of RFC 4648\<close>

definition base64_maps_rfc4648 :: base64_maps_t where
  "base64_maps_rfc4648 =
     \<lparr>encode_map = cstr ''ABCDEFGHIJKLMNOPQRSTUVWXYZabcdefghijklmnopqrstuvwxyz0123456789+/'',
      decode_map =
       [0xff, 0xff, 0xff, 0xff, 0xff, 0xff, 0xff, 0xff, 0xff, 0xff, 0xff, 0xff, 0xff, 0xff, 0xff, 0xff,
        0xff, 0xff, 0xff, 0xff, 0xff, 0xff, 0xff, 0xff, 0xff, 0xff, 0xff, 0xff, 0xff, 0xff, 0xff, 0xff,
        0xff, 0xff, 0xff, 0xff, 0xff, 0xff, 0xff, 0xff, 0xff, 0xff, 0xff, 0x3e, 0xff, 0xff, 0xff, 0x3f,
        0x34, 0x35, 0x36, 0x37, 0x38, 0x39, 0x3a, 0x3b, 0x3c, 0x3d, 0xff, 0xff, 0xff, 0xff, 0xff, 0xff,
        0xff, 0x00, 0x01, 0x02, 0x03, 0x04, 0x05, 0x06, 0x07, 0x08, 0x09, 0x0a, 0x0b, 0x0c, 0x0d, 0x0e,
        0x0f, 0x10, 0x11, 0x12, 0x13, 0x14, 0x15, 0x16, 0x17, 0x18, 0x19, 0xff, 0xff, 0xff, 0xff, 0xff,
        0xff, 0x1a, 0x1b, 0x1c, 0x1d, 0x1e, 0x1f, 0x20, 0x21, 0x22, 0x23, 0x24, 0x25, 0x26, 0x27, 0x28,
        0x29, 0x2a, 0x2b, 0x2c, 0x2d, 0x2e, 0x2f, 0x30, 0x31, 0x32, 0x33, 0xff, 0xff, 0xff, 0xff, 0xff,
        0xff, 0xff, 0xff, 0xff, 0xff, 0xff, 0xff, 0xff, 0xff, 0xff, 0xff, 0xff, 0xff, 0xff, 0xff, 0xff,
        0xff, 0xff, 0xff, 0xff, 0xff, 0xff, 0xff, 0xff, 0xff, 0xff, 0xff, 0xff, 0xff, 0xff, 0xff, 0xff,
        0xff, 0xff, 0xff, 0xff, 0xff, 0xff, 0xff, 0xff, 0xff, 0xff, 0xff, 0xff, 0xff, 0xff, 0xff, 0xff,
        0xff, 0xff, 0xff, 0xff, 0xff, 0xff, 0xff, 0xff, 0xff, 0xff, 0xff, 0xff, 0xff, 0xff, 0xff, 0xff,
        0xff, 0xff, 0xff, 0xff, 0xff, 0xff, 0xff, 0xff, 0xff, 0xff, 0xff, 0xff, 0xff, 0xff, 0xff, 0xff,
        0xff, 0xff, 0xff, 0xff, 0xff, 0xff, 0xff, 0xff, 0xff, 0xff, 0xff, 0xff, 0xff, 0xff, 0xff, 0xff,
        0xff, 0xff, 0xff, 0xff, 0xff, 0xff, 0xff, 0xff, 0xff, 0xff, 0xff, 0xff, 0xff, 0xff, 0xff, 0xff,
        0xff, 0xff, 0xff, 0xff, 0xff, 0xff, 0xff, 0xff, 0xff, 0xff, 0xff, 0xff, 0xff, 0xff, 0xff, 0xff]\<rparr>"

definition base64_encode :: "byte list \<Rightarrow> nat \<Rightarrow> byte list \<Rightarrow> b64_result" where
  "base64_encode dest destlen src = base64_encode_using_maps base64_maps_rfc4648 dest destlen src"

definition base64_encode_triplet :: "byte \<Rightarrow> byte \<Rightarrow> byte \<Rightarrow> byte list option" where
  "base64_encode_triplet a b c = base64_encode_triplet_using_maps base64_maps_rfc4648 a b c"

definition base64_encode_tail :: "byte list \<Rightarrow> byte list option" where
  "base64_encode_tail src = base64_encode_tail_using_maps base64_maps_rfc4648 src"

definition base64_decode :: "byte list \<Rightarrow> nat \<Rightarrow> byte list \<Rightarrow> b64_result" where
  "base64_decode dest destlen src = base64_decode_using_maps base64_maps_rfc4648 dest destlen src"

definition base64_decode_quartet :: "byte \<Rightarrow> byte \<Rightarrow> byte \<Rightarrow> byte \<Rightarrow> b64_errno + byte list" where
  "base64_decode_quartet s0 s1 s2 s3 =
     base64_decode_quartet_using_maps base64_maps_rfc4648 s0 s1 s2 s3"

definition base64_decode_tail :: "byte list \<Rightarrow> nat \<Rightarrow> byte list \<Rightarrow> b64_result" where
  "base64_decode_tail dest dest_offset src =
     base64_decode_tail_using_maps base64_maps_rfc4648 dest dest_offset src"

section \<open>Reference: the groups of RFC 4648\<close>

definition group24 :: "byte \<Rightarrow> byte \<Rightarrow> byte \<Rightarrow> u32" where
  "group24 a b c = push_bit 16 (ucast a) OR push_bit 8 (ucast b) OR ucast c"

text \<open>Digit \<open>k\<close> of a group, the most significant one first, in the alphabet of the maps.\<close>

definition b64_digit :: "byte list \<Rightarrow> u32 \<Rightarrow> nat \<Rightarrow> byte" where
  "b64_digit alphabet g k = alphabet ! unat (drop_bit (18 - 6 * k) g AND 63)"

fun b64_text :: "byte list \<Rightarrow> byte list \<Rightarrow> byte list" where
  "b64_text al [] = []"
| "b64_text al [a] = map (b64_digit al (group24 a 0 0)) [0, 1] @ [0x3d, 0x3d]"
| "b64_text al [a, b] = map (b64_digit al (group24 a b 0)) [0, 1, 2] @ [0x3d]"
| "b64_text al (a # b # c # bs) = map (b64_digit al (group24 a b c)) [0, 1, 2, 3] @ b64_text al bs"

section \<open>Well-formed maps\<close>

text \<open>
  What encoding and decoding rely on of a map structure: the tables have their sizes, the
  decoding table inverts the encoding table, the padding symbol is no letter, and \<open>A\<close>, which
  the decoder fills an incomplete quartet with, is one.
\<close>

locale b64_maps =
  fixes maps :: base64_maps_t
  assumes length_encode_map: "length (encode_map maps) = 64"
    and decode_encode_map: "i < 64 \<Longrightarrow> decode_map maps ! unat (encode_map maps ! i) = word_of_nat i"
    and no_padding_letter: "i < 64 \<Longrightarrow> encode_map maps ! i \<noteq> 0x3d"
    and filler_letter: "decode_map maps ! unat (0x41 :: byte) \<noteq> 0xff"

text \<open>The bytes and the digits of a group determine each other.\<close>

lemma sixbit_bound: "unat ((x :: u32) AND 63) < 64"
proof -
  have "x AND 63 \<le> 63" by (rule word_and_le1)
  then show ?thesis by (simp add: word_le_nat_alt)
qed

definition digit_value :: "u32 \<Rightarrow> nat \<Rightarrow> byte" where
  "digit_value g k = ucast (drop_bit (18 - 6 * k) g AND 63)"

lemma unat_digit_value: "unat (digit_value g k) = unat (drop_bit (18 - 6 * k) g AND 63)"
  using sixbit_bound [of "drop_bit (18 - 6 * k) g"]
  by (simp add: digit_value_def unsigned_ucast_eq take_bit_nat_eq_self)

lemma digit_value_less: "unat (digit_value g k) < 64"
  by (simp add: unat_digit_value sixbit_bound)

lemma group_digits:
  "drop_bit 2 (a AND 0xfc) = digit_value (group24 a b c) 0"
  "push_bit 4 (a AND 0x3) OR drop_bit 4 (b AND 0xf0) = digit_value (group24 a b c) 1"
  "drop_bit 6 (c AND 0xc0) OR push_bit 2 (b AND 0xf) = digit_value (group24 a b c) 2"
  "c AND 0x3f = digit_value (group24 a b c) 3"
  unfolding digit_value_def group24_def
  by (rule word_eq_upt; simp add: bit_simps upt_explicit word_eval)+

lemma digits_group:
  "push_bit 2 (digit_value (group24 a b c) 0) OR signed_drop_bit 4 (digit_value (group24 a b c) 1) = a"
  "push_bit 4 (digit_value (group24 a b c) 1 AND 0xf) OR
     signed_drop_bit 2 (digit_value (group24 a b c) 2) = b"
  "push_bit 6 (digit_value (group24 a b c) 2 AND 0x3) OR digit_value (group24 a b c) 3 = c"
  unfolding digit_value_def group24_def
  by (rule word_eq_upt; simp add: bit_simps upt_explicit word_eval;
      simp add: numeral_2_eq_2 numeral_3_eq_3)+

text \<open>A destination is written by the loop and the tail; the calls after the length check, as a whole.\<close>

definition encode_body ::
    "base64_maps_t \<Rightarrow> byte list \<Rightarrow> byte list \<Rightarrow> nat \<Rightarrow> (byte list \<times> nat) option" where
  "encode_body maps src dest off =
     (case encode_loop maps src dest off of
        None \<Rightarrow> None
      | Some (rest, dest, off) \<Rightarrow>
          if rest \<noteq> []
          then map_option (\<lambda>q. (copy_at dest off q, off + 4)) (base64_encode_tail_using_maps maps rest)
          else Some (dest, off))"

definition decode_body :: "base64_maps_t \<Rightarrow> byte list \<Rightarrow> byte list \<Rightarrow> nat \<Rightarrow> b64_result" where
  "decode_body maps src dest off =
     (case decode_loop maps src dest off of
        (Inl err, dest) \<Rightarrow> Some (Inl err, dest)
      | (Inr (rest, o'), dest) \<Rightarrow>
          map_option (\<lambda>(r, d). (map_sum id ((+) o') r, d))
            (base64_decode_tail_using_maps maps dest o' rest))"

lemma base64_encode_body:
  "base64_encode_using_maps maps dest destlen src =
     (if destlen < base64_encoded_length (length src) then Some (Inl EOVERFLOW, dest)
      else map_option (\<lambda>(d, n). (Inr n, copy_at d n (replicate (destlen - n) 0)))
        (encode_body maps src dest 0))"
  by (auto simp: base64_encode_using_maps_def encode_body_def split: option.split)

lemma base64_decode_body:
  "base64_decode_using_maps maps dest destlen src =
     (if destlen < base64_decoded_length (length src) then Some (Inl EOVERFLOW, dest)
      else map_option (\<lambda>(r, d). case r of Inl e \<Rightarrow> (Inl e, d)
        | Inr n \<Rightarrow> (Inr n, copy_at d n (replicate (destlen - n) 0))) (decode_body maps src dest 0))"
  by (auto simp: base64_decode_using_maps_def decode_body_def Let_def
      split: prod.split sum.split option.split)

lemma length_quartet:
  "base64_decode_quartet_using_maps maps a b c d = Inr q \<Longrightarrow> length q = 3"
  by (auto simp: base64_decode_quartet_using_maps_def split: sum.splits)

lemma strip_padding_prefix: "\<exists>n. src = strip_padding src @ replicate n 0x3d"
proof -
  have "rev src = takeWhile (\<lambda>c. c = 0x3d) (rev src) @ dropWhile (\<lambda>c. c = 0x3d) (rev src)"
    by simp
  then have "src = strip_padding src @ rev (takeWhile (\<lambda>c. c = 0x3d) (rev src))"
    unfolding strip_padding_def by (metis rev_append rev_rev_ident)
  moreover have "\<forall>c \<in> set (rev (takeWhile (\<lambda>c. c = 0x3d) (rev src))). c = 0x3d"
    by (auto dest: set_takeWhileD)
  ultimately show ?thesis by (metis replicate_eqI)
qed

lemma length_strip_padding: "length (strip_padding src) \<le> length src"
  by (simp add: strip_padding_def length_dropWhile_le [of _ "rev src", simplified])

lemma decode_tail_frame:
  assumes "length src \<le> 4" "off + base64_decoded_length (length src) \<le> length dest"
  shows "\<exists>r dest'. base64_decode_tail_using_maps maps dest off src = Some (r, dest')
     \<and> length dest' = length dest
     \<and> drop (off + base64_decoded_length (length src)) dest'
         = drop (off + base64_decoded_length (length src)) dest
     \<and> take off dest' = take off dest
     \<and> (\<forall>n. r = Inr n \<longrightarrow> n \<le> base64_decoded_length (length src))"
proof (cases "strip_padding src = []")
  case True
  then show ?thesis by (simp add: base64_decode_tail_using_maps_def)
next
  case False
  then have "src \<noteq> []" by (auto simp: strip_padding_def)
  then have "(length src + 3) div 4 = 1"
    using assms(1) by (cases src) auto
  then have "base64_decoded_length (length src) = 3"
    by (simp add: base64_decoded_length_def)
  with assms False length_strip_padding [of src] show ?thesis
    by (auto simp: base64_decode_tail_using_maps_def Let_def dest: length_quartet split: sum.split)
qed

lemma decode_loop_short: "length src \<le> 4 \<Longrightarrow> decode_loop maps src dest off = (Inr (src, off), dest)"
  by (cases "(maps, src, dest, off)" rule: decode_loop.cases) auto

lemma decode_body_short:
  "length src \<le> 4 \<Longrightarrow> decode_body maps src dest off
    = map_option (\<lambda>(r, d). (map_sum id ((+) off) r, d)) (base64_decode_tail_using_maps maps dest off src)"
  by (simp add: decode_body_def decode_loop_short)

lemma decode_body_tail_frame:
  assumes "length src \<le> 4" "off + base64_decoded_length (length src) \<le> length dest"
  shows "\<exists>r dest'. decode_body maps src dest off = Some (r, dest') \<and> length dest' = length dest
     \<and> drop (off + base64_decoded_length (length src)) dest'
         = drop (off + base64_decoded_length (length src)) dest
     \<and> take off dest' = take off dest
     \<and> (\<forall>n. r = Inr n \<longrightarrow> off \<le> n \<and> n \<le> off + base64_decoded_length (length src))"
proof -
  obtain r dest' where "base64_decode_tail_using_maps maps dest off src = Some (r, dest')"
      "length dest' = length dest" "take off dest' = take off dest"
      "drop (off + base64_decoded_length (length src)) dest'
         = drop (off + base64_decoded_length (length src)) dest"
      "\<forall>n. r = Inr n \<longrightarrow> n \<le> base64_decoded_length (length src)"
    using decode_tail_frame [OF assms, of maps] by blast
  then show ?thesis by (cases r) (simp_all add: decode_body_short assms(1))
qed

lemma decoded_length_group:
  "base64_decoded_length (length (a # b # c # d # src)) = 3 + base64_decoded_length (length src)"
proof -
  have "(7 + n) div 4 = 1 + (3 + n) div (4 :: nat)" for n by presburger
  then show ?thesis by (simp add: base64_decoded_length_def)
qed

text \<open>The decoder as a whole writes only the groups it was promised room for.\<close>

lemma decode_body_frame:
  "off + base64_decoded_length (length src) \<le> length dest \<Longrightarrow>
   \<exists>r dest'. decode_body maps src dest off = Some (r, dest') \<and> length dest' = length dest
     \<and> drop (off + base64_decoded_length (length src)) dest'
         = drop (off + base64_decoded_length (length src)) dest
     \<and> take off dest' = take off dest
     \<and> (\<forall>n. r = Inr n \<longrightarrow> off \<le> n \<and> n \<le> off + base64_decoded_length (length src))"
proof (induction maps src dest off rule: decode_loop.induct)
  case (1 maps a b c d e src dest off)
  show ?case
  proof (cases "base64_decode_quartet_using_maps maps a b c d")
    case (Inl err)
    then show ?thesis by (simp add: decode_body_def)
  next
    case (Inr q)
    have len: "base64_decoded_length (length (a # b # c # d # e # src))
        = 3 + base64_decoded_length (length (e # src))"
      by (rule decoded_length_group)
    have q: "length q = 3" using Inr by (rule length_quartet)
    let ?k = "off + 3 + base64_decoded_length (length (e # src))"
    have dest1: "length (copy_at dest off q) = length dest" "off \<le> length dest"
      using "1.prems" q unfolding len by simp_all
    have "?k \<le> length (copy_at dest off q)"
      using "1.prems" dest1 unfolding len by simp
    then obtain r dest' where body: "decode_body maps (e # src) (copy_at dest off q) (off + 3) = Some (r, dest')"
      and dest': "length dest' = length (copy_at dest off q)"
        "drop ?k dest' = drop ?k (copy_at dest off q)"
        "take (off + 3) dest' = take (off + 3) (copy_at dest off q)"
        "\<forall>n. r = Inr n \<longrightarrow> off + 3 \<le> n \<and> n \<le> ?k"
      using "1.IH" [OF Inr] by blast
    have "decode_body maps (a # b # c # d # e # src) dest off = Some (r, dest')"
      using body Inr by (simp add: decode_body_def)
    moreover have "take off dest' = take off dest"
      using arg_cong [OF dest'(3), of "take off"] dest1 by simp
    moreover have "drop ?k (copy_at dest off q) = drop ?k dest"
      using dest1 q by simp
    ultimately show ?thesis
      using dest' dest1 unfolding len by (auto simp: add.assoc)
  qed
qed (rule decode_body_tail_frame; simp)+

section \<open>Alphabets\<close>

lemma length_b64_text: "length (b64_text al src) = base64_encoded_length (length src)"
proof (induction al src rule: b64_text.induct)
  case (4 al a b c src)
  have "(5 + n) div 3 * 4 = 4 + (2 + n) div (3 :: nat) * 4" for n by presburger
  with 4 show ?case by (simp add: base64_encoded_length_def)
qed (simp_all add: base64_encoded_length_def)

context b64_maps
begin

lemma sixbit_to_digit:
  "sixbit_to_b64 maps (digit_value g k) = Some (b64_digit (encode_map maps) g k)"
  using digit_value_less [of g k]
  by (simp add: sixbit_to_b64_def b64_digit_def unat_digit_value word_le_nat_alt)

lemma sixbit_from_digit:
  "sixbit_from_b64 maps (b64_digit (encode_map maps) g k) = Inr (digit_value g k)"
proof -
  have "digit_value g k \<noteq> 0xff"
    using digit_value_less [of g k] by auto
  then show ?thesis
    using decode_encode_map [OF digit_value_less, of g k]
    by (simp add: sixbit_from_b64_def b64_digit_def unat_digit_value Let_def flip: unat_digit_value)
qed

lemma digit_not_padding: "b64_digit (encode_map maps) g k \<noteq> 0x3d"
  using no_padding_letter [OF sixbit_bound] by (simp add: b64_digit_def)

lemma encode_triplet:
  "base64_encode_triplet_using_maps maps a b c
   = Some (map (b64_digit (encode_map maps) (group24 a b c)) [0, 1, 2, 3])"
  by (simp only: base64_encode_triplet_using_maps_def group_digits [where a = a and b = b and c = c]
      sixbit_to_digit)
    simp

lemma decode_quartet:
  "base64_decode_quartet_using_maps maps
     (b64_digit (encode_map maps) (group24 a b c) 0) (b64_digit (encode_map maps) (group24 a b c) 1)
     (b64_digit (encode_map maps) (group24 a b c) 2) (b64_digit (encode_map maps) (group24 a b c) 3)
   = Inr [a, b, c]"
  by (simp only: base64_decode_quartet_using_maps_def sixbit_from_digit prod.case sum.case digits_group)

lemma encode_body_text:
  "off + length (b64_text (encode_map maps) src) \<le> length dest \<Longrightarrow>
   encode_body maps src dest off
   = Some (copy_at dest off (b64_text (encode_map maps) src),
           off + length (b64_text (encode_map maps) src))"
proof (induction "encode_map maps" src arbitrary: dest off rule: b64_text.induct)
  case (4 a b c src)
  define q where "q = map (b64_digit (encode_map maps) (group24 a b c)) [0, 1, 2, 3]"
  have q: "length q = 4" "base64_encode_triplet_using_maps maps a b c = Some q"
      "b64_text (encode_map maps) (a # b # c # src) = q @ b64_text (encode_map maps) src"
    unfolding encode_triplet by (simp_all add: q_def)
  have "copy_at (copy_at dest off q) (off + 4) zs = copy_at dest off (q @ zs)" for zs
    using "4.prems" q copy_at_copy_at [of off q dest zs] by simp
  with 4 q show ?case by (simp add: encode_body_def del: b64_text.simps)
qed (simp_all add: base64_encode_tail_using_maps_def copy_at_def encode_triplet numeral_eq_Suc
    encode_body_def)

lemma encode_using_maps:
  assumes "base64_encoded_length (length src) \<le> destlen" "destlen \<le> length dest"
  shows "base64_encode_using_maps maps dest destlen src
    = Some (Inr (base64_encoded_length (length src)),
        b64_text (encode_map maps) src
          @ replicate (destlen - base64_encoded_length (length src)) 0 @ drop destlen dest)"
proof -
  let ?t = "b64_text (encode_map maps) src"
  have len: "length ?t = base64_encoded_length (length src)"
    by (rule length_b64_text)
  then show ?thesis
    using assms encode_body_text [of 0 src dest]
    by (simp add: base64_encode_body copy_at_def)
qed

text \<open>Decoding the text of RFC 4648 gives the bytes back, at any offset.\<close>

lemma quartet_filled:
  assumes "v = decode_map maps ! unat (0x41 :: byte)"
  shows "sixbit_from_b64 maps 0x41 = Inr v"
  using filler_letter assms by (simp add: sixbit_from_b64_def Let_def)

lemma decode_tail_text:
  assumes "length bs \<le> 3" "off + 3 \<le> length dest"
  shows "\<exists>q. base64_decode_tail_using_maps maps dest off (b64_text (encode_map maps) bs)
      = Some (Inr (length bs), copy_at dest off q) \<and> take (length bs) q = bs
        \<and> length bs \<le> length q"
proof -
  consider "bs = []" | a where "bs = [a]" | a b where "bs = [a, b]" | a b c where "bs = [a, b, c]"
    using assms(1) by (cases "(encode_map maps, bs)" rule: b64_text.cases) auto
  then show ?thesis
  proof cases
    case 1
    then show ?thesis by (intro exI [of _ "[]"]) (simp add: base64_decode_tail_using_maps_def strip_padding_def)
  next
    case (2 a)
    let ?v = "decode_map maps ! unat (0x41 :: byte)"
    let ?d = "b64_digit (encode_map maps) (group24 a 0 0)"
    have strip: "strip_padding (b64_text (encode_map maps) bs) = [?d 0, ?d 1]"
      by (simp add: 2 strip_padding_def digit_not_padding)
    show ?thesis using digits_group(1) [of a 0 0] unfolding base64_decode_tail_using_maps_def strip
      by (simp add: 2 base64_decode_quartet_using_maps_def sixbit_from_digit quartet_filled [OF refl])
        (rule exI, rule conjI, rule refl, simp)
  next
    case (3 a b)
    let ?d = "b64_digit (encode_map maps) (group24 a b 0)"
    have strip: "strip_padding (b64_text (encode_map maps) bs) = [?d 0, ?d 1, ?d 2]"
      by (simp add: 3 strip_padding_def digit_not_padding)
    show ?thesis using digits_group(1,2) [of a b 0] unfolding base64_decode_tail_using_maps_def strip
      by (simp add: 3 base64_decode_quartet_using_maps_def sixbit_from_digit quartet_filled [OF refl])
        (rule exI, rule conjI, rule refl, simp)
  next
    case (4 a b c)
    let ?d = "b64_digit (encode_map maps) (group24 a b c)"
    have strip: "strip_padding (b64_text (encode_map maps) bs) = [?d 0, ?d 1, ?d 2, ?d 3]"
      by (simp add: 4 strip_padding_def digit_not_padding)
    show ?thesis using decode_quartet [of a b c] unfolding base64_decode_tail_using_maps_def strip
      by (intro exI [of _ "[a, b, c]"]) (simp add: 4)
  qed
qed

lemma decode_body_short_text:
  assumes "length bs \<le> 3"
    and "off + base64_decoded_length (length (b64_text (encode_map maps) bs)) \<le> length dest"
  shows "\<exists>dest'. decode_body maps (b64_text (encode_map maps) bs) dest off
      = Some (Inr (off + length bs), dest') \<and> take (off + length bs) dest' = take off dest @ bs"
proof (cases "bs = []")
  case True
  then show ?thesis
    by (simp add: decode_body_short base64_decode_tail_using_maps_def strip_padding_def)
next
  case False
  then have "(length bs + 2) div 3 = 1" using assms(1) by (cases bs) auto
  then have len: "length (b64_text (encode_map maps) bs) = 4"
    by (simp add: length_b64_text base64_encoded_length_def)
  then have room: "off + 3 \<le> length dest"
    using assms(2) by (simp add: base64_decoded_length_def)
  obtain q where "base64_decode_tail_using_maps maps dest off (b64_text (encode_map maps) bs)
      = Some (Inr (length bs), copy_at dest off q)" "take (length bs) q = bs" "length bs \<le> length q"
    using decode_tail_text [OF assms(1) room] by blast
  then show ?thesis using len room by (simp add: decode_body_short copy_at_def)
qed

lemma decode_body_text:
  "off + base64_decoded_length (length (b64_text (encode_map maps) bs)) \<le> length dest \<Longrightarrow>
   \<exists>dest'. decode_body maps (b64_text (encode_map maps) bs) dest off = Some (Inr (off + length bs), dest')
     \<and> take (off + length bs) dest' = take off dest @ bs"
proof (induction "encode_map maps" bs arbitrary: dest off rule: b64_text.induct)
  case (4 a b c bs)
  let ?d = "b64_digit (encode_map maps) (group24 a b c)"
  show ?case
  proof (cases "b64_text (encode_map maps) bs")
    case Nil
    then have "bs = []" using length_b64_text [of "encode_map maps" bs]
      by (cases bs) (auto simp: base64_encoded_length_def)
    then show ?thesis using "4.prems" by (intro decode_body_short_text) simp_all
  next
    case (Cons e rest)
    have letters: "b64_text (encode_map maps) (a # b # c # bs) = ?d 0 # ?d 1 # ?d 2 # ?d 3 # e # rest"
      using Cons by simp
    have room: "off + 3 + base64_decoded_length (length (e # rest)) \<le> length dest"
      using "4.prems" unfolding letters decoded_length_group by simp
    have step: "decode_body maps (b64_text (encode_map maps) (a # b # c # bs)) dest off
        = decode_body maps (e # rest) (copy_at dest off [a, b, c]) (off + 3)"
      unfolding letters by (simp add: decode_body_def decode_quartet [simplified])
    have "length (copy_at dest off [a, b, c]) = length dest"
        "take (off + 3) (copy_at dest off [a, b, c]) = take off dest @ [a, b, c]"
      using room by (simp_all add: copy_at_def)
    then show ?thesis
      using "4.hyps" [of "off + 3" "copy_at dest off [a, b, c]"] room
      unfolding step Cons by (simp add: add.assoc numeral_3_eq_3)
  qed
qed (rule decode_body_short_text; simp)+

text \<open>The decoder with a destination of the size it asks for.\<close>

lemma decode_text:
  assumes "base64_decoded_length (length (b64_text (encode_map maps) bs)) \<le> destlen"
    and "destlen \<le> length dest"
  shows "base64_decode_using_maps maps dest destlen (b64_text (encode_map maps) bs)
    = Some (Inr (length bs), bs @ replicate (destlen - length bs) 0 @ drop destlen dest)"
proof -
  let ?n = "base64_decoded_length (length (b64_text (encode_map maps) bs))"
  obtain dest' where body: "decode_body maps (b64_text (encode_map maps) bs) dest 0
      = Some (Inr (length bs), dest')" "take (length bs) dest' = bs"
    using decode_body_text [of 0 bs dest] assms by auto
  moreover have "length dest' = length dest" "drop ?n dest' = drop ?n dest" "length bs \<le> ?n"
    using decode_body_frame [of 0 "b64_text (encode_map maps) bs" dest maps] assms body by auto
  moreover have "drop destlen dest' = drop destlen dest"
    using arg_cong [OF calculation(4), of "drop (destlen - ?n)"] assms(1) by simp
  moreover have "length bs \<le> destlen" using calculation(5) assms(1) by simp
  ultimately show ?thesis
    using assms by (simp only: base64_decode_body copy_at_def option.map prod.case sum.case if_False
        length_replicate not_less le_add_diff_inverse) simp
qed

end

lemma decode_table_fold:
  fixes src :: "byte list"
  assumes "distinct src" "n \<le> length src" "length dm = 256"
  shows "length (fold (\<lambda>i dm. dm[unat (src ! i) := word_of_nat i]) [0..<n] dm) = 256
    \<and> (\<forall>j < n. fold (\<lambda>i dm. dm[unat (src ! i) := word_of_nat i]) [0..<n] dm ! unat (src ! j)
         = (word_of_nat j :: byte))"
  using assms(2)
proof (induction n)
  case (Suc n)
  have "unat (src ! n) \<noteq> unat (src ! j)" if "j < n" for j
    using that Suc.prems assms(1) nth_eq_iff_index_eq [of src n j] by (auto simp: word_unat_eq_iff)
  with Suc show ?case
    using unat_byte_less [of "src ! n"] by (auto simp: less_Suc_eq)
qed (simp add: assms)

lemma init_maps_wf:
  assumes "length src = 64" "distinct src" "0x3d \<notin> set src" "0x41 \<in> set src"
  shows "b64_maps (base64_init_maps src)"
proof -
  have table: "decode_map (base64_init_maps src) ! unat (src ! i) = word_of_nat i" if "i < 64" for i
    using that decode_table_fold [of src 64 "replicate 256 0xff"] assms by (simp add: base64_init_maps_def)
  obtain j where j: "j < 64" "src ! j = 0x41"
    using assms by (auto simp: in_set_conv_nth)
  have "(word_of_nat j :: byte) \<noteq> 0xff"
  proof
    assume "(word_of_nat j :: byte) = 0xff"
    then have "unat (word_of_nat j :: byte) = unat (0xff :: byte)" by simp
    then show False using j by (simp add: unsigned_of_nat take_bit_nat_eq_self)
  qed
  then show ?thesis
    using assms table table [OF j(1)] j
    by unfold_locales (auto simp: base64_init_maps_def in_set_conv_nth)
qed

lemma rfc4648_table:
  "length (encode_map base64_maps_rfc4648) = 64 \<and>
   list_all (\<lambda>i. decode_map base64_maps_rfc4648 ! unat (encode_map base64_maps_rfc4648 ! i) = word_of_nat i
     \<and> encode_map base64_maps_rfc4648 ! i \<noteq> 0x3d) [0..<64]
   \<and> decode_map base64_maps_rfc4648 ! 65 \<noteq> 0xff"
  unfolding base64_maps_rfc4648_def cstr_def by (simp add: upt_explicit)

interpretation rfc4648: b64_maps base64_maps_rfc4648
  using rfc4648_table by unfold_locales (auto simp: list_all_iff)

section \<open>Which texts are accepted\<close>

lemma quartet_accepts:
  "base64_decode_quartet_using_maps maps a b c d =
     (if list_all (base64_char_in_alphabet maps) [a, b, c, d]
      then let v = (\<lambda>x. decode_map maps ! unat x) in
        Inr [push_bit 2 (v a) OR signed_drop_bit 4 (v b),
             push_bit 4 (v b AND 0xf) OR signed_drop_bit 2 (v c),
             push_bit 6 (v c AND 0x3) OR v d]
      else Inl EDOM)"
  by (auto simp: base64_decode_quartet_using_maps_def sixbit_from_b64_def Let_def
      base64_char_in_alphabet_def)

text \<open>
  The letters that must be in the alphabet: the last group without its trailing padding, and
  everything before it.
\<close>

definition b64_well_formed :: "base64_maps_t \<Rightarrow> byte list \<Rightarrow> bool" where
  "b64_well_formed maps src \<longleftrightarrow>
     (let k = 4 * ((length src - 1) div 4); group = strip_padding (drop k src)
      in list_all (base64_char_in_alphabet maps) (take k src @ group) \<and> length group \<noteq> 1)"

lemma decode_tail_accepts:
  assumes "base64_char_in_alphabet maps 0x41" "length src \<le> 4"
  shows "(\<exists>n dest'. base64_decode_tail_using_maps maps dest off src = Some (Inr n, dest'))
    \<longleftrightarrow> list_all (base64_char_in_alphabet maps) (strip_padding src) \<and> length (strip_padding src) \<noteq> 1"
proof -
  have len: "length (strip_padding src) \<le> 4"
    using length_strip_padding [of src] assms(2) by simp
  consider "strip_padding src = []" | a where "strip_padding src = [a]"
    | a b where "strip_padding src = [a, b]" | a b c where "strip_padding src = [a, b, c]"
    | a b c d where "strip_padding src = [a, b, c, d]"
    using len by (auto simp: le_Suc_eq length_Suc_conv numeral_eq_Suc)
  then show ?thesis
  proof cases
  qed (insert assms(1), simp_all add: base64_decode_tail_using_maps_def Let_def numeral_eq_Suc
      quartet_accepts)
qed

lemma decode_body_short_accepts:
  assumes "base64_char_in_alphabet maps 0x41" "length src \<le> 4"
  shows "(\<exists>n dest'. decode_body maps src dest off = Some (Inr n, dest')) \<longleftrightarrow> b64_well_formed maps src"
proof -
  have "(length src - 1) div 4 = 0" using assms(2) by simp
  then have "b64_well_formed maps src \<longleftrightarrow>
      (\<exists>n dest'. base64_decode_tail_using_maps maps dest off src = Some (Inr n, dest'))"
    using decode_tail_accepts [OF assms, of dest off] by (simp add: b64_well_formed_def Let_def)
  moreover have "(\<exists>n dest'. decode_body maps src dest off = Some (Inr n, dest')) \<longleftrightarrow>
      (\<exists>n dest'. base64_decode_tail_using_maps maps dest off src = Some (Inr n, dest'))"
  proof (cases "base64_decode_tail_using_maps maps dest off src")
    case (Some p)
    then show ?thesis
      using assms(2) by (cases p; cases "fst p") (simp_all add: decode_body_short)
  qed (simp add: decode_body_short assms(2))
  ultimately show ?thesis by simp
qed

lemma decode_body_accepts:
  assumes "base64_char_in_alphabet maps 0x41"
  shows "(\<exists>n dest'. decode_body maps src dest off = Some (Inr n, dest')) \<longleftrightarrow> b64_well_formed maps src"
  using assms
proof (induction maps src dest off rule: decode_loop.induct)
  case (1 maps a b c d e src dest off)
  define k where "k = 4 * ((length (e # src) - 1) div 4)"
  have k: "4 * ((length (a # b # c # d # e # src) - 1) div 4) = Suc (Suc (Suc (Suc k)))"
    by (simp add: k_def div_add_self1)
  have "b64_well_formed maps (a # b # c # d # e # src) \<longleftrightarrow>
      list_all (base64_char_in_alphabet maps) [a, b, c, d] \<and> b64_well_formed maps (e # src)"
    unfolding b64_well_formed_def Let_def k k_def [symmetric] by simp
  with 1 show ?case
    by (auto simp: decode_body_def quartet_accepts)
qed (rule decode_body_short_accepts; simp)+

section \<open>Properties\<close>

text \<open>
  base64_encode writes RFC 4648: with a destination of at least base64_encoded_length
  bytes it returns that length, the destination holds the text of the 24-bit groups with its
  padding, then zero bytes up to destlen and nothing beyond destlen changes; with a smaller
  one it fails with EOVERFLOW and writes nothing. No assertion of the encoder can fail.
\<close>

theorem base64_encode_exact:
  assumes "destlen \<le> length dest"
  shows "base64_encode dest destlen src =
    (let n = base64_encoded_length (length src) in
     if n \<le> destlen
     then Some (Inr n, b64_text (encode_map base64_maps_rfc4648) src @ replicate (destlen - n) 0
                         @ drop destlen dest)
     else Some (Inl EOVERFLOW, dest))"
  using rfc4648.encode_using_maps [OF _ assms, of src]
  by (auto simp: base64_encode_def base64_encode_using_maps_def Let_def)

theorem base64_encode_exact_witness:
  "base64_encode (replicate 6 7) 5 [77, 97] = Some (Inr 4, cstr ''TWE='' @ [0, 7])"
  using base64_encode_exact [of 5 "replicate 6 7" "[77, 97]"]
  by (simp add: base64_encoded_length_def b64_digit_def group24_def base64_maps_rfc4648_def cstr_def)

text \<open>
  C33. Decoding inverts encoding, for the table of RFC 4648 and for every structure that
  base64_init_maps makes of 64 distinct letters that include A and not the padding symbol:
  the text that the encoder writes decodes to the bytes, with their count returned, zero
  bytes after them up to destlen and nothing changed beyond.
\<close>

theorem base64_round_trip:
  assumes "maps = base64_maps_rfc4648 \<or>
      (maps = base64_init_maps al \<and> length al = 64 \<and> distinct al \<and> 0x3d \<notin> set al \<and> 0x41 \<in> set al)"
    and "base64_encode_using_maps maps edest elen src = Some (Inr n, edest')"
    and "elen \<le> length edest"
    and "base64_decoded_length n \<le> destlen" "destlen \<le> length dest"
  shows "base64_decode_using_maps maps dest destlen (take n edest')
    = Some (Inr (length src), src @ replicate (destlen - length src) 0 @ drop destlen dest)"
proof -
  have wf: "b64_maps maps"
    using assms(1) init_maps_wf rfc4648.b64_maps_axioms by auto
  have "base64_encoded_length (length src) \<le> elen"
    using assms(2) by (auto simp: base64_encode_using_maps_def split: if_splits)
  then have "n = length (b64_text (encode_map maps) src)" "take n edest' = b64_text (encode_map maps) src"
    using b64_maps.encode_using_maps [OF wf _ assms(3), of src] assms(2) by (auto simp: length_b64_text)
  with b64_maps.decode_text [OF wf] assms(4,5) show ?thesis by simp
qed

lemma encode_sample:
  "base64_encode_using_maps base64_maps_rfc4648 (replicate 5 0) 5 [77, 97]
    = Some (Inr 4, [84, 87, 69, 61, 0])"
  using rfc4648.encode_using_maps [of "[77, 97]" 5 "replicate 5 0"]
  by (simp add: base64_encoded_length_def b64_digit_def group24_def base64_maps_rfc4648_def cstr_def)

theorem base64_round_trip_witness:
  "base64_decode_using_maps base64_maps_rfc4648 (replicate 4 7) 3 (take 4 [84, 87, 69, 61, 0])
    = Some (Inr (length [77, 97 :: byte]), [77, 97] @ replicate (3 - length [77, 97 :: byte]) 0
        @ drop 3 (replicate 4 7))"
  by (rule base64_round_trip [OF disjI1 [OF refl] encode_sample])
    (simp_all add: base64_decoded_length_def)

text \<open>
  Which texts base64_decode accepts, and where it writes: with room for
  base64_decoded_length bytes it succeeds exactly when, after removing the padding symbols at
  the end of the last group of at most four letters, no single letter is left over there and
  every remaining letter is in the alphabet. Whatever the outcome it never runs over its
  four-byte buffer, and the bytes of the destination from destlen on are unchanged.
\<close>

theorem base64_decode_accepts:
  assumes "base64_decoded_length (length src) \<le> destlen" "destlen \<le> length dest"
  shows "\<exists>r dest'. base64_decode dest destlen src = Some (r, dest')
     \<and> ((\<exists>n. r = Inr n) \<longleftrightarrow> b64_well_formed base64_maps_rfc4648 src)
     \<and> length dest' = length dest \<and> drop destlen dest' = drop destlen dest"
proof -
  let ?n = "base64_decoded_length (length src)"
  obtain r dest' where body: "decode_body base64_maps_rfc4648 src dest 0 = Some (r, dest')"
      "length dest' = length dest" "drop ?n dest' = drop ?n dest" "\<forall>n. r = Inr n \<longrightarrow> n \<le> ?n"
    using decode_body_frame [of 0 src dest base64_maps_rfc4648] assms by auto
  have "drop destlen dest' = drop destlen dest"
    using arg_cong [OF body(3), of "drop (destlen - ?n)"] assms(1) by simp
  moreover have "(\<exists>n. r = Inr n) \<longleftrightarrow> b64_well_formed base64_maps_rfc4648 src"
    using decode_body_accepts [of base64_maps_rfc4648 src dest 0] body(1) rfc4648.filler_letter
    by (simp add: base64_char_in_alphabet_def)
  ultimately show ?thesis
    using body assms unfolding base64_decode_def base64_decode_body
    by (cases r) (auto simp: not_less)
qed

theorem base64_decode_accepts_witness:
  "\<exists>r dest'. base64_decode (replicate 3 7) 3 (cstr ''TWE='') = Some (r, dest')
     \<and> ((\<exists>n. r = Inr n) \<longleftrightarrow> b64_well_formed base64_maps_rfc4648 (cstr ''TWE=''))
     \<and> length dest' = length (replicate 3 (7 :: byte)) \<and> drop 3 dest' = drop 3 (replicate 3 7)"
  by (rule base64_decode_accepts) (simp_all add: base64_decoded_length_def)

text \<open>
  The pregenerated table of base64.c is the one base64_init_maps would compute from its
  alphabet.
\<close>

theorem base64_rfc4648_generated:
  "base64_maps_rfc4648 = base64_init_maps (encode_map base64_maps_rfc4648)"
  unfolding base64_maps_rfc4648_def cstr_def base64_init_maps_def by code_simp

end
