(* ===== verification/Aes.thy ===== *)
theory Aes
  imports Nostr_Prelude
begin

text \<open>
  AES-256: \<open>src/src/nostril/aes.c\<close> and \<open>aes.h\<close>. The state \<open>state_t\<close> is the buffer itself seen
  as four columns of four bytes: here the list of its sixteen bytes, with \<open>(*state)[i][j]\<close> at
  position \<open>4 * i + j\<close>. The loops are folds over their indices, the assignments list
  updates in the order of the source; the two round loops, which leave by \<open>break\<close>, recurse
  on the \<open>uint8_t\<close> round counter. The configuration of \<open>aes.h\<close> is AES256 with CBC; ECB and
  CTR are written in the source and modelled too.

  Shown: each transformation is undone by its inverse, so \<open>InvCipher\<close> undoes \<open>Cipher\<close> for
  every expanded key; the column mixing is the matrix of FIPS 197 over its field; the key
  schedule satisfies the recurrence of FIPS 197; the CBC calls compute the chaining of SP
  800-38A and decryption inverts encryption, over several calls with the same context too.
\<close>

section \<open>Parameters and tables\<close>

definition Nb :: nat where "Nb = 4"
definition Nk :: nat where "Nk = 8"
definition Nr :: nat where "Nr = 14"
definition AES_BLOCKLEN :: nat where "AES_BLOCKLEN = 16"
definition AES_KEYLEN :: nat where "AES_KEYLEN = 32"
definition AES_keyExpSize :: nat where "AES_keyExpSize = 240"

lemmas aes_sizes = Nb_def Nk_def Nr_def AES_BLOCKLEN_def AES_KEYLEN_def AES_keyExpSize_def

type_synonym state_t = "byte list"

record AES_ctx =
  RoundKey :: "byte list"
  Iv :: "byte list"

definition sbox :: "byte list" where
  "sbox =
    [0x63, 0x7c, 0x77, 0x7b, 0xf2, 0x6b, 0x6f, 0xc5, 0x30, 0x01, 0x67, 0x2b, 0xfe, 0xd7, 0xab, 0x76,
     0xca, 0x82, 0xc9, 0x7d, 0xfa, 0x59, 0x47, 0xf0, 0xad, 0xd4, 0xa2, 0xaf, 0x9c, 0xa4, 0x72, 0xc0,
     0xb7, 0xfd, 0x93, 0x26, 0x36, 0x3f, 0xf7, 0xcc, 0x34, 0xa5, 0xe5, 0xf1, 0x71, 0xd8, 0x31, 0x15,
     0x04, 0xc7, 0x23, 0xc3, 0x18, 0x96, 0x05, 0x9a, 0x07, 0x12, 0x80, 0xe2, 0xeb, 0x27, 0xb2, 0x75,
     0x09, 0x83, 0x2c, 0x1a, 0x1b, 0x6e, 0x5a, 0xa0, 0x52, 0x3b, 0xd6, 0xb3, 0x29, 0xe3, 0x2f, 0x84,
     0x53, 0xd1, 0x00, 0xed, 0x20, 0xfc, 0xb1, 0x5b, 0x6a, 0xcb, 0xbe, 0x39, 0x4a, 0x4c, 0x58, 0xcf,
     0xd0, 0xef, 0xaa, 0xfb, 0x43, 0x4d, 0x33, 0x85, 0x45, 0xf9, 0x02, 0x7f, 0x50, 0x3c, 0x9f, 0xa8,
     0x51, 0xa3, 0x40, 0x8f, 0x92, 0x9d, 0x38, 0xf5, 0xbc, 0xb6, 0xda, 0x21, 0x10, 0xff, 0xf3, 0xd2,
     0xcd, 0x0c, 0x13, 0xec, 0x5f, 0x97, 0x44, 0x17, 0xc4, 0xa7, 0x7e, 0x3d, 0x64, 0x5d, 0x19, 0x73,
     0x60, 0x81, 0x4f, 0xdc, 0x22, 0x2a, 0x90, 0x88, 0x46, 0xee, 0xb8, 0x14, 0xde, 0x5e, 0x0b, 0xdb,
     0xe0, 0x32, 0x3a, 0x0a, 0x49, 0x06, 0x24, 0x5c, 0xc2, 0xd3, 0xac, 0x62, 0x91, 0x95, 0xe4, 0x79,
     0xe7, 0xc8, 0x37, 0x6d, 0x8d, 0xd5, 0x4e, 0xa9, 0x6c, 0x56, 0xf4, 0xea, 0x65, 0x7a, 0xae, 0x08,
     0xba, 0x78, 0x25, 0x2e, 0x1c, 0xa6, 0xb4, 0xc6, 0xe8, 0xdd, 0x74, 0x1f, 0x4b, 0xbd, 0x8b, 0x8a,
     0x70, 0x3e, 0xb5, 0x66, 0x48, 0x03, 0xf6, 0x0e, 0x61, 0x35, 0x57, 0xb9, 0x86, 0xc1, 0x1d, 0x9e,
     0xe1, 0xf8, 0x98, 0x11, 0x69, 0xd9, 0x8e, 0x94, 0x9b, 0x1e, 0x87, 0xe9, 0xce, 0x55, 0x28, 0xdf,
     0x8c, 0xa1, 0x89, 0x0d, 0xbf, 0xe6, 0x42, 0x68, 0x41, 0x99, 0x2d, 0x0f, 0xb0, 0x54, 0xbb, 0x16]"

definition rsbox :: "byte list" where
  "rsbox =
    [0x52, 0x09, 0x6a, 0xd5, 0x30, 0x36, 0xa5, 0x38, 0xbf, 0x40, 0xa3, 0x9e, 0x81, 0xf3, 0xd7, 0xfb,
     0x7c, 0xe3, 0x39, 0x82, 0x9b, 0x2f, 0xff, 0x87, 0x34, 0x8e, 0x43, 0x44, 0xc4, 0xde, 0xe9, 0xcb,
     0x54, 0x7b, 0x94, 0x32, 0xa6, 0xc2, 0x23, 0x3d, 0xee, 0x4c, 0x95, 0x0b, 0x42, 0xfa, 0xc3, 0x4e,
     0x08, 0x2e, 0xa1, 0x66, 0x28, 0xd9, 0x24, 0xb2, 0x76, 0x5b, 0xa2, 0x49, 0x6d, 0x8b, 0xd1, 0x25,
     0x72, 0xf8, 0xf6, 0x64, 0x86, 0x68, 0x98, 0x16, 0xd4, 0xa4, 0x5c, 0xcc, 0x5d, 0x65, 0xb6, 0x92,
     0x6c, 0x70, 0x48, 0x50, 0xfd, 0xed, 0xb9, 0xda, 0x5e, 0x15, 0x46, 0x57, 0xa7, 0x8d, 0x9d, 0x84,
     0x90, 0xd8, 0xab, 0x00, 0x8c, 0xbc, 0xd3, 0x0a, 0xf7, 0xe4, 0x58, 0x05, 0xb8, 0xb3, 0x45, 0x06,
     0xd0, 0x2c, 0x1e, 0x8f, 0xca, 0x3f, 0x0f, 0x02, 0xc1, 0xaf, 0xbd, 0x03, 0x01, 0x13, 0x8a, 0x6b,
     0x3a, 0x91, 0x11, 0x41, 0x4f, 0x67, 0xdc, 0xea, 0x97, 0xf2, 0xcf, 0xce, 0xf0, 0xb4, 0xe6, 0x73,
     0x96, 0xac, 0x74, 0x22, 0xe7, 0xad, 0x35, 0x85, 0xe2, 0xf9, 0x37, 0xe8, 0x1c, 0x75, 0xdf, 0x6e,
     0x47, 0xf1, 0x1a, 0x71, 0x1d, 0x29, 0xc5, 0x89, 0x6f, 0xb7, 0x62, 0x0e, 0xaa, 0x18, 0xbe, 0x1b,
     0xfc, 0x56, 0x3e, 0x4b, 0xc6, 0xd2, 0x79, 0x20, 0x9a, 0xdb, 0xc0, 0xfe, 0x78, 0xcd, 0x5a, 0xf4,
     0x1f, 0xdd, 0xa8, 0x33, 0x88, 0x07, 0xc7, 0x31, 0xb1, 0x12, 0x10, 0x59, 0x27, 0x80, 0xec, 0x5f,
     0x60, 0x51, 0x7f, 0xa9, 0x19, 0xb5, 0x4a, 0x0d, 0x2d, 0xe5, 0x7a, 0x9f, 0x93, 0xc9, 0x9c, 0xef,
     0xa0, 0xe0, 0x3b, 0x4d, 0xae, 0x2a, 0xf5, 0xb0, 0xc8, 0xeb, 0xbb, 0x3c, 0x83, 0x53, 0x99, 0x61,
     0x17, 0x2b, 0x04, 0x7e, 0xba, 0x77, 0xd6, 0x26, 0xe1, 0x69, 0x14, 0x63, 0x55, 0x21, 0x0c, 0x7d]"

definition Rcon :: "byte list" where
  "Rcon = [0x8d, 0x01, 0x02, 0x04, 0x08, 0x10, 0x20, 0x40, 0x80, 0x1b, 0x36]"

definition getSBoxValue :: "byte \<Rightarrow> byte" where
  "getSBoxValue num = sbox ! unat num"

definition getSBoxInvert :: "byte \<Rightarrow> byte" where
  "getSBoxInvert num = rsbox ! unat num"

section \<open>Key expansion\<close>

text \<open>The first loop copies the key; one step of the second writes the four bytes of word \<open>i\<close>.\<close>

definition key_copy_step :: "byte list \<Rightarrow> nat \<Rightarrow> byte list \<Rightarrow> byte list" where
  "key_copy_step Key i RK =
     RK[i * 4 + 0 := Key ! (i * 4 + 0), i * 4 + 1 := Key ! (i * 4 + 1),
        i * 4 + 2 := Key ! (i * 4 + 2), i * 4 + 3 := Key ! (i * 4 + 3)]"

definition key_expand_step :: "nat \<Rightarrow> byte list \<Rightarrow> byte list" where
  "key_expand_step i RK =
     (let k = (i - 1) * 4;
          tempa = [RK ! (k + 0), RK ! (k + 1), RK ! (k + 2), RK ! (k + 3)];
          tempa = (if i mod Nk = 0
                   then let tempa = [tempa ! 1, tempa ! 2, tempa ! 3, tempa ! 0];
                            tempa = map getSBoxValue tempa
                        in tempa[0 := tempa ! 0 XOR Rcon ! (i div Nk)]
                   else tempa);
          tempa = (if i mod Nk = 4 then map getSBoxValue tempa else tempa);
          j = i * 4; k = (i - Nk) * 4;
          RK = RK[j + 0 := RK ! (k + 0) XOR tempa ! 0];
          RK = RK[j + 1 := RK ! (k + 1) XOR tempa ! 1];
          RK = RK[j + 2 := RK ! (k + 2) XOR tempa ! 2]
      in RK[j + 3 := RK ! (k + 3) XOR tempa ! 3])"

definition KeyExpansion :: "byte list \<Rightarrow> byte list \<Rightarrow> byte list" where
  "KeyExpansion RK Key =
     fold key_expand_step [Nk..<Nb * (Nr + 1)] (fold (key_copy_step Key) [0..<Nk] RK)"

definition AES_init_ctx :: "AES_ctx \<Rightarrow> byte list \<Rightarrow> AES_ctx" where
  "AES_init_ctx ctx key = ctx\<lparr>RoundKey := KeyExpansion (RoundKey ctx) key\<rparr>"

definition AES_init_ctx_iv :: "AES_ctx \<Rightarrow> byte list \<Rightarrow> byte list \<Rightarrow> AES_ctx" where
  "AES_init_ctx_iv ctx key iv =
     ctx\<lparr>RoundKey := KeyExpansion (RoundKey ctx) key,
         Iv := copy_at (Iv ctx) 0 (take AES_BLOCKLEN iv)\<rparr>"

definition AES_ctx_set_iv :: "AES_ctx \<Rightarrow> byte list \<Rightarrow> AES_ctx" where
  "AES_ctx_set_iv ctx iv = ctx\<lparr>Iv := copy_at (Iv ctx) 0 (take AES_BLOCKLEN iv)\<rparr>"

section \<open>The transformations of the state\<close>

definition AddRoundKey :: "byte \<Rightarrow> state_t \<Rightarrow> byte list \<Rightarrow> state_t" where
  "AddRoundKey round state RK =
     fold (\<lambda>i st. fold (\<lambda>j st.
         st[4 * i + j := st ! (4 * i + j) XOR RK ! (unat round * Nb * 4 + i * Nb + j)])
       [0..<4] st) [0..<4] state"

definition SubBytes :: "state_t \<Rightarrow> state_t" where
  "SubBytes state =
     fold (\<lambda>i st. fold (\<lambda>j st. st[4 * j + i := getSBoxValue (st ! (4 * j + i))]) [0..<4] st)
       [0..<4] state"

definition ShiftRows :: "state_t \<Rightarrow> state_t" where
  "ShiftRows s0 =
     (let temp = s0 ! 1;
          s = s0[1 := s0 ! 5]; s = s[5 := s ! 9]; s = s[9 := s ! 13]; s = s[13 := temp];
          temp = s ! 2; s = s[2 := s ! 10]; s = s[10 := temp];
          temp = s ! 6; s = s[6 := s ! 14]; s = s[14 := temp];
          temp = s ! 3; s = s[3 := s ! 15]; s = s[15 := s ! 11]; s = s[11 := s ! 7]
      in s[7 := temp])"

definition xtime :: "byte \<Rightarrow> byte" where
  "xtime x = push_bit 1 x XOR (drop_bit 7 x AND 1) * 0x1b"

definition MixColumns :: "state_t \<Rightarrow> state_t" where
  "MixColumns state =
     fold (\<lambda>i st.
       let t = st ! (4 * i);
           Tmp = st ! (4 * i) XOR st ! (4 * i + 1) XOR st ! (4 * i + 2) XOR st ! (4 * i + 3);
           Tm = xtime (st ! (4 * i) XOR st ! (4 * i + 1));
           st = st[4 * i := st ! (4 * i) XOR (Tm XOR Tmp)];
           Tm = xtime (st ! (4 * i + 1) XOR st ! (4 * i + 2));
           st = st[4 * i + 1 := st ! (4 * i + 1) XOR (Tm XOR Tmp)];
           Tm = xtime (st ! (4 * i + 2) XOR st ! (4 * i + 3));
           st = st[4 * i + 2 := st ! (4 * i + 2) XOR (Tm XOR Tmp)];
           Tm = xtime (st ! (4 * i + 3) XOR t)
       in st[4 * i + 3 := st ! (4 * i + 3) XOR (Tm XOR Tmp)]) [0..<4] state"

definition Multiply :: "byte \<Rightarrow> byte \<Rightarrow> byte" where
  "Multiply x y =
     ((y AND 1) * x) XOR
     ((drop_bit 1 y AND 1) * xtime x) XOR
     ((drop_bit 2 y AND 1) * xtime (xtime x)) XOR
     ((drop_bit 3 y AND 1) * xtime (xtime (xtime x))) XOR
     ((drop_bit 4 y AND 1) * xtime (xtime (xtime (xtime x))))"

definition InvMixColumns :: "state_t \<Rightarrow> state_t" where
  "InvMixColumns state =
     fold (\<lambda>i st.
       let a = st ! (4 * i); b = st ! (4 * i + 1); c = st ! (4 * i + 2); d = st ! (4 * i + 3)
       in st[4 * i := Multiply a 0x0e XOR Multiply b 0x0b XOR Multiply c 0x0d XOR Multiply d 0x09,
             4 * i + 1 := Multiply a 0x09 XOR Multiply b 0x0e XOR Multiply c 0x0b XOR Multiply d 0x0d,
             4 * i + 2 := Multiply a 0x0d XOR Multiply b 0x09 XOR Multiply c 0x0e XOR Multiply d 0x0b,
             4 * i + 3 := Multiply a 0x0b XOR Multiply b 0x0d XOR Multiply c 0x09 XOR Multiply d 0x0e])
       [0..<4] state"

definition InvSubBytes :: "state_t \<Rightarrow> state_t" where
  "InvSubBytes state =
     fold (\<lambda>i st. fold (\<lambda>j st. st[4 * j + i := getSBoxInvert (st ! (4 * j + i))]) [0..<4] st)
       [0..<4] state"

definition InvShiftRows :: "state_t \<Rightarrow> state_t" where
  "InvShiftRows s0 =
     (let temp = s0 ! 13;
          s = s0[13 := s0 ! 9]; s = s[9 := s ! 5]; s = s[5 := s ! 1]; s = s[1 := temp];
          temp = s ! 2; s = s[2 := s ! 10]; s = s[10 := temp];
          temp = s ! 6; s = s[6 := s ! 14]; s = s[14 := temp];
          temp = s ! 3; s = s[3 := s ! 7]; s = s[7 := s ! 11]; s = s[11 := s ! 15]
      in s[15 := temp])"

section \<open>The cipher and its inverse\<close>

lemma round_measure:
  assumes "unat (r :: byte) \<noteq> Nr"
  shows "unat (14 - (r + 1)) < unat (14 - r)"
proof -
  have "14 - r \<noteq> 0" using assms by (auto simp: Nr_def)
  from measure_unat [OF this] show ?thesis by (simp only: diff_diff_eq)
qed

function cipher_loop :: "byte list \<Rightarrow> byte \<Rightarrow> state_t \<Rightarrow> state_t" where
  "cipher_loop RK round state =
     (let state = ShiftRows (SubBytes state)
      in if unat round = Nr then state
         else cipher_loop RK (round + 1) (AddRoundKey round (MixColumns state) RK))"
  by pat_completeness auto
termination
  by (relation "measure (\<lambda>(RK, round, state). unat (14 - round))")
    (rule wf_measure, simp only: in_measure prod.case, rule round_measure)

declare cipher_loop.simps [simp del]

definition Cipher :: "state_t \<Rightarrow> byte list \<Rightarrow> state_t" where
  "Cipher state RK =
     AddRoundKey (word_of_nat Nr) (cipher_loop RK 1 (AddRoundKey 0 state RK)) RK"

function inv_cipher_loop :: "byte list \<Rightarrow> byte \<Rightarrow> state_t \<Rightarrow> state_t" where
  "inv_cipher_loop RK round state =
     (let state = AddRoundKey round (InvSubBytes (InvShiftRows state)) RK
      in if round = 0 then state else inv_cipher_loop RK (round - 1) (InvMixColumns state))"
  by pat_completeness auto
termination
  by (relation "measure (\<lambda>(RK, round, state). unat round)") (auto simp: unat_minus_one unat_gt_0)

declare inv_cipher_loop.simps [simp del]

definition InvCipher :: "state_t \<Rightarrow> byte list \<Rightarrow> state_t" where
  "InvCipher state RK =
     inv_cipher_loop RK (word_of_nat (Nr - 1)) (AddRoundKey (word_of_nat Nr) state RK)"

section \<open>Modes of operation\<close>

definition AES_ECB_encrypt :: "AES_ctx \<Rightarrow> byte list \<Rightarrow> byte list" where
  "AES_ECB_encrypt ctx buf = copy_at buf 0 (Cipher (take AES_BLOCKLEN buf) (RoundKey ctx))"

definition AES_ECB_decrypt :: "AES_ctx \<Rightarrow> byte list \<Rightarrow> byte list" where
  "AES_ECB_decrypt ctx buf = copy_at buf 0 (InvCipher (take AES_BLOCKLEN buf) (RoundKey ctx))"

definition XorWithIv :: "byte list \<Rightarrow> byte list \<Rightarrow> byte list" where
  "XorWithIv buf iv = fold (\<lambda>i b. b[i := b ! i XOR iv ! i]) [0..<AES_BLOCKLEN] buf"

text \<open>
  The CBC loops: \<open>i\<close> counts the bytes done, the moving pointer \<open>buf\<close> is the offset \<open>i\<close> of the
  buffer; \<open>iv\<close> is what the pointer \<open>Iv\<close> refers to, the context's vector or the block before.
\<close>

function cbc_encrypt_loop ::
    "byte list \<Rightarrow> nat \<Rightarrow> nat \<Rightarrow> byte list \<Rightarrow> byte list \<Rightarrow> byte list \<times> byte list" where
  "cbc_encrypt_loop RK len i iv buf =
     (if i < len
      then let block = XorWithIv (take AES_BLOCKLEN (drop i buf)) iv;
               block = Cipher block RK
           in cbc_encrypt_loop RK len (i + AES_BLOCKLEN) block (copy_at buf i block)
      else (iv, buf))"
  by pat_completeness auto
termination
  by (relation "measure (\<lambda>(RK, len, i, iv, buf). len - i)") (auto simp: AES_BLOCKLEN_def)

declare cbc_encrypt_loop.simps [simp del]

definition AES_CBC_encrypt_buffer :: "AES_ctx \<Rightarrow> byte list \<Rightarrow> nat \<Rightarrow> AES_ctx \<times> byte list" where
  "AES_CBC_encrypt_buffer ctx buf len =
     (let (iv, buf) = cbc_encrypt_loop (RoundKey ctx) len 0 (Iv ctx) buf
      in (ctx\<lparr>Iv := copy_at (Iv ctx) 0 (take AES_BLOCKLEN iv)\<rparr>, buf))"

function cbc_decrypt_loop :: "nat \<Rightarrow> nat \<Rightarrow> AES_ctx \<Rightarrow> byte list \<Rightarrow> AES_ctx \<times> byte list" where
  "cbc_decrypt_loop len i ctx buf =
     (if i < len
      then let storeNextIv = take AES_BLOCKLEN (drop i buf);
               block = InvCipher (take AES_BLOCKLEN (drop i buf)) (RoundKey ctx);
               block = XorWithIv block (Iv ctx)
           in cbc_decrypt_loop len (i + AES_BLOCKLEN) (ctx\<lparr>Iv := copy_at (Iv ctx) 0 storeNextIv\<rparr>)
                (copy_at buf i block)
      else (ctx, buf))"
  by pat_completeness auto
termination
  by (relation "measure (\<lambda>(len, i, ctx, buf). len - i)") (auto simp: AES_BLOCKLEN_def)

declare cbc_decrypt_loop.simps [simp del]

definition AES_CBC_decrypt_buffer :: "AES_ctx \<Rightarrow> byte list \<Rightarrow> nat \<Rightarrow> AES_ctx \<times> byte list" where
  "AES_CBC_decrypt_buffer ctx buf len = cbc_decrypt_loop len 0 ctx buf"

text \<open>The carry loop of CTR runs from the last byte to the first; \<open>n\<close> is \<open>bi + 1\<close>.\<close>

fun increment_iv :: "nat \<Rightarrow> byte list \<Rightarrow> byte list" where
  "increment_iv 0 iv = iv"
| "increment_iv (Suc bi) iv =
     (if iv ! bi = 255 then increment_iv bi (iv[bi := 0]) else iv[bi := iv ! bi + 1])"

function ctr_loop ::
    "nat \<Rightarrow> nat \<Rightarrow> nat \<Rightarrow> byte list \<Rightarrow> AES_ctx \<Rightarrow> byte list \<Rightarrow> AES_ctx \<times> byte list" where
  "ctr_loop len i bi buffer ctx buf =
     (if i < len
      then let (buffer, ctx, bi) =
                 (if bi = AES_BLOCKLEN
                  then (Cipher (take AES_BLOCKLEN (Iv ctx)) (RoundKey ctx),
                        ctx\<lparr>Iv := increment_iv AES_BLOCKLEN (Iv ctx)\<rparr>, 0)
                  else (buffer, ctx, bi))
           in ctr_loop len (i + 1) (bi + 1) buffer ctx (buf[i := buf ! i XOR buffer ! bi])
      else (ctx, buf))"
  by pat_completeness auto
termination
  by (relation "measure (\<lambda>(len, i, bi, buffer, ctx, buf). len - i)") auto

declare ctr_loop.simps [simp del]

definition AES_CTR_xcrypt_buffer :: "AES_ctx \<Rightarrow> byte list \<Rightarrow> nat \<Rightarrow> AES_ctx \<times> byte list" where
  "AES_CTR_xcrypt_buffer ctx buf len = ctr_loop len 0 AES_BLOCKLEN (replicate 16 0) ctx buf"

section \<open>Each transformation is undone by its inverse\<close>

lemma sbox_table: "map getSBoxInvert sbox = map word_of_nat [0..<256]"
  unfolding getSBoxInvert_def sbox_def rsbox_def by (simp add: upt_rec)

lemma length_sbox: "length sbox = 256"
  by (simp add: sbox_def)

lemma getSBoxInvert_getSBoxValue [simp]: "getSBoxInvert (getSBoxValue b) = b"
proof -
  have "getSBoxInvert (sbox ! unat b) = map getSBoxInvert sbox ! unat b"
    using unat_byte_less [of b] by (simp add: length_sbox)
  also have "\<dots> = b"
    using unat_byte_less [of b] by (simp add: sbox_table)
  finally show ?thesis by (simp add: getSBoxValue_def)
qed

lemmas state_simps = length_16_conv upt_explicit

lemma SubBytes_map:
  assumes "length s = 16"
  shows "SubBytes s = map getSBoxValue s"
  using length_16_conv [OF assms] by (auto simp: SubBytes_def upt_explicit)

lemma InvSubBytes_map:
  assumes "length s = 16"
  shows "InvSubBytes s = map getSBoxInvert s"
  using length_16_conv [OF assms] by (auto simp: InvSubBytes_def upt_explicit)

lemma InvShiftRows_ShiftRows:
  assumes "length s = 16"
  shows "InvShiftRows (ShiftRows s) = s" "length (ShiftRows s) = 16"
  using length_16_conv [OF assms] by (auto simp: ShiftRows_def InvShiftRows_def)

lemma AddRoundKey_xor:
  assumes "length s = 16"
  shows "AddRoundKey r s RK = map (\<lambda>k. s ! k XOR RK ! (16 * unat r + k)) [0..<16]"
  using length_16_conv [OF assms]
  by (auto simp: AddRoundKey_def upt_explicit Nb_def mult.commute add.commute)

lemma AddRoundKey_twice:
  assumes "length s = 16"
  shows "AddRoundKey r (AddRoundKey r s RK) RK = s" "length (AddRoundKey r s RK) = 16"
proof -
  show "length (AddRoundKey r s RK) = 16"
    by (simp add: AddRoundKey_xor assms)
  then show "AddRoundKey r (AddRoundKey r s RK) RK = s"
    by (intro nth_equalityI) (simp_all add: AddRoundKey_xor assms xor.assoc)
qed

text \<open>\<open>xtime\<close> is linear over exclusive or, so the column mixing can be computed symbolically.\<close>

lemma drop_bit_7_cases: "drop_bit 7 (x :: byte) AND 1 = (if bit x 7 then 1 else 0)"
  by (rule word_eq_upt) (simp add: bit_simps upt_explicit word_eval)

lemma xtime_if: "xtime x = (if bit x 7 then push_bit 1 x XOR 0x1b else push_bit 1 x)"
  by (simp add: xtime_def drop_bit_7_cases)

lemma xtime_xor: "xtime (x XOR y) = xtime x XOR xtime y"
  by (auto simp: xtime_if bit_simps push_bit_xor xor.assoc xor.commute xor.left_commute)

lemma xor_cancel: "x XOR (x XOR y) = (y :: byte)"
  by (simp flip: xor.assoc)

lemmas xor_normal = xor.assoc xor.commute xor.left_commute xor_cancel xtime_xor

definition mix :: "byte \<Rightarrow> byte \<Rightarrow> byte \<Rightarrow> byte \<Rightarrow> byte" where
  "mix a b c d = xtime a XOR (xtime b XOR b) XOR c XOR d"

definition inv_mix :: "byte \<Rightarrow> byte \<Rightarrow> byte \<Rightarrow> byte \<Rightarrow> byte" where
  "inv_mix a b c d = Multiply a 0x0e XOR Multiply b 0x0b XOR Multiply c 0x0d XOR Multiply d 0x09"

lemma inv_mix_mix: "inv_mix (mix a b c d) (mix b c d a) (mix c d a b) (mix d a b c) = a"
  by (simp add: mix_def inv_mix_def Multiply_def xor_normal)

lemma mix_source:
  "a XOR (xtime (a XOR b) XOR (a XOR b XOR c XOR d)) = mix a b c d"
  "b XOR (xtime (b XOR c) XOR (a XOR b XOR c XOR d)) = mix b c d a"
  "c XOR (xtime (c XOR d) XOR (a XOR b XOR c XOR d)) = mix c d a b"
  "d XOR (xtime (d XOR a) XOR (a XOR b XOR c XOR d)) = mix d a b c"
  by (simp_all add: mix_def xor_normal)

lemma inv_mix_source:
  "Multiply a 0x0e XOR Multiply b 0x0b XOR Multiply c 0x0d XOR Multiply d 0x09 = inv_mix a b c d"
  "Multiply a 0x09 XOR Multiply b 0x0e XOR Multiply c 0x0b XOR Multiply d 0x0d = inv_mix b c d a"
  "Multiply a 0x0d XOR Multiply b 0x09 XOR Multiply c 0x0e XOR Multiply d 0x0b = inv_mix c d a b"
  "Multiply a 0x0b XOR Multiply b 0x0d XOR Multiply c 0x09 XOR Multiply d 0x0e = inv_mix d a b c"
  unfolding inv_mix_def by (simp_all only: ac_simps)

lemma MixColumns_mix:
  "MixColumns [a0, a1, a2, a3, b0, b1, b2, b3, c0, c1, c2, c3, d0, d1, d2, d3] =
    [mix a0 a1 a2 a3, mix a1 a2 a3 a0, mix a2 a3 a0 a1, mix a3 a0 a1 a2,
     mix b0 b1 b2 b3, mix b1 b2 b3 b0, mix b2 b3 b0 b1, mix b3 b0 b1 b2,
     mix c0 c1 c2 c3, mix c1 c2 c3 c0, mix c2 c3 c0 c1, mix c3 c0 c1 c2,
     mix d0 d1 d2 d3, mix d1 d2 d3 d0, mix d2 d3 d0 d1, mix d3 d0 d1 d2]"
  by (simp add: MixColumns_def Let_def upt_explicit mix_source)

lemma InvMixColumns_inv_mix:
  "InvMixColumns [a0, a1, a2, a3, b0, b1, b2, b3, c0, c1, c2, c3, d0, d1, d2, d3] =
    [inv_mix a0 a1 a2 a3, inv_mix a1 a2 a3 a0, inv_mix a2 a3 a0 a1, inv_mix a3 a0 a1 a2,
     inv_mix b0 b1 b2 b3, inv_mix b1 b2 b3 b0, inv_mix b2 b3 b0 b1, inv_mix b3 b0 b1 b2,
     inv_mix c0 c1 c2 c3, inv_mix c1 c2 c3 c0, inv_mix c2 c3 c0 c1, inv_mix c3 c0 c1 c2,
     inv_mix d0 d1 d2 d3, inv_mix d1 d2 d3 d0, inv_mix d2 d3 d0 d1, inv_mix d3 d0 d1 d2]"
  by (simp add: InvMixColumns_def Let_def upt_explicit inv_mix_source)

lemma InvMixColumns_MixColumns:
  assumes "length s = 16"
  shows "InvMixColumns (MixColumns s) = s" "length (MixColumns s) = 16"
  using length_16_conv [OF assms] by (auto simp: MixColumns_mix InvMixColumns_inv_mix inv_mix_mix)

text \<open>
  The inverse loop, started where the cipher's loop ends, undoes the rounds down to any
  round \<open>r\<close>: what is left is its iteration from the round key \<open>r - 1\<close> on.
\<close>

lemma length_SubBytes: "length s = 16 \<Longrightarrow> length (SubBytes s) = 16"
  by (simp add: SubBytes_map)

lemma InvSubBytes_SubBytes: "length s = 16 \<Longrightarrow> InvSubBytes (SubBytes s) = s"
  by (simp add: SubBytes_map InvSubBytes_map comp_def)

lemmas state_lengths = length_SubBytes InvShiftRows_ShiftRows(2) InvMixColumns_MixColumns(2)
  AddRoundKey_twice(2)

lemmas state_inverses = InvSubBytes_SubBytes InvShiftRows_ShiftRows(1)
  InvMixColumns_MixColumns(1) AddRoundKey_twice(1)

lemma inv_cipher_loop_SubShift:
  "length s = 16 \<Longrightarrow> inv_cipher_loop RK r (ShiftRows (SubBytes s)) =
     (if r = 0 then AddRoundKey r s RK
      else inv_cipher_loop RK (r - 1) (InvMixColumns (AddRoundKey r s RK)))"
  by (simp add: inv_cipher_loop.simps [of RK r] Let_def state_inverses state_lengths)

lemma inv_cipher_loop_cipher_loop:
  "length s = 16 \<Longrightarrow> 1 \<le> unat r \<Longrightarrow> unat r \<le> Nr \<Longrightarrow>
   inv_cipher_loop RK 13 (cipher_loop RK r s) = inv_cipher_loop RK (r - 1) (ShiftRows (SubBytes s))"
proof (induction RK r s rule: cipher_loop.induct)
  case (1 RK r s)
  show ?case
  proof (cases "unat r = Nr")
    case True
    then have "unat r = unat (14 :: byte)" by (simp add: Nr_def)
    then have "r = 14" by (simp only: word_unat_eq_iff)
    then show ?thesis by (simp add: cipher_loop.simps [of RK 14] Let_def Nr_def)
  next
    case False
    let ?s = "ShiftRows (SubBytes s)"
    have len: "length ?s = 16" "length (MixColumns ?s) = 16" "length (AddRoundKey r (MixColumns ?s) RK) = 16"
      using "1.prems" by (simp_all add: state_lengths)
    have r: "unat (r + 1) = unat r + 1" "r \<noteq> 0"
      using "1.prems" False by (auto simp: Nr_def unat_word_ariths)
    have "inv_cipher_loop RK 13 (cipher_loop RK r s)
        = inv_cipher_loop RK 13 (cipher_loop RK (r + 1) (AddRoundKey r (MixColumns ?s) RK))"
      using False by (simp add: cipher_loop.simps [of RK r])
    also have "\<dots> = inv_cipher_loop RK r (ShiftRows (SubBytes (AddRoundKey r (MixColumns ?s) RK)))"
      using "1.IH" [OF refl False len(3)] r "1.prems" False by (simp add: Nr_def)
    also have "\<dots> = inv_cipher_loop RK (r - 1) ?s"
      using len r by (simp add: inv_cipher_loop_SubShift state_inverses)
    finally show ?thesis .
  qed
qed

lemma length_cipher_loop: "length s = 16 \<Longrightarrow> length (cipher_loop RK r s) = 16"
proof (induction RK r s rule: cipher_loop.induct)
  case (1 RK r s)
  then show ?case
    by (simp add: cipher_loop.simps [of RK r] state_lengths Let_def)
qed

lemma length_Cipher: "length s = 16 \<Longrightarrow> length (Cipher s RK) = 16"
  by (simp add: Cipher_def length_cipher_loop state_lengths)

lemma InvCipher_Cipher:
  assumes "length s = 16"
  shows "InvCipher (Cipher s RK) RK = s"
proof -
  have "InvCipher (Cipher s RK) RK = inv_cipher_loop RK 13 (cipher_loop RK 1 (AddRoundKey 0 s RK))"
    using assms by (simp add: InvCipher_def Cipher_def Nr_def length_cipher_loop state_lengths state_inverses)
  also have "\<dots> = s"
    using assms by (simp add: inv_cipher_loop_cipher_loop Nr_def state_lengths
        inv_cipher_loop_SubShift state_inverses)
  finally show ?thesis .
qed

section \<open>Chaining\<close>

text \<open>
  The contract of a block cipher: on blocks of the block length, decryption under a key
  inverts encryption. The chaining of SP 800-38A is defined over such a cipher, and its
  decryption inverts its encryption for every one that meets the contract.
\<close>

fun cbc_enc :: "(byte list \<Rightarrow> byte list) \<Rightarrow> byte list \<Rightarrow> byte list list \<Rightarrow> byte list list" where
  "cbc_enc E iv [] = []"
| "cbc_enc E iv (p # ps) = (let c = E (map2 (XOR) p iv) in c # cbc_enc E c ps)"

fun cbc_dec :: "(byte list \<Rightarrow> byte list) \<Rightarrow> byte list \<Rightarrow> byte list list \<Rightarrow> byte list list" where
  "cbc_dec D iv [] = []"
| "cbc_dec D iv (c # cs) = map2 (XOR) (D c) iv # cbc_dec D c cs"

lemma length_cbc: "length (cbc_enc E iv ps) = length ps"
  by (induction ps arbitrary: iv) (simp_all add: Let_def)

locale block_cipher =
  fixes E D :: "'k \<Rightarrow> byte list \<Rightarrow> byte list"
    and blen :: nat
  assumes length_E: "length b = blen \<Longrightarrow> length (E k b) = blen"
    and D_E: "length b = blen \<Longrightarrow> D k (E k b) = b"
begin

lemma map2_xor_twice:
  "length p = length iv \<Longrightarrow> map2 (XOR) (map2 (XOR) p iv) iv = (p :: byte list)"
  by (induction p iv rule: list_induct2) (simp_all add: xor.assoc)

lemma cbc_dec_enc:
  "length iv = blen \<Longrightarrow> list_all (\<lambda>p. length p = blen) ps \<Longrightarrow>
   cbc_dec (D k) iv (cbc_enc (E k) iv ps) = ps"
  by (induction ps arbitrary: iv) (simp_all add: Let_def D_E length_E map2_xor_twice)

lemma length_cbc_enc:
  "length iv = blen \<Longrightarrow> list_all (\<lambda>p. length p = blen) ps \<Longrightarrow>
   list_all (\<lambda>p. length p = blen) (cbc_enc (E k) iv ps)"
  by (induction ps arbitrary: iv) (simp_all add: Let_def length_E)

lemma length_D_cbc_enc:
  "length iv = blen \<Longrightarrow> list_all (\<lambda>p. length p = blen) ps \<Longrightarrow>
   list_all (\<lambda>c. length (D k c) = blen) (cbc_enc (E k) iv ps)"
  by (induction ps arbitrary: iv) (simp_all add: Let_def D_E length_E)

lemma enc_inj: "length a = blen \<Longrightarrow> length b = blen \<Longrightarrow> E k a = E k b \<longleftrightarrow> a = b"
  using D_E by metis

end

interpretation aes: block_cipher "\<lambda>RK s. Cipher s RK" "\<lambda>RK s. InvCipher s RK" 16
  by unfold_locales (simp_all add: length_Cipher InvCipher_Cipher)

lemma XorWithIv_map2:
  assumes "length b = 16" "length iv = 16"
  shows "XorWithIv b iv = map2 (XOR) b iv"
  using length_16_conv [OF assms(1)] length_16_conv [OF assms(2)]
  by (auto simp: XorWithIv_def AES_BLOCKLEN_def upt_explicit)

lemma cbc_encrypt_loop_blocks:
  assumes "length iv = 16" "list_all (\<lambda>p. length p = 16) ps"
  shows "cbc_encrypt_loop RK (length pre + 16 * length ps) (length pre) iv (pre @ concat ps @ post) =
    (let cs = cbc_enc (\<lambda>s. Cipher s RK) iv ps in (last (iv # cs), pre @ concat cs @ post))"
  using assms
proof (induction ps arbitrary: iv pre)
  case Nil
  then show ?case by (simp add: cbc_encrypt_loop.simps)
next
  case (Cons p ps)
  let ?c = "Cipher (map2 (XOR) p iv) RK"
  have c: "length ?c = 16" using Cons.prems by (simp add: length_Cipher)
  have "copy_at (pre @ p @ concat ps @ post) (length pre) ?c = (pre @ ?c) @ concat ps @ post"
    using Cons.prems c by (simp add: copy_at_def)
  with Cons c show ?case
    using Cons.IH [of ?c "pre @ ?c"]
    by (simp add: cbc_encrypt_loop.simps [of RK _ "length pre"] AES_BLOCKLEN_def XorWithIv_map2 Let_def
        add.assoc)
qed

lemma cbc_decrypt_loop_blocks:
  assumes "length (Iv ctx) = 16" "list_all (\<lambda>c. length c = 16) cs"
    and "list_all (\<lambda>c. length (InvCipher c (RoundKey ctx)) = 16) cs"
  shows "cbc_decrypt_loop (length pre + 16 * length cs) (length pre) ctx (pre @ concat cs @ post) =
    (ctx\<lparr>Iv := last (Iv ctx # cs)\<rparr>,
     pre @ concat (cbc_dec (\<lambda>s. InvCipher s (RoundKey ctx)) (Iv ctx) cs) @ post)"
  using assms
proof (induction cs arbitrary: ctx pre)
  case Nil
  then show ?case by (simp add: cbc_decrypt_loop.simps)
next
  case (Cons c cs)
  let ?p = "map2 (XOR) (InvCipher c (RoundKey ctx)) (Iv ctx)"
  have p: "length ?p = 16" using Cons.prems by simp
  have "copy_at (pre @ c @ concat cs @ post) (length pre) ?p = (pre @ ?p) @ concat cs @ post"
    using Cons.prems p by (simp add: copy_at_def)
  with Cons p show ?case
    using Cons.IH [of "ctx\<lparr>Iv := c\<rparr>" "pre @ ?p"]
    by (simp add: cbc_decrypt_loop.simps [of _ "length pre"] AES_BLOCKLEN_def XorWithIv_map2 Let_def
        copy_at_def [of "Iv ctx"] add.assoc)
qed

lemma length_last: "length iv = n \<Longrightarrow> list_all (\<lambda>p. length p = n) cs \<Longrightarrow> length (last (iv # cs)) = n"
  by (auto simp: list_all_iff)

lemma cbc_encrypt_blocks:
  assumes "length (Iv ctx) = 16" "list_all (\<lambda>p. length p = 16) ps"
  shows "AES_CBC_encrypt_buffer ctx (concat ps @ rest) (16 * length ps) =
    (let cs = cbc_enc (\<lambda>s. Cipher s (RoundKey ctx)) (Iv ctx) ps
     in (ctx\<lparr>Iv := last (Iv ctx # cs)\<rparr>, concat cs @ rest))"
  using cbc_encrypt_loop_blocks [OF assms, of "RoundKey ctx" "[]" rest]
    length_last [OF assms(1) aes.length_cbc_enc [OF assms]] assms(1)
  by (simp add: AES_CBC_encrypt_buffer_def Let_def AES_BLOCKLEN_def copy_at_def del: last.simps)

lemma cbc_decrypt_blocks:
  assumes "length (Iv ctx) = 16" "list_all (\<lambda>p. length p = 16) ps"
    and "cs = cbc_enc (\<lambda>s. Cipher s (RoundKey ctx)) (Iv ctx) ps"
  shows "AES_CBC_decrypt_buffer ctx (concat cs @ rest) (16 * length ps) =
    (ctx\<lparr>Iv := last (Iv ctx # cs)\<rparr>, concat ps @ rest)"
  using cbc_decrypt_loop_blocks [OF assms(1) aes.length_cbc_enc [OF assms(1,2)]
      aes.length_D_cbc_enc [OF assms(1,2)], of "[]" rest] aes.cbc_dec_enc [OF assms(1,2), of "RoundKey ctx"]
  by (simp add: AES_CBC_decrypt_buffer_def assms(3) length_cbc del: last.simps)

section \<open>The key schedule\<close>

text \<open>FIPS 197, section 5.2, for eight key words: the words of the schedule.\<close>

fun fips_key_word :: "byte list \<Rightarrow> nat \<Rightarrow> byte list" where
  "fips_key_word key i =
     (if i < 8 then take 4 (drop (4 * i) key)
      else let w = fips_key_word key (i - 1);
               temp = (if i mod 8 = 0
                       then map2 (XOR) (map getSBoxValue (rotate1 w)) [(xtime ^^ (i div 8 - 1)) 1, 0, 0, 0]
                       else if i mod 8 = 4 then map getSBoxValue w else w)
           in map2 (XOR) (fips_key_word key (i - 8)) temp)"

declare fips_key_word.simps [simp del]

lemma length_fips_key_word: "length key = 32 \<Longrightarrow> i < 60 \<Longrightarrow> length (fips_key_word key i) = 4"
proof (induction key i rule: fips_key_word.induct)
  case (1 key i)
  then show ?case
    by (cases "i < 8") (simp_all add: fips_key_word.simps [of key i] Let_def)
qed

lemma Rcon_powers:
  assumes "1 \<le> k" "k \<le> 10"
  shows "Rcon ! k = (xtime ^^ (k - 1)) 1"
proof -
  have "list_all (\<lambda>k. Rcon ! k = (xtime ^^ (k - 1)) 1) [1..<11]"
    by code_simp
  then show ?thesis using assms by (simp add: list_all_iff)
qed

definition schedule_upto :: "byte list \<Rightarrow> nat \<Rightarrow> byte list \<Rightarrow> bool" where
  "schedule_upto key n RK \<longleftrightarrow> length RK = 240
     \<and> (\<forall>m < n. \<forall>j < 4. RK ! (m * 4 + j) = fips_key_word key m ! j)"

lemma all_less_4: "(\<forall>j < 4. P j) \<longleftrightarrow> P 0 \<and> P 1 \<and> P 2 \<and> P (3 :: nat)"
  by (auto simp: less_Suc_eq numeral_eq_Suc)

lemma key_copy_step_schedule:
  assumes "schedule_upto key i RK" "i < 8" "length key = 32"
  shows "schedule_upto key (Suc i) (key_copy_step key i RK)"
  using assms by (auto simp: schedule_upto_def key_copy_step_def less_Suc_eq all_less_4 fips_key_word.simps [of key i]
    nth_list_update mult.commute)

lemma key_expand_step_schedule:
  assumes "schedule_upto key i RK" "8 \<le> i" "i < 60" "length key = 32"
  shows "schedule_upto key (Suc i) (key_expand_step i RK)"
proof -
  have i: "i - 1 < 60" "i - 8 < 60" using assms(3) by linarith+
  obtain w0 w1 w2 w3 where w: "fips_key_word key (i - 1) = [w0, w1, w2, w3]"
    using length_4_conv [OF length_fips_key_word [OF assms(4) i(1)]] by blast
  obtain v0 v1 v2 v3 where v: "fips_key_word key (i - 8) = [v0, v1, v2, v3]"
    using length_4_conv [OF length_fips_key_word [OF assms(4) i(2)]] by blast
  have prev: "RK ! ((i - 1) * 4) = w0" "RK ! ((i - 1) * 4 + 1) = w1" "RK ! ((i - 1) * 4 + 2) = w2"
      "RK ! ((i - 1) * 4 + 3) = w3"
    and eighth: "RK ! ((i - 8) * 4) = v0" "RK ! ((i - 8) * 4 + 1) = v1" "RK ! ((i - 8) * 4 + 2) = v2"
      "RK ! ((i - 8) * 4 + 3) = v3"
    using assms(1,2) w v by (auto simp: schedule_upto_def all_less_4)
  have far: "i * 4 + j \<noteq> (i - 8) * 4 + k" if "k < 4" for j k
    using that assms(2) by auto
  let ?t = "(let w = [w0, w1, w2, w3] in
     if i mod 8 = 0 then map2 (XOR) (map getSBoxValue (rotate1 w)) [Rcon ! (i div 8), 0, 0, 0]
     else if i mod 8 = 4 then map getSBoxValue w else w)"
  have Rcon: "Rcon ! (i div 8) = (xtime ^^ (i div 8 - 1)) 1"
    using assms(2,3) by (intro Rcon_powers) auto
  have word: "fips_key_word key i = map2 (XOR) [v0, v1, v2, v3] ?t"
    using assms(2) by (simp add: fips_key_word.simps [of key i] w [simplified] v Rcon Let_def)
  have step: "key_expand_step i RK = RK[i * 4 := v0 XOR ?t ! 0, i * 4 + 1 := v1 XOR ?t ! 1,
      i * 4 + 2 := v2 XOR ?t ! 2, i * 4 + 3 := v3 XOR ?t ! 3]"
    using prev eighth far [of 1 0, simplified] far [of 2 0, simplified] far [of 2 1, simplified]
      far [of 3 0, simplified] far [of 3 1, simplified] far [of 3 2, simplified]
    by (simp add: key_expand_step_def Let_def Nk_def)
  show ?thesis
    using assms unfolding schedule_upto_def step
    by (auto simp: less_Suc_eq all_less_4 word nth_list_update Let_def)
qed

lemma KeyExpansion_schedule:
  assumes "length RK = 240" "length key = 32"
  shows "schedule_upto key 60 (KeyExpansion RK key)"
proof -
  have "schedule_upto key n (fold (key_copy_step key) [0..<n] RK)" if "n \<le> 8" for n
    using that assms by (induction n) (simp_all add: schedule_upto_def [of _ 0] key_copy_step_schedule)
  then have copied: "schedule_upto key 8 (fold (key_copy_step key) [0..<8] RK)" by simp
  have "schedule_upto key n (fold key_expand_step [8..<n] (fold (key_copy_step key) [0..<8] RK))"
    if "8 \<le> n" "n \<le> 60" for n
    using that copied assms(2)
    by (induction n rule: nat_induct_at_least) (simp_all add: key_expand_step_schedule)
  from this [of 60] show ?thesis
    by (simp add: KeyExpansion_def aes_sizes)
qed

lemma length_KeyExpansion: "length RK = 240 \<Longrightarrow> length key = 32 \<Longrightarrow> length (KeyExpansion RK key) = 240"
  using KeyExpansion_schedule [of RK key] by (simp add: schedule_upto_def)

section \<open>The field of FIPS 197\<close>

text \<open>
  Polynomial multiplication over the two-element field, modulo \<open>x\<^sup>8 + x\<^sup>4 + x\<^sup>3 + x + 1\<close>: the
  bits of one factor are taken from the most significant on.
\<close>

definition gf_mult :: "byte \<Rightarrow> byte \<Rightarrow> byte" where
  "gf_mult a b = foldr (\<lambda>n acc. (if bit a n then b else 0) XOR xtime acc) [0..<8] 0"

lemma xtime_0 [simp]: "xtime 0 = 0"
  by (simp add: xtime_if)

lemma gf_mult_constants:
  "gf_mult 1 x = x" "gf_mult 2 x = xtime x" "gf_mult 3 x = xtime x XOR x"
  "gf_mult 0x09 x = Multiply x 0x09" "gf_mult 0x0b x = Multiply x 0x0b"
  "gf_mult 0x0d x = Multiply x 0x0d" "gf_mult 0x0e x = Multiply x 0x0e"
  by (simp_all add: gf_mult_def Multiply_def upt_explicit xor_normal)

section \<open>Properties\<close>

text \<open>
  The inverse cipher inverts the cipher: for every 16-byte block and whatever the bytes
  of the expanded key, InvCipher returns the block that Cipher was given, although its loop
  runs the rounds in the other order with other tables and another column matrix.
\<close>

theorem aes_inverse_cipher:
  assumes "length state = 16"
  shows "InvCipher (Cipher state RK) RK = state \<and> length (Cipher state RK) = 16"
  using assms by (simp add: aes.D_E aes.length_E)

theorem aes_inverse_cipher_witness:
  "InvCipher (Cipher (replicate 16 7) (replicate 240 1)) (replicate 240 1) = replicate 16 7
   \<and> length (Cipher (replicate 16 7) (replicate 240 1)) = 16"
  by (rule aes_inverse_cipher) simp

text \<open>
  C31. The key schedule is the one of FIPS 197 for 256-bit keys: word i of the round keys
  (bytes 4i to 4i+3) is the schedule word, a key word for i below 8 and afterwards the word
  eight before combined with the previous one, rotated, substituted and with the round
  constant x^(i/8-1) at the multiples of 8, only substituted four words later.
\<close>

theorem aes_key_schedule_fips:
  assumes "length RK = AES_keyExpSize" "length key = AES_KEYLEN"
  shows "KeyExpansion RK key = concat (map (fips_key_word key) [0..<60])"
proof -
  have inv: "schedule_upto key 60 (KeyExpansion RK key)"
    using assms by (intro KeyExpansion_schedule) (simp_all add: aes_sizes)
  have words: "list_all (\<lambda>w. length w = 4) (map (fips_key_word key) [0..<60])"
    using assms length_fips_key_word [of key] by (simp only: list.pred_map) (simp add: list_all_iff aes_sizes)
  show ?thesis
  proof (rule nth_equalityI)
    show len: "length (KeyExpansion RK key) = length (concat (map (fips_key_word key) [0..<60]))"
      using inv length_concat_same [OF words] by (simp only: schedule_upto_def length_map length_upt)
    fix k
    assume "k < length (KeyExpansion RK key)"
    then have k: "k div 4 < 60" "k mod 4 < 4" "k = k div 4 * 4 + k mod 4"
      using inv by (simp_all add: schedule_upto_def less_mult_imp_div_less)
    then have "KeyExpansion RK key ! k = fips_key_word key (k div 4) ! (k mod 4)"
      using inv unfolding schedule_upto_def by metis
    also have "\<dots> = concat (map (fips_key_word key) [0..<60]) ! k"
      using nth_concat_4 [OF words, of "k div 4" "k mod 4"] k
      by (simp only: length_map length_upt nth_map nth_upt) simp
    finally show "KeyExpansion RK key ! k = concat (map (fips_key_word key) [0..<60]) ! k" .
  qed
qed

theorem aes_key_schedule_fips_witness:
  "KeyExpansion (replicate 240 0) (replicate 32 5) = concat (map (fips_key_word (replicate 32 5)) [0..<60])"
  by (rule aes_key_schedule_fips) (simp_all add: aes_sizes)

text \<open>
  The column mixing of aes.c, written with one shared sum and four doublings per column,
  is the matrix product of FIPS 197 with rows 2 3 1 1, 1 2 3 1, 1 1 2 3 and 3 1 1 2 over the
  field with reduction polynomial x^8+x^4+x^3+x+1; the inverse mixing has rows 14 11 13 9 and
  its rotations.
\<close>

theorem aes_mix_columns_fips:
  assumes "length state = 16" "i < 4" "j < 4"
  shows "MixColumns state ! (4 * i + j) =
      gf_mult 2 (state ! (4 * i + j)) XOR gf_mult 3 (state ! (4 * i + (j + 1) mod 4))
        XOR gf_mult 1 (state ! (4 * i + (j + 2) mod 4)) XOR gf_mult 1 (state ! (4 * i + (j + 3) mod 4))
    \<and> InvMixColumns state ! (4 * i + j) =
      gf_mult 14 (state ! (4 * i + j)) XOR gf_mult 11 (state ! (4 * i + (j + 1) mod 4))
        XOR gf_mult 13 (state ! (4 * i + (j + 2) mod 4)) XOR gf_mult 9 (state ! (4 * i + (j + 3) mod 4))"
proof -
  have "i \<in> set [0..<4]" "j \<in> set [0..<4]" using assms by simp_all
  then show ?thesis
    using length_16_conv [OF assms(1)]
    by (auto simp: upt_explicit MixColumns_mix InvMixColumns_inv_mix mix_def inv_mix_def
        gf_mult_constants)
qed

theorem aes_mix_columns_fips_witness:
  "MixColumns (replicate 16 7) ! (4 * 0 + 1) =
      gf_mult 2 (replicate 16 7 ! (4 * 0 + 1)) XOR gf_mult 3 (replicate 16 7 ! (4 * 0 + (1 + 1) mod 4))
        XOR gf_mult 1 (replicate 16 7 ! (4 * 0 + (1 + 2) mod 4))
        XOR gf_mult 1 (replicate 16 7 ! (4 * 0 + (1 + 3) mod 4))
    \<and> InvMixColumns (replicate 16 7) ! (4 * 0 + 1) =
      gf_mult 14 (replicate 16 7 ! (4 * 0 + 1)) XOR gf_mult 11 (replicate 16 7 ! (4 * 0 + (1 + 1) mod 4))
        XOR gf_mult 13 (replicate 16 7 ! (4 * 0 + (1 + 2) mod 4))
        XOR gf_mult 9 (replicate 16 7 ! (4 * 0 + (1 + 3) mod 4))"
  by (rule aes_mix_columns_fips) simp_all

text \<open>
  AES_CBC_encrypt_buffer is the chaining of SP 800-38A over the cipher: a buffer of
  16-byte blocks becomes the blocks C_j = E(P_j xor C_(j-1)) with C_0 the vector of the
  context, the rest of the buffer is untouched, and the context is left with the last
  ciphertext block as the vector for the next call.
\<close>

theorem aes_cbc_encrypt_chaining:
  assumes "length (Iv ctx) = AES_BLOCKLEN" "list_all (\<lambda>p. length p = AES_BLOCKLEN) ps"
  shows "AES_CBC_encrypt_buffer ctx (concat ps @ rest) (AES_BLOCKLEN * length ps) =
    (let cs = cbc_enc (\<lambda>s. Cipher s (RoundKey ctx)) (Iv ctx) ps
     in (ctx\<lparr>Iv := last (Iv ctx # cs)\<rparr>, concat cs @ rest))"
  using assms cbc_encrypt_blocks by (simp add: AES_BLOCKLEN_def)

theorem aes_cbc_encrypt_chaining_witness:
  "AES_CBC_encrypt_buffer \<lparr>RoundKey = replicate 240 1, Iv = replicate 16 2\<rparr>
      (concat [replicate 16 3, replicate 16 3] @ [4]) (AES_BLOCKLEN * length [replicate 16 3, replicate 16 (3 :: byte)]) =
    (let cs = cbc_enc (\<lambda>s. Cipher s (RoundKey \<lparr>RoundKey = replicate 240 1, Iv = replicate 16 2\<rparr>))
        (Iv \<lparr>RoundKey = replicate 240 1, Iv = replicate 16 2\<rparr>) [replicate 16 3, replicate 16 3]
     in (\<lparr>RoundKey = replicate 240 1, Iv = replicate 16 2\<rparr>
           \<lparr>Iv := last (Iv \<lparr>RoundKey = replicate 240 1, Iv = replicate 16 2\<rparr> # cs)\<rparr>, concat cs @ [4]))"
  by (rule aes_cbc_encrypt_chaining) (simp_all add: AES_BLOCKLEN_def)

text \<open>
  C32. CBC decryption inverts CBC encryption on whole blocks, from the same context, and both
  leave the same context, so that a message may be processed in several calls on either side.
\<close>

theorem aes_cbc_round_trip:
  assumes "length (Iv ctx) = AES_BLOCKLEN" "list_all (\<lambda>p. length p = AES_BLOCKLEN) ps"
    and "AES_CBC_encrypt_buffer ctx (concat ps @ rest) (AES_BLOCKLEN * length ps) = (ctx', buf)"
  shows "AES_CBC_decrypt_buffer ctx buf (AES_BLOCKLEN * length ps) = (ctx', concat ps @ rest)"
  using assms cbc_encrypt_blocks cbc_decrypt_blocks by (simp add: AES_BLOCKLEN_def Let_def) blast

theorem aes_cbc_round_trip_witness:
  "AES_CBC_decrypt_buffer \<lparr>RoundKey = replicate 240 1, Iv = replicate 16 2\<rparr>
     (snd (AES_CBC_encrypt_buffer \<lparr>RoundKey = replicate 240 1, Iv = replicate 16 2\<rparr>
        (concat [replicate 16 3] @ [4]) (AES_BLOCKLEN * length [replicate 16 (3 :: byte)])))
     (AES_BLOCKLEN * length [replicate 16 (3 :: byte)]) =
   (fst (AES_CBC_encrypt_buffer \<lparr>RoundKey = replicate 240 1, Iv = replicate 16 2\<rparr>
        (concat [replicate 16 3] @ [4]) (AES_BLOCKLEN * length [replicate 16 (3 :: byte)])),
    concat [replicate 16 3] @ [4])"
  by (rule aes_cbc_round_trip) (simp_all add: AES_BLOCKLEN_def)

end
