(* ===== verification/Nostr_Event.thy ===== *)
theory Nostr_Event
  imports Cursor Hex Sha256
begin

text \<open>
  Events: the data of \<open>src/src/nostril/nostri.h\<close> and the part of \<open>nostri.c\<close> that serialises an
  event, computes its id and builds events and tags. A \<open>const char *\<close> that may be
  \<open>NULL\<close> is an option of the bytes of its string; the arrays of a tag and of an event are
  lists of their sixteen and thirty-two slots with the count beside them, as in the structs.
  \<open>int\<close> fields are integers, the counts naturals. A push that fails ends the sequence, which
  is \<open>and_then\<close>. \<open>int len = strlen(str)\<close> is the length itself: strings have less than 2^31 bytes.

  The reference is the serialisation of NIP-01, \<open>[0,pubkey,created_at,kind,tags,content]\<close> with
  the escapes of its strings. Shown: the commitment the code writes is that text exactly,
  whenever the buffer has room; the text determines the event's fields (a prefix code for
  strings is lifted to arrays of them and to arrays of arrays); the id is the SHA-256 of the
  text; the tag arrays stay within their bounds.
\<close>

section \<open>Data\<close>

definition MAX_TAGS :: nat where "MAX_TAGS = 32"
definition MAX_TAG_ELEMS :: nat where "MAX_TAG_ELEMS = 16"
definition HAS_CREATED_AT :: u32 where "HAS_CREATED_AT = push_bit 1 1"
definition HAS_KIND :: u32 where "HAS_KIND = push_bit 2 1"
definition HAS_ENVELOPE :: u32 where "HAS_ENVELOPE = push_bit 3 1"
definition HAS_ENCRYPT :: u32 where "HAS_ENCRYPT = push_bit 4 1"
definition HAS_DIFFICULTY :: u32 where "HAS_DIFFICULTY = push_bit 5 1"
definition HAS_MINE_PUBKEY :: u32 where "HAS_MINE_PUBKEY = push_bit 6 1"

lemmas flag_defs = HAS_CREATED_AT_def HAS_KIND_def HAS_ENVELOPE_def HAS_ENCRYPT_def
  HAS_DIFFICULTY_def HAS_MINE_PUBKEY_def

text \<open>\<open>flags & FLAG\<close> as a condition.\<close>

definition has_flag :: "u32 \<Rightarrow> u32 \<Rightarrow> bool" where
  "has_flag flags f \<longleftrightarrow> flags AND f \<noteq> 0"

record args =
  flags :: u32
  args_kind :: int
  difficulty :: int
  encrypt_to :: "byte list"
  sec :: "byte list option"
  args_tags :: "byte list option"
  args_content :: "byte list option"
  args_created_at :: u64

record nostr_tag =
  strs :: "byte list option list"
  num_elems :: nat

record nostr_event =
  ev_id :: "byte list"
  ev_pubkey :: "byte list"
  ev_sig :: "byte list"
  ev_content :: "byte list option"
  ev_created_at :: u64
  ev_kind :: int
  explicit_tags :: "byte list option"
  ev_tags :: "nostr_tag list"
  num_tags :: nat

section \<open>Serialisation\<close>

definition cursor_push_escaped_char :: "byte \<Rightarrow> cstate \<Rightarrow> bool \<times> cstate" where
  "cursor_push_escaped_char c =
     (if c = 0x22 then cursor_push_str [0x5c, 0x22]
      else if c = 0x5c then cursor_push_str [0x5c, 0x5c]
      else if c = 0x08 then cursor_push_str [0x5c, 0x62]
      else if c = 0x0c then cursor_push_str [0x5c, 0x66]
      else if c = 0x0a then cursor_push_str [0x5c, 0x6e]
      else if c = 0x0d then cursor_push_str [0x5c, 0x72]
      else if c = 0x09 then cursor_push_str [0x5c, 0x74]
      else cursor_push_byte c)"

text \<open>The \<open>for\<close> loop over the characters, then the whole string; \<open>NULL\<close> pushes nothing.\<close>

primrec push_escaped_loop :: "byte list \<Rightarrow> cstate \<Rightarrow> bool \<times> cstate" where
  "push_escaped_loop [] = (\<lambda>s. (True, s))"
| "push_escaped_loop (c # cs) = and_then (cursor_push_escaped_char c) (push_escaped_loop cs)"

definition cursor_push_jsonstr :: "byte list option \<Rightarrow> cstate \<Rightarrow> bool \<times> cstate" where
  "cursor_push_jsonstr str =
     (case str of
        None \<Rightarrow> (\<lambda>s. (True, s))
      | Some str \<Rightarrow>
          and_then (cursor_push_byte 0x22)
            (and_then (push_escaped_loop (c_str str)) (cursor_push_byte 0x22)))"

function push_elems_loop :: "nostr_tag \<Rightarrow> nat \<Rightarrow> cstate \<Rightarrow> bool \<times> cstate" where
  "push_elems_loop tag i =
     (if i < num_elems tag
      then and_then (cursor_push_jsonstr (strs tag ! i))
             (and_then (if i \<noteq> num_elems tag - 1 then cursor_push_byte 0x2c else (\<lambda>s. (True, s)))
               (push_elems_loop tag (i + 1)))
      else (\<lambda>s. (True, s)))"
  by pat_completeness auto
termination
  by (relation "measure (\<lambda>(tag, i). num_elems tag - i)") auto

declare push_elems_loop.simps [simp del]

definition cursor_push_tag :: "nostr_tag \<Rightarrow> cstate \<Rightarrow> bool \<times> cstate" where
  "cursor_push_tag tag =
     and_then (cursor_push_byte 0x5b) (and_then (push_elems_loop tag 0) (cursor_push_byte 0x5d))"

function push_tags_loop :: "nostr_event \<Rightarrow> nat \<Rightarrow> cstate \<Rightarrow> bool \<times> cstate" where
  "push_tags_loop ev i =
     (if i < num_tags ev
      then and_then (cursor_push_tag (ev_tags ev ! i))
             (and_then (if i \<noteq> num_tags ev - 1 then cursor_push_str [0x2c] else (\<lambda>s. (True, s)))
               (push_tags_loop ev (i + 1)))
      else (\<lambda>s. (True, s)))"
  by pat_completeness auto
termination
  by (relation "measure (\<lambda>(ev, i). num_tags ev - i)") auto

declare push_tags_loop.simps [simp del]

definition cursor_push_tags :: "nostr_event \<Rightarrow> cstate \<Rightarrow> bool \<times> cstate" where
  "cursor_push_tags ev =
     (case explicit_tags ev of
        Some t \<Rightarrow> cursor_push_str t
      | None \<Rightarrow>
          and_then (cursor_push_byte 0x5b) (and_then (push_tags_loop ev 0) (cursor_push_byte 0x5d)))"

text \<open>
  The buffer of \<open>buflen\<close> bytes at \<open>buf\<close>; the result is the returned length and the memory.
  \<open>None\<close> is the failed assertion.
\<close>

definition event_commitment ::
    "nostr_event \<Rightarrow> memory \<Rightarrow> addr \<Rightarrow> int \<Rightarrow> (int \<times> memory) option" where
  "event_commitment ev m buf buflen =
     (case hex_encode (ev_pubkey ev) (replicate 65 0) 65 of
        Some (True, pubkey) \<Rightarrow>
          (let cur = make_cursor buf (buf + buflen);
               timebuf = snprintf 16 (dec_nat (unat (ev_created_at ev)));
               kindbuf = snprintf 16 (dec_int (ev_kind ev));
               (ok, m, cur) =
                 and_then (cursor_push_str [0x5b, 0x30, 0x2c, 0x22])
                 (and_then (cursor_push_str pubkey)
                 (and_then (cursor_push_str [0x22, 0x2c])
                 (and_then (cursor_push_str timebuf)
                 (and_then (cursor_push_str [0x2c])
                 (and_then (cursor_push_str kindbuf)
                 (and_then (cursor_push_str [0x2c])
                 (and_then (cursor_push_tags ev)
                 (and_then (cursor_push_str [0x2c])
                 (and_then (cursor_push_jsonstr (ev_content ev))
                   (cursor_push_str [0x5d])))))))))) (m, cur)
           in Some (if ok then cur_p cur - cur_start cur else 0, m))
      | _ \<Rightarrow> None)"

text \<open>
  The static buffer of 102400 bytes starts at address 0 of its own memory, which persists
  from call to call.
\<close>

definition generate_event_id ::
    "nostr_event \<Rightarrow> memory \<Rightarrow> (bool \<times> nostr_event \<times> memory) option" where
  "generate_event_id ev m =
     (case event_commitment ev m 0 102400 of
        None \<Rightarrow> None
      | Some (len, m) \<Rightarrow>
          if len = 0 then Some (False, ev, m)
          else (case sha256 (mem_read m 0 (nat len)) of
                  None \<Rightarrow> None
                | Some h \<Rightarrow> Some (True, ev\<lparr>ev_id := h\<rparr>, m)))"

section \<open>Building events\<close>

text \<open>\<open>now\<close> is what \<open>time(NULL)\<close> returns.\<close>

definition make_event_from_args :: "nostr_event \<Rightarrow> args \<Rightarrow> u64 \<Rightarrow> nostr_event" where
  "make_event_from_args ev args now =
     ev\<lparr>ev_created_at := (if has_flag (flags args) HAS_CREATED_AT then args_created_at args else now),
        ev_content := args_content args,
        ev_kind := (if has_flag (flags args) HAS_KIND then args_kind args else 1)\<rparr>"

definition nostr_add_tag_n :: "nostr_event \<Rightarrow> byte list option list \<Rightarrow> bool \<times> nostr_event" where
  "nostr_add_tag_n ev ts =
     (if num_tags ev + 1 > MAX_TAGS then (False, ev)
      else let tag = (ev_tags ev ! num_tags ev)\<lparr>num_elems := length ts\<rparr>;
               tag = tag\<lparr>strs := fold (\<lambda>i ss. ss[i := ts ! i]) [0..<length ts] (strs tag)\<rparr>
           in (True, ev\<lparr>ev_tags := (ev_tags ev)[num_tags ev := tag], num_tags := num_tags ev + 1\<rparr>))"

definition nostr_add_tag :: "nostr_event \<Rightarrow> byte list \<Rightarrow> byte list \<Rightarrow> bool \<times> nostr_event" where
  "nostr_add_tag ev t1 t2 = nostr_add_tag_n ev [Some t1, Some t2]"

section \<open>Reference: the serialisation of NIP-01\<close>

definition escape_char :: "byte \<Rightarrow> byte list" where
  "escape_char c =
     (if c = 0x22 then [0x5c, 0x22] else if c = 0x5c then [0x5c, 0x5c]
      else if c = 0x08 then [0x5c, 0x62] else if c = 0x0c then [0x5c, 0x66]
      else if c = 0x0a then [0x5c, 0x6e] else if c = 0x0d then [0x5c, 0x72]
      else if c = 0x09 then [0x5c, 0x74] else [c])"

definition json_str :: "byte list \<Rightarrow> byte list" where
  "json_str s = [0x22] @ concat (map escape_char s) @ [0x22]"

definition json_opt :: "byte list option \<Rightarrow> byte list" where
  "json_opt s = (case s of None \<Rightarrow> [] | Some s \<Rightarrow> json_str (c_str s))"

fun joined :: "('a \<Rightarrow> byte list) \<Rightarrow> 'a list \<Rightarrow> byte list" where
  "joined enc [] = []"
| "joined enc [x] = enc x"
| "joined enc (x # y # xs) = enc x @ 0x2c # joined enc (y # xs)"

definition json_array :: "('a \<Rightarrow> byte list) \<Rightarrow> 'a list \<Rightarrow> byte list" where
  "json_array enc xs = [0x5b] @ joined enc xs @ [0x5d]"

definition tag_elems :: "nostr_tag \<Rightarrow> byte list option list" where
  "tag_elems tag = take (num_elems tag) (strs tag)"

definition event_tags :: "nostr_event \<Rightarrow> byte list option list list" where
  "event_tags ev = map tag_elems (take (num_tags ev) (ev_tags ev))"

definition tags_json :: "nostr_event \<Rightarrow> byte list" where
  "tags_json ev = (case explicit_tags ev of
       Some t \<Rightarrow> c_str t
     | None \<Rightarrow> json_array (json_array json_opt) (event_tags ev))"

text \<open>The text with a given rendering of the time stamp.\<close>

definition nip01_text :: "byte list \<Rightarrow> nostr_event \<Rightarrow> byte list" where
  "nip01_text stamp ev =
     [0x5b, 0x30, 0x2c, 0x22] @ hex_text (ev_pubkey ev) @ [0x22, 0x2c] @ stamp @ [0x2c]
     @ dec_int (ev_kind ev) @ [0x2c] @ tags_json ev @ [0x2c] @ json_opt (ev_content ev) @ [0x5d]"

definition nip01_serialization :: "nostr_event \<Rightarrow> byte list" where
  "nip01_serialization ev = nip01_text (dec_nat (unat (ev_created_at ev))) ev"

section \<open>Well-formed events\<close>

text \<open>The arrays have their sizes, the counts stay within them, the key has its length.\<close>

definition tag_wf :: "nostr_tag \<Rightarrow> bool" where
  "tag_wf tag \<longleftrightarrow> length (strs tag) = MAX_TAG_ELEMS \<and> num_elems tag \<le> MAX_TAG_ELEMS"

definition event_wf :: "nostr_event \<Rightarrow> bool" where
  "event_wf ev \<longleftrightarrow> length (ev_tags ev) = MAX_TAGS \<and> num_tags ev \<le> MAX_TAGS
     \<and> list_all tag_wf (ev_tags ev) \<and> length (ev_pubkey ev) = 32
     \<and> - (2 ^ 31) \<le> ev_kind ev \<and> ev_kind ev < 2 ^ 31"

section \<open>The pushes write the serialisation\<close>

lemma writes_str: "sink.writes (cursor_push_str s) (c_str s)"
  unfolding cursor_push_str_def by (rule sink.writes_bytes)

lemma writes_lit: "0 \<notin> set s \<Longrightarrow> sink.writes (cursor_push_str s) s"
  using writes_str [of s] by simp

lemma writes_escaped_char: "sink.writes (cursor_push_escaped_char c) (escape_char c)"
  by (simp add: cursor_push_escaped_char_def escape_char_def writes_lit sink.writes_byte)

lemma writes_escaped_loop: "sink.writes (push_escaped_loop cs) (concat (map escape_char cs))"
  by (induction cs) (simp_all add: sink.writes_skip sink.writes_and_then writes_escaped_char)

lemma writes_jsonstr: "sink.writes (cursor_push_jsonstr s) (json_opt s)"
  by (auto simp: cursor_push_jsonstr_def json_opt_def json_str_def sink.writes_skip
      intro: sink.writes_and_then [OF sink.writes_byte, simplified]
        sink.writes_and_then writes_escaped_loop sink.writes_byte split: option.split)

text \<open>The two array loops: what is left from index \<open>i\<close> on, comma separated.\<close>

lemma joined_drop:
  assumes "i < length xs"
  shows "joined enc (drop i xs) =
    enc (xs ! i) @ (if i \<noteq> length xs - 1 then [0x2c] else []) @ joined enc (drop (i + 1) xs)"
proof -
  have d: "drop i xs = xs ! i # drop (Suc i) xs"
    using Cons_nth_drop_Suc [OF assms] by simp
  show ?thesis
  proof (cases "drop (Suc i) xs")
    case Nil
    then show ?thesis unfolding d using assms by simp
  next
    case (Cons y ys)
    then have "i \<noteq> length xs - 1" using assms by auto
    then show ?thesis unfolding d using Cons by simp
  qed
qed

lemma writes_comma:
  "sink.writes (if b then cursor_push_byte 0x2c else (\<lambda>s. (True, s))) (if b then [0x2c] else [])"
  "sink.writes (if b then cursor_push_str [0x2c] else (\<lambda>s. (True, s))) (if b then [0x2c] else [])"
  by (simp_all add: sink.writes_byte sink.writes_skip writes_lit)

lemma writes_elems_loop:
  "num_elems tag \<le> length (strs tag) \<Longrightarrow>
   sink.writes (push_elems_loop tag i) (joined json_opt (drop i (tag_elems tag)))"
proof (induction tag i rule: push_elems_loop.induct)
  case (1 tag i)
  show ?case
  proof (cases "i < num_elems tag")
    case True
    then have "joined json_opt (drop i (tag_elems tag)) = json_opt (strs tag ! i)
        @ (if i \<noteq> num_elems tag - 1 then [0x2c] else []) @ joined json_opt (drop (i + 1) (tag_elems tag))"
      using joined_drop [of i "tag_elems tag" json_opt] "1.prems" by (simp add: tag_elems_def)
    with True 1 show ?thesis
      by (simp only: push_elems_loop.simps [of tag i] if_True)
        (intro sink.writes_and_then writes_jsonstr writes_comma; simp)
  next
    case False
    then show ?thesis
      by (simp add: push_elems_loop.simps [of tag i] tag_elems_def sink.writes_skip)
  qed
qed

lemma writes_tag:
  "num_elems tag \<le> length (strs tag) \<Longrightarrow>
   sink.writes (cursor_push_tag tag) (json_array json_opt (tag_elems tag))"
  unfolding cursor_push_tag_def json_array_def
  by (intro sink.writes_and_then sink.writes_byte) (use writes_elems_loop [of tag 0] in simp)

lemma writes_tags_loop:
  "event_wf ev \<Longrightarrow>
   sink.writes (push_tags_loop ev i) (joined (json_array json_opt) (drop i (event_tags ev)))"
proof (induction ev i rule: push_tags_loop.induct)
  case (1 ev i)
  show ?case
  proof (cases "i < num_tags ev")
    case True
    then have wf: "num_elems (ev_tags ev ! i) \<le> length (strs (ev_tags ev ! i))"
      using "1.prems" by (auto simp: event_wf_def tag_wf_def list_all_length)
    have "joined (json_array json_opt) (drop i (event_tags ev)) =
        json_array json_opt (tag_elems (ev_tags ev ! i))
        @ (if i \<noteq> num_tags ev - 1 then [0x2c] else []) @ joined (json_array json_opt) (drop (i + 1) (event_tags ev))"
      using True joined_drop [of i "event_tags ev" "json_array json_opt"] "1.prems"
      by (simp add: event_tags_def event_wf_def)
    with True 1 wf show ?thesis
      by (simp only: push_tags_loop.simps [of ev i] if_True)
        (intro sink.writes_and_then writes_tag writes_comma; simp)
  next
    case False
    then show ?thesis
      by (simp add: push_tags_loop.simps [of ev i] event_tags_def sink.writes_skip)
  qed
qed

lemma writes_tags: "event_wf ev \<Longrightarrow> sink.writes (cursor_push_tags ev) (tags_json ev)"
  unfolding cursor_push_tags_def tags_json_def json_array_def [of "json_array json_opt"]
  using writes_tags_loop [of ev 0]
  by (auto simp: writes_str split: option.split intro!: sink.writes_and_then [OF sink.writes_byte, simplified]
      sink.writes_and_then sink.writes_byte)

lemma hex_encode_pubkey:
  assumes "length (ev_pubkey ev) = 32"
  shows "hex_encode (ev_pubkey ev) (replicate 65 0) 65 = Some (True, hex_text (ev_pubkey ev) @ [0])"
  using hex_encode_loop_spec [of 0 "ev_pubkey ev" "replicate 65 0"] assms
  by (simp add: hex_encode_def hex_str_size_def)

text \<open>A kind of 32 bits always fits its buffer, a time stamp only below \<open>10 ^ 15\<close>.\<close>

lemma kindbuf_exact:
  assumes "- (2 ^ 31) \<le> k" "k < 2 ^ 31"
  shows "snprintf 16 (dec_int k) = dec_int k"
proof -
  have "length (dec_nat (nat \<bar>k\<bar>)) \<le> 14"
    using assms by (subst length_dec_nat) (auto simp: abs_if nat_less_iff)
  then show ?thesis by (auto simp: snprintf_def dec_int_def abs_if split: if_splits)
qed

definition timebuf_text :: "u64 \<Rightarrow> byte list" where
  "timebuf_text t = take 15 (dec_nat (unat t))"

lemma timebuf_exact: "unat t < 10 ^ 15 \<Longrightarrow> timebuf_text t = dec_nat (unat t)"
  using length_dec_nat [of 15 "unat t"] by (simp add: timebuf_text_def)

lemma commitment_emits:
  assumes "event_wf ev"
  shows "sink.emits
     (and_then (cursor_push_str [0x5b, 0x30, 0x2c, 0x22])
     (and_then (cursor_push_str (hex_text (ev_pubkey ev) @ [0]))
     (and_then (cursor_push_str [0x22, 0x2c])
     (and_then (cursor_push_str (snprintf 16 (dec_nat (unat (ev_created_at ev)))))
     (and_then (cursor_push_str [0x2c])
     (and_then (cursor_push_str (snprintf 16 (dec_int (ev_kind ev))))
     (and_then (cursor_push_str [0x2c])
     (and_then (cursor_push_tags ev)
     (and_then (cursor_push_str [0x2c])
     (and_then (cursor_push_jsonstr (ev_content ev))
       (cursor_push_str [0x5d])))))))))))
     (nip01_text (timebuf_text (ev_created_at ev)) ev)
     (length (nip01_text (timebuf_text (ev_created_at ev)) ev) + 1)"
proof -
  have kind: "snprintf 16 (dec_int (ev_kind ev)) = dec_int (ev_kind ev)"
    using assms by (intro kindbuf_exact) (auto simp: event_wf_def)
  have stamp: "snprintf 16 (dec_nat (unat (ev_created_at ev))) = timebuf_text (ev_created_at ev)"
      "0 \<notin> set (timebuf_text (ev_created_at ev))"
    using in_set_takeD by (fastforce simp: snprintf_def timebuf_text_def)+
  have key: "sink.writes (cursor_push_str (hex_text (ev_pubkey ev) @ [0])) (hex_text (ev_pubkey ev))"
    using writes_str [of "hex_text (ev_pubkey ev) @ [0]"] by simp
  have bracket: "sink.emits (cursor_push_str [0x5d]) [0x5d] (length [0x5d :: byte] + 1)"
  proof -
    have "cursor_push_str [0x5d] = cursor_push [0x5d]" by (simp add: cursor_push_str_def)
    then show ?thesis by (simp only: sink.emits_bytes)
  qed
  show ?thesis
    unfolding nip01_text_def kind stamp(1)
    by (intro sink.writes_then_emits writes_lit key writes_tags writes_jsonstr assms bracket)
      (simp_all add: stamp)
qed

text \<open>What the code commits to, whatever the time stamp.\<close>

definition commitment_text :: "nostr_event \<Rightarrow> byte list" where
  "commitment_text ev = nip01_text (timebuf_text (ev_created_at ev)) ev"

lemma commitment_is_nip01:
  "unat (ev_created_at ev) < 10 ^ 15 \<Longrightarrow> commitment_text ev = nip01_serialization ev"
  by (simp add: commitment_text_def nip01_serialization_def timebuf_exact)

lemma length_commitment_pos: "0 < length (commitment_text ev)"
  by (simp add: commitment_text_def nip01_text_def)

lemma event_commitment_text:
  assumes "event_wf ev" "0 \<le> buflen"
  shows "\<exists>m'. event_commitment ev m buf buflen =
      Some (if int (length (commitment_text ev)) < buflen then int (length (commitment_text ev)) else 0, m')
    \<and> (int (length (commitment_text ev)) < buflen \<longrightarrow>
         mem_read m' buf (length (commitment_text ev)) = commitment_text ev)
    \<and> (\<forall>a. a < buf \<or> buf + buflen \<le> a \<longrightarrow> m' a = m a)"
proof -
  define f where "f = and_then (cursor_push_str [0x5b, 0x30, 0x2c, 0x22])
     (and_then (cursor_push_str (hex_text (ev_pubkey ev) @ [0]))
     (and_then (cursor_push_str [0x22, 0x2c])
     (and_then (cursor_push_str (snprintf 16 (dec_nat (unat (ev_created_at ev)))))
     (and_then (cursor_push_str [0x2c])
     (and_then (cursor_push_str (snprintf 16 (dec_int (ev_kind ev))))
     (and_then (cursor_push_str [0x2c])
     (and_then (cursor_push_tags ev)
     (and_then (cursor_push_str [0x2c])
     (and_then (cursor_push_jsonstr (ev_content ev))
       (cursor_push_str [0x5d]))))))))))"
  have f: "sink.emits f (commitment_text ev) (length (commitment_text ev) + 1)"
    using commitment_emits [OF assms(1)] by (simp only: f_def commitment_text_def)
  obtain ok m' cur' where run: "f (m, make_cursor buf (buf + buflen)) = (ok, m', cur')"
    by (metis prod.collapse)
  note D = emits_from_start [OF f assms(2) run]
  have "event_commitment ev m buf buflen = Some (if ok then cur_p cur' - cur_start cur' else 0, m')"
    using run assms(1)
    by (simp add: event_commitment_def hex_encode_pubkey event_wf_def Let_def flip: f_def)
  then show ?thesis using D by auto
qed

lemma generate_event_id_text:
  assumes "event_wf ev"
  shows "\<exists>m'. generate_event_id ev m =
    Some (if length (commitment_text ev) < 102400
          then (True, ev\<lparr>ev_id := fips_sha256 (commitment_text ev)\<rparr>, m') else (False, ev, m'))"
proof -
  let ?c = "commitment_text ev"
  obtain m' where m': "event_commitment ev m 0 102400 =
      Some (if int (length ?c) < 102400 then int (length ?c) else 0, m')"
      "int (length ?c) < 102400 \<longrightarrow> mem_read m' 0 (length ?c) = ?c"
    using event_commitment_text [OF assms, of 102400 m 0] by auto
  show ?thesis
  proof (cases "length ?c < 102400")
    case True
    then have "sha256 ?c = Some (fips_sha256 ?c)" by (intro sha256_fips) simp
    with True m' show ?thesis
      using length_commitment_pos [of ev] by (simp add: generate_event_id_def)
  next
    case False
    with m' show ?thesis by (simp add: generate_event_id_def)
  qed
qed

section \<open>The serialisation determines the event\<close>

text \<open>
  An encoding that can be read off the front of a text: no two values with a common
  continuation of their encodings differ. Arrays of such values, in brackets with commas, are
  such an encoding again, provided that no element starts with the closing bracket.
\<close>

definition joined_rest :: "('a \<Rightarrow> byte list) \<Rightarrow> 'a list \<Rightarrow> byte list" where
  "joined_rest enc xs = (if xs = [] then [] else 0x2c # joined enc xs)"

lemma joined_Cons: "joined enc (x # xs) = enc x @ joined_rest enc xs"
  by (cases xs) (simp_all add: joined_rest_def)

locale prefix_code =
  fixes enc :: "'a \<Rightarrow> byte list"
    and valid :: "'a \<Rightarrow> bool"
  assumes enc_prefix: "valid x \<Longrightarrow> valid y \<Longrightarrow> enc x @ r = enc y @ s \<Longrightarrow> x = y \<and> r = s"
    and enc_start: "valid x \<Longrightarrow> \<exists>c cs. enc x = c # cs \<and> c \<noteq> 0x5d"
begin

lemma joined_prefix:
  "list_all valid xs \<Longrightarrow> list_all valid ys \<Longrightarrow>
   joined enc xs @ 0x5d # r = joined enc ys @ 0x5d # s \<Longrightarrow> xs = ys \<and> r = s"
proof (induction xs arbitrary: ys)
  case Nil
  then show ?case by (cases ys) (auto simp: joined_Cons dest: enc_start)
next
  case (Cons x xs)
  show ?case
  proof (cases ys)
    case Nil
    with Cons.prems show ?thesis by (auto simp: joined_Cons dest: enc_start)
  next
    case (Cons y ys')
    have "enc x @ joined_rest enc xs @ 0x5d # r = enc y @ joined_rest enc ys' @ 0x5d # s"
      using Cons.prems(3) Cons by (simp add: joined_Cons)
    moreover have "valid x" "valid y" using Cons.prems(1,2) Cons by simp_all
    ultimately have *: "x = y" "joined_rest enc xs @ 0x5d # r = joined_rest enc ys' @ 0x5d # s"
      using enc_prefix [of x y] by blast+
    have "list_all valid xs" "list_all valid ys'" using Cons.prems(1,2) Cons by simp_all
    note IH = Cons.IH [OF this]
    have "xs = ys' \<and> r = s"
    proof (cases "xs = [] \<or> ys' = []")
      case True
      with *(2) show ?thesis by (auto simp: joined_rest_def split: if_splits)
    next
      case False
      with *(2) show ?thesis by (intro IH) (simp add: joined_rest_def)
    qed
    with * Cons show ?thesis by simp
  qed
qed

lemma array_prefix:
  "list_all valid xs \<Longrightarrow> list_all valid ys \<Longrightarrow>
   json_array enc xs @ r = json_array enc ys @ s \<Longrightarrow> xs = ys \<and> r = s"
  using joined_prefix [of xs ys r s] by (simp add: json_array_def)

end

lemma escape_char_cases:
  "escape_char c = [c] \<and> c \<noteq> 0x22 \<and> c \<noteq> 0x5c \<or> (\<exists>d. escape_char c = [0x5c, d])"
  by (auto simp: escape_char_def)

lemma escape_char_inject: "escape_char c @ r = escape_char d @ s \<Longrightarrow> c = d \<and> r = s"
  by (auto simp: escape_char_def split: if_splits)

lemma escaped_prefix:
  "concat (map escape_char cs) @ 0x22 # r = concat (map escape_char ds) @ 0x22 # s \<Longrightarrow> cs = ds \<and> r = s"
proof (induction cs arbitrary: ds)
  case Nil
  then show ?case
    by (cases ds) (use escape_char_cases [of "hd ds"] in auto)
next
  case (Cons c cs)
  show ?case
  proof (cases ds)
    case Nil
    with Cons.prems show ?thesis using escape_char_cases [of c] by auto
  next
    case (Cons d ds')
    with Cons.prems have "escape_char c @ concat (map escape_char cs) @ 0x22 # r
        = escape_char d @ concat (map escape_char ds') @ 0x22 # s" by simp
    from escape_char_inject [OF this] show ?thesis using Cons.IH Cons by blast
  qed
qed

text \<open>The strings an event may hold: present, without NUL.\<close>

definition proper_str :: "byte list option \<Rightarrow> bool" where
  "proper_str s \<longleftrightarrow> (\<exists>t. s = Some t \<and> 0 \<notin> set t)"

interpretation json_string: prefix_code json_opt proper_str
proof unfold_locales
  fix x y r s
  assume "proper_str x" "proper_str y" "json_opt x @ r = json_opt y @ s"
  then obtain t u where "x = Some t" "y = Some u"
      "concat (map escape_char t) @ 0x22 # r = concat (map escape_char u) @ 0x22 # s"
    by (auto simp: proper_str_def json_opt_def json_str_def)
  then show "x = y \<and> r = s" using escaped_prefix [of t r u s] by simp
next
  fix x
  assume "proper_str x"
  then show "\<exists>c cs. json_opt x = c # cs \<and> c \<noteq> 0x5d"
    by (auto simp: proper_str_def json_opt_def json_str_def)
qed

interpretation json_tag: prefix_code "json_array json_opt" "list_all proper_str"
proof unfold_locales
  show "x = y \<and> r = s" if "list_all proper_str x" "list_all proper_str y"
      "json_array json_opt x @ r = json_array json_opt y @ s" for x y r s
    using json_string.array_prefix [OF that] .
  show "\<exists>c cs. json_array json_opt x = c # cs \<and> c \<noteq> 0x5d" for x
    by (simp add: json_array_def)
qed

lemma tags_prefix:
  assumes "list_all (list_all proper_str) xs" "list_all (list_all proper_str) ys"
    and "json_array (json_array json_opt) xs @ r = json_array (json_array json_opt) ys @ s"
  shows "xs = ys \<and> r = s"
  using json_tag.array_prefix [OF assms] .

text \<open>An event without an explicit tag text whose strings are all present.\<close>

definition event_proper :: "nostr_event \<Rightarrow> bool" where
  "event_proper ev \<longleftrightarrow> event_wf ev \<and> explicit_tags ev = None \<and> proper_str (ev_content ev)
     \<and> list_all (list_all proper_str) (event_tags ev) \<and> unat (ev_created_at ev) < 10 ^ 15"

lemma dec_no_comma: "0x2c \<notin> set (dec_nat n)" "0x2c \<notin> set (dec_int i)"
proof -
  show nat: "0x2c \<notin> set (dec_nat n)" for n
    using dec_nat_digits [of "0x2c" n] by (auto simp: is_digit_byte_def)
  then show "0x2c \<notin> set (dec_int i)" by (simp add: dec_int_def)
qed

lemma nip01_inject:
  assumes "event_proper ev" "event_proper ev'" "nip01_serialization ev = nip01_serialization ev'"
  shows "ev_pubkey ev = ev_pubkey ev' \<and> ev_created_at ev = ev_created_at ev' \<and> ev_kind ev = ev_kind ev'
    \<and> event_tags ev = event_tags ev' \<and> ev_content ev = ev_content ev'"
proof -
  have wf: "length (ev_pubkey ev) = 32" "length (ev_pubkey ev') = 32"
    using assms by (auto simp: event_proper_def event_wf_def)
  let ?rest = "\<lambda>ev. json_array (json_array json_opt) (event_tags ev) @ 0x2c # json_opt (ev_content ev) @ [0x5d]"
  let ?time = "\<lambda>ev. dec_nat (unat (ev_created_at ev))"
  have tags: "tags_json ev = json_array (json_array json_opt) (event_tags ev)"
      "tags_json ev' = json_array (json_array json_opt) (event_tags ev')"
    using assms by (auto simp: tags_json_def event_proper_def)
  have key: "hex_text (ev_pubkey ev) = hex_text (ev_pubkey ev')"
    and after_key: "?time ev @ 0x2c # dec_int (ev_kind ev) @ 0x2c # ?rest ev
      = ?time ev' @ 0x2c # dec_int (ev_kind ev') @ 0x2c # ?rest ev'"
    using assms(3) wf by (simp_all add: nip01_serialization_def nip01_text_def tags)
  have time: "?time ev = ?time ev'"
    and after_time: "dec_int (ev_kind ev) @ 0x2c # ?rest ev = dec_int (ev_kind ev') @ 0x2c # ?rest ev'"
    using append_sep_inject [OF dec_no_comma(1) dec_no_comma(1) after_key] by simp_all
  have kind: "dec_int (ev_kind ev) = dec_int (ev_kind ev')" and rest: "?rest ev = ?rest ev'"
    using append_sep_inject [OF dec_no_comma(2) dec_no_comma(2) after_time] by simp_all
  have "event_tags ev = event_tags ev' \<and>
      0x2c # json_opt (ev_content ev) @ [0x5d] = 0x2c # json_opt (ev_content ev') @ [0x5d]"
    using assms(1,2) by (intro tags_prefix rest) (simp_all add: event_proper_def)
  moreover from this have "ev_content ev = ev_content ev'"
    using json_string.enc_prefix [of "ev_content ev" "ev_content ev'" "[0x5d]" "[0x5d]"] assms(1,2)
    by (simp add: event_proper_def)
  ultimately show ?thesis
    using key time kind by (simp add: hex.enc_eq_iff word_unat_eq_iff)
qed

section \<open>Tags stay within their arrays\<close>

lemma fold_store:
  "n \<le> length ts \<Longrightarrow> length ts \<le> length ss \<Longrightarrow>
   fold (\<lambda>i ss. ss[i := ts ! i]) [0..<n] ss = take n ts @ drop n ss"
proof (induction n)
  case (Suc n)
  then have "(take n ts @ drop n ss)[n := ts ! n] = take (Suc n) ts @ drop (Suc n) ss"
    by (simp add: list_update_append take_Suc_conv_app_nth flip: Cons_nth_drop_Suc [of n ss])
  with Suc show ?case by simp
qed simp

lemma add_tag_n_full: "num_tags ev = MAX_TAGS \<Longrightarrow> nostr_add_tag_n ev ts = (False, ev)"
  by (simp add: nostr_add_tag_n_def)

lemma add_tag_n_ok:
  assumes "event_wf ev" "num_tags ev < MAX_TAGS" "length ts \<le> MAX_TAG_ELEMS"
  shows "\<exists>ev'. nostr_add_tag_n ev ts = (True, ev') \<and> event_wf ev' \<and> event_tags ev' = event_tags ev @ [ts]
    \<and> num_tags ev' = num_tags ev + 1 \<and> tag_elems (ev_tags ev' ! num_tags ev) = ts
    \<and> ev' = ev\<lparr>ev_tags := ev_tags ev', num_tags := num_tags ev'\<rparr>"
proof -
  let ?n = "num_tags ev"
  let ?tag = "(ev_tags ev ! ?n)\<lparr>num_elems := length ts, strs := ts @ drop (length ts) (strs (ev_tags ev ! ?n))\<rparr>"
  let ?ev = "ev\<lparr>ev_tags := (ev_tags ev)[?n := ?tag], num_tags := ?n + 1\<rparr>"
  have slot: "length (strs (ev_tags ev ! ?n)) = MAX_TAG_ELEMS"
    using assms by (auto simp: event_wf_def list_all_length tag_wf_def)
  have add: "nostr_add_tag_n ev ts = (True, ?ev)"
    using assms slot fold_store [of "length ts" ts "strs (ev_tags ev ! ?n)"]
    by (simp add: nostr_add_tag_n_def)
  have "tag_wf ?tag" using slot assms(3) by (simp add: tag_wf_def)
  then have wf: "event_wf ?ev"
    using assms by (auto simp: event_wf_def list_all_length nth_list_update)
  have "tag_elems ?tag = ts" by (simp add: tag_elems_def)
  moreover have "take (?n + 1) ((ev_tags ev)[?n := ?tag]) = take ?n (ev_tags ev) @ [?tag]"
    using assms by (simp add: take_Suc_conv_app_nth event_wf_def)
  ultimately have "event_tags ?ev = event_tags ev @ [ts]" by (simp add: event_tags_def)
  with add wf \<open>tag_elems ?tag = ts\<close> assms show ?thesis by (simp add: event_wf_def)
qed

section \<open>Properties\<close>

text \<open>
  event_commitment writes the NIP-01 serialisation of the event (the array with the hex
  public key, time stamp, kind, tags and the escaped content) at the start of its buffer and
  returns its length, exactly when the text and one byte more fit; otherwise it returns 0. No
  byte outside the buffer changes and the assertion holds. The time stamp has to have at most
  15 digits.
\<close>

theorem event_commitment_nip01:
  assumes "event_wf ev" "0 \<le> buflen" "unat (ev_created_at ev) < 10 ^ 15"
  shows "\<exists>len m'. event_commitment ev m buf buflen = Some (len, m')
    \<and> (if int (length (nip01_serialization ev)) < buflen
       then len = int (length (nip01_serialization ev))
            \<and> mem_read m' buf (length (nip01_serialization ev)) = nip01_serialization ev
       else len = 0)
    \<and> (\<forall>a. a < buf \<or> buf + buflen \<le> a \<longrightarrow> m' a = m a)"
proof -
  obtain m' where "event_commitment ev m buf buflen = Some
        (if int (length (nip01_serialization ev)) < buflen then int (length (nip01_serialization ev)) else 0, m')"
      "int (length (nip01_serialization ev)) < buflen \<longrightarrow>
        mem_read m' buf (length (nip01_serialization ev)) = nip01_serialization ev"
      "\<forall>a. a < buf \<or> buf + buflen \<le> a \<longrightarrow> m' a = m a"
    using event_commitment_text [OF assms(1,2), of m buf] commitment_is_nip01 [OF assms(3)] by auto
  then show ?thesis by auto
qed

definition sample_event :: nostr_event where
  "sample_event = \<lparr>ev_id = replicate 32 0, ev_pubkey = replicate 32 0xab, ev_sig = replicate 64 0,
     ev_content = Some (cstr ''hi''), ev_created_at = 1700000000, ev_kind = 1, explicit_tags = None,
     ev_tags = replicate 32 \<lparr>strs = replicate 16 None, num_elems = 0\<rparr>, num_tags = 0\<rparr>"

lemma sample_event_wf: "event_wf sample_event"
  by (simp add: sample_event_def event_wf_def tag_wf_def MAX_TAGS_def MAX_TAG_ELEMS_def list_all_length)

theorem event_commitment_nip01_witness:
  "\<exists>len m'. event_commitment sample_event (\<lambda>_. 0) 0 10 = Some (len, m')
    \<and> (if int (length (nip01_serialization sample_event)) < 10
       then len = int (length (nip01_serialization sample_event))
            \<and> mem_read m' 0 (length (nip01_serialization sample_event)) = nip01_serialization sample_event
       else len = 0)
    \<and> (\<forall>a. a < 0 \<or> 0 + 10 \<le> a \<longrightarrow> m' a = (\<lambda>_. 0) a)"
  by (rule event_commitment_nip01 [OF sample_event_wf]) (simp_all add: sample_event_def)

text \<open>
  C4. The event id is the SHA-256 (FIPS 180-4) of the NIP-01 serialisation: generate_event_id
  succeeds exactly when the serialisation is shorter than its static buffer of 102400 bytes,
  whatever the buffer holds from earlier calls, and then changes nothing of the event but the
  id; otherwise the event is unchanged and the call reports failure.
\<close>

theorem event_id_is_sha256:
  assumes "event_wf ev" "unat (ev_created_at ev) < 10 ^ 15"
  shows "\<exists>m'. generate_event_id ev m =
    Some (if length (nip01_serialization ev) < 102400
          then (True, ev\<lparr>ev_id := fips_sha256 (nip01_serialization ev)\<rparr>, m') else (False, ev, m'))"
  using generate_event_id_text [OF assms(1), of m] unfolding commitment_is_nip01 [OF assms(2)] .

theorem event_id_is_sha256_witness:
  "\<exists>m'. generate_event_id sample_event (\<lambda>_. 0) =
    Some (if length (nip01_serialization sample_event) < 102400
          then (True, sample_event\<lparr>ev_id := fips_sha256 (nip01_serialization sample_event)\<rparr>, m')
          else (False, sample_event, m'))"
  by (rule event_id_is_sha256 [OF sample_event_wf]) (simp add: sample_event_def)

text \<open>
  C24. The commitment binds every field: when event_commitment writes the same bytes for two
  events without explicit tag text (strings present and without NUL, time stamps of at most 15
  digits), the events have the same public key, time stamp, kind, tags and content. Two
  different events can only share an id through a collision of the hash function.
\<close>

theorem event_commitment_binding:
  assumes "event_proper ev" "event_proper ev'" "0 < len" "0 \<le> buflen" "0 \<le> buflen'"
    and "event_commitment ev m buf buflen = Some (len, m1)"
    and "event_commitment ev' m' buf' buflen' = Some (len, m2)"
    and "mem_read m1 buf (nat len) = mem_read m2 buf' (nat len)"
  shows "ev_pubkey ev = ev_pubkey ev' \<and> ev_created_at ev = ev_created_at ev' \<and> ev_kind ev = ev_kind ev'
    \<and> event_tags ev = event_tags ev' \<and> ev_content ev = ev_content ev'"
proof (rule nip01_inject [OF assms(1,2)])
  have wf: "event_wf ev" "event_wf ev'"
    and text_eq: "commitment_text ev = nip01_serialization ev" "commitment_text ev' = nip01_serialization ev'"
    using assms(1,2) by (auto simp: event_proper_def commitment_is_nip01)
  have "nat len = length (commitment_text ev) \<and> mem_read m1 buf (nat len) = commitment_text ev"
    using event_commitment_text [OF wf(1) assms(4), of m buf] assms(3,6) by (auto split: if_splits)
  moreover have "mem_read m2 buf' (nat len) = commitment_text ev'"
    using event_commitment_text [OF wf(2) assms(5), of m' buf'] assms(3,7) by (auto split: if_splits)
  ultimately show "nip01_serialization ev = nip01_serialization ev'"
    using assms(8) text_eq by simp
qed

lemma sample_event_proper: "event_proper sample_event"
  using sample_event_wf
  by (simp add: event_proper_def sample_event_def proper_str_def event_tags_def cstr_def)

lemma sample_event_length: "length (commitment_text sample_event) < 1000"
  by (simp add: commitment_text_def sample_event_def nip01_text_def timebuf_text_def dec_int_def
      dec_nat.simps tags_json_def event_tags_def json_array_def json_opt_def json_str_def escape_char_def cstr_def)

theorem event_commitment_binding_witness:
  "\<exists>len m1 m2. 0 < len \<and> event_commitment sample_event (\<lambda>_. 0) 0 1000 = Some (len, m1)
     \<and> event_commitment (sample_event\<lparr>ev_sig := []\<rparr>) (\<lambda>_. 1) 7 2000 = Some (len, m2)
     \<and> ev_content sample_event = ev_content (sample_event\<lparr>ev_sig := []\<rparr>)"
proof -
  let ?e = "sample_event\<lparr>ev_sig := []\<rparr>" and ?c = "commitment_text sample_event"
  have c: "commitment_text ?e = ?c"
    by (simp add: commitment_text_def nip01_text_def tags_json_def event_tags_def split: option.split)
  have e: "event_proper ?e" "event_wf ?e"
    using sample_event_proper by (simp_all add: event_proper_def event_wf_def event_tags_def)
  obtain m1 where m1: "event_commitment sample_event (\<lambda>_. 0) 0 1000 = Some (int (length ?c), m1)"
      "mem_read m1 0 (length ?c) = ?c"
    using event_commitment_text [OF sample_event_wf, of 1000 "\<lambda>_. 0" 0] sample_event_length by auto
  obtain m2 where m2: "event_commitment ?e (\<lambda>_. 1) 7 2000 = Some (int (length ?c), m2)"
      "mem_read m2 7 (length ?c) = ?c"
    using event_commitment_text [OF e(2), of 2000 "\<lambda>_. 1" 7] sample_event_length c by auto
  have "ev_content sample_event = ev_content ?e"
    using event_commitment_binding [OF sample_event_proper e(1) _ _ _ m1(1) m2(1)] m1(2) m2(2)
      length_commitment_pos [of sample_event] by simp
  with m1 m2 length_commitment_pos [of sample_event] show ?thesis by auto
qed

text \<open>
  Time stamps of more than 15 digits are cut: timebuf has 16 bytes, so two events that
  differ only in such time stamps, 10^15 and 10^15 + 1, get the same id, although they print
  differently.
\<close>

theorem event_id_ignores_late_digits:
  assumes "event_wf ev"
  shows "\<exists>m1 m2 b h. generate_event_id (ev\<lparr>ev_created_at := 1000000000000000\<rparr>) m =
      Some (b, ev\<lparr>ev_created_at := 1000000000000000, ev_id := h\<rparr>, m1)
    \<and> generate_event_id (ev\<lparr>ev_created_at := 1000000000000001\<rparr>) m =
      Some (b, ev\<lparr>ev_created_at := 1000000000000001, ev_id := h\<rparr>, m2)"
proof -
  let ?e = "\<lambda>t. ev\<lparr>ev_created_at := t\<rparr>"
  have stamps: "timebuf_text 1000000000000000 = timebuf_text 1000000000000001"
    by (simp add: timebuf_text_def dec_nat.simps)
  have "commitment_text (?e t) = nip01_text (timebuf_text t) ev" for t
    by (simp add: commitment_text_def nip01_text_def tags_json_def event_tags_def split: option.split)
  with stamps have same: "commitment_text (?e 1000000000000000) = commitment_text (?e 1000000000000001)"
    by simp
  have wf: "event_wf (?e t)" for t using assms by (simp add: event_wf_def)
  define b where "b \<longleftrightarrow> length (commitment_text (?e 1000000000000000)) < 102400"
  define h where "h = (if b then fips_sha256 (commitment_text (?e 1000000000000000)) else ev_id ev)"
  have "\<exists>m'. generate_event_id (?e t) m = Some (b, ev\<lparr>ev_created_at := t, ev_id := h\<rparr>, m')"
    if "commitment_text (?e t) = commitment_text (?e 1000000000000000)" for t
    using generate_event_id_text [OF wf [of t], of m] that by (auto simp: b_def h_def)
  from this [of 1000000000000000] this [of 1000000000000001] same show ?thesis by auto
qed

text \<open>
  Tags never leave their arrays: on a well-formed event (at most 32 tags of at most 16
  elements in their slots) nostr_add_tag fails exactly when 32 tags are there, leaving the
  event as it was; otherwise it appends the tag with the two strings, changes nothing else of
  the event and keeps it well-formed.
\<close>

theorem nostr_add_tag_exact:
  assumes "event_wf ev"
  shows "if num_tags ev = MAX_TAGS then nostr_add_tag ev t1 t2 = (False, ev)
    else \<exists>ev'. nostr_add_tag ev t1 t2 = (True, ev') \<and> event_wf ev'
       \<and> event_tags ev' = event_tags ev @ [[Some t1, Some t2]]
       \<and> ev' = ev\<lparr>ev_tags := ev_tags ev', num_tags := num_tags ev + 1\<rparr>"
proof (cases "num_tags ev = MAX_TAGS")
  case False
  then have "num_tags ev < MAX_TAGS" using assms by (simp add: event_wf_def)
  from add_tag_n_ok [OF assms this, of "[Some t1, Some t2]"] False show ?thesis
    by (auto simp: nostr_add_tag_def MAX_TAG_ELEMS_def)
qed (simp add: nostr_add_tag_def add_tag_n_full)

theorem nostr_add_tag_exact_witness:
  "\<exists>ev'. nostr_add_tag sample_event (cstr ''t'') (cstr ''x'') = (True, ev') \<and> event_wf ev'"
proof -
  have "num_tags sample_event \<noteq> MAX_TAGS" by (simp add: sample_event_def MAX_TAGS_def)
  then show ?thesis
    using nostr_add_tag_exact [OF sample_event_wf, of "cstr ''t''" "cstr ''x''"] by auto
qed

theorem event_id_ignores_late_digits_witness:
  "\<exists>m1 m2 b h. generate_event_id (sample_event\<lparr>ev_created_at := 1000000000000000\<rparr>) (\<lambda>_. 0) =
      Some (b, sample_event\<lparr>ev_created_at := 1000000000000000, ev_id := h\<rparr>, m1)
    \<and> generate_event_id (sample_event\<lparr>ev_created_at := 1000000000000001\<rparr>) (\<lambda>_. 0) =
      Some (b, sample_event\<lparr>ev_created_at := 1000000000000001, ev_id := h\<rparr>, m2)"
  by (rule event_id_ignores_late_digits [OF sample_event_wf])

end
