(* ===== verification/Nostr_Keys.thy ===== *)
theory Nostr_Keys
  imports Nostr_Event Proof_Bits
begin

text \<open>
  Keys and signatures: the functions of \<open>src/src/nostril/nostri.c\<close> that call secp256k1 and the
  system's randomness, and \<open>fill_random\<close> and \<open>print_hex\<close> of \<open>random.h\<close> (on Linux). The library
  and the system calls are the record \<open>platform\<close> that these definitions take as an argument; its
  state \<open>'w\<close> stands for the outside world. The key objects of the library are its own types.
  The loop of \<open>generate_key\<close> may run forever: it is a partial function, \<open>None\<close> when it does.
  Timing and messages on standard error are left out, but for the text of \<open>print_hex\<close>.

  Shown: a secret string is accepted exactly when it has 64 hexadecimal digits and the library
  accepts the key; mining tries the random secret, then each secret xor its public key, and
  succeeds, fails or runs on exactly as this sequence says.
\<close>

section \<open>The platform\<close>

record ('w, 'ctx, 'kp, 'xpk, 'pk) platform =
  getrandom :: "nat \<Rightarrow> 'w \<Rightarrow> (int \<times> byte list) \<times> 'w"
  time_now :: "'w \<Rightarrow> u64 \<times> 'w"
  context_create :: 'ctx
  context_randomize :: "'ctx \<Rightarrow> byte list \<Rightarrow> bool \<times> 'ctx"
  keypair_create :: "'ctx \<Rightarrow> byte list \<Rightarrow> 'kp option"
  keypair_xonly_pub :: "'ctx \<Rightarrow> 'kp \<Rightarrow> 'xpk option"
  xonly_pubkey_serialize :: "'ctx \<Rightarrow> 'xpk \<Rightarrow> byte list option"
  schnorrsig_sign32 :: "'ctx \<Rightarrow> byte list \<Rightarrow> 'kp \<Rightarrow> byte list \<Rightarrow> byte list option"
  ec_seckey_verify :: "'ctx \<Rightarrow> byte list \<Rightarrow> bool"
  ec_pubkey_parse :: "'ctx \<Rightarrow> byte list \<Rightarrow> 'pk option"
  ecdh :: "'ctx \<Rightarrow> 'pk \<Rightarrow> byte list \<Rightarrow> (byte list \<Rightarrow> byte list \<Rightarrow> byte list option) \<Rightarrow> byte list option"

text \<open>A \<open>struct key\<close>; the pair is undefined until it is created.\<close>

record 'kp key =
  pair :: "'kp option"
  secret :: "byte list"
  pubkey :: "byte list"

section \<open>Operations\<close>

text \<open>The bytes of \<open>data\<close> are those that the call wrote, then those that were there.\<close>

definition fill_random ::
    "('w, 'ctx, 'kp, 'xpk, 'pk) platform \<Rightarrow> byte list \<Rightarrow> nat \<Rightarrow> 'w \<Rightarrow> bool \<times> byte list \<times> 'w" where
  "fill_random P data sz w =
     (case getrandom P sz w of ((res, bs), w) \<Rightarrow>
        (\<not> (res < 0 \<or> res \<noteq> int sz), copy_at data 0 (take sz bs), w))"

definition print_hex :: "byte list \<Rightarrow> byte list" where
  "print_hex data = concat (map (\<lambda>b. [hex_digit (drop_bit 4 b), hex_digit (b AND 0xF)]) data) @ [0x0a]"

definition make_sig ::
    "('w, 'ctx, 'kp, 'xpk, 'pk) platform \<Rightarrow> 'ctx \<Rightarrow> 'kp key \<Rightarrow> byte list \<Rightarrow> byte list \<Rightarrow> 'w
     \<Rightarrow> bool \<times> byte list \<times> 'w" where
  "make_sig P ctx key id32 sig64 w =
     (case fill_random P (replicate 32 0) 32 w of (ok, aux, w) \<Rightarrow>
        if \<not> ok then (False, sig64, w)
        else case pair key of
          None \<Rightarrow> (False, sig64, w)
        | Some kp \<Rightarrow>
            (case schnorrsig_sign32 P ctx id32 kp aux of
               None \<Rightarrow> (False, sig64, w)
             | Some s \<Rightarrow> (True, s, w)))"

definition create_key ::
    "('w, 'ctx, 'kp, 'xpk, 'pk) platform \<Rightarrow> 'ctx \<Rightarrow> 'kp key \<Rightarrow> bool \<times> 'kp key" where
  "create_key P ctx key =
     (case keypair_create P ctx (secret key) of
        None \<Rightarrow> (False, key)
      | Some kp \<Rightarrow>
          (let key = key\<lparr>pair := Some kp\<rparr> in
           case keypair_xonly_pub P ctx kp of
             None \<Rightarrow> (False, key)
           | Some xpk \<Rightarrow>
               (case xonly_pubkey_serialize P ctx xpk of
                  None \<Rightarrow> (False, key)
                | Some pk \<Rightarrow> (True, key\<lparr>pubkey := pk\<rparr>))))"

definition decode_key ::
    "('w, 'ctx, 'kp, 'xpk, 'pk) platform \<Rightarrow> 'ctx \<Rightarrow> byte list \<Rightarrow> 'kp key \<Rightarrow> bool \<times> 'kp key" where
  "decode_key P ctx secstr key =
     (case hex_decode (c_str secstr) (secret key) 32 of (ok, s) \<Rightarrow>
        let key = key\<lparr>secret := s\<rparr> in
        if \<not> ok then (False, key) else create_key P ctx key)"

definition xor_mix :: "byte list \<Rightarrow> byte list \<Rightarrow> byte list \<Rightarrow> nat \<Rightarrow> byte list" where
  "xor_mix dest a b sz = fold (\<lambda>i d. d[i := a ! i XOR b ! i]) [0..<sz] dest"

text \<open>
  \<open>dest\<close> and \<open>a\<close> of the only call are the same array: each step reads \<open>a[i]\<close> before it writes
  \<open>dest[i]\<close>, so that reading the old array is the same.
\<close>

partial_function (option) generate_key_loop ::
    "('w, 'ctx, 'kp, 'xpk, 'pk) platform \<Rightarrow> 'ctx \<Rightarrow> int \<Rightarrow> 'kp key \<Rightarrow> (bool \<times> 'kp key) option" where
  "generate_key_loop P ctx d key =
     (case create_key P ctx key of (ok, key) \<Rightarrow>
        if \<not> ok then Some (False, key)
        else if int (count_leading_zero_bits (pubkey key)) \<ge> d then Some (True, key)
        else generate_key_loop P ctx d
               (key\<lparr>secret := xor_mix (secret key) (secret key) (pubkey key) 32\<rparr>))"

definition generate_key ::
    "('w, 'ctx, 'kp, 'xpk, 'pk) platform \<Rightarrow> 'ctx \<Rightarrow> 'kp key \<Rightarrow> int option \<Rightarrow> 'w
     \<Rightarrow> ((bool \<times> 'kp key) \<times> 'w) option" where
  "generate_key P ctx key d w =
     (case fill_random P (secret key) 32 w of (ok, s, w) \<Rightarrow>
        let key = key\<lparr>secret := s\<rparr> in
        if \<not> ok then Some ((False, key), w)
        else case d of
          None \<Rightarrow> Some (create_key P ctx key, w)
        | Some d \<Rightarrow> map_option (\<lambda>r. (r, w)) (generate_key_loop P ctx d key))"

definition init_secp_context ::
    "('w, 'ctx, 'kp, 'xpk, 'pk) platform \<Rightarrow> 'w \<Rightarrow> bool \<times> 'ctx \<times> 'w" where
  "init_secp_context P w =
     (let ctx = context_create P in
      case fill_random P (replicate 32 0) 32 w of (ok, randomize, w) \<Rightarrow>
        if \<not> ok then (False, ctx, w)
        else case context_randomize P ctx randomize of (ok, ctx) \<Rightarrow> (ok, ctx, w))"

definition sign_event ::
    "('w, 'ctx, 'kp, 'xpk, 'pk) platform \<Rightarrow> 'ctx \<Rightarrow> 'kp key \<Rightarrow> nostr_event \<Rightarrow> 'w
     \<Rightarrow> bool \<times> nostr_event \<times> 'w" where
  "sign_event P ctx key ev w =
     (case make_sig P ctx key (ev_id ev) (ev_sig ev) w of (ok, s, w) \<Rightarrow>
        (ok, ev\<lparr>ev_sig := s\<rparr>, w))"

section \<open>Keys that belong together\<close>

text \<open>
  The public half of a secret key, as the library computes it, and a key structure whose three
  parts belong together.
\<close>

definition public_of :: "('w, 'ctx, 'kp, 'xpk, 'pk) platform \<Rightarrow> 'ctx \<Rightarrow> byte list \<Rightarrow> byte list option" where
  "public_of P ctx s =
     (case keypair_create P ctx s of
        None \<Rightarrow> None
      | Some kp \<Rightarrow> Option.bind (keypair_xonly_pub P ctx kp) (xonly_pubkey_serialize P ctx))"

definition key_ok :: "('w, 'ctx, 'kp, 'xpk, 'pk) platform \<Rightarrow> 'ctx \<Rightarrow> 'kp key \<Rightarrow> bool" where
  "key_ok P ctx key \<longleftrightarrow> pair key = keypair_create P ctx (secret key) \<and> pair key \<noteq> None
     \<and> public_of P ctx (secret key) = Some (pubkey key)"

lemma create_key_public:
  "fst (create_key P ctx key) \<longleftrightarrow> public_of P ctx (secret key) \<noteq> None"
  "secret (snd (create_key P ctx key)) = secret key"
  "fst (create_key P ctx key) \<Longrightarrow> key_ok P ctx (snd (create_key P ctx key))"
  by (auto simp: create_key_def public_of_def key_ok_def Let_def split: option.splits)

lemma xor_mix_map2:
  assumes "length a = 32" "length b = 32"
  shows "xor_mix a a b 32 = map2 (XOR) a b"
proof -
  have "fold (\<lambda>i d. d[i := a ! i XOR b ! i]) [0..<n] a = map2 (XOR) (take n a) (take n b) @ drop n a"
    if "n \<le> 32" for n
    using that
  proof (induction n)
    case (Suc n)
    then show ?case
      using assms by (simp add: list_update_append take_Suc_conv_app_nth
          flip: Cons_nth_drop_Suc [of n a])
  qed simp
  from this [of 32] assms show ?thesis by (simp add: xor_mix_def)
qed

text \<open>The candidates that mining visits: each secret is mixed with its public key.\<close>

definition next_candidate :: "('w, 'ctx, 'kp, 'xpk, 'pk) platform \<Rightarrow> 'ctx \<Rightarrow> 'kp key \<Rightarrow> 'kp key" where
  "next_candidate P ctx key =
     (let key' = snd (create_key P ctx key)
      in key'\<lparr>secret := xor_mix (secret key') (secret key') (pubkey key') 32\<rparr>)"

definition candidate :: "('w, 'ctx, 'kp, 'xpk, 'pk) platform \<Rightarrow> 'ctx \<Rightarrow> 'kp key \<Rightarrow> nat \<Rightarrow> bool \<times> 'kp key" where
  "candidate P ctx key n = create_key P ctx ((next_candidate P ctx ^^ n) key)"

definition reaches :: "int \<Rightarrow> 'kp key \<Rightarrow> bool" where
  "reaches d key \<longleftrightarrow> d \<le> int (count_leading_zero_bits (pubkey key))"

lemma generate_key_loop_step:
  "generate_key_loop P ctx d key =
     (if \<not> fst (candidate P ctx key 0) \<or> reaches d (snd (candidate P ctx key 0))
      then Some (candidate P ctx key 0)
      else generate_key_loop P ctx d (next_candidate P ctx key))"
  by (subst generate_key_loop.simps)
    (auto simp: candidate_def next_candidate_def reaches_def Let_def split: prod.split)

lemma candidate_Suc: "candidate P ctx key (Suc n) = candidate P ctx (next_candidate P ctx key) n"
  by (simp add: candidate_def funpow_swap1)

lemma generate_key_loop_first:
  assumes "\<forall>i < n. fst (candidate P ctx key i) \<and> \<not> reaches d (snd (candidate P ctx key i))"
    and "\<not> fst (candidate P ctx key n) \<or> reaches d (snd (candidate P ctx key n))"
  shows "generate_key_loop P ctx d key = Some (candidate P ctx key n)"
  using assms
proof (induction n arbitrary: key)
  case 0
  then show ?case by (subst generate_key_loop_step) auto
next
  case (Suc n)
  have "\<forall>i < n. fst (candidate P ctx (next_candidate P ctx key) i)
      \<and> \<not> reaches d (snd (candidate P ctx (next_candidate P ctx key) i))"
    using Suc.prems(1) by (auto simp flip: candidate_Suc)
  then have "generate_key_loop P ctx d (next_candidate P ctx key) = Some (candidate P ctx key (Suc n))"
    using Suc.IH Suc.prems(2) by (simp add: candidate_Suc)
  moreover have "fst (candidate P ctx key 0) \<and> \<not> reaches d (snd (candidate P ctx key 0))"
    using Suc.prems(1) by auto
  ultimately show ?case by (subst generate_key_loop_step) simp
qed

definition first_candidate ::
    "('w, 'ctx, 'kp, 'xpk, 'pk) platform \<Rightarrow> 'ctx \<Rightarrow> int \<Rightarrow> 'kp key \<Rightarrow> bool \<times> 'kp key \<Rightarrow> bool" where
  "first_candidate P ctx d key r \<longleftrightarrow> (\<exists>n. r = candidate P ctx key n \<and> (\<not> fst r \<or> reaches d (snd r))
    \<and> (\<forall>i < n. fst (candidate P ctx key i) \<and> \<not> reaches d (snd (candidate P ctx key i))))"

lemma generate_key_loop_returns:
  assumes "generate_key_loop P ctx d key = Some r"
  shows "first_candidate P ctx d key r"
proof (rule generate_key_loop.raw_induct
      [where Pa = "\<lambda>(((P, ctx), d), key) r. first_candidate P ctx d key r", OF _ assms, unfolded prod.case])
  fix loop P ctx d key r
  assume 1: "\<And>P ctx d key r. loop P ctx d key = Some r \<Longrightarrow> first_candidate P ctx d key r"
    "(case create_key P ctx key of (ok, key) \<Rightarrow>
        if \<not> ok then Some (False, key)
        else if int (count_leading_zero_bits (pubkey key)) \<ge> d then Some (True, key)
        else loop P ctx d (key\<lparr>secret := xor_mix (secret key) (secret key) (pubkey key) 32\<rparr>)) = Some r"
  have body: "(if \<not> fst (candidate P ctx key 0) \<or> reaches d (snd (candidate P ctx key 0))
      then Some (candidate P ctx key 0) else loop P ctx d (next_candidate P ctx key)) = Some r"
    using 1(2) by (auto simp: candidate_def next_candidate_def reaches_def Let_def
        split: prod.splits if_splits)
  show "first_candidate P ctx d key r"
  proof (cases "\<not> fst (candidate P ctx key 0) \<or> reaches d (snd (candidate P ctx key 0))")
    case True
    with body show ?thesis unfolding first_candidate_def by (intro exI [of _ 0]) auto
  next
    case False
    with body have "loop P ctx d (next_candidate P ctx key) = Some r" by simp
    from 1(1) [OF this] obtain n where n: "r = candidate P ctx key (Suc n)"
        "\<not> fst r \<or> reaches d (snd r)"
        "\<forall>i < n. fst (candidate P ctx key (Suc i)) \<and> \<not> reaches d (snd (candidate P ctx key (Suc i)))"
      by (auto simp: candidate_Suc first_candidate_def)
    with False show ?thesis
      unfolding first_candidate_def by (intro exI [of _ "Suc n"]) (auto simp: less_Suc_eq_0_disj)
  qed
qed

section \<open>Mining without the loop\<close>

text \<open>
  The secrets that are tried: the first is the random one, and each later one is its predecessor
  xor the predecessor's public key, byte by byte. A try falls short when its public key has too
  few leading zero bits.
\<close>

primrec mined_secret :: "('w, 'ctx, 'kp, 'xpk, 'pk) platform \<Rightarrow> 'ctx \<Rightarrow> byte list \<Rightarrow> nat \<Rightarrow> byte list option" where
  "mined_secret P ctx s 0 = Some s"
| "mined_secret P ctx s (Suc n) =
     (case mined_secret P ctx s n of
        None \<Rightarrow> None
      | Some t \<Rightarrow> map_option (map2 (XOR) t) (public_of P ctx t))"

definition falls_short :: "('w, 'ctx, 'kp, 'xpk, 'pk) platform \<Rightarrow> 'ctx \<Rightarrow> int \<Rightarrow> byte list \<Rightarrow> nat \<Rightarrow> bool" where
  "falls_short P ctx d s n \<longleftrightarrow> (\<exists>t pk. mined_secret P ctx s n = Some t \<and> public_of P ctx t = Some pk
     \<and> int (count_leading_zero_bits pk) < d)"

definition public32 :: "('w, 'ctx, 'kp, 'xpk, 'pk) platform \<Rightarrow> 'ctx \<Rightarrow> bool" where
  "public32 P ctx \<longleftrightarrow> (\<forall>xpk pk. xonly_pubkey_serialize P ctx xpk = Some pk \<longrightarrow> length pk = 32)"

lemma public_of_length: "public32 P ctx \<Longrightarrow> public_of P ctx s = Some pk \<Longrightarrow> length pk = 32"
  by (auto simp: public32_def public_of_def bind_eq_Some_conv split: option.splits)

lemma mined_secret_length:
  assumes "public32 P ctx" "length s = 32" "mined_secret P ctx s n = Some t"
  shows "length t = 32"
  using assms(3)
  by (induction n arbitrary: t) (use assms(1,2) in \<open>auto simp: public_of_length split: option.splits\<close>)

lemma falls_short_next: "falls_short P ctx d s n \<Longrightarrow> \<exists>t. mined_secret P ctx s (Suc n) = Some t"
  by (auto simp: falls_short_def)

lemma create_key_made:
  assumes "public_of P ctx (secret key) = Some pk"
  shows "create_key P ctx key = (True, \<lparr>pair = keypair_create P ctx (secret key), secret = secret key, pubkey = pk\<rparr>)"
  using assms by (cases key) (auto simp: create_key_def public_of_def bind_eq_Some_conv split: option.splits)

lemma candidate_secret:
  assumes "public32 P ctx" "length (secret key) = 32" "mined_secret P ctx (secret key) n = Some t"
  shows "secret ((next_candidate P ctx ^^ n) key) = t"
  using assms(3)
proof (induction n arbitrary: t)
  case (Suc n)
  then obtain u pk where u: "mined_secret P ctx (secret key) n = Some u" "public_of P ctx u = Some pk" "t = map2 (XOR) u pk"
    by (auto split: option.splits)
  have "length u = 32" "length pk = 32"
    using mined_secret_length [OF assms(1,2) u(1)] public_of_length [OF assms(1) u(2)] .
  with Suc.IH [OF u(1)] u show ?case
    by (simp add: next_candidate_def create_key_made xor_mix_map2)
qed simp

text \<open>The candidates of the loop are these secrets with their pairs and public keys.\<close>

lemma candidate_mined:
  assumes "public32 P ctx" "length (secret key) = 32" "mined_secret P ctx (secret key) n = Some t"
  shows "fst (candidate P ctx key n) \<longleftrightarrow> public_of P ctx t \<noteq> None"
    and "public_of P ctx t = Some pk \<Longrightarrow>
      candidate P ctx key n = (True, \<lparr>pair = keypair_create P ctx t, secret = t, pubkey = pk\<rparr>)"
    and "fst (candidate P ctx key n) \<and> \<not> reaches d (snd (candidate P ctx key n)) \<longleftrightarrow> falls_short P ctx d (secret key) n"
proof -
  note s = candidate_secret [OF assms]
  show ok: "fst (candidate P ctx key n) \<longleftrightarrow> public_of P ctx t \<noteq> None"
    by (simp add: candidate_def create_key_public s)
  show made: "candidate P ctx key n = (True, \<lparr>pair = keypair_create P ctx t, secret = t, pubkey = pk\<rparr>)"
    if "public_of P ctx t = Some pk" for pk
    using create_key_made [of P ctx "(next_candidate P ctx ^^ n) key" pk] that s by (simp add: candidate_def)
  show "fst (candidate P ctx key n) \<and> \<not> reaches d (snd (candidate P ctx key n)) \<longleftrightarrow> falls_short P ctx d (secret key) n"
    using ok made assms(3) by (cases "public_of P ctx t") (auto simp: falls_short_def reaches_def)
qed

lemma candidates_mined:
  assumes "public32 P ctx" "length (secret key) = 32"
  shows "(\<forall>i < n. fst (candidate P ctx key i) \<and> \<not> reaches d (snd (candidate P ctx key i)))
      \<longleftrightarrow> (\<forall>i < n. falls_short P ctx d (secret key) i)" (is ?same)
    and "\<forall>i < n. falls_short P ctx d (secret key) i \<Longrightarrow> \<exists>t. mined_secret P ctx (secret key) n = Some t"
proof -
  show made: "\<exists>t. mined_secret P ctx (secret key) n = Some t" if "\<forall>i < n. falls_short P ctx d (secret key) i" for n
  proof (cases n)
    case (Suc m)
    then have "falls_short P ctx d (secret key) m" using that by simp
    then show ?thesis unfolding Suc by (rule falls_short_next)
  qed simp
  show ?same
  proof (induction n)
    case (Suc n)
    then show ?case
      using made [of n] candidate_mined(3) [OF assms, of n _ d] by (auto simp: less_Suc_eq)
  qed simp
qed

lemma first_candidate_mined:
  assumes "public32 P ctx" "length (secret key) = 32"
  shows "first_candidate P ctx d key r \<longleftrightarrow> (\<exists>n t. mined_secret P ctx (secret key) n = Some t
    \<and> (\<forall>i < n. falls_short P ctx d (secret key) i)
    \<and> r = candidate P ctx key n \<and> \<not> falls_short P ctx d (secret key) n)"
proof -
  have "r = candidate P ctx key n \<and> (\<not> fst r \<or> reaches d (snd r))
      \<and> (\<forall>i < n. fst (candidate P ctx key i) \<and> \<not> reaches d (snd (candidate P ctx key i)))
    \<longleftrightarrow> (\<exists>t. mined_secret P ctx (secret key) n = Some t \<and> (\<forall>i < n. falls_short P ctx d (secret key) i)
      \<and> r = candidate P ctx key n \<and> \<not> falls_short P ctx d (secret key) n)" for n
  proof (cases "\<forall>i < n. falls_short P ctx d (secret key) i")
    case True
    then obtain t where "mined_secret P ctx (secret key) n = Some t" using candidates_mined(2) [OF assms] by blast
    with candidate_mined(3) [OF assms this, of d] candidates_mined(1) [OF assms, of n d] True show ?thesis by auto
  next
    case False
    with candidates_mined(1) [OF assms, of n d] show ?thesis by blast
  qed
  then show ?thesis unfolding first_candidate_def by (rule iff_exI)
qed

section \<open>Properties\<close>

text \<open>
  decode_key accepts a secret key string exactly when it consists of 64 hexadecimal
  digits and the library makes a key pair with a public key of the 32 bytes they stand for;
  the key structure then holds these bytes, their pair and their public key.
\<close>

theorem decode_key_exact:
  assumes "length (secret key) = 32"
  shows "(fst (decode_key P ctx secstr key) \<longleftrightarrow>
      (\<exists>bs. length bs = 32 \<and> hex_value (c_str secstr) = Some bs \<and> public_of P ctx bs \<noteq> None))
    \<and> (fst (decode_key P ctx secstr key) \<longrightarrow>
        hex_value (c_str secstr) = Some (secret (snd (decode_key P ctx secstr key)))
        \<and> key_ok P ctx (snd (decode_key P ctx secstr key)))"
proof (cases "fst (hex_decode (c_str secstr) (secret key) 32)")
  case True
  then obtain bs where bs: "hex_value (c_str secstr) = Some bs" "length bs = 32"
    by (auto simp: hex_decode_def hex_decode_loop_spec)
  then have "hex_decode (c_str secstr) (secret key) 32 = (True, bs)"
    using assms hex_decode_loop_stores [of "c_str secstr" bs 32 0 "secret key"] by (simp add: hex_decode_def)
  with bs show ?thesis
    using create_key_public [of P ctx "key\<lparr>secret := bs\<rparr>"] by (simp add: decode_key_def)
next
  case False
  then have "\<not> (\<exists>bs. hex_value (c_str secstr) = Some bs \<and> length bs = 32)"
    by (auto simp: hex_decode_def hex_decode_loop_spec)
  moreover obtain s where "hex_decode (c_str secstr) (secret key) 32 = (False, s)"
    using False by (metis prod.collapse)
  ultimately show ?thesis by (auto simp: decode_key_def)
qed

definition toy_platform :: "(nat, unit, byte list, byte list, byte list) platform" where
  "toy_platform = \<lparr>getrandom = (\<lambda>n w. ((int n, replicate n (word_of_nat w)), w + 1)),
     time_now = (\<lambda>w. (word_of_nat w, w)), context_create = (),
     context_randomize = (\<lambda>c _. (True, c)),
     keypair_create = (\<lambda>c s. if length s = 32 then Some s else None),
     keypair_xonly_pub = (\<lambda>c kp. Some kp), xonly_pubkey_serialize = (\<lambda>c x. if length x = 32 then Some x else None),
     schnorrsig_sign32 = (\<lambda>c i kp aux. if length i = 32 \<and> length kp = 32 then Some (i @ kp) else None),
     ec_seckey_verify = (\<lambda>c s. length s = 32), ec_pubkey_parse = (\<lambda>c p. Some (drop 1 p)),
     ecdh = (\<lambda>c pk s f. f (map2 (XOR) pk s) [])\<rparr>"

theorem decode_key_exact_witness:
  "fst (decode_key toy_platform () (hex_text (replicate 32 7)) \<lparr>pair = None, secret = replicate 32 0, pubkey = []\<rparr>)"
  using decode_key_exact [of "\<lparr>pair = None, secret = replicate 32 0, pubkey = []\<rparr>" toy_platform "()"
      "hex_text (replicate 32 7)"]
  by (simp add: public_of_def toy_platform_def)

text \<open>
  C40. Mining a public key. The secrets tried are a sequence that begins with 32 random bytes, each
  later one being the previous one xor its public key. generate_key with a difficulty succeeds
  exactly with the first secret of the sequence whose public key has that many leading zero bits,
  and returns it with its pair and its public key; it fails exactly when it first comes to a secret
  that the library rejects; and it runs forever exactly when every secret of the sequence has a
  public key that falls short. The library's serialised public keys have 32 bytes.
\<close>

theorem generate_key_mines_first:
  assumes "getrandom P 32 w = ((32, bs), w')" "length bs = 32" "length (secret key) = 32" "public32 P ctx"
  shows "(\<forall>k. generate_key P ctx key (Some d) w = Some ((True, k), w') \<longleftrightarrow>
      (\<exists>n t pk. (\<forall>i < n. falls_short P ctx d bs i) \<and> mined_secret P ctx bs n = Some t
         \<and> public_of P ctx t = Some pk \<and> d \<le> int (count_leading_zero_bits pk)
         \<and> k = \<lparr>pair = keypair_create P ctx t, secret = t, pubkey = pk\<rparr>))
    \<and> ((\<exists>k. generate_key P ctx key (Some d) w = Some ((False, k), w')) \<longleftrightarrow>
      (\<exists>n t. (\<forall>i < n. falls_short P ctx d bs i) \<and> mined_secret P ctx bs n = Some t \<and> public_of P ctx t = None))
    \<and> (generate_key P ctx key (Some d) w = None \<longleftrightarrow> (\<forall>n. falls_short P ctx d bs n))"
proof -
  let ?key = "key\<lparr>secret := bs\<rparr>"
  have "fill_random P (secret key) 32 w = (True, bs, w')"
    using assms by (simp add: fill_random_def copy_at_def)
  then have gen: "generate_key P ctx key (Some d) w = map_option (\<lambda>r. (r, w')) (generate_key_loop P ctx d ?key)"
    by (simp add: generate_key_def)
  have loop: "generate_key_loop P ctx d ?key = Some r \<longleftrightarrow> first_candidate P ctx d ?key r" for r
    using generate_key_loop_returns [of P ctx d ?key r] generate_key_loop_first [of _ P ctx ?key d]
    unfolding first_candidate_def by blast
  have len: "length (secret ?key) = 32" using assms(2) by simp
  note first = loop [unfolded first_candidate_mined [OF assms(4) len], simplified]
  note cand = candidate_mined [OF assms(4) len, simplified]
  have hit: "(True, k) = candidate P ctx ?key n \<and> \<not> falls_short P ctx d bs n \<longleftrightarrow>
      (\<exists>pk. public_of P ctx t = Some pk \<and> d \<le> int (count_leading_zero_bits pk)
         \<and> k = \<lparr>pair = keypair_create P ctx t, secret = t, pubkey = pk\<rparr>)"
    "(\<exists>k. (False, k) = candidate P ctx ?key n) \<and> \<not> falls_short P ctx d bs n \<longleftrightarrow> public_of P ctx t = None"
    if m: "mined_secret P ctx bs n = Some t" for n t k
  proof -
    show "(True, k) = candidate P ctx ?key n \<and> \<not> falls_short P ctx d bs n \<longleftrightarrow>
        (\<exists>pk. public_of P ctx t = Some pk \<and> d \<le> int (count_leading_zero_bits pk)
           \<and> k = \<lparr>pair = keypair_create P ctx t, secret = t, pubkey = pk\<rparr>)"
      using cand(1,2) [OF m] m
      by (cases "public_of P ctx t"; cases "candidate P ctx ?key n") (auto simp: falls_short_def)
    show "(\<exists>k. (False, k) = candidate P ctx ?key n) \<and> \<not> falls_short P ctx d bs n \<longleftrightarrow> public_of P ctx t = None"
      using cand(1,2) [OF m] m
      by (cases "public_of P ctx t"; cases "candidate P ctx ?key n") (auto simp: falls_short_def)
  qed
  have success: "generate_key_loop P ctx d ?key = Some (True, k) \<longleftrightarrow>
      (\<exists>n t pk. (\<forall>i < n. falls_short P ctx d bs i) \<and> mined_secret P ctx bs n = Some t
         \<and> public_of P ctx t = Some pk \<and> d \<le> int (count_leading_zero_bits pk)
         \<and> k = \<lparr>pair = keypair_create P ctx t, secret = t, pubkey = pk\<rparr>)" for k
    unfolding first using hit(1) [of _ _ k] by blast
  have failure: "(\<exists>k. generate_key_loop P ctx d ?key = Some (False, k)) \<longleftrightarrow>
      (\<exists>n t. (\<forall>i < n. falls_short P ctx d bs i) \<and> mined_secret P ctx bs n = Some t \<and> public_of P ctx t = None)"
    unfolding first using hit(2) by blast
  have forever: "generate_key_loop P ctx d ?key = None \<longleftrightarrow> (\<forall>n. falls_short P ctx d bs n)"
  proof
    assume none: "generate_key_loop P ctx d ?key = None"
    have "falls_short P ctx d bs n" for n
    proof (induction n rule: less_induct)
      case (less n)
      then obtain t where "mined_secret P ctx bs n = Some t"
        using candidates_mined(2) [OF assms(4) len, of n d] by auto
      with less none first [of "candidate P ctx ?key n"] show ?case by auto
    qed
    then show "\<forall>n. falls_short P ctx d bs n" by blast
  next
    assume "\<forall>n. falls_short P ctx d bs n"
    then have "generate_key_loop P ctx d ?key \<noteq> Some r" for r using first [of r] by blast
    then show "generate_key_loop P ctx d ?key = None" by (cases "generate_key_loop P ctx d ?key") auto
  qed
  have "generate_key P ctx key (Some d) w = Some (r, w') \<longleftrightarrow> generate_key_loop P ctx d ?key = Some r"
      "generate_key P ctx key (Some d) w = None \<longleftrightarrow> generate_key_loop P ctx d ?key = None" for r
    unfolding gen by (cases "generate_key_loop P ctx d ?key"; simp)+
  then show ?thesis using success failure forever by (simp only: simp_thms)
qed

theorem generate_key_mines_first_witness:
  "generate_key toy_platform () \<lparr>pair = None, secret = replicate 32 0, pubkey = []\<rparr> (Some 6) 5
   = Some ((True, \<lparr>pair = Some (replicate 32 0), secret = replicate 32 0, pubkey = replicate 32 0\<rparr>), 6)"
proof -
  let ?k = "\<lparr>pair = None, secret = replicate 32 0, pubkey = []\<rparr>" and ?bs = "replicate 32 5 :: byte list"
  have rnd: "getrandom toy_platform 32 5 = ((32, ?bs), 6)" by (simp add: toy_platform_def)
  have p32: "public32 toy_platform ()" by (simp add: public32_def toy_platform_def)
  have pub: "public_of toy_platform () s = Some s" if "length s = 32" for s
    using that by (simp add: public_of_def toy_platform_def)
  have "count_leading_zero_bits ?bs = 5" "count_leading_zero_bits (replicate 32 0) = 256"
    by code_simp+
  then have short: "falls_short toy_platform () 6 ?bs 0" and m: "mined_secret toy_platform () ?bs 1 = Some (replicate 32 0)"
    and z: "int 6 \<le> int (count_leading_zero_bits (replicate 32 0))"
    using pub [of ?bs] by (simp_all add: falls_short_def map2_map_map flip: map_replicate_const)
  have "\<exists>n t pk. (\<forall>i < n. falls_short toy_platform () 6 ?bs i) \<and> mined_secret toy_platform () ?bs n = Some t
      \<and> public_of toy_platform () t = Some pk \<and> 6 \<le> int (count_leading_zero_bits pk)
      \<and> \<lparr>pair = Some (replicate 32 0), secret = replicate 32 0, pubkey = replicate 32 0\<rparr>
         = \<lparr>pair = keypair_create toy_platform () t, secret = t, pubkey = pk\<rparr>"
    using short m z pub [of "replicate 32 0"]
    by (intro exI [of _ 1] exI [of _ "replicate 32 (0 :: byte)"]) (simp add: toy_platform_def)
  then show ?thesis
    by (intro generate_key_mines_first [OF rnd _ _ p32, THEN conjunct1, THEN spec, THEN iffD2]) simp_all
qed

end
