(* ===== verification/Nostr_Mining.thy ===== *)
theory Nostr_Mining
  imports Nostr_Event Proof_Bits
begin

text \<open>
  Proof of work on the event id: \<open>ensure_nonce_tag\<close> and \<open>mine_event\<close> of
  \<open>src/src/nostril/nostri.c\<close>. The nonce string of the tag is a buffer that is printed anew
  before each attempt; here the string is stored in the tag at that moment. The nonce is the
  64-bit counter of the source. The loop is a partial function: \<open>None\<close> when no nonce ever
  reaches the difficulty.

  Shown: the event that mining returns is the given one with a nonce tag for the first nonce
  whose NIP-01 id reaches the difficulty, and it is returned whenever there is such a nonce; an
  event that comes with a two-element nonce tag fails the assertion behind the search.
\<close>

section \<open>Operations\<close>

definition nonce_str :: "byte list" where
  "nonce_str = [0x6e, 0x6f, 0x6e, 0x63, 0x65]"

text \<open>\<open>!strcmp(s, "nonce")\<close>; the strings of tags in use are never \<open>NULL\<close>.\<close>

definition is_nonce :: "byte list option \<Rightarrow> bool" where
  "is_nonce s \<longleftrightarrow> (case s of None \<Rightarrow> False | Some s \<Rightarrow> strcmp_eq s nonce_str)"

definition is_nonce_tag :: "nostr_tag \<Rightarrow> bool" where
  "is_nonce_tag tag \<longleftrightarrow> num_elems tag = 2 \<and> is_nonce (strs tag ! 0)"

definition ensure_nonce_tag :: "nostr_event \<Rightarrow> int \<Rightarrow> bool \<times> nat \<times> nostr_event" where
  "ensure_nonce_tag ev target =
     (case find (\<lambda>i. is_nonce_tag (ev_tags ev ! i)) [0..<num_tags ev] of
        Some i \<Rightarrow> (True, i, ev)
      | None \<Rightarrow>
          (let index = num_tags ev;
               str_target = snprintf 7 (dec_int target);
               (ok, ev) = nostr_add_tag_n ev [Some nonce_str, Some [0x30], Some str_target]
           in (ok, index, ev)))"

definition set_nonce :: "nostr_event \<Rightarrow> nat \<Rightarrow> byte list \<Rightarrow> nostr_event" where
  "set_nonce ev index s =
     (let tag = ev_tags ev ! index
      in ev\<lparr>ev_tags := (ev_tags ev)[index := tag\<lparr>strs := (strs tag)[1 := Some s]\<rparr>]\<rparr>)"

partial_function (option) mine_loop ::
    "int \<Rightarrow> nat \<Rightarrow> u64 \<Rightarrow> nostr_event \<Rightarrow> memory \<Rightarrow> (bool \<times> nostr_event \<times> memory) run option" where
  "mine_loop d index nonce ev m =
     (case generate_event_id (set_nonce ev index (snprintf 32 (dec_nat (unat nonce)))) m of
        None \<Rightarrow> Some Abort
      | Some (ok, ev, m) \<Rightarrow>
          if \<not> ok then Some (Return (False, ev, m))
          else if int (count_leading_zero_bits (ev_id ev)) \<ge> d
          then Some (Return (True, ev, m))
          else mine_loop d index (nonce + 1) ev m)"

definition mine_event ::
    "nostr_event \<Rightarrow> int \<Rightarrow> memory \<Rightarrow> (bool \<times> nostr_event \<times> memory) run option" where
  "mine_event ev d m =
     (case ensure_nonce_tag ev d of (ok, index, ev) \<Rightarrow>
        if \<not> ok then Some (Return (False, ev, m))
        else let tag = ev_tags ev ! index in
          if num_elems tag \<noteq> 3 then Some Abort
          else if \<not> is_nonce (strs tag ! 0) then Some Abort
          else mine_loop d index 0 ev m)"

section \<open>The events that are tried\<close>

definition target_str :: "int \<Rightarrow> byte list" where
  "target_str target = snprintf 7 (dec_int target)"

definition with_nonce :: "nostr_event \<Rightarrow> int \<Rightarrow> u64 \<Rightarrow> nostr_event" where
  "with_nonce ev target nonce =
     set_nonce (snd (nostr_add_tag_n ev [Some nonce_str, Some [0x30], Some (target_str target)]))
       (num_tags ev) (dec_nat (unat nonce))"

definition nonce_id :: "nostr_event \<Rightarrow> int \<Rightarrow> u64 \<Rightarrow> byte list" where
  "nonce_id ev target nonce = fips_sha256 (commitment_text (with_nonce ev target nonce))"

definition no_nonce_tag :: "nostr_event \<Rightarrow> bool" where
  "no_nonce_tag ev \<longleftrightarrow> (\<forall>i < num_tags ev. \<not> is_nonce_tag (ev_tags ev ! i))"

definition mineable :: "nostr_event \<Rightarrow> bool" where
  "mineable ev \<longleftrightarrow> event_wf ev \<and> num_tags ev < MAX_TAGS \<and> no_nonce_tag ev"

lemma dec_u64_fits: "snprintf 32 (dec_nat (unat (n :: u64))) = dec_nat (unat n)"
proof -
  have "unat n < 2 ^ 64" using unsigned_less [of n] by simp
  then have "unat n < 10 ^ 31" by simp
  then have "length (dec_nat (unat n)) \<le> 31" by (subst length_dec_nat) simp_all
  then show ?thesis by (simp add: snprintf_def)
qed

lemma set_nonce_same [simp]: "index < length (ev_tags ev) \<Longrightarrow> set_nonce (set_nonce ev index a) index b = set_nonce ev index b"
  by (simp add: set_nonce_def Let_def)

lemma set_nonce_id [simp]: "set_nonce (ev\<lparr>ev_id := h\<rparr>) index b = (set_nonce ev index b)\<lparr>ev_id := h\<rparr>"
  by (simp add: set_nonce_def Let_def)

lemma commitment_text_id [simp]: "commitment_text (ev\<lparr>ev_id := h\<rparr>) = commitment_text ev"
  by (simp add: commitment_text_def nip01_text_def tags_json_def event_tags_def split: option.split)

lemma event_wf_id [simp]: "event_wf (ev\<lparr>ev_id := h\<rparr>) = event_wf ev"
  by (simp add: event_wf_def)

text \<open>The tag is added at the end; setting the nonce changes only its second element.\<close>

lemma ensure_nonce_tag_new:
  assumes "mineable ev"
  obtains ev' where "ensure_nonce_tag ev target = (True, num_tags ev, ev')"
    and "nostr_add_tag_n ev [Some nonce_str, Some [0x30], Some (target_str target)] = (True, ev')"
    and "event_wf ev'" and "num_tags ev < length (ev_tags ev')"
    and "tag_elems (ev_tags ev' ! num_tags ev) = [Some nonce_str, Some [0x30], Some (target_str target)]"
    and "num_tags ev' = num_tags ev + 1" and "event_tags ev' = event_tags ev @ [[Some nonce_str, Some [0x30], Some (target_str target)]]"
    and "ev' = ev\<lparr>ev_tags := ev_tags ev', num_tags := num_tags ev + 1\<rparr>"
proof -
  have "find (\<lambda>i. is_nonce_tag (ev_tags ev ! i)) [0..<num_tags ev] = None"
    using assms by (auto simp: mineable_def no_nonce_tag_def find_None_iff)
  then show ?thesis
    using that add_tag_n_ok [of ev "[Some nonce_str, Some [0x30], Some (target_str target)]"] assms
    by (auto simp: ensure_nonce_tag_def mineable_def MAX_TAG_ELEMS_def event_wf_def target_str_def)
qed

lemma tag_elems_3:
  assumes "tag_elems tag = [a, b, c]" "tag_wf tag"
  shows "num_elems tag = 3" "strs tag ! 0 = a" "tag_elems (tag\<lparr>strs := (strs tag)[1 := d]\<rparr>) = [a, d, c]"
proof -
  have len: "num_elems tag = 3"
    using arg_cong [OF assms(1), of length] assms(2) by (simp add: tag_elems_def tag_wf_def)
  show "num_elems tag = 3" by (rule len)
  show "strs tag ! 0 = a"
    using arg_cong [OF assms(1), of "\<lambda>x. x ! 0"] len by (simp add: tag_elems_def)
  show "tag_elems (tag\<lparr>strs := (strs tag)[1 := d]\<rparr>) = [a, d, c]"
    using arg_cong [OF assms(1), of "\<lambda>x. x[1 := d]"] len by (simp add: tag_elems_def take_update_swap)
qed

text \<open>
  The states of the loop: the event with the tag in place, up to the nonce and the id left by
  the attempt before.
\<close>

definition attempt_of :: "nostr_event \<Rightarrow> nat \<Rightarrow> nostr_event \<Rightarrow> bool" where
  "attempt_of e index e' \<longleftrightarrow> (\<forall>s. \<exists>h. set_nonce e' index s = (set_nonce e index s)\<lparr>ev_id := h\<rparr>)"

lemma attempt_of_refl: "attempt_of e index e"
proof -
  have "e' = e'\<lparr>ev_id := ev_id e'\<rparr>" for e' :: nostr_event by simp
  then show ?thesis unfolding attempt_of_def by blast
qed

lemma attempt_of_next:
  "index < length (ev_tags e) \<Longrightarrow> attempt_of e index ((set_nonce e index s)\<lparr>ev_id := h\<rparr>)"
  by (auto simp: attempt_of_def)

definition attempt :: "nostr_event \<Rightarrow> nat \<Rightarrow> u64 \<Rightarrow> nostr_event" where
  "attempt e index nonce = set_nonce e index (dec_nat (unat nonce))"

lemma attempt_id:
  assumes "attempt_of e index e'" "event_wf (attempt e index nonce)"
  shows "\<exists>m'. generate_event_id (set_nonce e' index (snprintf 32 (dec_nat (unat nonce)))) m =
    Some (if length (commitment_text (attempt e index nonce)) < 102400
          then (True, (attempt e index nonce)\<lparr>ev_id := fips_sha256 (commitment_text (attempt e index nonce))\<rparr>, m')
          else (False, set_nonce e' index (dec_nat (unat nonce)), m'))"
proof -
  obtain h where h: "set_nonce e' index (dec_nat (unat nonce)) = (attempt e index nonce)\<lparr>ev_id := h\<rparr>"
    using assms(1) by (auto simp: attempt_of_def attempt_def)
  then show ?thesis
    using generate_event_id_text [of "(attempt e index nonce)\<lparr>ev_id := h\<rparr>" m] assms(2)
    by (cases "length (commitment_text (attempt e index nonce)) < 102400") (simp_all add: dec_u64_fits)
qed

lemma mine_loop_first:
  assumes "index < length (ev_tags e)" "\<forall>n. event_wf (attempt e index n)"
    and "attempt_of e index e'"
    and "\<forall>i \<le> k. length (commitment_text (attempt e index (nonce + word_of_nat i))) < 102400"
    and "\<forall>i < k. int (count_leading_zero_bits (fips_sha256 (commitment_text (attempt e index (nonce + word_of_nat i))))) < d"
    and "d \<le> int (count_leading_zero_bits (fips_sha256 (commitment_text (attempt e index (nonce + word_of_nat k)))))"
  shows "\<exists>m'. mine_loop d index nonce e' m = Some (Return (True,
      (attempt e index (nonce + word_of_nat k))
        \<lparr>ev_id := fips_sha256 (commitment_text (attempt e index (nonce + word_of_nat k)))\<rparr>, m'))"
  using assms(3-)
proof (induction k arbitrary: nonce e' m)
  case 0
  then show ?case
    using attempt_id [OF 0(1) assms(2) [rule_format], of nonce m]
    by (subst mine_loop.simps) auto
next
  case (Suc k)
  let ?a = "attempt e index nonce"
  obtain m1 where id: "generate_event_id (set_nonce e' index (snprintf 32 (dec_nat (unat nonce)))) m =
      Some (True, ?a\<lparr>ev_id := fips_sha256 (commitment_text ?a)\<rparr>, m1)"
    using attempt_id [OF Suc.prems(1) assms(2) [rule_format], of nonce m] Suc.prems(2) [rule_format, of 0]
    by auto
  have shift: "nonce + 1 + word_of_nat i = nonce + word_of_nat (Suc i)" for i
    by (simp add: algebra_simps)
  have "\<exists>m'. mine_loop d index (nonce + 1) (?a\<lparr>ev_id := fips_sha256 (commitment_text ?a)\<rparr>) m1 =
      Some (Return (True, (attempt e index (nonce + 1 + word_of_nat k))
        \<lparr>ev_id := fips_sha256 (commitment_text (attempt e index (nonce + 1 + word_of_nat k)))\<rparr>, m'))"
    unfolding attempt_def [of e index nonce]
    by (rule Suc.IH) (use Suc.prems in \<open>auto simp: shift attempt_of_next assms(1)\<close>)
  moreover have "\<not> d \<le> int (count_leading_zero_bits (fips_sha256 (commitment_text ?a)))"
    using Suc.prems(3) [rule_format, of 0] by simp
  ultimately show ?case
    unfolding shift by (subst mine_loop.simps) (simp add: id)
qed

text \<open>Conversely, what the loop returns with success is an attempt that reaches the difficulty.\<close>

definition mined :: "int \<Rightarrow> nat \<Rightarrow> nostr_event \<Rightarrow> (bool \<times> nostr_event \<times> memory) run \<Rightarrow> bool" where
  "mined d index e' r \<longleftrightarrow> (\<forall>e ev' m'. index < length (ev_tags e) \<and> (\<forall>n. event_wf (attempt e index n))
       \<and> attempt_of e index e' \<and> r = Return (True, ev', m') \<longrightarrow>
     (\<exists>n. ev' = (attempt e index n)\<lparr>ev_id := fips_sha256 (commitment_text (attempt e index n))\<rparr>
        \<and> d \<le> int (count_leading_zero_bits (ev_id ev'))
        \<and> length (commitment_text (attempt e index n)) < 102400))"

lemma mine_loop_sound:
  assumes "mine_loop d index nonce e' m = Some r"
  shows "mined d index e' r"
proof (rule mine_loop.raw_induct
    [where P = "\<lambda>d index nonce e' m r. mined d index e' r", OF _ assms])
  fix loop d index and nonce :: u64 and e' m r
  assume IH: "\<And>d index nonce e' m r. loop d index nonce e' m = Some r \<Longrightarrow> mined d index e' r"
    and body: "(case generate_event_id (set_nonce e' index (snprintf 32 (dec_nat (unat nonce)))) m of
        None \<Rightarrow> Some Abort
      | Some (ok, ev, m) \<Rightarrow>
          if \<not> ok then Some (Return (False, ev, m))
          else if int (count_leading_zero_bits (ev_id ev)) \<ge> d
          then Some (Return (True, ev, m))
          else loop d index (nonce + 1) ev m) = Some r"
  show "mined d index e' r"
    unfolding mined_def
  proof (intro allI impI)
    fix e ev' m'
    assume *: "index < length (ev_tags e) \<and> (\<forall>n. event_wf (attempt e index n))
       \<and> attempt_of e index e' \<and> r = Return (True, ev', m')"
    let ?a = "attempt e index nonce"
    obtain m1 where id: "generate_event_id (set_nonce e' index (snprintf 32 (dec_nat (unat nonce)))) m =
        Some (True, ?a\<lparr>ev_id := fips_sha256 (commitment_text ?a)\<rparr>, m1)"
        "length (commitment_text ?a) < 102400"
      using attempt_id [of e index e' nonce m] * body by (auto split: if_splits)
    show "\<exists>n. ev' = (attempt e index n)\<lparr>ev_id := fips_sha256 (commitment_text (attempt e index n))\<rparr>
        \<and> d \<le> int (count_leading_zero_bits (ev_id ev'))
        \<and> length (commitment_text (attempt e index n)) < 102400"
    proof (cases "d \<le> int (count_leading_zero_bits (fips_sha256 (commitment_text ?a)))")
      case True
      with * id body show ?thesis by (intro exI [of _ nonce]) auto
    next
      case False
      with id body have "loop d index (nonce + 1) (?a\<lparr>ev_id := fips_sha256 (commitment_text ?a)\<rparr>) m1 = Some r"
        by simp
      from IH [OF this] show ?thesis
        using * attempt_of_next [of index e] by (auto simp: mined_def attempt_def [of e index nonce])
    qed
  qed
qed

text \<open>The loop runs on the event with the new tag.\<close>

lemma with_nonce_attempts:
  assumes "mineable ev"
  obtains e where "\<And>m. mine_event ev d m = mine_loop d (num_tags ev) 0 e m"
    and "num_tags ev < length (ev_tags e)" and "\<And>n. attempt e (num_tags ev) n = with_nonce ev d n"
    and "\<And>n. event_wf (with_nonce ev d n)"
    and "\<And>n. event_tags (with_nonce ev d n)
           = event_tags ev @ [[Some nonce_str, Some (dec_nat (unat n)), Some (target_str d)]]"
    and "\<And>n. with_nonce ev d n = ev\<lparr>ev_tags := ev_tags (with_nonce ev d n), num_tags := num_tags ev + 1\<rparr>"
proof -
  let ?i = "num_tags ev"
  obtain e where e: "ensure_nonce_tag ev d = (True, ?i, e)"
      "nostr_add_tag_n ev [Some nonce_str, Some [0x30], Some (target_str d)] = (True, e)"
      "event_wf e" "?i < length (ev_tags e)"
      "tag_elems (ev_tags e ! ?i) = [Some nonce_str, Some [0x30], Some (target_str d)]"
      "num_tags e = ?i + 1"
      "event_tags e = event_tags ev @ [[Some nonce_str, Some [0x30], Some (target_str d)]]"
      "e = ev\<lparr>ev_tags := ev_tags e, num_tags := ?i + 1\<rparr>"
    using ensure_nonce_tag_new [OF assms] by metis
  have wf: "tag_wf (ev_tags e ! ?i)" using e(3,4) by (auto simp: event_wf_def list_all_length)
  note tag = tag_elems_3 [OF e(5) wf]
  have loop: "mine_event ev d m = mine_loop d ?i 0 e m" for m
    using e(1) tag(1,2) by (simp add: mine_event_def is_nonce_def strcmp_eq_def)
  have att: "attempt e ?i n = with_nonce ev d n" for n
    using e(2) by (simp add: attempt_def with_nonce_def)
  have tags_wf: "event_wf (attempt e ?i n)" for n
    using e(3,4) wf by (auto simp: attempt_def set_nonce_def Let_def event_wf_def list_all_length nth_list_update tag_wf_def)
  have front: "map tag_elems (take ?i (ev_tags e)) = event_tags ev"
    using e(4,6,7) by (simp add: event_tags_def [of e] take_Suc_conv_app_nth)
  have tags: "event_tags (attempt e ?i n)
      = event_tags ev @ [[Some nonce_str, Some (dec_nat (unat n)), Some (target_str d)]]" for n
  proof -
    have "event_tags (attempt e ?i n) = map tag_elems (take (Suc ?i) (ev_tags (attempt e ?i n)))"
      by (simp add: event_tags_def attempt_def set_nonce_def Let_def e(6))
    then show ?thesis
      using e(4) tag(3) [of "Some (dec_nat (unat n))"] front
      by (simp add: attempt_def set_nonce_def Let_def take_Suc_conv_app_nth)
  qed
  have frame: "attempt e ?i n = ev\<lparr>ev_tags := ev_tags (attempt e ?i n), num_tags := ?i + 1\<rparr>" for n
    by (subst (1 2) e(8)) (simp add: attempt_def set_nonce_def Let_def)
  show ?thesis
    by (rule that [OF loop e(4) att]) (use tags_wf tags frame in \<open>simp_all only: att\<close>)
qed

lemma mine_event_first:
  assumes "mineable ev" "k < 2 ^ 64"
    and "\<forall>i \<le> k. length (commitment_text (with_nonce ev d (word_of_nat i))) < 102400"
    and "\<forall>i < k. int (count_leading_zero_bits (nonce_id ev d (word_of_nat i))) < d"
    and "d \<le> int (count_leading_zero_bits (nonce_id ev d (word_of_nat k)))"
  shows "\<exists>m'. mine_event ev d m = Some (Return (True,
      (with_nonce ev d (word_of_nat k))\<lparr>ev_id := nonce_id ev d (word_of_nat k)\<rparr>, m'))"
proof -
  obtain e where e: "mine_event ev d m = mine_loop d (num_tags ev) 0 e m"
      "num_tags ev < length (ev_tags e)" "\<And>n. attempt e (num_tags ev) n = with_nonce ev d n"
      "\<And>n. event_wf (with_nonce ev d n)"
    using with_nonce_attempts [OF assms(1), of d] by metis
  show ?thesis
    using mine_loop_first [OF e(2) _ attempt_of_refl, of k 0 d m] assms(3-) e(4)
    by (simp add: e(1,3) nonce_id_def)
qed

lemma mine_event_success:
  assumes "mineable ev" "mine_event ev d m = Some (Return (True, ev', m'))"
  shows "ev_id ev' = fips_sha256 (commitment_text ev')"
    and "d \<le> int (count_leading_zero_bits (ev_id ev'))" and "event_wf ev'"
    and "\<exists>n :: u64. event_tags ev' = event_tags ev @ [[Some nonce_str, Some (dec_nat (unat n)), Some (target_str d)]]"
    and "ev' = ev\<lparr>ev_id := ev_id ev', ev_tags := ev_tags ev', num_tags := num_tags ev + 1\<rparr>"
    and "length (commitment_text ev') < 102400"
proof -
  obtain e where e: "mine_event ev d m = mine_loop d (num_tags ev) 0 e m"
      "num_tags ev < length (ev_tags e)" "\<And>n. attempt e (num_tags ev) n = with_nonce ev d n"
      "\<And>n. event_wf (with_nonce ev d n)"
      "\<And>n. event_tags (with_nonce ev d n)
           = event_tags ev @ [[Some nonce_str, Some (dec_nat (unat n)), Some (target_str d)]]"
      "\<And>n. with_nonce ev d n = ev\<lparr>ev_tags := ev_tags (with_nonce ev d n), num_tags := num_tags ev + 1\<rparr>"
    using with_nonce_attempts [OF assms(1), of d] by metis
  have "mined d (num_tags ev) e (Return (True, ev', m'))"
    using assms(2) unfolding e(1) by (rule mine_loop_sound)
  then obtain n where n: "ev' = (with_nonce ev d n)\<lparr>ev_id := fips_sha256 (commitment_text (with_nonce ev d n))\<rparr>"
      "d \<le> int (count_leading_zero_bits (ev_id ev'))" "length (commitment_text (with_nonce ev d n)) < 102400"
    using e(2,4) attempt_of_refl [of e "num_tags ev"] unfolding mined_def e(3) [symmetric] by blast
  show "ev_id ev' = fips_sha256 (commitment_text ev')" "event_wf ev'" using n(1) e(4) by simp_all
  show "d \<le> int (count_leading_zero_bits (ev_id ev'))" by (rule n(2))
  show "\<exists>n :: u64. event_tags ev' = event_tags ev @ [[Some nonce_str, Some (dec_nat (unat n)), Some (target_str d)]]"
    using e(5) [of n] n(1) by (auto simp: event_tags_def)
  obtain X where "with_nonce ev d n = ev\<lparr>ev_tags := X, num_tags := num_tags ev + 1\<rparr>"
    using e(6) by blast
  then show "ev' = ev\<lparr>ev_id := ev_id ev', ev_tags := ev_tags ev', num_tags := num_tags ev + 1\<rparr>"
    using n(1) by simp
  show "length (commitment_text ev') < 102400" using n(1,3) by simp
qed

text \<open>Mining fails when there is no free tag and aborts when there is a two-element nonce tag.\<close>

lemma mine_event_aborts:
  assumes "\<not> no_nonce_tag ev"
  shows "mine_event ev d m = Some Abort"
proof -
  obtain i where i: "find (\<lambda>i. is_nonce_tag (ev_tags ev ! i)) [0..<num_tags ev] = Some i"
    using assms by (fastforce simp: no_nonce_tag_def find_None_iff dest: iffD1 [OF find_None_iff])
  then have "is_nonce_tag (ev_tags ev ! i)" by (auto simp: find_Some_iff)
  with i show ?thesis by (simp add: mine_event_def ensure_nonce_tag_def is_nonce_tag_def)
qed

lemma mine_event_mineable:
  assumes "event_wf ev" "mine_event ev d m = Some (Return (True, ev', m'))"
  shows "mineable ev"
proof -
  have nn: "no_nonce_tag ev" using assms(2) mine_event_aborts [of ev d m] by auto
  then have "find (\<lambda>i. is_nonce_tag (ev_tags ev ! i)) [0..<num_tags ev] = None"
    by (auto simp: no_nonce_tag_def find_None_iff)
  then have "num_tags ev \<noteq> MAX_TAGS"
    using assms(2) add_tag_n_full [of ev] by (auto simp: mine_event_def ensure_nonce_tag_def)
  with assms(1) nn show ?thesis by (auto simp: mineable_def event_wf_def)
qed

text \<open>Mining fails only when all tags are taken or the serialisation does not fit its buffer.\<close>

lemma mine_loop_failure:
  assumes "mine_loop d index nonce e' m = Some r"
  shows "\<forall>e ev' m'. (\<forall>n. event_wf (attempt e index n)) \<and> index < length (ev_tags e) \<and> attempt_of e index e'
      \<and> r = Return (False, ev', m') \<longrightarrow> 102400 \<le> length (commitment_text ev')"
proof (rule mine_loop.raw_induct
    [where P = "\<lambda>d index nonce e' m r. \<forall>e ev' m'. (\<forall>n. event_wf (attempt e index n)) \<and> index < length (ev_tags e)
      \<and> attempt_of e index e' \<and> r = Return (False, ev', m') \<longrightarrow> 102400 \<le> length (commitment_text ev')", OF _ assms])
  fix loop d index and nonce :: u64 and e' m r
  assume IH: "\<And>d index nonce e' m r. loop d index nonce e' m = Some r \<Longrightarrow>
      \<forall>e ev' m'. (\<forall>n. event_wf (attempt e index n)) \<and> index < length (ev_tags e) \<and> attempt_of e index e'
        \<and> r = Return (False, ev', m') \<longrightarrow> 102400 \<le> length (commitment_text ev')"
    and body: "(case generate_event_id (set_nonce e' index (snprintf 32 (dec_nat (unat nonce)))) m of
        None \<Rightarrow> Some Abort
      | Some (ok, ev, m) \<Rightarrow>
          if \<not> ok then Some (Return (False, ev, m))
          else if int (count_leading_zero_bits (ev_id ev)) \<ge> d
          then Some (Return (True, ev, m))
          else loop d index (nonce + 1) ev m) = Some r"
  show "\<forall>e ev' m'. (\<forall>n. event_wf (attempt e index n)) \<and> index < length (ev_tags e) \<and> attempt_of e index e'
      \<and> r = Return (False, ev', m') \<longrightarrow> 102400 \<le> length (commitment_text ev')"
  proof (intro allI impI, elim conjE)
    fix e ev' m'
    let ?a = "attempt e index nonce"
    assume *: "\<forall>n. event_wf (attempt e index n)" "index < length (ev_tags e)" "attempt_of e index e'"
      "r = Return (False, ev', m')"
    obtain m1 where id: "generate_event_id (set_nonce e' index (snprintf 32 (dec_nat (unat nonce)))) m =
        Some (if length (commitment_text ?a) < 102400
          then (True, ?a\<lparr>ev_id := fips_sha256 (commitment_text ?a)\<rparr>, m1)
          else (False, set_nonce e' index (dec_nat (unat nonce)), m1))"
      using attempt_id [OF *(3)] *(1) by blast
    obtain h where h: "set_nonce e' index (dec_nat (unat nonce)) = ?a\<lparr>ev_id := h\<rparr>"
      using *(3) by (auto simp: attempt_of_def attempt_def)
    show "102400 \<le> length (commitment_text ev')"
    proof (cases "length (commitment_text ?a) < 102400")
      case True
      then have "loop d index (nonce + 1) (?a\<lparr>ev_id := fips_sha256 (commitment_text ?a)\<rparr>) m1 = Some r"
        using body id *(4) by (auto split: if_splits)
      from IH [OF this] show ?thesis
        using *(1,2,4) attempt_of_next [of index e] by (auto simp: attempt_def [of e index nonce])
    next
      case False
      then have "ev' = ?a\<lparr>ev_id := h\<rparr>" using body id *(4) h by (auto split: if_splits)
      with False show ?thesis by simp
    qed
  qed
qed

lemma mine_event_failure:
  assumes "event_wf ev" "mine_event ev d m = Some (Return (False, ev', m'))"
  shows "num_tags ev' = MAX_TAGS \<or> 102400 \<le> length (commitment_text ev')"
proof (cases "mineable ev")
  case True
  obtain e where e: "mine_event ev d m = mine_loop d (num_tags ev) 0 e m"
      "num_tags ev < length (ev_tags e)" "\<And>n. attempt e (num_tags ev) n = with_nonce ev d n"
      "\<And>n. event_wf (with_nonce ev d n)"
    using with_nonce_attempts [OF True, of d] by metis
  from mine_loop_failure [OF assms(2) [unfolded e(1)]] have "102400 \<le> length (commitment_text ev')"
    using e(2-4) attempt_of_refl [of e "num_tags ev"] by metis
  then show ?thesis by simp
next
  case False
  have nn: "no_nonce_tag ev" using assms(2) mine_event_aborts [of ev d m] by auto
  with False assms(1) have full: "num_tags ev = MAX_TAGS" by (auto simp: mineable_def event_wf_def)
  have "find (\<lambda>i. is_nonce_tag (ev_tags ev ! i)) [0..<num_tags ev] = None"
    using nn by (auto simp: no_nonce_tag_def find_None_iff)
  then show ?thesis
    using assms(2) add_tag_n_full [OF full] full by (auto simp: mine_event_def ensure_nonce_tag_def Let_def)
qed

section \<open>Properties\<close>

text \<open>
  C7. Mining finds the first nonce: for an event with a free tag slot and no two-element nonce
  tag, if n is the first nonce for which the id of the event extended by the tag nonce, n,
  difficulty has as many leading zero bits as the difficulty (and the serialisations up to it
  fit the buffer), then mine_event returns, with success, exactly that event with that id.
\<close>

theorem mine_event_finds_first:
  assumes "mineable ev" "k < 2 ^ 64"
    and "\<forall>i \<le> k. length (commitment_text (with_nonce ev d (word_of_nat i))) < 102400"
    and "\<forall>i < k. int (count_leading_zero_bits (nonce_id ev d (word_of_nat i))) < d"
    and "d \<le> int (count_leading_zero_bits (nonce_id ev d (word_of_nat k)))"
  shows "\<exists>m'. mine_event ev d m = Some (Return (True,
      (with_nonce ev d (word_of_nat k))\<lparr>ev_id := nonce_id ev d (word_of_nat k)\<rparr>, m'))"
  using assms by (rule mine_event_first)

lemma sample_mineable: "mineable sample_event"
  using sample_event_wf by (simp add: mineable_def no_nonce_tag_def sample_event_def MAX_TAGS_def)

lemma sample_with_nonce: "length (commitment_text (with_nonce sample_event 0 0)) < 102400"
proof -
  let ?w = "with_nonce sample_event 0 0"
  obtain e where e: "\<And>n. event_tags (with_nonce sample_event 0 n) = event_tags sample_event
          @ [[Some nonce_str, Some (dec_nat (unat n)), Some (target_str 0)]]"
      "\<And>n. with_nonce sample_event 0 n = sample_event
          \<lparr>ev_tags := ev_tags (with_nonce sample_event 0 n), num_tags := num_tags sample_event + 1\<rparr>"
    using with_nonce_attempts [OF sample_mineable, of 0] by metis
  obtain X where X: "?w = sample_event\<lparr>ev_tags := X, num_tags := num_tags sample_event + 1\<rparr>"
    using e(2) by blast
  have zero: "dec_nat 0 = [0x30]" "target_str 0 = [0x30]"
    by (simp_all add: dec_nat.simps dec_int_def target_str_def snprintf_def)
  have "event_tags ?w = [[Some nonce_str, Some [0x30], Some [0x30]]]"
  proof -
    have "event_tags sample_event = []" by (simp add: event_tags_def sample_event_def)
    then show ?thesis using e(1) [of 0] by (simp add: zero)
  qed
  then have tags: "tags_json ?w = json_array (json_array json_opt) [[Some nonce_str, Some [0x30], Some [0x30]]]"
    by (simp add: tags_json_def X) (simp add: sample_event_def)
  have "length (tags_json ?w) < 100"
    unfolding tags by (simp add: json_array_def json_opt_def json_str_def escape_char_def nonce_str_def)
  moreover have "length (commitment_text ?w) < 200 + length (tags_json ?w)"
    unfolding commitment_text_def nip01_text_def
    by (simp add: X timebuf_text_def) (simp add: sample_event_def json_opt_def json_str_def escape_char_def
        dec_nat.simps dec_int_def cstr_def)
  ultimately show ?thesis by simp
qed

theorem mine_event_finds_first_witness:
  "\<exists>m'. mine_event sample_event 0 (\<lambda>_. 0) = Some (Return (True,
      (with_nonce sample_event 0 (word_of_nat 0))\<lparr>ev_id := nonce_id sample_event 0 (word_of_nat 0)\<rparr>, m'))"
  by (rule mine_event_finds_first [OF sample_mineable]) (simp_all add: sample_with_nonce)

text \<open>
  C29. What mining returns is a proof of work: if mine_event succeeds, the event is the given
  one with one tag more, (nonce, n, difficulty) for some n, its id is the SHA-256 of its own
  serialisation (NIP-01 for time stamps of at most 15 digits), and the id as a number is below
  2^(256 - difficulty).
\<close>

theorem mine_event_proof_of_work:
  assumes "mineable ev" "unat (ev_created_at ev) < 10 ^ 15" "0 \<le> d" "d \<le> 256"
    and "mine_event ev d m = Some (Return (True, ev', m'))"
  shows "ev_id ev' = fips_sha256 (nip01_serialization ev') \<and> be_value (ev_id ev') < 2 ^ (256 - nat d)
    \<and> (\<exists>n :: u64. event_tags ev' = event_tags ev @ [[Some nonce_str, Some (dec_nat (unat n)), Some (target_str d)]])
    \<and> ev' = ev\<lparr>ev_id := ev_id ev', ev_tags := ev_tags ev', num_tags := num_tags ev + 1\<rparr>"
proof -
  note M = mine_event_success [OF assms(1,5)]
  have "ev_created_at ev' = ev_created_at ev" by (subst M(5)) simp
  then have "commitment_text ev' = nip01_serialization ev'"
    using commitment_is_nip01 [of ev'] assms(2) by simp
  moreover have "be_value (ev_id ev') < 2 ^ (256 - nat d)"
  proof -
    have "length (ev_id ev') = 32" using M(1) by (simp add: length_fips_sha256)
    moreover have "nat d \<le> count_leading_zero_bits (ev_id ev')" using M(2) by simp
    ultimately show ?thesis
      using leading_zeros_ge_iff [of "nat d" "ev_id ev'"] assms(4)
      by (simp add: count_leading_zero_bits_def count_loop_leading_zeros)
  qed
  ultimately show ?thesis using M(1,4,5) by metis
qed

theorem mine_event_proof_of_work_witness:
  "\<exists>ev' m'. mine_event sample_event 0 (\<lambda>_. 0) = Some (Return (True, ev', m'))
     \<and> ev_id ev' = fips_sha256 (nip01_serialization ev')"
proof -
  obtain ev' m' where run: "mine_event sample_event 0 (\<lambda>_. 0) = Some (Return (True, ev', m'))"
    using mine_event_first [OF sample_mineable, of 0 0 "\<lambda>_. 0"] sample_with_nonce by auto
  have "unat (ev_created_at sample_event) < 10 ^ 15" by (simp add: sample_event_def)
  from mine_event_proof_of_work [OF sample_mineable this _ _ run] run show ?thesis by auto
qed

text \<open>
  An event that already has a two-element nonce tag cannot be mined: ensure_nonce_tag
  takes that tag, and the assertion that it has three elements fails.
\<close>

theorem mine_event_rejects_short_nonce:
  assumes "\<not> no_nonce_tag ev"
  shows "mine_event ev d m = Some Abort"
  using assms by (rule mine_event_aborts)

theorem mine_event_rejects_short_nonce_witness:
  "mine_event (snd (nostr_add_tag sample_event nonce_str (cstr ''7''))) 8 (\<lambda>_. 0) = Some Abort"
  by (rule mine_event_rejects_short_nonce)
    (auto simp: no_nonce_tag_def nostr_add_tag_def nostr_add_tag_n_def sample_event_def MAX_TAGS_def
      is_nonce_tag_def is_nonce_def strcmp_eq_def intro!: exI [of _ 0])

end
