(* ===== verification/Nostr_Dm.thy ===== *)
theory Nostr_Dm
  imports Nostr_Keys Aes Base64
begin

text \<open>
  Encrypted direct messages (NIP-04): \<open>aes_encrypt\<close>, \<open>copyx\<close> and \<open>make_encrypted_dm\<close> of
  \<open>src/src/nostril/nostri.c\<close>. The two heap buffers are memories of their own that start at
  address 0 and hold whatever \<open>heap\<close> says when they are allocated; a write behind the end of
  \<open>encbuf\<close> and an overflow of the signed length are the outcome \<open>Undefined\<close>. The strings that
  the event points to afterwards are read from the buffer.

  Shown: the padding and the chaining of \<open>aes_encrypt\<close>; the text of the message is the base64 of
  a ciphertext that decrypts to the padded content, then the base64 of the vector; the
  allocation of \<open>encbuf\<close> is too small for contents whose length is 0 to 7 modulo 16.
\<close>

section \<open>Operations\<close>

primrec pad_loop :: "nat \<Rightarrow> byte \<Rightarrow> cstate \<Rightarrow> bool \<times> cstate" where
  "pad_loop 0 padding = (\<lambda>s. (True, s))"
| "pad_loop (Suc i) padding = and_then (cursor_push_byte padding) (pad_loop i padding)"

text \<open>The context on the stack is uninitialised; both of its arrays are overwritten.\<close>

definition stack_ctx :: AES_ctx where
  "stack_ctx = \<lparr>RoundKey = replicate 240 0, Iv = replicate 16 0\<rparr>"

definition aes_encrypt :: "byte list \<Rightarrow> byte list \<Rightarrow> memory \<Rightarrow> addr \<Rightarrow> nat \<Rightarrow> (nat \<times> memory) run" where
  "aes_encrypt key iv m buf buflen =
     (let padding = 16 - buflen mod 16;
          cur = make_cursor buf (buf + int buflen + int padding);
          cur = cur\<lparr>cur_p := cur_p cur + int buflen\<rparr>
      in case pad_loop padding (word_of_nat padding) (m, cur) of (ok, m, cur) \<Rightarrow>
           if \<not> ok then Return (0, m)
           else if cur_p cur \<noteq> cur_end cur then Abort
           else if (cur_p cur - cur_start cur) mod 16 \<noteq> 0 then Abort
           else let ctx = AES_init_ctx_iv stack_ctx key iv;
                    n = nat (cur_p cur - cur_start cur);
                    (ctx, out) = AES_CBC_encrypt_buffer ctx (mem_read m (cur_start cur) n) n
                in Return (n, mem_write m (cur_start cur) out))"

text \<open>The hash function passed to the key agreement: the x coordinate as it is.\<close>

definition copyx :: "byte list \<Rightarrow> byte list \<Rightarrow> byte list option" where
  "copyx x32 y32 = Some (take 32 x32)"

definition encbuf_size :: "nat \<Rightarrow> nat" where
  "encbuf_size content_len = content_len + content_len mod 16 + 1"

text \<open>\<open>base64_encode(cur.p, cur.end - cur.p, src, srclen)\<close> and the advance of the cursor.\<close>

definition push_base64 :: "byte list \<Rightarrow> cstate \<Rightarrow> (bool \<times> cstate) run" where
  "push_base64 src s = (case s of (m, cur) \<Rightarrow>
     let destlen = nat (cur_end cur - cur_p cur)
     in case base64_encode (mem_read m (cur_p cur) destlen) destlen src of
          None \<Rightarrow> Abort
        | Some (Inl e, dest) \<Rightarrow> Return (False, mem_write m (cur_p cur) dest, cur)
        | Some (Inr n, dest) \<Rightarrow>
            Return (True, mem_write m (cur_p cur) dest, cur\<lparr>cur_p := cur_p cur + int n\<rparr>))"

text \<open>The text of the message, in the buffer of \<open>buflen\<close> bytes.\<close>

definition dm_text :: "byte list \<Rightarrow> byte list \<Rightarrow> cstate \<Rightarrow> (bool \<times> cstate) run" where
  "dm_text enc iv s =
     (case push_base64 enc s of
        Return (True, s) \<Rightarrow>
          (case cursor_push_str [0x3f, 0x69, 0x76, 0x3d] s of
             (True, s) \<Rightarrow>
               (case push_base64 iv s of
                  Return (True, s) \<Rightarrow> Return (cursor_push_byte 0 s)
                | r \<Rightarrow> r)
           | r \<Rightarrow> Return r)
      | r \<Rightarrow> r)"

definition dm_encrypt ::
    "byte list \<Rightarrow> byte list \<Rightarrow> nostr_event \<Rightarrow> byte list \<Rightarrow> byte list \<Rightarrow> int \<Rightarrow> memory
     \<Rightarrow> (bool \<times> nostr_event) run" where
  "dm_encrypt shared_secret iv ev content nostr_pubkey kind heap =
     (let inl = strlen content;
          buflen = (inl + 16) * 3 + 65 * 10;
          encbuf = mem_write heap 0 (c_str content)
      in if 2 ^ 31 \<le> buflen \<or> encbuf_size inl < inl + (16 - inl mod 16) then Undefined
         else case aes_encrypt shared_secret iv encbuf 0 inl of
           Abort \<Rightarrow> Abort
         | Undefined \<Rightarrow> Undefined
         | Return (enclen, encbuf) \<Rightarrow>
             if enclen = 0 then Return (False, ev)
             else case dm_text (mem_read encbuf 0 enclen) (take 16 iv) (heap, make_cursor 0 (int buflen)) of
               Abort \<Rightarrow> Abort
             | Undefined \<Rightarrow> Undefined
             | Return (ok, m, cur) \<Rightarrow>
                 if \<not> ok then Return (False, ev)
                 else let ev = ev\<lparr>ev_content := Some (c_str (mem_read m (cur_start cur) buflen)),
                                  ev_kind := kind\<rparr>;
                          destlen = nat (cur_end cur - cur_p cur)
                   in case hex_encode (take 32 nostr_pubkey) (mem_read m (cur_p cur) destlen) destlen of
                        None \<Rightarrow> Abort
                      | Some (ok, dest) \<Rightarrow>
                          if \<not> ok then Return (False, ev)
                          else Return (nostr_add_tag ev [0x70] (c_str dest)))"

definition make_encrypted_dm ::
    "('w, 'ctx, 'kp, 'xpk, 'pk) platform \<Rightarrow> 'ctx \<Rightarrow> 'kp key \<Rightarrow> nostr_event \<Rightarrow> byte list \<Rightarrow> int
     \<Rightarrow> memory \<Rightarrow> 'w \<Rightarrow> (bool \<times> nostr_event) run \<times> 'w" where
  "make_encrypted_dm P ctx key ev nostr_pubkey kind heap w =
     (case ev_content ev of
        None \<Rightarrow> (Undefined, w)
      | Some content \<Rightarrow>
          (let compressed_pubkey = 2 # take 32 nostr_pubkey
           in if \<not> ec_seckey_verify P ctx (secret key) then (Return (False, ev), w)
              else case ec_pubkey_parse P ctx compressed_pubkey of
                None \<Rightarrow> (Return (False, ev), w)
              | Some pk \<Rightarrow>
                  (case ecdh P ctx pk (secret key) copyx of
                     None \<Rightarrow> (Return (False, ev), w)
                   | Some shared_secret \<Rightarrow>
                       (case fill_random P (replicate 16 0) 16 w of (ok, iv, w) \<Rightarrow>
                          if \<not> ok then (Return (False, ev), w)
                          else (dm_encrypt shared_secret iv ev content nostr_pubkey kind heap, w)))))"

section \<open>Padding and chaining\<close>

text \<open>PKCS#7, as NIP-04 has it.\<close>

definition pkcs7 :: "byte list \<Rightarrow> byte list" where
  "pkcs7 p = p @ replicate (16 - length p mod 16) (word_of_nat (16 - length p mod 16))"

definition ciphertext :: "byte list \<Rightarrow> byte list \<Rightarrow> byte list \<Rightarrow> byte list" where
  "ciphertext key iv p =
     snd (AES_CBC_encrypt_buffer (AES_init_ctx_iv stack_ctx key iv) (pkcs7 p) (length (pkcs7 p)))"

lemma length_pkcs7: "length (pkcs7 p) = 16 * (length p div 16 + 1)"
  unfolding pkcs7_def length_append length_replicate by presburger

lemma blocks_of:
  "length xs = n * k \<Longrightarrow> \<exists>ps. list_all (\<lambda>p. length p = n) ps \<and> xs = concat ps \<and> length ps = k"
proof (induction k arbitrary: xs)
  case (Suc k)
  then obtain ps where "list_all (\<lambda>p. length p = n) ps" "drop n xs = concat ps" "length ps = k"
    by (metis add_diff_cancel_left' length_drop mult_Suc_right)
  with Suc.prems have "list_all (\<lambda>p. length p = n) (take n xs # ps)" "xs = concat (take n xs # ps)"
    by (simp_all add: min_def) (metis append_take_drop_id)
  with \<open>length ps = k\<close> show ?case by (metis length_Cons)
qed simp

lemma length_Iv_init: "length iv = 16 \<Longrightarrow> length (Iv (AES_init_ctx_iv stack_ctx key iv)) = 16"
  by (simp add: AES_init_ctx_iv_def stack_ctx_def AES_BLOCKLEN_def copy_at_def)

lemma ciphertext_blocks:
  assumes "length iv = 16"
  shows "length (ciphertext key iv p) = length (pkcs7 p)"
    and "snd (AES_CBC_decrypt_buffer (AES_init_ctx_iv stack_ctx key iv) (ciphertext key iv p)
           (length (pkcs7 p))) = pkcs7 p"
proof -
  let ?ctx = "AES_init_ctx_iv stack_ctx key iv"
  obtain ps where ps: "list_all (\<lambda>p. length p = 16) ps" "pkcs7 p = concat ps"
      "length ps = length p div 16 + 1"
    using blocks_of [OF length_pkcs7] by blast
  let ?cs = "cbc_enc (\<lambda>s. Cipher s (RoundKey ?ctx)) (Iv ?ctx) ps"
  note iv = length_Iv_init [OF assms, of key]
  have len: "length (pkcs7 p) = 16 * length ps" by (simp add: length_pkcs7 ps(3))
  have ct: "ciphertext key iv p = concat ?cs"
    using cbc_encrypt_blocks [OF iv ps(1), of "[]"]
    unfolding ciphertext_def len unfolding ps(2) by (simp add: Let_def)
  show "length (ciphertext key iv p) = length (pkcs7 p)"
    using length_concat_same [OF aes.length_cbc_enc [OF iv ps(1)]] by (simp add: ct len length_cbc)
  show "snd (AES_CBC_decrypt_buffer ?ctx (ciphertext key iv p) (length (pkcs7 p))) = pkcs7 p"
    using cbc_decrypt_blocks [OF iv ps(1) refl, of "[]"] unfolding ct len unfolding ps(2) by simp
qed

lemma emits_pad_loop: "sink.emits (pad_loop n b) (replicate n b) n"
proof (induction n)
  case (Suc n)
  then show ?case using sink.emits_and_then [OF sink.emits_byte Suc.IH, of b] by simp
qed (simp add: sink.emits_skip)

lemma aes_encrypt_exact:
  assumes "mem_read m buf (length p) = p" "length iv = 16"
  shows "\<exists>m'. aes_encrypt key iv m buf (length p) = Return (length (pkcs7 p), m')
    \<and> mem_read m' buf (length (pkcs7 p)) = ciphertext key iv p
    \<and> (\<forall>x. x < buf \<or> buf + int (length (pkcs7 p)) \<le> x \<longrightarrow> m' x = m x)"
proof -
  define padding where "padding = 16 - length p mod 16"
  define cur where "cur = (make_cursor buf (buf + int (length p) + int padding))
    \<lparr>cur_p := buf + int (length p)\<rparr>"
  let ?b = "word_of_nat padding :: byte"
  have pk: "pkcs7 p = p @ replicate padding ?b" by (simp only: pkcs7_def padding_def)
  then have n: "length (pkcs7 p) = length p + padding" by simp
  have s: "cursor_ok (m, cur)" "cursor_room (m, cur) = padding" "cursor_contents (m, cur) = p"
    using assms(1) by (simp_all add: cur_def make_cursor_def cursor_spec_defs)
  obtain ok m1 cur1 where run: "pad_loop padding ?b (m, cur) = (ok, m1, cur1)"
    by (metis prod.collapse)
  note D = sink.emitsD [OF emits_pad_loop s(1), of padding ?b, unfolded run s(2,3) fst_conv snd_conv]
  have cur1: "cur_start cur1 = buf" "cur_end cur1 = buf + int (length (pkcs7 p))"
      and frame: "\<And>x. x < buf \<or> buf + int (length (pkcs7 p)) \<le> x \<Longrightarrow> m1 x = m x"
    using D(5) by (auto simp: cursor_frame_def cur_def make_cursor_def n)
  have p1: "cur_p cur1 = cur_end cur1"
    using D(3,4) by (simp add: cursor_spec_defs)
  have "mem_read m1 buf (length (pkcs7 p)) = pkcs7 p"
    using D(2) p1 cur1 by (simp add: cursor_spec_defs pk nat_add_distrib)
  moreover have "int (length (pkcs7 p)) mod 16 = 0" by (simp add: length_pkcs7)
  moreover have "aes_encrypt key iv m buf (length p) = (if \<not> ok then Return (0, m1)
      else if cur_p cur1 \<noteq> cur_end cur1 then Abort
      else if (cur_p cur1 - cur_start cur1) mod 16 \<noteq> 0 then Abort
      else let n = nat (cur_p cur1 - cur_start cur1) in
        Return (n, mem_write m1 (cur_start cur1) (snd (AES_CBC_encrypt_buffer
          (AES_init_ctx_iv stack_ctx key iv) (mem_read m1 (cur_start cur1) n) n))))"
    using run by (simp add: aes_encrypt_def Let_def padding_def cur_def make_cursor_def split_beta)
  ultimately have "aes_encrypt key iv m buf (length p) =
      Return (length (pkcs7 p), mem_write m1 buf (ciphertext key iv p))"
    using D(1) p1 cur1 by (simp add: ciphertext_def Let_def)
  then show ?thesis
    using frame ciphertext_blocks(1) [OF assms(2), of key p] by (auto simp: mem_write_apply)
      (metis mem_read_write_same)
qed

section \<open>The text of the message\<close>

definition b64 :: "byte list \<Rightarrow> byte list" where
  "b64 = b64_text (encode_map base64_maps_rfc4648)"

definition nip04_text :: "byte list \<Rightarrow> byte list \<Rightarrow> byte list" where
  "nip04_text enc iv = b64 enc @ [0x3f, 0x69, 0x76, 0x3d] @ b64 iv"

lemma length_b64: "length (b64 bs) = base64_encoded_length (length bs)"
  by (simp add: b64_def length_b64_text)

lemma b64_no_nul: "0 \<notin> set (b64 bs)"
proof -
  have "list_all (\<lambda>c. c \<noteq> 0) (encode_map base64_maps_rfc4648)"
    unfolding base64_maps_rfc4648_def cstr_def by simp
  then have "b64_digit (encode_map base64_maps_rfc4648) g k \<noteq> 0" for g k
    using sixbit_bound [of "drop_bit (18 - 6 * k) g"] rfc4648.length_encode_map
    by (simp add: b64_digit_def list_all_length)
  then show ?thesis
    unfolding b64_def by (induction "encode_map base64_maps_rfc4648" bs rule: b64_text.induct) auto
qed

lemma push_base64_ok:
  assumes "cursor_ok s" "base64_encoded_length (length src) \<le> cursor_room s"
  shows "\<exists>s'. push_base64 src s = Return (True, s') \<and> cursor_ok s' \<and> cursor_frame s s'
    \<and> cursor_contents s' = cursor_contents s @ b64 src
    \<and> cursor_room s' + length (b64 src) = cursor_room s"
proof -
  obtain m cur where s: "s = (m, cur)" by (cases s)
  define room where "room = nat (cur_end cur - cur_p cur)"
  define k where "k = length (b64 src)"
  define zs :: "byte list" where "zs = replicate (room - k) 0"
  define m' where "m' = mem_write m (cur_p cur) (b64 src @ zs)"
  define n where "n = nat (cur_p cur - cur_start cur)"
  have room: "cursor_room s = room" by (simp add: s cursor_spec_defs room_def)
  have k: "k \<le> room" "base64_encoded_length (length src) = k"
    using assms(2) room by (simp_all add: k_def length_b64)
  have p: "cur_p cur = cur_start cur + int n" using assms(1) by (simp add: n_def s cursor_ok_def)
  have enc: "push_base64 src s = Return (True, m', cur\<lparr>cur_p := cur_p cur + int k\<rparr>)"
    using rfc4648.encode_using_maps [of src room "mem_read m (cur_p cur) room"] k
    by (simp add: push_base64_def base64_encode_def s m'_def zs_def Let_def flip: room_def b64_def)
  have "mem_read m' (cur_start cur) (n + k) = mem_read m (cur_start cur) n @ b64 src"
    by (simp add: m'_def p mem_read_append mem_read_write_before k_def)
      (rule nth_equalityI; simp add: mem_write_apply nth_append)
  moreover have "m' x = m x" if "x < cur_start cur \<or> cur_end cur \<le> x" for x
    using that assms(1) k by (auto simp: m'_def mem_write_apply zs_def s cursor_ok_def room_def k_def [symmetric])
  moreover have "nat (int n + int k) = n + k" by simp
  ultimately show ?thesis
    using enc assms(1) k p
    by (intro exI [of _ "(m', cur\<lparr>cur_p := cur_p cur + int k\<rparr>)"])
      (auto simp: s cursor_spec_defs room_def k_def [symmetric])
qed

lemma dm_text_exact:
  assumes "cursor_ok s" "length (nip04_text enc iv) + 1 \<le> cursor_room s"
  shows "\<exists>s'. dm_text enc iv s = Return (True, s') \<and> cursor_ok s' \<and> cursor_frame s s'
    \<and> cursor_contents s' = cursor_contents s @ nip04_text enc iv @ [0]
    \<and> cursor_room s' + length (nip04_text enc iv) + 1 = cursor_room s"
proof -
  have room: "length (b64 enc) + 4 + length (b64 iv) + 1 \<le> cursor_room s"
    using assms(2) by (simp add: nip04_text_def)
  obtain s1 where s1: "push_base64 enc s = Return (True, s1)" "cursor_ok s1" "cursor_frame s s1"
      "cursor_contents s1 = cursor_contents s @ b64 enc" "cursor_room s1 + length (b64 enc) = cursor_room s"
    using push_base64_ok [OF assms(1), of enc] room by (auto simp: length_b64)
  let ?iv = "[0x3f, 0x69, 0x76, 0x3d] :: byte list"
  have "length ?iv + 1 \<le> cursor_room s1" using s1(5) room by simp
  from sink.push_bytes_ok [OF s1(2) this]
  obtain s2 where s2: "cursor_push_str ?iv s1 = (True, s2)" "cursor_ok s2" "cursor_frame s1 s2"
      "cursor_contents s2 = cursor_contents s1 @ ?iv" "cursor_room s2 + 4 = cursor_room s1"
    by (auto simp: cursor_push_str_def)
  have "base64_encoded_length (length iv) \<le> cursor_room s2"
    using s1(5) s2(5) room by (simp add: length_b64)
  from push_base64_ok [OF s2(2) this]
  obtain s3 where s3: "push_base64 iv s2 = Return (True, s3)" "cursor_ok s3" "cursor_frame s2 s3"
      "cursor_contents s3 = cursor_contents s2 @ b64 iv" "cursor_room s3 + length (b64 iv) = cursor_room s2"
    by auto
  have "1 \<le> cursor_room s3" using s1(5) s2(5) s3(5) room by simp
  from sink.push_byte_ok [OF s3(2) this, of 0]
  obtain s4 where s4: "cursor_push_byte 0 s3 = (True, s4)" "cursor_ok s4" "cursor_frame s3 s4"
      "cursor_contents s4 = cursor_contents s3 @ [0]" "cursor_room s4 + 1 = cursor_room s3"
    by auto
  have "cursor_frame s s4"
    using s1(3) s2(3) s3(3) s4(3) by (blast intro: sink.frame_trans)
  moreover have "dm_text enc iv s = Return (True, s4)"
    using s1(1) s2(1) s3(1) s4(1) by (simp add: dm_text_def)
  moreover have "cursor_contents s4 = cursor_contents s @ nip04_text enc iv @ [0]"
    using s1(4) s2(4) s3(4) s4(4) by (simp add: nip04_text_def)
  moreover have "cursor_room s4 + length (nip04_text enc iv) + 1 = cursor_room s"
    using s1(5) s2(5) s3(5) s4(5) by (simp add: nip04_text_def)
  ultimately show ?thesis using s4(2) by blast
qed

lemma encbuf_size_enough: "inl + (16 - inl mod 16) \<le> encbuf_size inl \<longleftrightarrow> 8 \<le> inl mod 16"
proof -
  have "inl mod 16 < 16" by simp
  then show ?thesis unfolding encbuf_size_def by linarith
qed

lemma c_str_prefix: "0 \<notin> set xs \<Longrightarrow> n \<ge> length xs + 1 \<Longrightarrow> mem_read m a (length xs + 1) = xs @ [0] \<Longrightarrow>
    c_str (mem_read m a n) = xs"
proof -
  assume *: "0 \<notin> set xs" "n \<ge> length xs + 1" "mem_read m a (length xs + 1) = xs @ [0]"
  have "mem_read m a n = (xs @ [0]) @ mem_read m (a + int (length xs + 1)) (n - (length xs + 1))"
    using *(2,3) mem_read_append [of m a "length xs + 1" "n - (length xs + 1)"] by simp
  with *(1) show ?thesis by simp
qed

text \<open>The last steps of the message, from the cursor behind its NUL.\<close>

lemma hex_encode_text:
  assumes "2 * length bs + 1 \<le> length dest"
  shows "\<exists>dest'. hex_encode bs dest (length dest) = Some (True, dest') \<and> c_str dest' = hex_text bs"
  using assms hex_encode_loop_spec [of 0 bs dest] hex_text_no_nul [of bs]
  by (auto simp: hex_encode_def hex_str_size_def copy_at_def c_str_append_nul)

lemma dm_encrypt_exact:
  fixes content :: "byte list"
  defines "p \<equiv> c_str content"
  assumes "8 \<le> length p mod 16" "length p < 2 ^ 29" "length iv = 16" "length nostr_pubkey = 32"
  shows "dm_encrypt shared iv ev content nostr_pubkey kind heap = Return (nostr_add_tag
      (ev\<lparr>ev_content := Some (nip04_text (ciphertext shared iv p) iv), ev_kind := kind\<rparr>)
      [0x70] (hex_text nostr_pubkey))"
proof -
  define buflen where "buflen = (length p + 16) * 3 + 65 * 10"
  let ?ct = "ciphertext shared iv p" and ?s = "(heap, make_cursor 0 (int buflen))"
  let ?t = "nip04_text ?ct iv"
  obtain e where e: "aes_encrypt shared iv (mem_write heap 0 p) 0 (length p) = Return (length (pkcs7 p), e)"
      "mem_read e 0 (length (pkcs7 p)) = ?ct"
    using aes_encrypt_exact [of "mem_write heap 0 p" 0 p iv shared] assms(4) by auto
  have len: "length ?t + 66 \<le> buflen"
    using ciphertext_blocks(1) [OF assms(4), of shared p]
    by (simp add: nip04_text_def length_b64 base64_encoded_length_def length_pkcs7 assms(4) buflen_def)
  have s: "cursor_ok ?s" "cursor_room ?s = buflen" "cursor_contents ?s = []"
    by (simp_all add: make_cursor_def cursor_spec_defs)
  obtain m cur where dm: "dm_text ?ct iv ?s = Return (True, m, cur)" "cursor_ok (m, cur)"
      "cursor_frame ?s (m, cur)" "cursor_contents (m, cur) = ?t @ [0]"
      "cursor_room (m, cur) + length ?t + 1 = buflen"
    using dm_text_exact [OF s(1), of ?ct iv] s len by auto
  have cur: "cur_start cur = 0" "cur_end cur = int buflen" "cur_p cur = int (length ?t + 1)"
    using dm(2,3,5) by (auto simp: cursor_frame_def make_cursor_def cursor_spec_defs)
  have "mem_read m 0 (length ?t + 1) = ?t @ [0]"
    using dm(4) cur by (simp only: cursor_contents_def cursor_len_def prod.case diff_zero nat_int)
  then have content: "c_str (mem_read m 0 buflen) = ?t"
    using len b64_no_nul by (intro c_str_prefix) (auto simp: nip04_text_def)
  define room where "room = nat (cur_end cur - cur_p cur)"
  have "65 \<le> room" using cur len by (simp add: room_def)
  then obtain dest where dest: "hex_encode nostr_pubkey (mem_read m (cur_p cur) room) room = Some (True, dest)"
      "c_str dest = hex_text nostr_pubkey"
    using hex_encode_text [of nostr_pubkey "mem_read m (cur_p cur) room"] assms(5) by auto
  have inl: "strlen content = length p" by (simp add: p_def strlen_def)
  have "buflen < 2 ^ 31" using assms(3) by (simp add: buflen_def)
  moreover have "\<not> encbuf_size (length p) < length p + (16 - length p mod 16)"
    using assms(2) encbuf_size_enough [of "length p"] by simp
  moreover have "length (pkcs7 p) \<noteq> 0" by (simp add: length_pkcs7)
  ultimately show ?thesis
    unfolding dm_encrypt_def Let_def inl p_def [symmetric] buflen_def [symmetric]
    using e dm(1) dest content cur(1) assms(4,5) by (simp flip: room_def)
qed

section \<open>Properties\<close>

text \<open>
  C26. An encrypted message is NIP-04: for a content whose length is 8 to 15 modulo 16, when the
  library and the random source do their part, make_encrypted_dm replaces the content by
  base64(c) ?iv= base64(v), where v are the random bytes and c decrypts, with the shared secret
  and v, to the content with its PKCS#7 padding; it sets the kind and adds the tag p with the hex
  public key of the receiver, and keeps the event well-formed. Nothing else of the event changes
  and the bytes that the allocated memory held before do not matter.
\<close>

theorem make_encrypted_dm_nip04:
  assumes "event_wf ev" "num_tags ev < MAX_TAGS" "ev_content ev = Some content"
    and "8 \<le> strlen content mod 16" "strlen content < 2 ^ 29" "length nostr_pubkey = 32"
    and "ec_seckey_verify P ctx (secret key)" "ec_pubkey_parse P ctx (2 # nostr_pubkey) = Some pk"
    and "ecdh P ctx pk (secret key) copyx = Some shared"
    and "getrandom P 16 w = ((16, iv), w')" "length iv = 16" "- (2 ^ 31) \<le> kind" "kind < 2 ^ 31"
  shows "\<exists>ct ev'. make_encrypted_dm P ctx key ev nostr_pubkey kind heap w = (Return (True, ev'), w')
    \<and> ev_content ev' = Some (nip04_text ct iv)
    \<and> snd (AES_CBC_decrypt_buffer (AES_init_ctx_iv stack_ctx shared iv) ct (length ct)) = pkcs7 (c_str content)
    \<and> event_tags ev' = event_tags ev @ [[Some [0x70], Some (hex_text nostr_pubkey)]] \<and> event_wf ev'
    \<and> ev' = ev\<lparr>ev_content := ev_content ev', ev_kind := kind, ev_tags := ev_tags ev', num_tags := num_tags ev + 1\<rparr>"
proof -
  let ?p = "c_str content"
  let ?ct = "ciphertext shared iv ?p"
  let ?ev = "ev\<lparr>ev_content := Some (nip04_text ?ct iv), ev_kind := kind\<rparr>"
  have "event_wf ?ev" using assms(1,12,13) by (simp add: event_wf_def)
  then obtain ev' where ev': "nostr_add_tag ?ev [0x70] (hex_text nostr_pubkey) = (True, ev')" "event_wf ev'"
      "event_tags ev' = event_tags ?ev @ [[Some [0x70], Some (hex_text nostr_pubkey)]]"
      "ev' = ?ev\<lparr>ev_tags := ev_tags ev', num_tags := num_tags ?ev + 1\<rparr>"
    using assms(2) add_tag_n_ok [of ?ev "[Some [0x70], Some (hex_text nostr_pubkey)]"]
    by (auto simp: nostr_add_tag_def MAX_TAG_ELEMS_def)
  have "dm_encrypt shared iv ev content nostr_pubkey kind heap = Return (True, ev')"
    using dm_encrypt_exact [of content iv nostr_pubkey shared ev kind heap] assms(4-6,11) ev'(1)
    by (simp add: strlen_def)
  then have "make_encrypted_dm P ctx key ev nostr_pubkey kind heap w = (Return (True, ev'), w')"
    using assms by (simp add: make_encrypted_dm_def fill_random_def copy_at_def)
  moreover have c: "ev_content ev' = Some (nip04_text ?ct iv)" by (subst ev'(4)) simp
  moreover have "event_tags ?ev = event_tags ev" by (simp add: event_tags_def)
  moreover have "ev' = ev\<lparr>ev_content := ev_content ev', ev_kind := kind, ev_tags := ev_tags ev',
      num_tags := num_tags ev + 1\<rparr>"
    unfolding c using ev'(4) by simp
  ultimately show ?thesis
    using ev'(2,3) ciphertext_blocks [OF assms(11), of shared ?p]
    by (intro exI [of _ ?ct] exI [of _ ev'] conjI) simp_all
qed

theorem make_encrypted_dm_nip04_witness:
  "\<exists>ct ev'. make_encrypted_dm toy_platform () \<lparr>pair = None, secret = replicate 32 1, pubkey = []\<rparr>
      (sample_event\<lparr>ev_content := Some (cstr ''see you!'')\<rparr>) (replicate 32 2) 4 (\<lambda>_. 0) 9 = (Return (True, ev'), 10)
    \<and> ev_content ev' = Some (nip04_text ct (replicate 16 9))"
proof -
  let ?ev = "sample_event\<lparr>ev_content := Some (cstr ''see you!'')\<rparr>"
  have wf: "event_wf ?ev" using sample_event_wf by (simp add: event_wf_def)
  have "strlen (cstr ''see you!'') = 8" by (simp add: strlen_def cstr_def c_str_def)
  then show ?thesis
    using make_encrypted_dm_nip04 [OF wf, of "cstr ''see you!''" "replicate 32 2" toy_platform "()"
        "\<lparr>pair = None, secret = replicate 32 1, pubkey = []\<rparr>" "replicate 32 2" "replicate 32 3" 9
        "replicate 16 9" 10 4 "\<lambda>_. 0"]
    by (simp add: toy_platform_def sample_event_def MAX_TAGS_def copyx_def) blast
qed

text \<open>
  C37. The buffer for the ciphertext is too small: it has inl + inl mod 16 + 1 bytes for inl
  bytes of content and 16 - inl mod 16 bytes of padding, so that for every content whose length
  is 0 to 7 modulo 16 the padding is written behind its end.
\<close>

theorem make_encrypted_dm_overflows:
  assumes "ev_content ev = Some content" "strlen content mod 16 \<le> 7" "length nostr_pubkey = 32"
    and "ec_seckey_verify P ctx (secret key)" "ec_pubkey_parse P ctx (2 # nostr_pubkey) = Some pk"
    and "ecdh P ctx pk (secret key) copyx = Some shared"
    and "getrandom P 16 w = ((16, iv), w')"
  shows "make_encrypted_dm P ctx key ev nostr_pubkey kind heap w = (Undefined, w')"
  using assms encbuf_size_enough [of "strlen content"]
  by (simp add: make_encrypted_dm_def fill_random_def dm_encrypt_def Let_def)

theorem make_encrypted_dm_overflows_witness:
  "make_encrypted_dm toy_platform () \<lparr>pair = None, secret = replicate 32 1, pubkey = []\<rparr>
     sample_event (replicate 32 2) 4 (\<lambda>_. 0) 9 = (Undefined, 10)"
  by (rule make_encrypted_dm_overflows [of sample_event "cstr ''hi''" "replicate 32 2" toy_platform "()" _
        "replicate 32 2" "replicate 32 3" 9 "replicate 16 9"])
    (simp_all add: toy_platform_def sample_event_def copyx_def strlen_def cstr_def c_str_def)

end
