(* ===== verification/Nostr_Message.thy ===== *)
theory Nostr_Message
  imports Nostr_Dm Nostr_Mining
begin

text \<open>
  The finished message: \<open>print_event\<close> and \<open>make_message\<close> of \<open>src/src/nostril/nostri.c\<close>, which
  puts the components together: context, key, optional encryption, id or proof of work,
  signature and the JSON text. All memory that the calls allocate or find uninitialised is one
  arbitrary memory \<open>m\<close>. \<open>None\<close> is a run that does not end (the two mining loops); \<open>Undefined\<close> is
  a write behind the end of one of the character arrays.

  Shown: the text that \<open>print_event\<close> writes, against the members of the object that is meant, and for which tags and contents its array of 1024
  bytes overflows; a message that \<open>make_message\<close> returns carries the public key of its secret
  key, an id that is the hash of its own serialisation and a signature of that id; which result
  code \<open>make_message\<close> returns and why.
\<close>

section \<open>Printing\<close>

text \<open>\<open>sprintf(str, ...)\<close> with \<open>char str[1024]\<close>, then \<open>strcat(out, str)\<close> with \<open>char out[102400]\<close>.\<close>

definition out_add :: "byte list \<Rightarrow> byte list \<Rightarrow> byte list run" where
  "out_add piece out =
     (if 1024 < length piece + 1 then Undefined
      else if 102400 < length out + length (c_str piece) + 1 then Undefined
      else Return (out @ c_str piece))"

primrec out_adds :: "byte list list \<Rightarrow> byte list \<Rightarrow> byte list run" where
  "out_adds [] out = Return out"
| "out_adds (piece # pieces) out = bind_run (out_add piece out) (out_adds pieces)"

text \<open>\<open>%.*s\<close>: at most the given number of bytes, up to a NUL.\<close>

definition precision_str :: "int \<Rightarrow> memory \<Rightarrow> addr \<Rightarrow> byte list" where
  "precision_str n m a = c_str (mem_read m a (nat n))"

definition print_head :: "byte list \<Rightarrow> byte list \<Rightarrow> nostr_event \<Rightarrow> byte list \<Rightarrow> byte list list" where
  "print_head id_text pubkey_text ev tags_text =
     [cstr ''[\"EVENT\",'',
      cstr ''{\"id\": \"'' @ c_str id_text @ cstr ''\",'',
      cstr ''\"pubkey\": \"'' @ c_str pubkey_text @ cstr ''\",'',
      cstr ''\"created_at\": '' @ dec_nat (unat (ev_created_at ev)) @ cstr '','',
      cstr ''\"kind\": '' @ dec_int (ev_kind ev) @ cstr '','',
      cstr ''\"tags\": '' @ tags_text @ cstr '','']"

definition print_tail :: "byte list \<Rightarrow> byte list \<Rightarrow> byte list list" where
  "print_tail content_text sig_text =
     [cstr ''\"content\": '' @ content_text @ cstr '','',
      cstr ''\"sig\": \"'' @ c_str sig_text @ cstr ''\"}'',
      cstr '']'' @ [0x0a]]"

text \<open>
  \<open>jsonlen\<close> is the size of the array that \<open>*json\<close> points to. \<open>Return None\<close> is the result 0,
  \<open>Return (Some text)\<close> the result 1 with the text copied there.
\<close>

definition print_event :: "nostr_event \<Rightarrow> nat \<Rightarrow> memory \<Rightarrow> byte list option run" where
  "print_event ev jsonlen buf =
     (case (hex_encode (ev_id ev) (replicate 65 0) 65, hex_encode (ev_pubkey ev) (replicate 65 0) 65,
            hex_encode (ev_sig ev) (replicate 129 0) 129) of
        (Some (True, id_text), Some (True, pubkey_text), Some (True, sig_text)) \<Rightarrow>
          (case cursor_push_tags ev (buf, make_cursor 0 102400) of (ok, m, cur) \<Rightarrow>
             if \<not> ok then Return None
             else bind_run
               (out_adds (print_head id_text pubkey_text ev
                  (precision_str (cursor_len cur) m (cur_start cur))) [])
               (\<lambda>out. case cursor_push_jsonstr (ev_content ev) (m, reset_cursor cur) of (ok, m, cur) \<Rightarrow>
                  if \<not> ok then Return None
                  else bind_run
                    (out_adds (print_tail (precision_str (cursor_len cur) m (cur_start cur)) sig_text) out)
                    (\<lambda>out. if jsonlen < length out + 1 then Undefined else Return (Some out))))
      | _ \<Rightarrow> Abort)"

section \<open>The text of an event\<close>

text \<open>
  The message that is meant: an array of the word EVENT and an object with seven members, whose
  names and values are given here without the printing code. A line feed ends it.
\<close>

definition quoted :: "byte list \<Rightarrow> byte list" where
  "quoted s = [0x22] @ s @ [0x22]"

definition event_members :: "nostr_event \<Rightarrow> (string \<times> byte list) list" where
  "event_members ev =
     [(''id'', quoted (hex_text (ev_id ev))),
      (''pubkey'', quoted (hex_text (ev_pubkey ev))),
      (''created_at'', dec_nat (unat (ev_created_at ev))),
      (''kind'', dec_int (ev_kind ev)),
      (''tags'', tags_json ev),
      (''content'', json_opt (ev_content ev)),
      (''sig'', quoted (hex_text (ev_sig ev)))]"

definition event_json :: "nostr_event \<Rightarrow> byte list" where
  "event_json ev =
     [0x5b] @ quoted (cstr ''EVENT'') @ [0x2c]
     @ [0x7b] @ joined (\<lambda>(name, v). quoted (cstr name) @ [0x3a, 0x20] @ v) (event_members ev) @ [0x7d]
     @ [0x5d, 0x0a]"

text \<open>What the code prints for this event, piece by piece.\<close>

definition event_pieces :: "nostr_event \<Rightarrow> byte list list" where
  "event_pieces ev = print_head (hex_text (ev_id ev)) (hex_text (ev_pubkey ev)) ev (tags_json ev)
     @ print_tail (json_opt (ev_content ev)) (hex_text (ev_sig ev))"

lemma event_json_pieces: "event_json ev = concat (event_pieces ev)"
  by (simp add: event_json_def event_members_def quoted_def event_pieces_def print_head_def print_tail_def cstr_def)

definition printable :: "nostr_event \<Rightarrow> bool" where
  "printable ev \<longleftrightarrow> event_wf ev \<and> length (ev_id ev) = 32 \<and> length (ev_sig ev) = 64"

lemma out_adds_fit:
  assumes "list_all (\<lambda>p. length p < 1024 \<and> 0 \<notin> set p) pieces"
    and "length out + length (concat pieces) < 102400"
  shows "out_adds pieces out = Return (out @ concat pieces)"
  using assms by (induction pieces arbitrary: out) (simp_all add: out_add_def)

lemma out_adds_long:
  assumes "p \<in> set pieces" "1024 \<le> length p"
  shows "out_adds pieces out = Undefined"
  using assms by (induction pieces arbitrary: out) (auto simp: out_add_def)

lemma escape_char_no_nul: "c \<noteq> 0 \<Longrightarrow> 0 \<notin> set (escape_char c)"
  by (simp add: escape_char_def)

lemma json_opt_no_nul: "0 \<notin> set (json_opt s)"
proof (cases s)
  case (Some x)
  have "0 \<notin> set (escape_char c)" if "c \<in> set (c_str x)" for c
    using that escape_char_no_nul [of c] zero_notin_c_str [of x] by metis
  with Some show ?thesis by (auto simp: json_opt_def json_str_def)
qed (simp add: json_opt_def)

lemma joined_no_nul: "(\<And>x. x \<in> set xs \<Longrightarrow> 0 \<notin> set (f x)) \<Longrightarrow> 0 \<notin> set (joined f xs)"
  by (induction f xs rule: joined.induct) auto

lemma tags_json_no_nul: "0 \<notin> set (tags_json ev)"
  using zero_notin_c_str by (auto simp: tags_json_def json_array_def split: option.split
      dest!: joined_no_nul [THEN notE, rotated] simp: json_opt_no_nul)

text \<open>One of the two pushes on the buffer of \<open>print_event\<close>, and the \<open>%.*s\<close> that reads it back.\<close>

lemma pushed_text:
  assumes "sink.writes f w" "0 \<notin> set w" "f (m, make_cursor 0 102400) = (ok, m', cur')"
  shows "length w < 102400 \<Longrightarrow> ok" and "ok \<Longrightarrow> precision_str (cursor_len cur') m' (cur_start cur') = w"
    and "reset_cursor cur' = make_cursor 0 102400"
proof -
  obtain n where n: "n \<le> length w + 1" "sink.emits f w n" using assms(1) by (auto simp: sink.writes_def)
  have run: "f (m, make_cursor 0 (0 + 102400)) = (ok, m', cur')" using assms(3) by simp
  note D = emits_from_start [OF n(2) _ run]
  show "length w < 102400 \<Longrightarrow> ok" using D(1) n(1) by simp
  show "reset_cursor cur' = make_cursor 0 102400" using D(2,3) by (simp add: reset_cursor_def make_cursor_def)
  assume ok
  then have "cursor_len cur' = int (length w)" using D(2,4) by (simp add: cursor_len_def)
  with \<open>ok\<close> show "precision_str (cursor_len cur') m' (cur_start cur') = w"
    using D(2,5) assms(2) by (simp add: precision_str_def)
qed

lemma hex_encode_array:
  assumes "k = 2 * length bs + 1"
  shows "hex_encode bs (replicate k 0) k = Some (True, hex_text bs @ [0])"
  using hex_encode_loop_spec [of 0 bs "replicate k 0"] assms by (simp add: hex_encode_def hex_str_size_def)

definition print_text :: "nostr_event \<Rightarrow> nat \<Rightarrow> byte list option run" where
  "print_text ev jsonlen =
     bind_run (out_adds (event_pieces ev) [])
       (\<lambda>out. if jsonlen < length out + 1 then Undefined else Return (Some out))"

lemma out_adds_append: "out_adds (ps @ qs) out = bind_run (out_adds ps out) (out_adds qs)"
proof (induction ps arbitrary: out)
  case (Cons p ps)
  then show ?case by (cases "out_add p out") simp_all
qed simp

lemma print_head_nul: "print_head (hex_text a @ [0]) (hex_text b @ [0]) ev s = print_head (hex_text a) (hex_text b) ev s"
  by (simp add: print_head_def)

lemma print_tail_nul: "print_tail s (hex_text a @ [0]) = print_tail s (hex_text a)"
  by (simp add: print_tail_def)

lemma print_event_text:
  assumes "printable ev"
  shows "print_event ev jsonlen m = print_text ev jsonlen
    \<or> print_event ev jsonlen m \<in> {Undefined, Return None}
      \<and> (102400 \<le> length (tags_json ev) \<or> 102400 \<le> length (json_opt (ev_content ev)))"
proof -
  have wf: "event_wf ev" using assms(1) by (simp add: printable_def)
  obtain ok1 m1 cur1 where 1: "cursor_push_tags ev (m, make_cursor 0 102400) = (ok1, m1, cur1)"
    by (metis prod.collapse)
  note T = pushed_text [OF writes_tags [OF wf] tags_json_no_nul 1]
  obtain ok2 m2 cur2 where 2: "cursor_push_jsonstr (ev_content ev) (m1, make_cursor 0 102400) = (ok2, m2, cur2)"
    by (metis prod.collapse)
  note C = pushed_text [OF writes_jsonstr json_opt_no_nul 2]
  have "length (ev_pubkey ev) = 32" using wf by (simp add: event_wf_def)
  then have "hex_encode (ev_id ev) (replicate 65 0) 65 = Some (True, hex_text (ev_id ev) @ [0])"
    "hex_encode (ev_pubkey ev) (replicate 65 0) 65 = Some (True, hex_text (ev_pubkey ev) @ [0])"
    "hex_encode (ev_sig ev) (replicate 129 0) 129 = Some (True, hex_text (ev_sig ev) @ [0])"
    using assms(1) by (simp_all add: printable_def hex_encode_array)
  then have body: "print_event ev jsonlen m = (if \<not> ok1 then Return None
      else bind_run (out_adds (print_head (hex_text (ev_id ev)) (hex_text (ev_pubkey ev)) ev (tags_json ev)) [])
        (\<lambda>out. if \<not> ok2 then Return None
          else bind_run (out_adds (print_tail (json_opt (ev_content ev)) (hex_text (ev_sig ev))) out)
            (\<lambda>out. if jsonlen < length out + 1 then Undefined else Return (Some out))))"
    using 1 2 T C by (cases ok2) (simp_all add: print_event_def print_head_nul print_tail_nul)
  show ?thesis
  proof (cases "ok1 \<and> ok2")
    case True
    then show ?thesis
      using body by (simp add: print_text_def event_pieces_def out_adds_append bind_run_assoc)
  next
    case False
    then have "102400 \<le> length (tags_json ev) \<or> 102400 \<le> length (json_opt (ev_content ev))"
      using T(1) C(1) by linarith
    moreover have "out_adds ps out \<noteq> Abort" for ps out
      by (induction ps arbitrary: out) (auto simp: out_add_def)
    ultimately show ?thesis
      using False body
      by (cases "out_adds (print_head (hex_text (ev_id ev)) (hex_text (ev_pubkey ev)) ev (tags_json ev)) []") auto
  qed
qed

lemma length_dec_u64: "length (dec_nat (unat (n :: u64))) \<le> 20"
proof -
  have "unat n < 2 ^ 64" using unsigned_less [of n] by simp
  then have "unat n < 10 ^ 20" by simp
  then show ?thesis by (subst length_dec_nat) simp_all
qed

lemma length_dec_kind: "event_wf ev \<Longrightarrow> length (dec_int (ev_kind ev)) \<le> 15"
proof -
  assume "event_wf ev"
  then have "length (dec_nat (nat \<bar>ev_kind ev\<bar>)) \<le> 14"
    by (subst length_dec_nat) (auto simp: abs_if nat_less_iff event_wf_def)
  then show ?thesis by (auto simp: dec_int_def abs_if split: if_splits)
qed

lemma event_pieces_fit:
  assumes "printable ev" "length (tags_json ev) \<le> 1014" "length (json_opt (ev_content ev)) \<le> 1011"
  shows "list_all (\<lambda>p. length p < 1024 \<and> 0 \<notin> set p) (event_pieces ev)"
    and "length (event_json ev) < 3000"
proof -
  have lens: "length (hex_text (ev_id ev)) = 64" "length (hex_text (ev_pubkey ev)) = 64"
      "length (hex_text (ev_sig ev)) = 128"
    using assms(1) by (simp_all add: printable_def length_hex_text event_wf_def)
  show "list_all (\<lambda>p. length p < 1024 \<and> 0 \<notin> set p) (event_pieces ev)"
    using lens assms length_dec_u64 [of "ev_created_at ev"] length_dec_kind [of ev]
    by (simp add: event_pieces_def print_head_def print_tail_def printable_def hex_text_no_nul
        tags_json_no_nul json_opt_no_nul dec_nat_no_nul dec_int_no_nul) (simp add: cstr_def)
  show "length (event_json ev) < 3000"
    using lens assms length_dec_u64 [of "ev_created_at ev"] length_dec_kind [of ev]
    by (simp add: event_json_pieces event_pieces_def print_head_def print_tail_def printable_def hex_text_no_nul)
qed

lemma print_text_exact:
  assumes "printable ev"
  shows "print_text ev jsonlen =
    (if length (tags_json ev) \<le> 1014 \<and> length (json_opt (ev_content ev)) \<le> 1011 \<and> length (event_json ev) < jsonlen
     then Return (Some (event_json ev)) else Undefined)"
proof (cases "length (tags_json ev) \<le> 1014 \<and> length (json_opt (ev_content ev)) \<le> 1011")
  case True
  then show ?thesis
    using out_adds_fit [of "event_pieces ev" "[]"] event_pieces_fit [OF assms]
    by (auto simp: print_text_def event_json_pieces)
next
  case False
  then obtain p where "p \<in> set (event_pieces ev)" "1024 \<le> length p"
    by (force simp: event_pieces_def print_head_def print_tail_def)
  then show ?thesis using False out_adds_long [of p] by (auto simp: print_text_def)
qed

section \<open>Composing the message\<close>

text \<open>The key of the message: the given one or a new one. The code is the result of the program on failure.\<close>

definition obtain_key ::
    "('w, 'ctx, 'kp, 'xpk, 'pk) platform \<Rightarrow> 'ctx \<Rightarrow> args \<Rightarrow> 'kp key \<Rightarrow> 'w \<Rightarrow> (nat \<times> 'kp key \<times> 'w) option" where
  "obtain_key P ctx args key w =
     (case sec args of
        Some s \<Rightarrow>
          (case decode_key P ctx s key of (ok, key) \<Rightarrow> Some (if ok then 0 else 8, key, w))
      | None \<Rightarrow>
          (let d = (if has_flag (flags args) HAS_DIFFICULTY \<and> has_flag (flags args) HAS_MINE_PUBKEY
                    then Some (difficulty args) else None)
           in case generate_key P ctx key d w of
                None \<Rightarrow> None
              | Some ((ok, key), w) \<Rightarrow> Some (if ok then 0 else 4, key, w)))"

definition encrypt_step ::
    "('w, 'ctx, 'kp, 'xpk, 'pk) platform \<Rightarrow> 'ctx \<Rightarrow> args \<Rightarrow> 'kp key \<Rightarrow> nostr_event \<Rightarrow> memory \<Rightarrow> 'w
     \<Rightarrow> (bool \<times> nostr_event) run \<times> 'w" where
  "encrypt_step P ctx args key ev m w =
     (if has_flag (flags args) HAS_ENCRYPT
      then let kind = (if has_flag (flags args) HAS_KIND then args_kind args else 4)
           in make_encrypted_dm P ctx key ev (encrypt_to args) kind m w
      else (Return (True, ev), w))"

definition id_step :: "args \<Rightarrow> nostr_event \<Rightarrow> memory \<Rightarrow> (nat \<times> nostr_event) run option" where
  "id_step args ev m =
     (if has_flag (flags args) HAS_DIFFICULTY \<and> \<not> has_flag (flags args) HAS_MINE_PUBKEY
      then map_option (\<lambda>r. bind_run r (\<lambda>(ok, ev, m). Return (if ok then 0 else 22, ev)))
             (mine_event ev (difficulty args) m)
      else Some (case generate_event_id ev m of
             None \<Rightarrow> Abort
           | Some (ok, ev, m) \<Rightarrow> Return (if ok then 0 else 5, ev)))"

definition sign_and_print ::
    "('w, 'ctx, 'kp, 'xpk, 'pk) platform \<Rightarrow> 'ctx \<Rightarrow> 'kp key \<Rightarrow> nostr_event \<Rightarrow> nat \<Rightarrow> memory \<Rightarrow> 'w
     \<Rightarrow> (nat \<times> nostr_event \<times> byte list option \<times> 'w) run" where
  "sign_and_print P ctx key ev jsonlen m w =
     (case sign_event P ctx key ev w of (ok, ev, w) \<Rightarrow>
        if \<not> ok then Return (6, ev, None, w)
        else bind_run (print_event ev jsonlen m)
          (\<lambda>json. Return (if json = None then 88 else 0, ev, json, w)))"

text \<open>
  What \<open>make_message\<close> and the \<open>main\<close> of the command line program have in common, from the
  explicit tags on: the result code, the event, the text written and the state of the platform.
\<close>

definition message_core ::
    "('w, 'ctx, 'kp, 'xpk, 'pk) platform \<Rightarrow> 'ctx \<Rightarrow> args \<Rightarrow> nostr_event \<Rightarrow> 'kp key \<Rightarrow> nat \<Rightarrow> memory \<Rightarrow> 'w
     \<Rightarrow> (nat \<times> nostr_event \<times> byte list option \<times> 'w) run option" where
  "message_core P ctx args ev key jsonlen m w =
     (let ev = (if args_tags args \<noteq> None then ev\<lparr>explicit_tags := args_tags args\<rparr> else ev);
          (now, w) = (if has_flag (flags args) HAS_CREATED_AT then (0, w) else time_now P w);
          ev = make_event_from_args ev args now
      in case obtain_key P ctx args key w of
           None \<Rightarrow> None
         | Some (code, key, w) \<Rightarrow>
             if code \<noteq> 0 then Some (Return (code, ev, None, w))
             else case encrypt_step P ctx args key ev m w of
               (Abort, w) \<Rightarrow> Some Abort
             | (Undefined, w) \<Rightarrow> Some Undefined
             | (Return (ok, ev), w) \<Rightarrow>
                 if \<not> ok then Some (Return (0, ev, None, w))
                 else let ev = ev\<lparr>ev_pubkey := take 32 (pubkey key)\<rparr>
                   in map_option (\<lambda>r. bind_run r (\<lambda>(code, ev).
                        if code \<noteq> 0 then Return (code, ev, None, w)
                        else sign_and_print P ctx key ev jsonlen m w)) (id_step args ev m))"

definition make_message ::
    "('w, 'ctx, 'kp, 'xpk, 'pk) platform \<Rightarrow> args \<Rightarrow> nostr_event \<Rightarrow> 'kp key \<Rightarrow> nat \<Rightarrow> memory \<Rightarrow> 'w
     \<Rightarrow> args \<times> (nat \<times> nostr_event \<times> byte list option \<times> 'w) run option" where
  "make_message P args ev key jsonlen m w =
     (case init_secp_context P w of (ok, ctx, w) \<Rightarrow>
        if \<not> ok then (args, Some (Return (2, ev, None, w)))
        else let args = args\<lparr>flags := flags args OR HAS_ENVELOPE\<rparr>
          in (args, message_core P ctx args ev key jsonlen m w))"

text \<open>The state of the platform after the clock was read, which it is without a given time.\<close>

definition after_clock :: "('w, 'ctx, 'kp, 'xpk, 'pk) platform \<Rightarrow> args \<Rightarrow> 'w \<Rightarrow> 'w" where
  "after_clock P args w = (if has_flag (flags args) HAS_CREATED_AT then w else snd (time_now P w))"

section \<open>What a returned message is\<close>

text \<open>What the code relies on of the library: the sizes of its outputs.\<close>

definition secp_sizes :: "('w, 'ctx, 'kp, 'xpk, 'pk) platform \<Rightarrow> bool" where
  "secp_sizes P \<longleftrightarrow> (\<forall>ctx x bs. xonly_pubkey_serialize P ctx x = Some bs \<longrightarrow> length bs = 32)
     \<and> (\<forall>ctx i kp aux s. schnorrsig_sign32 P ctx i kp aux = Some s \<longrightarrow> length s = 64)"

definition signed_by ::
    "('w, 'ctx, 'kp, 'xpk, 'pk) platform \<Rightarrow> 'ctx \<Rightarrow> 'kp key \<Rightarrow> nostr_event \<Rightarrow> bool" where
  "signed_by P ctx key ev \<longleftrightarrow> (\<exists>kp aux. keypair_create P ctx (secret key) = Some kp
     \<and> schnorrsig_sign32 P ctx (ev_id ev) kp aux = Some (ev_sig ev))"

lemma key_ok_length: "secp_sizes P \<Longrightarrow> key_ok P ctx key \<Longrightarrow> length (pubkey key) = 32"
  by (auto simp: secp_sizes_def key_ok_def public_of_def bind_eq_Some_conv split: option.splits)

lemma create_key_ok: "create_key P ctx key = (True, key') \<Longrightarrow> key_ok P ctx key'"
  using create_key_public(3) [of P ctx key] by simp

lemma obtain_key_ok:
  assumes "obtain_key P ctx args key w = Some (0, key', w')"
  shows "key_ok P ctx key'"
proof (cases "sec args")
  case (Some s)
  with assms show ?thesis
    by (auto simp: obtain_key_def decode_key_def Let_def split: prod.splits if_splits dest: create_key_ok)
next
  case None
  then obtain d where "generate_key P ctx key d w = Some ((True, key'), w')"
    using assms by (auto simp: obtain_key_def Let_def split: option.splits prod.splits if_splits)
  then show ?thesis
    using generate_key_loop_returns [of P ctx]
    by (fastforce dest: create_key_ok sym [of "(True, _)"] simp: generate_key_def Let_def first_candidate_def candidate_def
        split: prod.splits if_splits option.splits)
qed

lemma add_tag_wf:
  assumes "event_wf ev" "nostr_add_tag ev a b = (True, ev')"
  shows "event_wf ev'" and "ev' = ev\<lparr>ev_tags := ev_tags ev', num_tags := num_tags ev'\<rparr>"
proof -
  have "num_tags ev < MAX_TAGS" using assms(2) by (auto simp: nostr_add_tag_def nostr_add_tag_n_def split: if_splits)
  then obtain e where "nostr_add_tag ev a b = (True, e)" "event_wf e"
      "e = ev\<lparr>ev_tags := ev_tags e, num_tags := num_tags e\<rparr>"
    using add_tag_n_ok [OF assms(1), of "[Some a, Some b]"] by (auto simp: nostr_add_tag_def MAX_TAG_ELEMS_def)
  with assms(2) show "event_wf ev'" "ev' = ev\<lparr>ev_tags := ev_tags ev', num_tags := num_tags ev'\<rparr>"
    by simp_all
qed

lemma dm_encrypt_tagged:
  assumes "dm_encrypt shared iv ev content nostr_pubkey kind heap = Return (True, ev')"
  shows "\<exists>c h. nostr_add_tag (ev\<lparr>ev_content := Some c, ev_kind := kind\<rparr>) [0x70] h = (True, ev')"
  using assms unfolding dm_encrypt_def Let_def
  by (auto split: if_splits run.splits option.splits prod.splits)

lemma make_dm_tagged:
  assumes "make_encrypted_dm P ctx key ev nostr_pubkey kind heap w = (Return (True, ev'), w')"
  shows "\<exists>c h. nostr_add_tag (ev\<lparr>ev_content := Some c, ev_kind := kind\<rparr>) [0x70] h = (True, ev')"
  using assms unfolding make_encrypted_dm_def Let_def
  by (auto split: if_splits option.splits prod.splits dest: dm_encrypt_tagged)

lemma encrypt_step_wf:
  assumes "event_wf ev" "- (2 ^ 31) \<le> args_kind args" "args_kind args < 2 ^ 31"
    and "encrypt_step P ctx args key ev m w = (Return (True, ev'), w')"
  shows "event_wf ev'" and "ev_created_at ev' = ev_created_at ev"
proof -
  have "event_wf ev' \<and> ev_created_at ev' = ev_created_at ev"
  proof (cases "has_flag (flags args) HAS_ENCRYPT")
    case True
    define k where "k = (if has_flag (flags args) HAS_KIND then args_kind args else 4)"
    have "make_encrypted_dm P ctx key ev (encrypt_to args) k m w = (Return (True, ev'), w')"
      using True assms(4) by (simp only: encrypt_step_def if_True Let_def k_def)
    from make_dm_tagged [OF this] obtain c h where
      tag: "nostr_add_tag (ev\<lparr>ev_content := Some c, ev_kind := k\<rparr>) [0x70] h = (True, ev')"
      by blast
    have "event_wf (ev\<lparr>ev_content := Some c, ev_kind := k\<rparr>)"
      using assms(1-3) by (auto simp: event_wf_def k_def)
    note T = add_tag_wf [OF this tag]
    have "ev_created_at ev' = ev_created_at ev" by (subst T(2)) simp
    with T(1) show ?thesis by simp
  qed (use assms in \<open>simp add: encrypt_step_def\<close>)
  then show "event_wf ev'" "ev_created_at ev' = ev_created_at ev" by simp_all
qed

lemma id_step_ok:
  assumes "event_wf ev" "id_step args ev m = Some (Return (0, ev'))"
  shows "event_wf ev'" "ev_id ev' = fips_sha256 (commitment_text ev')"
    "ev_pubkey ev' = ev_pubkey ev" "ev_created_at ev' = ev_created_at ev" "ev_content ev' = ev_content ev"
    "has_flag (flags args) HAS_DIFFICULTY \<and> \<not> has_flag (flags args) HAS_MINE_PUBKEY \<Longrightarrow>
       difficulty args \<le> int (count_leading_zero_bits (ev_id ev'))"
proof -
  let ?mine = "has_flag (flags args) HAS_DIFFICULTY \<and> \<not> has_flag (flags args) HAS_MINE_PUBKEY"
  have "event_wf ev' \<and> ev_id ev' = fips_sha256 (commitment_text ev') \<and> ev_pubkey ev' = ev_pubkey ev
      \<and> ev_created_at ev' = ev_created_at ev \<and> ev_content ev' = ev_content ev
      \<and> (?mine \<longrightarrow> difficulty args \<le> int (count_leading_zero_bits (ev_id ev')))"
  proof (cases ?mine)
    case True
    then obtain m' where mined: "mine_event ev (difficulty args) m = Some (Return (True, ev', m'))"
      using assms(2) by (auto simp: id_step_def split: if_splits)
    note M = mine_event_success [OF mine_event_mineable [OF assms(1) mined] mined]
    have "ev_pubkey ev' = ev_pubkey ev" "ev_created_at ev' = ev_created_at ev" "ev_content ev' = ev_content ev"
      by (subst M(5), simp)+
    with M(1-3) show ?thesis by blast
  next
    case False
    then show ?thesis
      using assms generate_event_id_text [OF assms(1), of m]
      by (auto simp: id_step_def split: if_splits)
  qed
  then show "event_wf ev'" "ev_id ev' = fips_sha256 (commitment_text ev')"
    "ev_pubkey ev' = ev_pubkey ev" "ev_created_at ev' = ev_created_at ev" "ev_content ev' = ev_content ev"
    "?mine \<Longrightarrow> difficulty args \<le> int (count_leading_zero_bits (ev_id ev'))" by blast+
qed

lemma commitment_text_sig [simp]: "commitment_text (ev\<lparr>ev_sig := s\<rparr>) = commitment_text ev"
  by (simp add: commitment_text_def nip01_text_def tags_json_def event_tags_def split: option.split)

lemma event_wf_sig [simp]: "event_wf (ev\<lparr>ev_sig := s\<rparr>) = event_wf ev"
  by (simp add: event_wf_def)

lemma sign_and_print_ok:
  assumes "sign_and_print P ctx key ev jsonlen m w = Return (code, ev', Some json, w')"
    and "event_wf ev" "length (ev_id ev) = 32" "secp_sizes P" "key_ok P ctx key"
  shows "code = 0" and "json = event_json ev'" and "signed_by P ctx key ev'"
    and "ev' = ev\<lparr>ev_sig := ev_sig ev'\<rparr>"
proof -
  obtain ok e w1 where sign: "sign_event P ctx key ev w = (ok, e, w1)" by (metis prod.collapse)
  with assms(1) have ok: ok "print_event e jsonlen m = Return (Some json)" "code = 0" "e = ev'"
    by (auto simp: sign_and_print_def split: if_splits)
  then show "code = 0" by simp
  obtain kp aux s where s: "keypair_create P ctx (secret key) = Some kp" "ev' = ev\<lparr>ev_sig := s\<rparr>"
      "schnorrsig_sign32 P ctx (ev_id ev) kp aux = Some s"
    using sign ok assms(5)
    by (auto simp: sign_event_def make_sig_def key_ok_def split: prod.splits if_splits option.splits)
  then show "signed_by P ctx key ev'" "ev' = ev\<lparr>ev_sig := ev_sig ev'\<rparr>" by (auto simp: signed_by_def)
  have "length s = 64" using assms(4) s(3) unfolding secp_sizes_def by blast
  then have "printable ev'" using s(2) assms(2,3) by (simp add: printable_def event_wf_def)
  then show "json = event_json ev'"
    using print_event_text [of ev' jsonlen m] print_text_exact [of ev' jsonlen] ok by (auto split: if_splits)
qed

lemma message_core_steps:
  assumes "message_core P ctx args ev key jsonlen m w = Some (Return (code, ev', Some json, w'))"
    and "event_wf ev" "- (2 ^ 31) \<le> args_kind args" "args_kind args < 2 ^ 31"
  shows "\<exists>e1 w0 k w1 e2 w2 e3. event_wf e1 \<and> obtain_key P ctx args key w0 = Some (0, k, w1)
      \<and> encrypt_step P ctx args k e1 m w1 = (Return (True, e2), w2)
      \<and> id_step args (e2\<lparr>ev_pubkey := take 32 (pubkey k)\<rparr>) m = Some (Return (0, e3))
      \<and> sign_and_print P ctx k e3 jsonlen m w2 = Return (code, ev', Some json, w')"
proof -
  define e0 where "e0 = (if args_tags args \<noteq> None then ev\<lparr>explicit_tags := args_tags args\<rparr> else ev)"
  obtain now w0 where now: "(if has_flag (flags args) HAS_CREATED_AT then (0, w) else time_now P w) = (now, w0)"
    by (metis prod.collapse)
  define e1 where "e1 = make_event_from_args e0 args now"
  have wf1: "event_wf e1"
    using assms(2-4) by (simp add: e1_def e0_def make_event_from_args_def event_wf_def)
  have "\<exists>k w1 e2 w2 e3. obtain_key P ctx args key w0 = Some (0, k, w1)
      \<and> encrypt_step P ctx args k e1 m w1 = (Return (True, e2), w2)
      \<and> id_step args (e2\<lparr>ev_pubkey := take 32 (pubkey k)\<rparr>) m = Some (Return (0, e3))
      \<and> sign_and_print P ctx k e3 jsonlen m w2 = Return (code, ev', Some json, w')"
    using assms(1) unfolding message_core_def Let_def now prod.case e0_def [symmetric] e1_def [symmetric]
    by (auto split: option.splits prod.splits if_splits run.splits)
  with wf1 show ?thesis by blast
qed

lemma message_core_sound:
  assumes "message_core P ctx args ev key jsonlen m w = Some (Return (code, ev', Some json, w'))"
    and "event_wf ev" "- (2 ^ 31) \<le> args_kind args" "args_kind args < 2 ^ 31" "secp_sizes P"
  shows "code = 0 \<and> json = event_json ev' \<and> event_wf ev' \<and> ev_id ev' = fips_sha256 (commitment_text ev')
    \<and> (\<exists>k. key_ok P ctx k \<and> ev_pubkey ev' = pubkey k \<and> signed_by P ctx k ev')
    \<and> (has_flag (flags args) HAS_DIFFICULTY \<and> \<not> has_flag (flags args) HAS_MINE_PUBKEY \<longrightarrow>
         difficulty args \<le> int (count_leading_zero_bits (ev_id ev')))"
proof -
  obtain e1 w0 k w1 e2 w2 e3 where run:
      "event_wf e1" "obtain_key P ctx args key w0 = Some (0, k, w1)"
      "encrypt_step P ctx args k e1 m w1 = (Return (True, e2), w2)"
      "id_step args (e2\<lparr>ev_pubkey := take 32 (pubkey k)\<rparr>) m = Some (Return (0, e3))"
      "sign_and_print P ctx k e3 jsonlen m w2 = Return (code, ev', Some json, w')"
    using message_core_steps [OF assms(1-4)] by blast
  note k = obtain_key_ok [OF run(2)]
  note klen = key_ok_length [OF assms(5) k]
  have "event_wf (e2\<lparr>ev_pubkey := take 32 (pubkey k)\<rparr>)"
    using encrypt_step_wf(1) [OF run(1) assms(3,4) run(3)] klen by (simp add: event_wf_def)
  note I = id_step_ok [OF this run(4)]
  have "length (ev_id e3) = 32" using I(2) by (simp add: length_fips_sha256)
  note S = sign_and_print_ok [OF run(5) I(1) this assms(5) k]
  have eq: "ev_id ev' = ev_id e3" "ev_pubkey ev' = ev_pubkey e3" "commitment_text ev' = commitment_text e3"
      "event_wf ev' = event_wf e3"
    by (subst S(4), simp)+
  show ?thesis
    using S(1-3) I k klen by (auto simp: eq intro!: exI [of _ k])
qed

lemma has_flag_or: "has_flag (f OR g) x \<longleftrightarrow> has_flag f x \<or> has_flag g x"
  by (simp add: has_flag_def and.commute [of _ x] bit.conj_disj_distrib or_eq_0_iff)

lemma has_flag_envelope [simp]:
  "x \<in> {HAS_CREATED_AT, HAS_KIND, HAS_ENCRYPT, HAS_DIFFICULTY, HAS_MINE_PUBKEY} \<Longrightarrow>
   has_flag (f OR HAS_ENVELOPE) x \<longleftrightarrow> has_flag f x"
  by (auto simp: has_flag_or) (auto simp: has_flag_def flag_defs)

text \<open>The last two steps succeed when the library signs and the texts fit the arrays.\<close>

lemma sign_and_print_completes:
  assumes "event_wf ev" "length (ev_id ev) = 32" "secp_sizes P" "pair key = Some kp"
    and "getrandom P 32 w = ((32, aux), w')" "length aux = 32"
    and "schnorrsig_sign32 P ctx (ev_id ev) kp aux = Some s"
    and "length (tags_json ev) \<le> 1014" "length (json_opt (ev_content ev)) \<le> 1011" "3000 \<le> jsonlen"
  shows "\<exists>ev'. sign_and_print P ctx key ev jsonlen m w = Return (0, ev', Some (event_json ev'), w')
    \<and> ev' = ev\<lparr>ev_sig := s\<rparr>"
proof -
  let ?e = "ev\<lparr>ev_sig := s\<rparr>"
  have "sign_event P ctx key ev w = (True, ?e, w')"
    using assms(4-7) by (simp add: sign_event_def make_sig_def fill_random_def copy_at_def)
  moreover have "length s = 64" using assms(3,7) unfolding secp_sizes_def by blast
  then have p: "printable ?e" using assms(1,2) by (simp add: printable_def)
  moreover have "tags_json ?e = tags_json ev" by (simp add: tags_json_def event_tags_def split: option.split)
  ultimately have "print_event ?e jsonlen m = Return (Some (event_json ?e))"
    using print_event_text [OF p, of jsonlen m] print_text_exact [OF p, of jsonlen] event_pieces_fit(2) [OF p]
      assms(8-10) by auto
  with \<open>sign_event P ctx key ev w = (True, ?e, w')\<close> show ?thesis by (simp add: sign_and_print_def)
qed

lemma message_core_run:
  assumes "event_wf ev" "secp_sizes P" "3000 \<le> jsonlen"
    and "has_flag (flags args) HAS_CREATED_AT" "\<not> has_flag (flags args) HAS_ENCRYPT"
    and "\<not> has_flag (flags args) HAS_DIFFICULTY" "- (2 ^ 31) \<le> args_kind args" "args_kind args < 2 ^ 31"
    and "sec args = Some s" "decode_key P ctx s key = (True, k)" "pair k = Some kp"
    and "getrandom P 32 w = ((32, aux), w')" "length aux = 32"
    and "e = (make_event_from_args (if args_tags args \<noteq> None then ev\<lparr>explicit_tags := args_tags args\<rparr> else ev)
                args 0)\<lparr>ev_pubkey := pubkey k\<rparr>"
    and "schnorrsig_sign32 P ctx (fips_sha256 (commitment_text e)) kp aux = Some sg"
    and "length (commitment_text e) < 102400" "length (tags_json e) \<le> 1014"
    and "length (json_opt (args_content args)) \<le> 1011"
  shows "\<exists>ev'. message_core P ctx args ev key jsonlen m w = Some (Return (0, ev', Some (event_json ev'), w'))
    \<and> ev' = e\<lparr>ev_id := fips_sha256 (commitment_text e), ev_sig := sg\<rparr>"
proof -
  let ?i = "fips_sha256 (commitment_text e)"
  have key: "obtain_key P ctx args key w = Some (0, k, w)"
    using assms(9,10) by (simp add: obtain_key_def)
  then have klen: "length (pubkey k) = 32" using key_ok_length [OF assms(2) obtain_key_ok] by blast
  have wf: "event_wf e"
    using assms(1,7,8) klen by (simp add: assms(14) make_event_from_args_def event_wf_def)
  then obtain m' where "generate_event_id e m = Some (True, e\<lparr>ev_id := ?i\<rparr>, m')"
    using generate_event_id_text [OF wf, of m] assms(16) by auto
  then have step: "id_step args e m = Some (Return (0, e\<lparr>ev_id := ?i\<rparr>))"
    using assms(6) by (simp add: id_step_def)
  have "tags_json (e\<lparr>ev_id := ?i\<rparr>) = tags_json e" "ev_content e = args_content args"
    by (simp_all add: tags_json_def event_tags_def assms(14) make_event_from_args_def split: option.split)
  then obtain ev' where ev': "sign_and_print P ctx k (e\<lparr>ev_id := ?i\<rparr>) jsonlen m w
      = Return (0, ev', Some (event_json ev'), w')" "ev' = e\<lparr>ev_id := ?i, ev_sig := sg\<rparr>"
    using sign_and_print_completes [of "e\<lparr>ev_id := ?i\<rparr>" P k kp w aux w' ctx sg jsonlen m] wf
      assms(2,3,11-13,15,17,18)
    by (auto simp: length_fips_sha256)
  have "message_core P ctx args ev key jsonlen m w = Some (Return (0, ev', Some (event_json ev'), w'))"
    using key step ev'(1) klen assms(4,5) unfolding assms(14)
    by (cases "args_tags args"; cases "has_flag (flags args) HAS_KIND")
      (simp_all add: message_core_def encrypt_step_def make_event_from_args_def Let_def)
  with ev'(2) show ?thesis by blast
qed

lemma make_message_run:
  assumes "init_secp_context P w = (True, ctx, w1)" "event_wf ev" "secp_sizes P" "3000 \<le> jsonlen"
    and "has_flag (flags args) HAS_CREATED_AT" "\<not> has_flag (flags args) HAS_ENCRYPT"
    and "\<not> has_flag (flags args) HAS_DIFFICULTY" "- (2 ^ 31) \<le> args_kind args" "args_kind args < 2 ^ 31"
    and "sec args = Some s" "decode_key P ctx s key = (True, k)" "pair k = Some kp"
    and "getrandom P 32 w1 = ((32, aux), w2)" "length aux = 32"
    and "e = (make_event_from_args (if args_tags args \<noteq> None then ev\<lparr>explicit_tags := args_tags args\<rparr> else ev)
                args 0)\<lparr>ev_pubkey := pubkey k\<rparr>"
    and "schnorrsig_sign32 P ctx (fips_sha256 (commitment_text e)) kp aux = Some sg"
    and "length (commitment_text e) < 102400" "length (tags_json e) \<le> 1014"
    and "length (json_opt (args_content args)) \<le> 1011"
  shows "\<exists>ev'. make_message P args ev key jsonlen m w =
      (args\<lparr>flags := flags args OR HAS_ENVELOPE\<rparr>, Some (Return (0, ev', Some (event_json ev'), w2)))
    \<and> ev' = e\<lparr>ev_id := fips_sha256 (commitment_text e), ev_sig := sg\<rparr>"
proof -
  let ?args = "args\<lparr>flags := flags args OR HAS_ENVELOPE\<rparr>"
  have "make_event_from_args e' ?args 0 = make_event_from_args e' args 0" for e'
    by (simp add: make_event_from_args_def)
  then show ?thesis
    using message_core_run [of ev P jsonlen ?args s ctx key k kp w1 aux w2 e sg m] assms
    by (simp add: make_message_def)
qed

text \<open>A message of the toy platform, for the instances of the properties.\<close>

definition sample_args :: args where
  "sample_args = \<lparr>flags = HAS_CREATED_AT, args_kind = 1, difficulty = 0, encrypt_to = replicate 32 0,
     sec = Some (hex_text (replicate 32 7)), args_tags = None, args_content = Some (cstr ''hi''),
     args_created_at = 1700000000\<rparr>"

definition blank_key :: "byte list key" where
  "blank_key = \<lparr>pair = None, secret = replicate 32 0, pubkey = replicate 32 0\<rparr>"

definition sample_signed :: nostr_event where
  "sample_signed = (make_event_from_args sample_event sample_args 0)\<lparr>ev_pubkey := replicate 32 7\<rparr>"

lemma toy_sizes: "secp_sizes toy_platform"
  by (auto simp: secp_sizes_def toy_platform_def split: if_splits)

lemma toy_init: "init_secp_context toy_platform 5 = (True, (), 6)"
  by (simp add: init_secp_context_def fill_random_def toy_platform_def)

lemma toy_decode:
  "decode_key toy_platform () (hex_text (replicate 32 7)) blank_key
   = (True, \<lparr>pair = Some (replicate 32 7), secret = replicate 32 7, pubkey = replicate 32 7\<rparr>)"
  using hex_decode_loop_stores [of "hex_text (replicate 32 7)" "replicate 32 7" 32 0 "replicate 32 0"]
  by (simp add: decode_key_def hex_decode_def create_key_def blank_key_def toy_platform_def)

lemma sample_flags:
  "has_flag HAS_CREATED_AT HAS_CREATED_AT" "\<not> has_flag HAS_CREATED_AT HAS_ENCRYPT"
  "\<not> has_flag HAS_CREATED_AT HAS_DIFFICULTY" "\<not> has_flag HAS_CREATED_AT HAS_KIND"
  by (simp_all add: has_flag_def flag_defs)

lemma sample_signed_short:
  "length (commitment_text sample_signed) < 102400" "length (tags_json sample_signed) \<le> 1014"
  "length (json_opt (args_content sample_args)) \<le> 1011"
  by (simp_all add: sample_signed_def make_event_from_args_def sample_args_def sample_flags commitment_text_def
      sample_event_def nip01_text_def timebuf_text_def dec_int_def dec_nat.simps tags_json_def event_tags_def
      json_array_def json_opt_def json_str_def escape_char_def cstr_def c_str_def)

lemma sample_message:
  "\<exists>ev'. make_message toy_platform sample_args sample_event blank_key 102400 (\<lambda>_. 0) 5 =
      (sample_args\<lparr>flags := flags sample_args OR HAS_ENVELOPE\<rparr>, Some (Return (0, ev', Some (event_json ev'), 7)))"
  using make_message_run [OF toy_init sample_event_wf toy_sizes, of 102400 sample_args
      "hex_text (replicate 32 7)" blank_key "\<lparr>pair = Some (replicate 32 7), secret = replicate 32 7, pubkey = replicate 32 7\<rparr>"
      "replicate 32 7" "replicate 32 6" 7 sample_signed "fips_sha256 (commitment_text sample_signed) @ replicate 32 7"
      "\<lambda>_. 0"] sample_signed_short toy_decode sample_flags
  by (auto simp: sample_args_def sample_signed_def toy_platform_def length_fips_sha256)

section \<open>Result codes\<close>

text \<open>The difficulties that the flags ask for, of the public key and of the id.\<close>

definition key_difficulty :: "args \<Rightarrow> int option" where
  "key_difficulty args =
     (if has_flag (flags args) HAS_DIFFICULTY \<and> has_flag (flags args) HAS_MINE_PUBKEY then Some (difficulty args) else None)"

definition mines_id :: "args \<Rightarrow> bool" where
  "mines_id args \<longleftrightarrow> has_flag (flags args) HAS_DIFFICULTY \<and> \<not> has_flag (flags args) HAS_MINE_PUBKEY"

text \<open>What each code of the five steps means.\<close>

lemma message_core_cases:
  assumes "message_core P ctx args ev key jsonlen m w = Some (Return (code, ev', json, w'))"
    and "event_wf ev" "- (2 ^ 31) \<le> args_kind args" "args_kind args < 2 ^ 31" "secp_sizes P"
  obtains (no_key) k where "obtain_key P ctx args key (after_clock P args w) = Some (code, k, w')" "code \<noteq> 0" "json = None"
  | (no_encryption) k w1 e1 where "obtain_key P ctx args key (after_clock P args w) = Some (0, k, w1)"
      "encrypt_step P ctx args k e1 m w1 = (Return (False, ev'), w')" "code = 0" "json = None"
  | (no_id) k w1 e where "obtain_key P ctx args key (after_clock P args w) = Some (0, k, w1)" "event_wf e"
      "id_step args e m = Some (Return (code, ev'))" "code \<noteq> 0" "json = None"
  | (printed) k w1 e e' w2 where "obtain_key P ctx args key (after_clock P args w) = Some (0, k, w1)" "event_wf e"
      "id_step args e m = Some (Return (0, e'))" "sign_and_print P ctx k e' jsonlen m w2 = Return (code, ev', json, w')"
proof -
  define e0 where "e0 = (if args_tags args \<noteq> None then ev\<lparr>explicit_tags := args_tags args\<rparr> else ev)"
  obtain now where now: "(if has_flag (flags args) HAS_CREATED_AT then (0, w) else time_now P w) = (now, after_clock P args w)"
    by (cases "time_now P w"; cases "has_flag (flags args) HAS_CREATED_AT") (simp_all add: after_clock_def)
  define e1 where "e1 = make_event_from_args e0 args now"
  have wf1: "event_wf e1"
    using assms(2-4) by (simp add: e1_def e0_def make_event_from_args_def event_wf_def)
  note run = assms(1) [unfolded message_core_def Let_def now prod.case, folded e0_def, folded e1_def]
  then obtain c k w1 where key: "obtain_key P ctx args key (after_clock P args w) = Some (c, k, w1)"
    by (auto split: option.splits)
  show ?thesis
  proof (cases "c = 0")
    case False
    then have "code = c" "json = None" "w' = w1" using run key by simp_all
    with key False no_key [of k] show ?thesis by simp
  next
    case c: True
    obtain r2 w2 where enc: "encrypt_step P ctx args k e1 m w1 = (r2, w2)" by (metis prod.collapse)
    then obtain ok e2 where r2: "r2 = Return (ok, e2)" using run key c by (cases r2) auto
    show ?thesis
    proof (cases ok)
      case False
      then have "ev' = e2" "code = 0" "json = None" "w' = w2" using run key c enc r2 by simp_all
      with False key c enc r2 no_encryption [of k w1 e1] show ?thesis by simp
    next
      case True
      let ?e = "e2\<lparr>ev_pubkey := take 32 (pubkey k)\<rparr>"
      have "length (pubkey k) = 32" using key_ok_length [OF assms(5) obtain_key_ok] key c by blast
      moreover have "event_wf e2"
        by (rule encrypt_step_wf(1) [OF wf1 assms(3,4), of P ctx k m w1 e2 w2]) (use enc r2 True in simp)
      ultimately have wf: "event_wf ?e" by (simp add: event_wf_def)
      obtain r where r: "id_step args ?e m = Some r" "bind_run r (\<lambda>(code, ev).
          if code \<noteq> 0 then Return (code, ev, None, w2) else sign_and_print P ctx k ev jsonlen m w2) = Return (code, ev', json, w')"
        using run key c enc r2 True by auto
      then obtain c' e' where r': "r = Return (c', e')" by (cases r) auto
      show ?thesis
      proof (cases "c' = 0")
        case False
        then show ?thesis using r r' key c wf no_id [of k w1 ?e] by simp
      next
        case True
        then show ?thesis using r r' key c wf printed [of k w1 ?e e' w2] by simp
      qed
    qed
  qed
qed

lemma obtain_key_codes:
  assumes "obtain_key P ctx args key w = Some (c, k, w')" "length (secret key) = 32"
  shows "c \<in> {0, 4, 8}"
    and "c = 8 \<longleftrightarrow> (\<exists>s. sec args = Some s
      \<and> \<not> (\<exists>bs. length bs = 32 \<and> hex_value (c_str s) = Some bs \<and> public_of P ctx bs \<noteq> None))"
    and "c = 4 \<longleftrightarrow> sec args = None \<and> (\<exists>k' w2. generate_key P ctx key (key_difficulty args) w = Some ((False, k'), w2))"
proof -
  have "c \<in> {0, 4, 8} \<and> (c = 8 \<longleftrightarrow> (\<exists>s. sec args = Some s \<and> \<not> fst (decode_key P ctx s key)))
    \<and> (c = 4 \<longleftrightarrow> sec args = None \<and> (\<exists>k' w2. generate_key P ctx key (key_difficulty args) w = Some ((False, k'), w2)))"
  proof (cases "sec args")
    case (Some s)
    then show ?thesis
      using assms(1) by (cases "decode_key P ctx s key"; cases "fst (decode_key P ctx s key)") (auto simp: obtain_key_def)
  next
    case None
    then obtain ok where "generate_key P ctx key (key_difficulty args) w = Some ((ok, k), w')" "c = (if ok then 0 else 4)"
      using assms(1) by (auto simp: obtain_key_def key_difficulty_def Let_def split: option.splits prod.splits)
    with None show ?thesis by (cases ok) auto
  qed
  then show "c \<in> {0, 4, 8}"
    and "c = 8 \<longleftrightarrow> (\<exists>s. sec args = Some s
      \<and> \<not> (\<exists>bs. length bs = 32 \<and> hex_value (c_str s) = Some bs \<and> public_of P ctx bs \<noteq> None))"
    and "c = 4 \<longleftrightarrow> sec args = None \<and> (\<exists>k' w2. generate_key P ctx key (key_difficulty args) w = Some ((False, k'), w2))"
    using decode_key_exact [OF assms(2), of P ctx] by auto
qed

lemma id_step_codes:
  assumes "event_wf ev" "id_step args ev m = Some (Return (c, ev'))"
  shows "c \<in> {0, 5, 22}" and "c = 0 \<Longrightarrow> length (commitment_text ev') < 102400"
    and "c = 5 \<Longrightarrow> \<not> mines_id args \<and> 102400 \<le> length (commitment_text ev')"
    and "c = 22 \<Longrightarrow> mines_id args \<and> (num_tags ev' = MAX_TAGS \<or> 102400 \<le> length (commitment_text ev'))"
proof -
  have "c \<in> {0, 5, 22} \<and> (c = 0 \<longrightarrow> length (commitment_text ev') < 102400)
    \<and> (c = 5 \<longrightarrow> \<not> mines_id args \<and> 102400 \<le> length (commitment_text ev'))
    \<and> (c = 22 \<longrightarrow> mines_id args \<and> (num_tags ev' = MAX_TAGS \<or> 102400 \<le> length (commitment_text ev')))"
  proof (cases "mines_id args")
    case True
    then obtain ok m' where run: "mine_event ev (difficulty args) m = Some (Return (ok, ev', m'))" "c = (if ok then 0 else 22)"
      using assms(2) by (auto simp: id_step_def mines_id_def split: if_splits)
    show ?thesis
    proof (cases ok)
      case ok: True
      then show ?thesis
        using run mine_event_success(6) [OF mine_event_mineable [OF assms(1)], of "difficulty args" m ev' m'] by auto
    next
      case False
      then show ?thesis using run mine_event_failure [OF assms(1), of "difficulty args" m ev' m'] True by simp
    qed
  next
    case False
    then show ?thesis
      using assms(2) generate_event_id_text [OF assms(1), of m] by (auto simp: id_step_def mines_id_def split: if_splits)
  qed
  then show "c \<in> {0, 5, 22}" and "c = 0 \<Longrightarrow> length (commitment_text ev') < 102400"
    and "c = 5 \<Longrightarrow> \<not> mines_id args \<and> 102400 \<le> length (commitment_text ev')"
    and "c = 22 \<Longrightarrow> mines_id args \<and> (num_tags ev' = MAX_TAGS \<or> 102400 \<le> length (commitment_text ev'))" by blast+
qed

text \<open>
  After an id was made, printing finds room in its scratch buffer: the serialisation that was
  hashed contains the same two texts. So the result 88 is never returned.
\<close>

lemma commitment_covers:
  "length (tags_json ev) < length (commitment_text ev)" "length (json_opt (ev_content ev)) < length (commitment_text ev)"
  by (simp_all add: commitment_text_def nip01_text_def)

lemma sign_and_print_codes:
  assumes "sign_and_print P ctx k ev jsonlen m w = Return (c, ev', json, w')"
    and "event_wf ev" "length (ev_id ev) = 32" "secp_sizes P" "key_ok P ctx k" "length (commitment_text ev) < 102400"
  shows "c = 0 \<and> json = Some (event_json ev')
    \<or> c = 6 \<and> json = None \<and> (fst (fst (getrandom P 32 w)) \<noteq> 32
        \<or> (\<exists>kp aux. pair k = Some kp \<and> schnorrsig_sign32 P ctx (ev_id ev') kp aux = None))"
proof -
  obtain ok e w1 where sign: "sign_event P ctx k ev w = (ok, e, w1)" by (metis prod.collapse)
  show ?thesis
  proof (cases ok)
    case False
    then show ?thesis
      using assms(1,5) sign
      by (auto simp: sign_and_print_def sign_event_def make_sig_def key_ok_def fill_random_def
          split: prod.splits if_splits option.splits)
  next
    case True
    then obtain s kp aux where s: "e = ev\<lparr>ev_sig := s\<rparr>" "schnorrsig_sign32 P ctx (ev_id ev) kp aux = Some s"
      using sign assms(5) by (auto simp: sign_event_def make_sig_def key_ok_def split: prod.splits if_splits option.splits)
    have "length s = 64" using assms(4) s(2) unfolding secp_sizes_def by blast
    then have p: "printable e" using s(1) assms(2,3) by (simp add: printable_def event_wf_def)
    have "commitment_text e = commitment_text ev" using s(1) by simp
    then have "print_event e jsonlen m \<noteq> Return None"
      using print_event_text [OF p, of jsonlen m] print_text_exact [OF p, of jsonlen] commitment_covers [of e] assms(6)
      by (auto split: if_splits)
    with True sign assms(1) obtain j where j: "c = 0" "json = Some j"
      by (cases "print_event e jsonlen m") (auto simp: sign_and_print_def)
    with sign_and_print_ok(2) [OF assms(1) [unfolded j(2)] assms(2-5)] show ?thesis by simp
  qed
qed

section \<open>Properties\<close>

text \<open>
  C27. print_event writes exactly the text of the EVENT message when its arrays hold it, and
  runs over them otherwise: for an event whose tag text and escaped content are below the
  102400 bytes of the scratch buffer, the call succeeds with the array of EVENT and the object
  with the members id, pubkey, created_at, kind, tags, content and sig, each with its value of the
  event, if the tag text has at most 1014 bytes, the content
  with quotes at most 1011, and the destination has room for the text and its NUL. With longer
  tags or content sprintf writes behind the 1024 bytes of str.
\<close>

theorem print_event_exact:
  assumes "printable ev" "length (tags_json ev) < 102400" "length (json_opt (ev_content ev)) < 102400"
  shows "print_event ev jsonlen m =
    (if length (tags_json ev) \<le> 1014 \<and> length (json_opt (ev_content ev)) \<le> 1011 \<and> length (event_json ev) < jsonlen
     then Return (Some (event_json ev)) else Undefined)"
  using print_event_text [OF assms(1), of jsonlen m] print_text_exact [OF assms(1), of jsonlen] assms(2,3)
  by auto

theorem print_event_exact_witness:
  "print_event (sample_event\<lparr>ev_content := Some (replicate 1010 65)\<rparr>) 102400 (\<lambda>_. 0) = Undefined
   \<and> print_event sample_event 3000 (\<lambda>_. 0) = Return (Some (event_json sample_event))"
proof -
  have "length (ev_id sample_event) = 32" "length (ev_sig sample_event) = 64" by (simp_all add: sample_event_def)
  then have p: "printable sample_event" "printable (sample_event\<lparr>ev_content := Some (replicate 1010 65)\<rparr>)"
    using sample_event_wf by (simp_all add: printable_def event_wf_def)
  have c: "length (json_opt (Some (replicate 1010 65))) = 1012"
    by (simp add: json_opt_def json_str_def escape_char_def)
  have t: "tags_json sample_event = [0x5b, 0x5d]" "tags_json (sample_event\<lparr>ev_content := c\<rparr>) = [0x5b, 0x5d]" for c
    by (simp_all add: tags_json_def sample_event_def event_tags_def json_array_def)
  have s: "length (json_opt (ev_content sample_event)) = 4"
    by (simp add: sample_event_def json_opt_def json_str_def escape_char_def cstr_def c_str_def)
  have "length (event_json sample_event) < 3000" using event_pieces_fit(2) [OF p(1)] t s by simp
  with c t s show ?thesis
    using print_event_exact [OF p(1), of 3000 "\<lambda>_. 0"] print_event_exact [OF p(2), of 102400 "\<lambda>_. 0"] by simp
qed

text \<open>
  C5. A message that make_message returns is a valid signed event: it returns 0, the text is the
  EVENT message of the event, the public key belongs to the secret key that was decoded or
  generated, the id is the SHA-256 of the serialisation of the very event (NIP-01 for time
  stamps of at most 15 digits), the signature is one that the library made of this id with that
  key, and with a difficulty for the id it has that many leading zero bits.
\<close>

theorem make_message_sound:
  assumes "make_message P args ev key jsonlen m w = (args', Some (Return (code, ev', Some json, w')))"
    and "event_wf ev" "- (2 ^ 31) \<le> args_kind args" "args_kind args < 2 ^ 31" "secp_sizes P"
  shows "code = 0 \<and> json = event_json ev' \<and> event_wf ev'
    \<and> (unat (ev_created_at ev') < 10 ^ 15 \<longrightarrow> ev_id ev' = fips_sha256 (nip01_serialization ev'))
    \<and> (\<exists>ctx k. key_ok P ctx k \<and> ev_pubkey ev' = pubkey k \<and> signed_by P ctx k ev')
    \<and> (has_flag (flags args') HAS_DIFFICULTY \<and> \<not> has_flag (flags args') HAS_MINE_PUBKEY \<longrightarrow>
         difficulty args \<le> int (count_leading_zero_bits (ev_id ev')))"
proof -
  obtain ctx w1 where "args' = args\<lparr>flags := flags args OR HAS_ENVELOPE\<rparr>"
      "message_core P ctx args' ev key jsonlen m w1 = Some (Return (code, ev', Some json, w'))"
    using assms(1) by (auto simp: make_message_def Let_def split: prod.splits if_splits)
  with message_core_sound [OF this(2) assms(2) _ _ assms(5)] assms(3,4) show ?thesis
    using commitment_is_nip01 [of ev'] by auto
qed

theorem make_message_sound_witness:
  "\<exists>ev'. make_message toy_platform sample_args sample_event blank_key 102400 (\<lambda>_. 0) 5 =
      (sample_args\<lparr>flags := flags sample_args OR HAS_ENVELOPE\<rparr>, Some (Return (0, ev', Some (event_json ev'), 7)))
    \<and> event_wf ev' \<and> (\<exists>ctx k. key_ok toy_platform ctx k \<and> ev_pubkey ev' = pubkey k \<and> signed_by toy_platform ctx k ev')"
proof -
  obtain ev' where run: "make_message toy_platform sample_args sample_event blank_key 102400 (\<lambda>_. 0) 5 =
      (sample_args\<lparr>flags := flags sample_args OR HAS_ENVELOPE\<rparr>, Some (Return (0, ev', Some (event_json ev'), 7)))"
    using sample_message by blast
  from make_message_sound [OF run sample_event_wf _ _ toy_sizes] run show ?thesis
    by (auto simp: sample_args_def)
qed

text \<open>
  With a usable secret key and no mining or encryption asked for, make_message returns the
  signed event: every step succeeds when the library and the random source do, the
  serialisation fits the buffers and the destination has 3000 bytes.
\<close>

theorem make_message_completes:
  assumes "init_secp_context P w = (True, ctx, w1)" "event_wf ev" "secp_sizes P" "3000 \<le> jsonlen"
    and "has_flag (flags args) HAS_CREATED_AT" "\<not> has_flag (flags args) HAS_ENCRYPT"
    and "\<not> has_flag (flags args) HAS_DIFFICULTY" "- (2 ^ 31) \<le> args_kind args" "args_kind args < 2 ^ 31"
    and "sec args = Some s" "decode_key P ctx s key = (True, k)" "pair k = Some kp"
    and "getrandom P 32 w1 = ((32, aux), w2)" "length aux = 32"
    and "e = (make_event_from_args (if args_tags args \<noteq> None then ev\<lparr>explicit_tags := args_tags args\<rparr> else ev)
                args 0)\<lparr>ev_pubkey := pubkey k\<rparr>"
    and "schnorrsig_sign32 P ctx (fips_sha256 (commitment_text e)) kp aux = Some sg"
    and "length (commitment_text e) < 102400" "length (tags_json e) \<le> 1014"
    and "length (json_opt (args_content args)) \<le> 1011"
  shows "\<exists>ev'. make_message P args ev key jsonlen m w =
      (args\<lparr>flags := flags args OR HAS_ENVELOPE\<rparr>, Some (Return (0, ev', Some (event_json ev'), w2)))
    \<and> ev' = e\<lparr>ev_id := fips_sha256 (commitment_text e), ev_sig := sg\<rparr>"
  using assms by (rule make_message_run)

theorem make_message_completes_witness:
  "\<exists>ev'. make_message toy_platform sample_args sample_event blank_key 102400 (\<lambda>_. 0) 5 =
      (sample_args\<lparr>flags := flags sample_args OR HAS_ENVELOPE\<rparr>, Some (Return (0, ev', Some (event_json ev'), 7)))"
  using make_message_completes [OF toy_init sample_event_wf toy_sizes, of 102400 sample_args
      "hex_text (replicate 32 7)" blank_key "\<lparr>pair = Some (replicate 32 7), secret = replicate 32 7, pubkey = replicate 32 7\<rparr>"
      "replicate 32 7" "replicate 32 6" 7 sample_signed "fips_sha256 (commitment_text sample_signed) @ replicate 32 7"
      "\<lambda>_. 0"] sample_signed_short toy_decode sample_flags
  by (auto simp: sample_args_def sample_signed_def toy_platform_def length_fips_sha256)

lemma envelope_same [simp]:
  "key_difficulty (args\<lparr>flags := flags args OR HAS_ENVELOPE\<rparr>) = key_difficulty args"
  "mines_id (args\<lparr>flags := flags args OR HAS_ENVELOPE\<rparr>) = mines_id args"
  "after_clock P (args\<lparr>flags := flags args OR HAS_ENVELOPE\<rparr>) w = after_clock P args w"
  by (simp_all add: key_difficulty_def mines_id_def after_clock_def)

text \<open>
  C38. The result codes of a run of make_message that returns. The code is 0, 2, 4, 5, 6, 8 or 22, so
  88 for a small buffer never occurs; there is a text only with 0. It is 2 exactly when the library
  cannot be initialised; 8 exactly when it can and the given secret is not 64 hexadecimal digits of
  a key that the library accepts; 4 exactly when it can, no secret was given and no key could be
  generated. 5 means that no proof of work was asked for and the serialisation is too long, 22 that
  one was asked for and the tags are full or the serialisation is too long, 6 that the random source
  failed or the library refused to sign the id. But 0, the code of success, comes without a text
  when an encrypted message cannot be made, so that the caller is not told.
\<close>

theorem make_message_codes:
  assumes "make_message P args ev key jsonlen m w = (args', Some (Return (code, ev', json, w')))"
    and "init_secp_context P w = (ok, ctx, w1)" "event_wf ev"
    and "- (2 ^ 31) \<le> args_kind args" "args_kind args < 2 ^ 31" "secp_sizes P" "length (secret key) = 32"
  shows "code \<in> {0, 2, 4, 5, 6, 8, 22} \<and> (json \<noteq> None \<longrightarrow> code = 0)
    \<and> (code = 2 \<longleftrightarrow> \<not> ok)
    \<and> (code = 8 \<longleftrightarrow> ok \<and> (\<exists>s. sec args = Some s
         \<and> \<not> (\<exists>bs. length bs = 32 \<and> hex_value (c_str s) = Some bs \<and> public_of P ctx bs \<noteq> None)))
    \<and> (code = 4 \<longleftrightarrow> ok \<and> sec args = None
         \<and> (\<exists>k w2. generate_key P ctx key (key_difficulty args) (after_clock P args w1) = Some ((False, k), w2)))
    \<and> (code = 5 \<longrightarrow> \<not> mines_id args \<and> 102400 \<le> length (commitment_text ev'))
    \<and> (code = 22 \<longrightarrow> mines_id args \<and> (num_tags ev' = MAX_TAGS \<or> 102400 \<le> length (commitment_text ev')))
    \<and> (code = 6 \<longrightarrow> (\<exists>w2. fst (fst (getrandom P 32 w2)) \<noteq> 32)
         \<or> (\<exists>k kp aux. key_ok P ctx k \<and> pair k = Some kp \<and> schnorrsig_sign32 P ctx (ev_id ev') kp aux = None))
    \<and> (code = 0 \<and> json = None \<longrightarrow> has_flag (flags args) HAS_ENCRYPT
         \<and> (\<exists>k e kind w2. make_encrypted_dm P ctx k e (encrypt_to args) kind m w2 = (Return (False, ev'), w')))"
proof (cases ok)
  case False
  then show ?thesis using assms(1,2) by (auto simp: make_message_def)
next
  case True
  let ?args = "args\<lparr>flags := flags args OR HAS_ENVELOPE\<rparr>"
  have core: "message_core P ctx ?args ev key jsonlen m w1 = Some (Return (code, ev', json, w'))"
    using assms(1,2) True by (auto simp: make_message_def Let_def)
  have kinds: "- (2 ^ 31) \<le> args_kind ?args" "args_kind ?args < 2 ^ 31" using assms(4,5) by simp_all
  show ?thesis
  proof (cases rule: message_core_cases [OF core assms(3) kinds assms(6)])
    case (1 k)
    with True obtain_key_codes [OF 1(1) assms(7)] show ?thesis by auto
  next
    case (2 k w2 e1)
    have "has_flag (flags args) HAS_ENCRYPT"
      using 2(2) by (auto simp: encrypt_step_def split: if_splits)
    moreover from this have "\<exists>kind. make_encrypted_dm P ctx k e1 (encrypt_to args) kind m w2 = (Return (False, ev'), w')"
      using 2(2) by (auto simp: encrypt_step_def Let_def)
    ultimately show ?thesis using True 2 obtain_key_codes [OF 2(1) assms(7)] by auto
  next
    case (3 k w2 e)
    with True obtain_key_codes [OF 3(1) assms(7)] id_step_codes [OF 3(2,3)] show ?thesis by auto
  next
    case (4 k w2 e e' w3)
    note I = id_step_ok(1,2) [OF 4(2,3)]
    have "length (ev_id e') = 32" using I(2) by (simp add: length_fips_sha256)
    note S = sign_and_print_codes [OF 4(4) I(1) this assms(6) obtain_key_ok [OF 4(1)] id_step_codes(2) [OF 4(2,3) refl]]
    then consider "code = 0" "json = Some (event_json ev')" | "code = 6" "json = None" "(\<exists>w2. fst (fst (getrandom P 32 w2)) \<noteq> 32)
         \<or> (\<exists>k kp aux. key_ok P ctx k \<and> pair k = Some kp \<and> schnorrsig_sign32 P ctx (ev_id ev') kp aux = None)"
      using obtain_key_ok [OF 4(1)] by blast
    then show ?thesis using True obtain_key_codes [OF 4(1) assms(7)] by cases simp_all
  qed
qed

theorem make_message_codes_witness:
  "\<exists>args' e. make_message toy_platform (sample_args\<lparr>sec := Some (cstr ''xyz'')\<rparr>) sample_event blank_key 102400
      (\<lambda>_. 0) 5 = (args', Some (Return (8, e, None, 6)))
    \<and> \<not> (\<exists>bs. length bs = 32 \<and> hex_value (cstr ''xyz'') = Some bs \<and> public_of toy_platform () bs \<noteq> None)"
proof -
  let ?args = "sample_args\<lparr>sec := Some (cstr ''xyz'')\<rparr>"
  have "\<not> fst (decode_key toy_platform () (cstr ''xyz'') blank_key)"
    by (simp add: decode_key_def cstr_def c_str_def hex_decode_def char_to_hex_def)
  then obtain args' e where run: "make_message toy_platform ?args sample_event blank_key 102400 (\<lambda>_. 0) 5
      = (args', Some (Return (8, e, None, 6)))"
    using sample_flags by (auto simp: make_message_def toy_init message_core_def obtain_key_def sample_args_def
        Let_def split_beta)
  have "\<not> (\<exists>bs. length bs = 32 \<and> hex_value (c_str (cstr ''xyz'')) = Some bs \<and> public_of toy_platform () bs \<noteq> None)"
    using make_message_codes [OF run toy_init sample_event_wf _ _ toy_sizes] by (auto simp: sample_args_def blank_key_def)
  with run show ?thesis by (auto simp: cstr_def c_str_def)
qed

end
