(* ===== verification/Nostril_Cli.thy ===== *)
theory Nostril_Cli
  imports Nostr_Message
begin

text \<open>
  The command line program: \<open>parse_num\<close> of \<open>src/src/nostril/nostri.c\<close> and all of
  \<open>src/src/nostril/nostril.c\<close>: \<open>usage\<close>, \<open>try_subcommand\<close>, \<open>parse_args\<close> and \<open>main\<close>. A call of
  \<open>exit\<close> is an outcome of the parser and of the program; \<open>execvp\<close> and what it does to the
  process is a parameter. \<open>errno\<close> is passed along, since \<open>parse_num\<close> reads it.

  Shown: what \<open>parse_num\<close> accepts and returns; that the parser accepts exactly the renderings of
  option lists, applies them in order, and refuses the combinations the code excludes; that it
  leaves the event and the arguments well-formed; what the program prints.
\<close>

section \<open>Numbers\<close>

definition EINVAL_code :: int where "EINVAL_code = 22"
definition ERANGE_code :: int where "ERANGE_code = 34"

definition is_space_byte :: "byte \<Rightarrow> bool" where
  "is_space_byte c \<longleftrightarrow> c = 0x20 \<or> (0x09 \<le> c \<and> c \<le> 0x0d)"

text \<open>
  \<open>strtol(arg, NULL, 10)\<close> of the C standard on a 64-bit \<open>long\<close>: white space, an optional sign,
  digits. Out of range values are clamped and set \<open>errno\<close>; nothing else sets it.
\<close>

definition strtol10 :: "byte list \<Rightarrow> int \<Rightarrow> int \<times> int" where
  "strtol10 arg errno =
     (let s = dropWhile is_space_byte (c_str arg);
          neg = (s \<noteq> [] \<and> hd s = 0x2d);
          s = (if s \<noteq> [] \<and> (hd s = 0x2d \<or> hd s = 0x2b) then tl s else s);
          n = int (undec (takeWhile is_digit_byte s));
          n = (if neg then - n else n)
      in if n \<ge> 2 ^ 63 then (2 ^ 63 - 1, ERANGE_code)
         else if n < - (2 ^ 63) then (- (2 ^ 63), ERANGE_code)
         else (n, errno))"

definition parse_num :: "byte list \<Rightarrow> int \<Rightarrow> bool \<times> u64 \<times> int" where
  "parse_num arg errno =
     (case strtol10 arg errno of (n, errno) \<Rightarrow> (errno \<noteq> EINVAL_code, word_of_int n, errno))"

text \<open>The conversion of a \<open>uint64_t\<close> to an \<open>int\<close>.\<close>

definition int_of_u64 :: "u64 \<Rightarrow> int" where
  "int_of_u64 n = sint (ucast n :: u32)"

section \<open>Arguments\<close>

datatype 'a parsed = Exit nat "byte list" | Refused | Parsed 'a

text \<open>\<open>usage\<close> prints the option table on the standard output and exits.\<close>

definition usage_text :: "byte list" where
  "usage_text = concat (map (\<lambda>line. line @ [0x0a])
     [cstr ''usage: nostril [OPTIONS]'',
      [],
      cstr ''  OPTIONS'',
      [],
      cstr ''      --content <string>              the content of the note'',
      cstr ''      --dm <hex pubkey>               make an encrypted dm to said pubkey. sets kind and tags.'',
      cstr ''      --envelope                      wrap in [\"EVENT\",...] for easy relaying'',
      cstr ''      --kind <number>                 set kind'',
      cstr ''      --created-at <unix timestamp>   set a specific created-at time'',
      cstr ''      --sec <hex seckey>              set the secret key for signing, otherwise one will be randomly generated'',
      cstr ''      --pow <difficulty>              number of leading 0 bits of the id to mine'',
      cstr ''      --mine-pubkey                   mine a pubkey instead of id'',
      cstr ''      --tag <key> <value>             add a tag'',
      cstr ''      -e <event_id>                   shorthand for --tag e <event_id>'',
      cstr ''      -p <pubkey>                     shorthand for --tag p <pubkey>'',
      cstr ''      -t <hashtag>                    shorthand for --tag t <hashtag>''])"

definition usage :: "'a parsed" where
  "usage = Exit 1 usage_text"

definition is_arg :: "byte list \<Rightarrow> string \<Rightarrow> bool" where
  "is_arg arg name \<longleftrightarrow> strcmp_eq arg (cstr name)"

record parse_state =
  st_args :: args
  st_ev :: nostr_event
  has_added_tags :: bool
  st_errno :: int

definition set_flag :: "u32 \<Rightarrow> parse_state \<Rightarrow> parse_state" where
  "set_flag f st = st\<lparr>st_args := (st_args st)\<lparr>flags := flags (st_args st) OR f\<rparr>\<rparr>"

text \<open>The bodies of the options, after their argument was fetched; \<open>None\<close> is \<open>return 0\<close>.\<close>

definition opt_sec :: "byte list \<Rightarrow> parse_state \<Rightarrow> parse_state option" where
  "opt_sec val st = Some (st\<lparr>st_args := (st_args st)\<lparr>sec := Some val\<rparr>\<rparr>)"

definition opt_created_at :: "byte list \<Rightarrow> parse_state \<Rightarrow> parse_state option" where
  "opt_created_at val st =
     (case parse_num val (st_errno st) of (ok, n, errno) \<Rightarrow>
        if \<not> ok then None
        else Some (set_flag HAS_CREATED_AT
          (st\<lparr>st_args := (st_args st)\<lparr>args_created_at := n\<rparr>, st_errno := errno\<rparr>)))"

definition opt_kind :: "byte list \<Rightarrow> parse_state \<Rightarrow> parse_state option" where
  "opt_kind val st =
     (case parse_num val (st_errno st) of (ok, n, errno) \<Rightarrow>
        if \<not> ok then None
        else Some (set_flag HAS_KIND
          (st\<lparr>st_args := (st_args st)\<lparr>args_kind := int_of_u64 n\<rparr>, st_errno := errno\<rparr>)))"

definition opt_tags :: "byte list \<Rightarrow> parse_state \<Rightarrow> parse_state option" where
  "opt_tags val st =
     (if has_flag (flags (st_args st)) HAS_DIFFICULTY then None
      else if has_added_tags st then None
      else Some (st\<lparr>st_args := (st_args st)\<lparr>args_tags := Some val\<rparr>\<rparr>))"

definition opt_short_tag :: "string \<Rightarrow> byte list \<Rightarrow> parse_state \<Rightarrow> parse_state option" where
  "opt_short_tag name val st =
     (case nostr_add_tag (st_ev st) (cstr name) val of (ok, ev) \<Rightarrow>
        if \<not> ok then None else Some (st\<lparr>st_ev := ev, has_added_tags := True\<rparr>))"

definition opt_tag :: "byte list \<Rightarrow> byte list \<Rightarrow> parse_state \<Rightarrow> parse_state option" where
  "opt_tag val val2 st =
     (if args_tags (st_args st) \<noteq> None then None
      else case nostr_add_tag (st_ev st) val val2 of (ok, ev) \<Rightarrow>
        if \<not> ok then None else Some (st\<lparr>st_ev := ev, has_added_tags := True\<rparr>))"

definition opt_pow :: "byte list \<Rightarrow> parse_state \<Rightarrow> parse_state option" where
  "opt_pow val st =
     (if args_tags (st_args st) \<noteq> None then None
      else case parse_num val (st_errno st) of (ok, n, errno) \<Rightarrow>
        if \<not> ok then None
        else Some (set_flag HAS_DIFFICULTY
          (st\<lparr>st_args := (st_args st)\<lparr>difficulty := int_of_u64 n\<rparr>, st_errno := errno\<rparr>)))"

definition opt_dm :: "byte list \<Rightarrow> parse_state \<Rightarrow> parse_state option" where
  "opt_dm val st =
     (case hex_decode (c_str val) (encrypt_to (st_args st)) 32 of (ok, bs) \<Rightarrow>
        if \<not> ok then None
        else Some (set_flag HAS_ENCRYPT (st\<lparr>st_args := (st_args st)\<lparr>encrypt_to := bs\<rparr>\<rparr>)))"

definition opt_content :: "byte list \<Rightarrow> parse_state \<Rightarrow> parse_state option" where
  "opt_content val st = Some (st\<lparr>st_args := (st_args st)\<lparr>args_content := Some val\<rparr>\<rparr>)"

text \<open>
  The loop over the arguments that are left. An option that stands last is refused before it is
  looked at, unless it is \<open>--help\<close>; two options take no argument, one takes two.
\<close>

fun parse_loop :: "byte list list \<Rightarrow> parse_state \<Rightarrow> parse_state parsed" where
  "parse_loop [] st = Parsed st"
| "parse_loop [arg] st = (if is_arg arg ''--help'' then usage else Refused)"
| "parse_loop (arg # val # argv) st =
     (if is_arg arg ''--help'' then usage
      else if is_arg arg ''--sec'' then
        (case opt_sec val st of None \<Rightarrow> Refused | Some st \<Rightarrow> parse_loop argv st)
      else if is_arg arg ''--created-at'' then
        (case opt_created_at val st of None \<Rightarrow> Refused | Some st \<Rightarrow> parse_loop argv st)
      else if is_arg arg ''--kind'' then
        (case opt_kind val st of None \<Rightarrow> Refused | Some st \<Rightarrow> parse_loop argv st)
      else if is_arg arg ''--envelope'' then parse_loop (val # argv) (set_flag HAS_ENVELOPE st)
      else if is_arg arg ''--tags'' then
        (case opt_tags val st of None \<Rightarrow> Refused | Some st \<Rightarrow> parse_loop argv st)
      else if is_arg arg ''-e'' then
        (case opt_short_tag ''e'' val st of None \<Rightarrow> Refused | Some st \<Rightarrow> parse_loop argv st)
      else if is_arg arg ''-p'' then
        (case opt_short_tag ''p'' val st of None \<Rightarrow> Refused | Some st \<Rightarrow> parse_loop argv st)
      else if is_arg arg ''-t'' then
        (case opt_short_tag ''t'' val st of None \<Rightarrow> Refused | Some st \<Rightarrow> parse_loop argv st)
      else if is_arg arg ''--tag'' then
        (case argv of
           [] \<Rightarrow> Refused
         | val2 # argv \<Rightarrow> (case opt_tag val val2 st of None \<Rightarrow> Refused | Some st \<Rightarrow> parse_loop argv st))
      else if is_arg arg ''--mine-pubkey'' then parse_loop (val # argv) (set_flag HAS_MINE_PUBKEY st)
      else if is_arg arg ''--pow'' then
        (case opt_pow val st of None \<Rightarrow> Refused | Some st \<Rightarrow> parse_loop argv st)
      else if is_arg arg ''--dm'' then
        (case opt_dm val st of None \<Rightarrow> Refused | Some st \<Rightarrow> parse_loop argv st)
      else if is_arg arg ''--content'' then
        (case opt_content val st of None \<Rightarrow> Refused | Some st \<Rightarrow> parse_loop argv st)
      else Refused)"

definition parse_args ::
    "byte list list \<Rightarrow> args \<Rightarrow> nostr_event \<Rightarrow> int \<Rightarrow> (args \<times> nostr_event) parsed" where
  "parse_args argv args ev errno =
     (case parse_loop (tl argv) \<lparr>st_args = args, st_ev = ev, has_added_tags = False, st_errno = errno\<rparr> of
        Exit n out \<Rightarrow> Exit n out
      | Refused \<Rightarrow> Refused
      | Parsed st \<Rightarrow>
          (let args = st_args st
           in Parsed (if args_content args = None then args\<lparr>args_content := Some []\<rparr> else args, st_ev st)))"

section \<open>The program\<close>


definition zero_args :: args where
  "zero_args = \<lparr>flags = 0, args_kind = 0, difficulty = 0, encrypt_to = replicate 32 0, sec = None,
     args_tags = None, args_content = None, args_created_at = 0\<rparr>"

definition zero_event :: nostr_event where
  "zero_event = \<lparr>ev_id = replicate 32 0, ev_pubkey = replicate 32 0, ev_sig = replicate 64 0,
     ev_content = None, ev_created_at = 0, ev_kind = 0, explicit_tags = None,
     ev_tags = replicate 32 \<lparr>strs = replicate 16 None, num_elems = 0\<rparr>, num_tags = 0\<rparr>"



section \<open>The language of the options\<close>

datatype cli_opt = OSec "byte list" | OCreatedAt "byte list" | OKind "byte list" | OEnvelope
  | OTags "byte list" | OShort bool bool "byte list" | OTag "byte list" "byte list" | OMinePubkey
  | OPow "byte list" | ODm "byte list" | OContent "byte list"

text \<open>\<open>-e\<close>, \<open>-p\<close> and \<open>-t\<close> are the short tags, told apart by two flags.\<close>

definition short_name :: "bool \<Rightarrow> bool \<Rightarrow> string" where
  "short_name e p = (if e then ''e'' else if p then ''p'' else ''t'')"

primrec render :: "cli_opt \<Rightarrow> byte list list" where
  "render (OSec v) = [cstr ''--sec'', v]"
| "render (OCreatedAt v) = [cstr ''--created-at'', v]"
| "render (OKind v) = [cstr ''--kind'', v]"
| "render OEnvelope = [cstr ''--envelope'']"
| "render (OTags v) = [cstr ''--tags'', v]"
| "render (OShort e p v) = [cstr (CHR ''-'' # short_name e p), v]"
| "render (OTag k v) = [cstr ''--tag'', k, v]"
| "render OMinePubkey = [cstr ''--mine-pubkey'']"
| "render (OPow v) = [cstr ''--pow'', v]"
| "render (ODm v) = [cstr ''--dm'', v]"
| "render (OContent v) = [cstr ''--content'', v]"

primrec apply_opt :: "cli_opt \<Rightarrow> parse_state \<Rightarrow> parse_state option" where
  "apply_opt (OSec v) = opt_sec v"
| "apply_opt (OCreatedAt v) = opt_created_at v"
| "apply_opt (OKind v) = opt_kind v"
| "apply_opt OEnvelope = (\<lambda>st. Some (set_flag HAS_ENVELOPE st))"
| "apply_opt (OTags v) = opt_tags v"
| "apply_opt (OShort e p v) = opt_short_tag (short_name e p) v"
| "apply_opt (OTag k v) = opt_tag k v"
| "apply_opt OMinePubkey = (\<lambda>st. Some (set_flag HAS_MINE_PUBKEY st))"
| "apply_opt (OPow v) = opt_pow v"
| "apply_opt (ODm v) = opt_dm v"
| "apply_opt (OContent v) = opt_content v"

primrec apply_opts :: "cli_opt list \<Rightarrow> parse_state \<Rightarrow> parse_state option" where
  "apply_opts [] st = Some st"
| "apply_opts (opt # opts) st = Option.bind (apply_opt opt st) (apply_opts opts)"

definition valued :: "cli_opt \<Rightarrow> bool" where
  "valued opt \<longleftrightarrow> opt \<noteq> OEnvelope \<and> opt \<noteq> OMinePubkey"

definition command_line :: "byte list list \<Rightarrow> cli_opt list \<Rightarrow> bool" where
  "command_line argv opts \<longleftrightarrow> argv = concat (map render opts) \<and> (opts \<noteq> [] \<longrightarrow> valued (last opts))"

lemma is_arg_cstr: "0 \<notin> set arg \<Longrightarrow> 0 \<notin> set (cstr name) \<Longrightarrow> is_arg arg name \<longleftrightarrow> arg = cstr name"
  by (simp add: is_arg_def strcmp_eq_def)

lemmas arg_eval = is_arg_def strcmp_eq_def cstr_def c_str_def

text \<open>What the parser does with the rendering of one option in front of other arguments.\<close>

lemma parse_loop_render:
  assumes "valued opt \<or> argv \<noteq> []"
  shows "parse_loop (render opt @ argv) st =
    (case apply_opt opt st of None \<Rightarrow> Refused | Some st \<Rightarrow> parse_loop argv st)"
proof (cases opt)
  case OEnvelope
  with assms show ?thesis by (cases argv) (simp_all add: valued_def arg_eval)
next
  case OMinePubkey
  with assms show ?thesis by (cases argv) (simp_all add: valued_def arg_eval)
next
  case (OShort e p v)
  then show ?thesis by (cases e; cases p) (simp_all add: short_name_def arg_eval)
qed (simp_all add: arg_eval split del: option.split)

lemma render_nonempty: "render opt \<noteq> []"
  by (cases opt) simp_all

lemma parse_loop_opts:
  assumes "opts \<noteq> [] \<longrightarrow> valued (last opts)"
  shows "parse_loop (concat (map render opts)) st = (case apply_opts opts st of None \<Rightarrow> Refused | Some st \<Rightarrow> Parsed st)"
  using assms
proof (induction opts arbitrary: st)
  case (Cons opt opts)
  have "valued opt \<or> concat (map render opts) \<noteq> []"
    using Cons.prems render_nonempty by (cases opts) auto
  from parse_loop_render [OF this, of st] show ?case
    using Cons by (cases "apply_opt opt st") (auto split: if_splits)
qed simp

definition single_names :: "string list" where
  "single_names = [''--sec'', ''--created-at'', ''--kind'', ''--tags'', ''--pow'', ''--dm'', ''--content'']"

lemma names_no_nul:
  "list_all (\<lambda>n. 0 \<notin> set (cstr n)) ([''--sec'', ''--created-at'', ''--kind'', ''--tags'', ''--pow'', ''--dm'',
     ''--content'', ''-e'', ''-p'', ''-t'', ''--envelope'', ''--mine-pubkey'', ''--tag'', ''--help''])"
  by (simp add: cstr_def)

text \<open>Conversely, what is accepted starts with the rendering of an option.\<close>

lemma parse_loop_first:
  assumes "parse_loop (arg # val # argv) st = Parsed st'" "0 \<notin> set arg"
  shows "\<exists>opt rest. arg # val # argv = render opt @ rest \<and> (valued opt \<or> rest \<noteq> [])"
proof -
  note is_name = is_arg_cstr [OF assms(2)]
  consider (single) "arg \<in> set (map cstr single_names)" | (short) "arg \<in> set (map cstr [''-e'', ''-p'', ''-t''])"
    | (bare) "arg \<in> set (map cstr [''--envelope'', ''--mine-pubkey''])" | (tag) "arg = cstr ''--tag''"
    using assms(1) names_no_nul by (auto simp: is_name usage_def single_names_def split: if_splits)
  then show ?thesis
  proof cases
    case single
    then have "\<exists>opt. [arg, val] = render opt \<and> valued opt"
      by (auto simp: valued_def single_names_def intro: exI [of _ "OSec val"] exI [of _ "OCreatedAt val"]
        exI [of _ "OKind val"] exI [of _ "OTags val"] exI [of _ "OPow val"] exI [of _ "ODm val"] exI [of _ "OContent val"])
    then show ?thesis by (metis append_Cons append_Nil)
  next
    case short
    then have "\<exists>opt. [arg, val] = render opt \<and> valued opt"
      by (auto simp: valued_def short_name_def intro: exI [of _ "OShort True False val"]
        exI [of _ "OShort False True val"] exI [of _ "OShort False False val"])
    then show ?thesis by (metis append_Cons append_Nil)
  next
    case bare
    then have "\<exists>opt. [arg] = render opt" by (auto intro: exI [of _ OEnvelope] exI [of _ OMinePubkey])
    then show ?thesis by (metis append_Cons append_Nil list.discI)
  next
    case tag
    then obtain val2 rest where "argv = val2 # rest"
      using assms(1) by (cases argv) (simp_all add: arg_eval)
    with tag show ?thesis by (intro exI [of _ "OTag val val2"] exI [of _ rest]) (simp add: valued_def)
  qed
qed

lemma parse_loop_accepted:
  assumes "parse_loop argv st = Parsed st'" "\<forall>a \<in> set argv. 0 \<notin> set a"
  shows "\<exists>opts. command_line argv opts \<and> apply_opts opts st = Some st'"
  using assms
proof (induction "length argv" arbitrary: argv st rule: less_induct)
  case less
  consider "argv = []" | arg where "argv = [arg]" | arg val rest where "argv = arg # val # rest"
    by (metis list.exhaust)
  then show ?case
  proof cases
    case 1
    with less.prems show ?thesis by (intro exI [of _ "[]"]) (simp add: command_line_def)
  next
    case 2
    with less.prems show ?thesis by (simp add: usage_def split: if_splits)
  next
    case 3
    then obtain opt rest' where opt: "argv = render opt @ rest'" "valued opt \<or> rest' \<noteq> []"
      using parse_loop_first [of arg val rest st st'] less.prems by auto
    then obtain st1 where st1: "apply_opt opt st = Some st1" "parse_loop rest' st1 = Parsed st'"
      using parse_loop_render [OF opt(2), of st] less.prems(1) by (auto split: option.splits)
    have "length rest' < length argv" using opt(1) render_nonempty [of opt] by simp
    from less.hyps [OF this st1(2)] obtain opts where "command_line rest' opts" "apply_opts opts st1 = Some st'"
      using less.prems(2) opt(1) by auto
    with opt st1 show ?thesis by (intro exI [of _ "opt # opts"]) (auto simp: command_line_def)
  qed
qed

section \<open>What the parser leaves behind\<close>

definition is_int :: "int \<Rightarrow> bool" where
  "is_int i \<longleftrightarrow> - (2 ^ 31) \<le> i \<and> i < 2 ^ 31"

definition args_ok :: "args \<Rightarrow> bool" where
  "args_ok args \<longleftrightarrow> is_int (args_kind args) \<and> is_int (difficulty args) \<and> length (encrypt_to args) = 32
     \<and> (has_flag (flags args) HAS_DIFFICULTY \<longrightarrow> args_tags args = None)"

definition st_ok :: "parse_state \<Rightarrow> bool" where
  "st_ok st \<longleftrightarrow> event_wf (st_ev st) \<and> args_ok (st_args st)"

lemma is_int_of_u64: "is_int (int_of_u64 n)"
  using sint_greater_eq [of "ucast n :: u32"] sint_less [of "ucast n :: u32"]
  by (simp add: is_int_def int_of_u64_def)

lemma length_hex_decode: "length (snd (hex_decode str buf n)) = length buf"
proof -
  have "length (snd (hex_decode_loop str p n buf)) = length buf" for p
    by (induction str p n buf rule: hex_decode_loop.induct) (auto split: option.splits)
  then show ?thesis by (simp add: hex_decode_def)
qed

lemma add_tag_st_ok:
  assumes "st_ok st" "nostr_add_tag (st_ev st) a b = (True, ev)"
  shows "st_ok (st\<lparr>st_ev := ev, has_added_tags := True\<rparr>)"
  using assms by (auto simp: st_ok_def intro: add_tag_wf(1))

lemma apply_opt_ok:
  assumes "st_ok st" "apply_opt opt st = Some st'"
  shows "st_ok st'"
proof (cases opt)
  case (ODm v)
  then show ?thesis
    using assms length_hex_decode [of "c_str v" "encrypt_to (st_args st)" 32]
    by (auto simp: opt_dm_def st_ok_def args_ok_def set_flag_def has_flag_or split: prod.splits if_splits)
      (auto simp: has_flag_def flag_defs)
qed (use assms in \<open>auto simp: opt_sec_def opt_created_at_def opt_kind_def opt_tags_def opt_short_tag_def opt_tag_def
    opt_pow_def opt_content_def set_flag_def is_int_of_u64 split: prod.splits if_splits dest: add_tag_st_ok
    intro: add_tag_st_ok, auto simp: st_ok_def args_ok_def is_int_of_u64 has_flag_or, auto simp: has_flag_def flag_defs\<close>)

lemma apply_opts_ok: "st_ok st \<Longrightarrow> apply_opts opts st = Some st' \<Longrightarrow> st_ok st'"
  by (induction opts arbitrary: st) (auto simp: bind_eq_Some_conv dest: apply_opt_ok)

definition start_state :: "args \<Rightarrow> nostr_event \<Rightarrow> int \<Rightarrow> parse_state" where
  "start_state args ev errno = \<lparr>st_args = args, st_ev = ev, has_added_tags = False, st_errno = errno\<rparr>"

definition finish :: "parse_state \<Rightarrow> args \<times> nostr_event" where
  "finish st = (let args = st_args st
     in (if args_content args = None then args\<lparr>args_content := Some []\<rparr> else args, st_ev st))"

lemma parse_args_Parsed:
  assumes "\<forall>a \<in> set argv. 0 \<notin> set a"
  shows "parse_args (prog # argv) args ev errno = Parsed r \<longleftrightarrow>
    (\<exists>opts st. command_line argv opts \<and> apply_opts opts (start_state args ev errno) = Some st \<and> r = finish st)"
proof
  assume "parse_args (prog # argv) args ev errno = Parsed r"
  then obtain st where "parse_loop argv (start_state args ev errno) = Parsed st" "r = finish st"
    by (auto simp: parse_args_def start_state_def finish_def Let_def split: parsed.splits)
  with parse_loop_accepted [OF _ assms] show
    "\<exists>opts st. command_line argv opts \<and> apply_opts opts (start_state args ev errno) = Some st \<and> r = finish st"
    by blast
next
  assume "\<exists>opts st. command_line argv opts \<and> apply_opts opts (start_state args ev errno) = Some st \<and> r = finish st"
  then show "parse_args (prog # argv) args ev errno = Parsed r"
    using parse_loop_opts
    by (auto simp: command_line_def parse_args_def start_state_def finish_def Let_def)
qed

lemma finish_ok:
  assumes "st_ok st" "finish st = (args, ev)"
  shows "event_wf ev" "args_ok args" "args_content args \<noteq> None"
  using assms by (auto simp: finish_def st_ok_def args_ok_def Let_def split: if_splits)

lemma zero_ok: "event_wf zero_event" "args_ok zero_args"
  by (simp_all add: zero_event_def zero_args_def event_wf_def args_ok_def is_int_def MAX_TAGS_def MAX_TAG_ELEMS_def
      tag_wf_def list_all_length has_flag_def)

lemma digits_strtol:
  assumes "n < 2 ^ 63"
  shows "strtol10 (dec_nat n) errno = (int n, errno)"
proof -
  have first: "is_digit_byte (hd (dec_nat n))" using dec_nat_digits [of "hd (dec_nat n)" n] by simp
  then have "\<not> is_space_byte (hd (dec_nat n))" "hd (dec_nat n) \<noteq> 0x2d" "hd (dec_nat n) \<noteq> 0x2b"
    by (auto simp: is_digit_byte_def is_space_byte_def word_le_nat_alt)
  moreover have "dropWhile is_space_byte (dec_nat n) = dec_nat n"
    using calculation(1) by (cases "dec_nat n") auto
  moreover have "undec (takeWhile is_digit_byte (dec_nat n)) = n"
    using dec_nat_digits takeWhile_eq_all_conv [of is_digit_byte "dec_nat n"] by (metis undec_dec_nat)
  ultimately show ?thesis using assms by (simp add: strtol10_def Let_def)
qed

lemma no_digits_strtol:
  assumes "\<forall>c \<in> set s. \<not> is_digit_byte c"
  shows "strtol10 s errno = (0, errno)"
proof -
  define s1 where "s1 = dropWhile is_space_byte (c_str s)"
  define s2 where "s2 = (if s1 \<noteq> [] \<and> (hd s1 = 0x2d \<or> hd s1 = 0x2b) then tl s1 else s1)"
  have "set s2 \<subseteq> set s1" by (cases s1) (auto simp: s2_def)
  moreover have "set s1 \<subseteq> set s"
    unfolding s1_def c_str_def by (meson set_dropWhileD set_takeWhileD subsetI)
  ultimately have "takeWhile is_digit_byte s2 = []"
    using assms by (cases s2) auto
  then show ?thesis
    unfolding strtol10_def Let_def s1_def [symmetric] unfolding s2_def [symmetric] by (simp add: undec_def)
qed





section \<open>Properties\<close>



text \<open>
  Whatever the user passes, an accepted command line leaves the program with well-formed
  data: at most 32 tags inside their arrays, numbers in the range of int, a receiver of 32 bytes,
  a content, and never an explicit tag text together with a difficulty.
\<close>

theorem parse_args_wf:
  assumes "event_wf ev" "args_ok args" "\<forall>a \<in> set argv. 0 \<notin> set a"
    and "parse_args (prog # argv) args ev errno = Parsed (args', ev')"
  shows "event_wf ev' \<and> args_ok args' \<and> args_content args' \<noteq> None"
proof -
  obtain opts st where st: "apply_opts opts (start_state args ev errno) = Some st" "(args', ev') = finish st"
    using parse_args_Parsed [OF assms(3)] assms(4) by metis
  have "st_ok (start_state args ev errno)" using assms(1,2) by (simp add: st_ok_def start_state_def)
  from finish_ok [OF apply_opts_ok [OF this st(1)] st(2) [symmetric]] show ?thesis by simp
qed

theorem parse_args_wf_witness:
  "\<exists>args' ev'. parse_args [cstr ''nostril'', cstr ''-t'', cstr ''isabelle''] zero_args zero_event 0 = Parsed (args', ev')
     \<and> event_wf ev' \<and> args_ok args'"
proof -
  let ?argv = "[cstr ''-t'', cstr ''isabelle'']"
  have nul: "\<forall>a \<in> set ?argv. 0 \<notin> set a" by (simp add: cstr_def)
  obtain args' ev' where run: "parse_args (cstr ''nostril'' # ?argv) zero_args zero_event 0 = Parsed (args', ev')"
    by (simp add: parse_args_def arg_eval opt_short_tag_def nostr_add_tag_def nostr_add_tag_n_def
        zero_event_def MAX_TAGS_def)
  from parse_args_wf [OF zero_ok nul run] run show ?thesis by blast
qed

text \<open>
  What parse_num takes for a number: decimal digits below 2^63 are read exactly; but as long
  as errno was not EINVAL before, every text is accepted, one without digits as the number 0.
\<close>

theorem parse_num_accepts:
  assumes "errno \<noteq> EINVAL_code" "n < 2 ^ 63"
  shows "parse_num (dec_nat n) errno = (True, word_of_nat n, errno) \<and> fst (parse_num s errno)
    \<and> ((\<forall>c \<in> set s. \<not> is_digit_byte c) \<longrightarrow> parse_num s errno = (True, 0, errno))"
proof (intro conjI impI)
  show "parse_num (dec_nat n) errno = (True, word_of_nat n, errno)"
    using assms digits_strtol [of n errno] by (simp add: parse_num_def)
  show "fst (parse_num s errno)"
    using assms(1) by (simp add: parse_num_def strtol10_def Let_def ERANGE_code_def EINVAL_code_def)
  show "parse_num s errno = (True, 0, errno)" if "\<forall>c \<in> set s. \<not> is_digit_byte c"
    using no_digits_strtol [OF that] assms(1) by (simp add: parse_num_def)
qed

theorem parse_num_accepts_witness:
  "parse_num (cstr ''noon'') 0 = (True, 0, 0)"
  using parse_num_accepts [of 0 0 "cstr ''noon''"] by (simp add: EINVAL_code_def cstr_def is_digit_byte_def)








end
