(* ===== verification/Comm_Log.thy ===== *)
theory Comm_Log
  imports Json_Text
begin

text \<open>
  Files, the clock and the log: \<open>src/src/log.cc\<close> over the state \<open>world\<close> of a running program.
  The files of the working directory are a map from names to contents; opening a file that
  cannot be written leaves a stream on which output has no effect, as in the sources, which do
  not test for it. The formatting of times by the C library is a field of the state.

  Shown: which files each function changes and to what; texts and JSON values are found again
  in the files they were written to.
\<close>

section \<open>State\<close>

record world =
  files :: "byte list \<rightharpoonup> byte list"
  writable :: "byte list \<Rightarrow> bool"
  cout :: "byte list"
  clock :: "nat \<Rightarrow> u64"
  ticks :: nat
  local_time :: "byte list \<Rightarrow> u64 \<Rightarrow> byte list"
  log_program_name :: "byte list"
  ofs_log :: "byte list option"

text \<open>\<open>std::time(0)\<close>; the clock may give any values.\<close>

definition std_time :: "world \<Rightarrow> u64 \<times> world" where
  "std_time w = (clock w (ticks w), w\<lparr>ticks := ticks w + 1\<rparr>)"

definition put :: "byte list \<Rightarrow> world \<Rightarrow> world" where
  "put s w = w\<lparr>cout := cout w @ s @ [0x0a]\<rparr>"

text \<open>A new output stream on a file: opened, written and closed.\<close>

definition write_file :: "byte list \<Rightarrow> byte list \<Rightarrow> world \<Rightarrow> world" where
  "write_file name s w = (if writable w name then w\<lparr>files := (files w)(name \<mapsto> s)\<rparr> else w)"

text \<open>All bytes of a file; a stream that could not be opened has none.\<close>

definition stream_bytes :: "byte list \<Rightarrow> world \<Rightarrow> byte list" where
  "stream_bytes name w = (case files w name of Some s \<Rightarrow> s | None \<Rightarrow> [])"

section \<open>Operations\<close>

definition log_name :: "world \<Rightarrow> byte list" where
  "log_name w = log_program_name w @ cstr ''.log.txt''"

definition comm_start_log :: "world \<Rightarrow> world" where
  "comm_start_log w =
     (if writable w (log_name w)
      then w\<lparr>files := (files w)(log_name w \<mapsto> []), ofs_log := Some (log_name w)\<rparr> else w)"

definition get_time_now :: "byte list \<Rightarrow> world \<Rightarrow> byte list \<times> world" where
  "get_time_now time_format w = (case std_time w of (t, w) \<Rightarrow> (c_str (local_time w time_format t), w))"

definition log_line :: "byte list \<Rightarrow> world \<Rightarrow> world" where
  "log_line s w =
     (case ofs_log w of
        None \<Rightarrow> w
      | Some name \<Rightarrow> w\<lparr>files := (files w)(name := map_option (\<lambda>old. old @ s @ [0x0a]) (files w name))\<rparr>)"

definition comm_log :: "byte list \<Rightarrow> world \<Rightarrow> world" where
  "comm_log msg w =
     (case get_time_now (cstr ''%X'') w of (now, w) \<Rightarrow>
      let w = put (log_program_name w @ cstr '':'' @ now @ cstr '' '' @ msg) w in
      case get_time_now (cstr ''%Y-%m-%d,%X'') w of (now, w) \<Rightarrow>
        log_line (now @ cstr '' '' @ msg) w)"

definition json_to_file :: "json_lib \<Rightarrow> byte list \<Rightarrow> byte list \<Rightarrow> world \<Rightarrow> world" where
  "json_to_file L name buf w =
     (case then_try (json_parse L buf) (json_dump L Indent_1) of
        Inl e \<Rightarrow> comm_log (what L e) w
      | Inr json \<Rightarrow> put json (write_file name json w))"

definition to_file :: "byte list \<Rightarrow> byte list \<Rightarrow> world \<Rightarrow> world" where
  "to_file name buf w = put buf (write_file name buf w)"

definition from_file :: "byte list \<Rightarrow> byte list \<Rightarrow> world \<Rightarrow> int \<times> byte list" where
  "from_file name buf w = (case files w name of None \<Rightarrow> (- 1, buf) | Some s \<Rightarrow> (0, s))"

definition lines_of :: "byte list list \<Rightarrow> byte list" where
  "lines_of vec = concat (map (\<lambda>s. s @ [0x0a]) vec)"

definition to_file_vec :: "byte list \<Rightarrow> byte list list \<Rightarrow> world \<Rightarrow> world" where
  "to_file_vec name vec w = fold put vec (write_file name (lines_of vec) w)"

section \<open>What changes\<close>

text \<open>
  The log goes to standard output and to the log file; nothing else is changed by it. The
  facts are the frame rules of every function that logs.
\<close>

named_theorems frame

definition quiet :: "world \<Rightarrow> world \<Rightarrow> bool" where
  "quiet w w' \<longleftrightarrow> writable w' = writable w \<and> clock w' = clock w \<and> local_time w' = local_time w
     \<and> log_program_name w' = log_program_name w \<and> ofs_log w' = ofs_log w
     \<and> (\<forall>name. ofs_log w \<noteq> Some name \<longrightarrow> files w' name = files w name)"

lemma quiet_refl [intro, simp]: "quiet w w"
  by (simp add: quiet_def)

lemma quiet_trans [trans]: "quiet w w' \<Longrightarrow> quiet w' w'' \<Longrightarrow> quiet w w''"
  by (simp add: quiet_def)

lemma quiet_put [frame, simp]: "quiet w (put s w)"
  by (simp add: quiet_def put_def)

lemma quiet_std_time [frame]: "std_time w = (t, w') \<Longrightarrow> quiet w w'"
  by (auto simp: std_time_def quiet_def)

lemma quiet_comm_log [frame, simp]: "quiet w (comm_log msg w)"
  by (auto simp: quiet_def comm_log_def get_time_now_def std_time_def put_def log_line_def Let_def split: option.splits)

lemma quiet_write_file:
  "writable (write_file name s w) = writable w" "ofs_log (write_file name s w) = ofs_log w"
  "log_program_name (write_file name s w) = log_program_name w"
  "files (write_file name s w) n = (if n = name \<and> writable w name then Some s else files w n)"
  by (simp_all add: write_file_def)

text \<open>
  The log file is not one of the files the programs write: the log, if open, is a file whose
  name ends in \<open>.log.txt\<close>.
\<close>

definition log_apart :: "world \<Rightarrow> bool" where
  "log_apart w \<longleftrightarrow> (\<forall>name. ofs_log w = Some name \<longrightarrow> (\<exists>p. name = p @ cstr ''.log.txt''))"

lemma log_apart_file:
  assumes "log_apart w" "name \<noteq> []" "last name \<noteq> 0x74"
  shows "ofs_log w \<noteq> Some name"
proof
  assume "ofs_log w = Some name"
  with assms(1) obtain p where "name = p @ cstr ''.log.txt''" by (auto simp: log_apart_def)
  with assms(3) show False by (simp add: cstr_def)
qed

lemma quiet_files: "quiet w w' \<Longrightarrow> ofs_log w \<noteq> Some name \<Longrightarrow> files w' name = files w name"
  by (simp add: quiet_def)

lemma quiet_log_apart: "quiet w w' \<Longrightarrow> log_apart w' = log_apart w"
  by (simp add: quiet_def log_apart_def)

lemma quiet_writable: "quiet w w' \<Longrightarrow> writable w' = writable w"
  by (simp add: quiet_def)

lemma quiet_start: "ofs_log w = None \<Longrightarrow> log_apart (comm_start_log w)"
  by (simp add: comm_start_log_def log_apart_def log_name_def)

text \<open>
  The text functions of the log module keep what they write: a text, or the lines of a vector,
  is read back from the file; a JSON message is written as the text of the same value, and a
  file that cannot be parsed as JSON leaves the old one in place. No other file changes but the
  log.
\<close>

lemma put_files [simp]: "files (put s w) = files w" "writable (put s w) = writable w" "ofs_log (put s w) = ofs_log w"
  by (simp_all add: put_def)

lemma fold_put_files [simp]:
  "files (fold put ss w) = files w" "writable (fold put ss w) = writable w" "ofs_log (fold put ss w) = ofs_log w"
  by (induction ss arbitrary: w) simp_all

lemma json_to_file_frame:
  "writable (json_to_file L name s w) = writable w"
  "ofs_log (json_to_file L name s w) = ofs_log w"
  "n \<noteq> name \<Longrightarrow> ofs_log w \<noteq> Some n \<Longrightarrow> files (json_to_file L name s w) n = files w n"
  using quiet_comm_log [of w]
  by (auto simp: json_to_file_def quiet_write_file quiet_def split: sum.splits)

lemma log_apart_json_to_file [simp]: "log_apart (json_to_file L name s w) = log_apart w"
  by (simp add: log_apart_def json_to_file_frame)

text \<open>
  Files give back what was written: after to_file, from_file returns the text; after
  to_file of a vector, the file holds its elements, one to a line; after json_to_file of a JSON
  text, the file holds a text that reads as the same value. A text that is no JSON leaves
  the file as it was. In all cases no other file but the log changes, and from_file of a file
  that does not exist returns -1 and leaves the buffer.
\<close>

theorem files_round_trip:
  assumes "writable w name" "ofs_log w \<noteq> Some name" "json_lib_ok L"
  shows "from_file name buf (to_file name s w) = (0, s)
    \<and> from_file name buf (to_file_vec name ss w) = (0, lines_of ss)
    \<and> (json_parse L s = Inr j \<and> json_exact j \<longrightarrow>
        (\<exists>t. from_file name buf (json_to_file L name s w) = (0, t) \<and> json_parse L t = Inr j))
    \<and> (json_parse L s = Inl e \<longrightarrow> from_file name buf (json_to_file L name s w) = from_file name buf w)
    \<and> (\<forall>n. n \<noteq> name \<and> ofs_log w \<noteq> Some n \<longrightarrow>
        files (to_file name s w) n = files w n \<and> files (to_file_vec name ss w) n = files w n
        \<and> files (json_to_file L name s w) n = files w n)
    \<and> (files w name = None \<longrightarrow> from_file name buf w = (- 1, buf))"
proof (intro conjI impI)
  assume j: "json_parse L s = Inr j \<and> json_exact j"
  obtain t where "json_dump L Indent_1 j = Inr t" "json_parse L t = Inr j"
    using dump_parse_obtain [OF assms(3) parse_utf8 [OF assms(3)], of s j Indent_1] j by blast
  with j assms(1) show "\<exists>t. from_file name buf (json_to_file L name s w) = (0, t) \<and> json_parse L t = Inr j"
    by (simp add: json_to_file_def from_file_def quiet_write_file)
next
  assume "json_parse L s = Inl e"
  then show "from_file name buf (json_to_file L name s w) = from_file name buf w"
    using quiet_files [OF quiet_comm_log assms(2)] by (simp add: json_to_file_def from_file_def)
qed (use assms in \<open>auto simp: from_file_def to_file_def to_file_vec_def quiet_write_file json_to_file_frame\<close>)

definition sample_world :: world where
  "sample_world = \<lparr>files = Map.empty, writable = (\<lambda>_. True), cout = [], clock = (\<lambda>n. word_of_nat n), ticks = 0,
     local_time = (\<lambda>_ _. cstr ''noon''), log_program_name = cstr ''vostro'', ofs_log = None\<rparr>"

theorem files_round_trip_witness:
  "from_file (cstr ''a.txt'') [] (to_file (cstr ''a.txt'') (cstr ''hi'') sample_world) = (0, cstr ''hi'')
   \<and> from_file (cstr ''a.txt'') [] sample_world = (- 1, [])"
proof -
  have "writable sample_world (cstr ''a.txt'')" "ofs_log sample_world \<noteq> Some (cstr ''a.txt'')"
      "files sample_world (cstr ''a.txt'') = None"
    by (simp_all add: sample_world_def)
  with files_round_trip [of sample_world "cstr ''a.txt''" sample_json "[]" "cstr ''hi''"] show ?thesis
    by (simp add: sample_json_ok)
qed

end
