(* ===== verification/Nostr_Protocol.thy ===== *)
theory Nostr_Protocol
  imports Comm_Log
begin

text \<open>
  The messages of the protocol: the classes of \<open>src/src/nostr.hh\<close> and the functions of
  \<open>src/src/nostr.cc\<close> that turn them into JSON and back. An exception that a function catches
  becomes a line of the log; the objects it was filling keep what was read before.

  Shown: events and filters survive the way through JSON text (a filter without its times,
  which are not sent); what each parser accepts; that a message is of the type its first
  element names.
\<close>

section \<open>Classes\<close>

record event_t =
  e_id :: "byte list"
  e_pubkey :: "byte list"
  e_created_at :: u64
  e_kind :: u32
  e_tags :: "byte list list list"
  e_content :: "byte list"
  e_sig :: "byte list"

record filter_t =
  f_ids :: "byte list list"
  f_authors :: "byte list list"
  f_kinds :: "u32 list"
  f_e :: "byte list list"
  f_p :: "byte list list"
  f_since :: u64
  f_until :: u64
  f_limit :: u64

datatype msg_type = EVENT | REQ | CLOSE | EOSE | NOTICE | UNKNOWN

definition kind_0 :: u32 where "kind_0 = 0"
definition kind_1 :: u32 where "kind_1 = 1"
definition kind_3 :: u32 where "kind_3 = 3"

text \<open>The default constructors read the clock.\<close>

definition event_at :: "u64 \<Rightarrow> event_t" where
  "event_at now = \<lparr>e_id = [], e_pubkey = [], e_created_at = now, e_kind = 1, e_tags = [], e_content = [], e_sig = []\<rparr>"

definition filter_at :: "u64 \<Rightarrow> filter_t" where
  "filter_at now = \<lparr>f_ids = [], f_authors = [], f_kinds = [], f_e = [], f_p = [], f_since = 0, f_until = now, f_limit = 1\<rparr>"

definition new_event :: "world \<Rightarrow> event_t \<times> world" where
  "new_event w = (case std_time w of (now, w) \<Rightarrow> (event_at now, w))"

definition new_filter :: "world \<Rightarrow> filter_t \<times> world" where
  "new_filter w = (case std_time w of (now, w) \<Rightarrow> (filter_at now, w))"

section \<open>Conversion to and from JSON\<close>

definition js_strings :: "byte list list \<Rightarrow> json" where
  "js_strings ss = JArr (map JStr ss)"

definition to_json_event :: "json \<Rightarrow> event_t \<Rightarrow> json throwing" where
  "to_json_event j s =
     then_try (json_set j (cstr ''id'') (JStr (e_id s))) (\<lambda>j.
     then_try (json_set j (cstr ''pubkey'') (JStr (e_pubkey s))) (\<lambda>j.
     then_try (json_set j (cstr ''created_at'') (JInt (sint (e_created_at s)))) (\<lambda>j.
     then_try (json_set j (cstr ''kind'') (JInt (sint (e_kind s)))) (\<lambda>j.
     then_try (json_set j (cstr ''tags'') (JArr (map js_strings (e_tags s)))) (\<lambda>j.
     then_try (json_set j (cstr ''content'') (JStr (e_content s))) (\<lambda>j.
       json_set j (cstr ''sig'') (JStr (e_sig s))))))))"

definition from_json_event :: "json_lib \<Rightarrow> json \<Rightarrow> event_t \<Rightarrow> event_t \<times> json_exn option" where
  "from_json_event L j s =
     get_to j (cstr ''sig'') get_string (\<lambda>v s. s\<lparr>e_sig := v\<rparr>)
     (get_to j (cstr ''content'') get_string (\<lambda>v s. s\<lparr>e_content := v\<rparr>)
     (get_to j (cstr ''tags'') (get_vector (get_vector get_string)) (\<lambda>v s. s\<lparr>e_tags := v\<rparr>)
     (get_to j (cstr ''kind'') (get_int32 L) (\<lambda>v s. s\<lparr>e_kind := v\<rparr>)
     (get_to j (cstr ''created_at'') (get_int64 L) (\<lambda>v s. s\<lparr>e_created_at := v\<rparr>)
     (get_to j (cstr ''pubkey'') get_string (\<lambda>v s. s\<lparr>e_pubkey := v\<rparr>)
     (get_to j (cstr ''id'') get_string (\<lambda>v s. s\<lparr>e_id := v\<rparr>) (s, None)))))))"

definition to_json_filter :: "json \<Rightarrow> filter_t \<Rightarrow> bool \<Rightarrow> json throwing" where
  "to_json_filter j s with_time =
     then_try (if f_ids s \<noteq> [] then json_set j (cstr ''ids'') (js_strings (f_ids s)) else Inr j) (\<lambda>j.
     then_try (if f_authors s \<noteq> [] then json_set j (cstr ''authors'') (js_strings (f_authors s)) else Inr j) (\<lambda>j.
     then_try (json_set j (cstr ''kinds'') (JArr (map (\<lambda>k. JInt (sint k)) (f_kinds s)))) (\<lambda>j.
     then_try (if f_e s \<noteq> [] then json_set j (cstr ''#e'') (js_strings (f_e s)) else Inr j) (\<lambda>j.
     then_try (if f_p s \<noteq> [] then json_set j (cstr ''#p'') (js_strings (f_p s)) else Inr j) (\<lambda>j.
     then_try (if with_time
               then then_try (json_set j (cstr ''since'') (JInt (sint (f_since s))))
                      (\<lambda>j. json_set j (cstr ''until'') (JInt (sint (f_until s))))
               else Inr j) (\<lambda>j.
       json_set j (cstr ''limit'') (JInt (uint (f_limit s)))))))))"

definition from_json_filter :: "json_lib \<Rightarrow> json \<Rightarrow> filter_t \<Rightarrow> filter_t \<times> json_exn option" where
  "from_json_filter L j s =
     get_if j (cstr ''limit'') (get_int64 L) (\<lambda>v s. s\<lparr>f_limit := v\<rparr>)
     (get_if j (cstr ''until'') (get_int64 L) (\<lambda>v s. s\<lparr>f_until := v\<rparr>)
     (get_if j (cstr ''since'') (get_int64 L) (\<lambda>v s. s\<lparr>f_since := v\<rparr>)
     (get_if j (cstr ''#p'') (get_vector get_string) (\<lambda>v s. s\<lparr>f_p := v\<rparr>)
     (get_if j (cstr ''#e'') (get_vector get_string) (\<lambda>v s. s\<lparr>f_e := v\<rparr>)
     (get_if j (cstr ''kinds'') (get_vector (get_int32 L)) (\<lambda>v s. s\<lparr>f_kinds := v\<rparr>)
     (get_if j (cstr ''authors'') (get_vector get_string) (\<lambda>v s. s\<lparr>f_authors := v\<rparr>)
     (get_if j (cstr ''ids'') (get_vector get_string) (\<lambda>v s. s\<lparr>f_ids := v\<rparr>) (s, None))))))))"

section \<open>Messages\<close>

text \<open>\<open>std::string type = js_message.at(0)\<close> after the parse, which starts every parser.\<close>

definition message_head :: "json_lib \<Rightarrow> byte list \<Rightarrow> (json \<times> byte list) throwing" where
  "message_head L json =
     then_try (json_parse L json) (\<lambda>j. then_try (json_at j 0) (\<lambda>h.
       then_try (get_string h) (\<lambda>t. Inr (j, t))))"

definition get_message_type :: "json_lib \<Rightarrow> byte list \<Rightarrow> world \<Rightarrow> msg_type \<times> world" where
  "get_message_type L json w =
     (case message_head L json of
        Inl e \<Rightarrow> (UNKNOWN, comm_log (what L e) w)
      | Inr (_, t) \<Rightarrow>
          (if t = cstr ''EVENT'' then EVENT
           else if t = cstr ''REQ'' then REQ
           else if t = cstr ''CLOSE'' then CLOSE
           else if t = cstr ''EOSE'' then EOSE
           else if t = cstr ''NOTICE'' then NOTICE
           else UNKNOWN, w))"

definition make_request :: "json_lib \<Rightarrow> byte list \<Rightarrow> filter_t \<Rightarrow> world \<Rightarrow> byte list \<times> world" where
  "make_request L subscription_id s w =
     (case then_try (to_json_filter JNull s False) (\<lambda>js_filter.
             json_dump L Compact (JArr [JStr (cstr ''REQ''), JStr subscription_id, js_filter])) of
        Inl e \<Rightarrow> ([], comm_log (what L e) w)
      | Inr json \<Rightarrow> (json, w))"

text \<open>The end of a parser: 0, or the exception is logged and the result is -1.\<close>

definition parsed :: "json_lib \<Rightarrow> 's \<times> json_exn option \<Rightarrow> world \<Rightarrow> int \<times> 's \<times> world" where
  "parsed L r w = (case r of (s, None) \<Rightarrow> (0, s, w) | (s, Some e) \<Rightarrow> (- 1, s, comm_log (what L e) w))"

definition parse_client_event :: "json_lib \<Rightarrow> byte list \<Rightarrow> event_t \<Rightarrow> world \<Rightarrow> int \<times> event_t \<times> world" where
  "parse_client_event L json ev w =
     (case message_head L json of
        Inl e \<Rightarrow> (- 1, ev, comm_log (what L e) w)
      | Inr (j, t) \<Rightarrow>
          if t = cstr ''EVENT''
          then (case json_at j 1 of
                  Inl e \<Rightarrow> (- 1, ev, comm_log (what L e) w)
                | Inr j1 \<Rightarrow> parsed L (from_json_event L j1 ev) w)
          else (- 1, ev, w))"

text \<open>\<open>subscription_id = js_message.at(1); from_json(js_message.at(2), obj)\<close>.\<close>

definition id_and_object ::
    "json_lib \<Rightarrow> json \<Rightarrow> (json_lib \<Rightarrow> json \<Rightarrow> 's \<Rightarrow> 's \<times> json_exn option) \<Rightarrow> byte list \<Rightarrow> 's
     \<Rightarrow> (byte list \<times> 's) \<times> json_exn option" where
  "id_and_object L j from subscription_id obj =
     (case then_try (json_at j 1) get_string of
        Inl e \<Rightarrow> ((subscription_id, obj), Some e)
      | Inr i \<Rightarrow>
          (case json_at j 2 of
             Inl e \<Rightarrow> ((i, obj), Some e)
           | Inr j2 \<Rightarrow> (case from L j2 obj of (obj, r) \<Rightarrow> ((i, obj), r))))"

definition parse_relay_event ::
    "json_lib \<Rightarrow> byte list \<Rightarrow> byte list \<Rightarrow> event_t \<Rightarrow> world \<Rightarrow> int \<times> (byte list \<times> event_t) \<times> world" where
  "parse_relay_event L json subscription_id ev w =
     (case message_head L json of
        Inl e \<Rightarrow> (- 1, (subscription_id, ev), comm_log (what L e) w)
      | Inr (j, t) \<Rightarrow>
          if t = cstr ''EVENT'' then parsed L (id_and_object L j from_json_event subscription_id ev) w
          else (- 1, (subscription_id, ev), w))"

definition parse_request ::
    "json_lib \<Rightarrow> byte list \<Rightarrow> byte list \<Rightarrow> filter_t \<Rightarrow> world \<Rightarrow> int \<times> (byte list \<times> filter_t) \<times> world" where
  "parse_request L json request_id s w =
     (case message_head L json of
        Inl e \<Rightarrow> (- 1, (request_id, s), comm_log (what L e) w)
      | Inr (j, t) \<Rightarrow>
          if t = cstr ''REQ'' then parsed L (id_and_object L j from_json_filter request_id s) w
          else (- 1, (request_id, s), w))"

section \<open>The JSON of events and filters\<close>

definition event_js :: "event_t \<Rightarrow> json" where
  "event_js s =
     JObj [(cstr ''content'', JStr (e_content s)), (cstr ''created_at'', JInt (sint (e_created_at s))),
       (cstr ''id'', JStr (e_id s)), (cstr ''kind'', JInt (sint (e_kind s))),
       (cstr ''pubkey'', JStr (e_pubkey s)), (cstr ''sig'', JStr (e_sig s)),
       (cstr ''tags'', JArr (map js_strings (e_tags s)))]"

definition strings_js :: "string \<Rightarrow> byte list list \<Rightarrow> (byte list \<times> json) list" where
  "strings_js k ss = (if ss = [] then [] else [(cstr k, js_strings ss)])"

definition filter_js :: "filter_t \<Rightarrow> json" where
  "filter_js s =
     JObj (strings_js ''#e'' (f_e s) @ strings_js ''#p'' (f_p s) @ strings_js ''authors'' (f_authors s)
       @ strings_js ''ids'' (f_ids s)
       @ [(cstr ''kinds'', JArr (map (\<lambda>k. JInt (sint k)) (f_kinds s))), (cstr ''limit'', JInt (uint (f_limit s)))])"

lemma of_char_byte [simp]: "(of_char c :: byte) = of_char d \<longleftrightarrow> c = d"
proof
  assume "(of_char c :: byte) = of_char d"
  then have "unat (word_of_nat (of_char c) :: byte) = unat (word_of_nat (of_char d) :: byte)"
    by (simp add: of_nat_of_char)
  then show "c = d" by (simp add: unsigned_of_nat take_bit_nat_eq_self)
qed simp

lemma cstr_eq_iff [simp]: "cstr s = cstr t \<longleftrightarrow> s = t"
  by (simp add: cstr_def inj_map_eq_map inj_def)

lemma to_json_event_js [simp]: "to_json_event JNull s = Inr (event_js s)"
  by (simp add: to_json_event_def json_set_def event_js_def cstr_def)

lemma to_json_filter_js [simp]: "to_json_filter JNull s False = Inr (filter_js s)"
  by (simp add: to_json_filter_def json_set_def filter_js_def strings_js_def cstr_def)

definition event_valid :: "event_t \<Rightarrow> bool" where
  "event_valid s \<longleftrightarrow> utf8 (e_id s) \<and> utf8 (e_pubkey s) \<and> utf8 (e_content s) \<and> utf8 (e_sig s)
     \<and> list_all (list_all utf8) (e_tags s)"

definition filter_valid :: "filter_t \<Rightarrow> bool" where
  "filter_valid s \<longleftrightarrow> list_all utf8 (f_ids s) \<and> list_all utf8 (f_authors s) \<and> list_all utf8 (f_e s)
     \<and> list_all utf8 (f_p s)"

text \<open>
  What is left of a filter after it was sent: the lists and the limit; lists that are empty and
  the two times are those of the object it is read into.
\<close>

definition filter_over :: "filter_t \<Rightarrow> filter_t \<Rightarrow> filter_t" where
  "filter_over s y =
     y\<lparr>f_ids := if f_ids s = [] then f_ids y else f_ids s,
       f_authors := if f_authors s = [] then f_authors y else f_authors s,
       f_kinds := f_kinds s,
       f_e := if f_e s = [] then f_e y else f_e s,
       f_p := if f_p s = [] then f_p y else f_p s,
       f_limit := f_limit s\<rparr>"

lemma json_strings [simp]:
  "get_vector get_string (js_strings ss) = Inr ss"
  "json_utf8 (js_strings ss) = list_all utf8 ss"
  "json_exact (js_strings ss)"
  by (simp_all add: js_strings_def list_all_iff)

lemma json_numbers [simp]:
  "json_exact (JInt (sint (x :: u64)))" "json_exact (JInt (sint (k :: u32)))" "json_exact (JInt (uint x))"
  using sint_range_size [of x] sint_range_size [of k] uint_range_size [of x]
  by (simp_all add: word_size order_trans [OF _ uint_ge_0])

lemma from_json_event_js: "from_json_event L (event_js s) y = (s, None)"
  by (cases s) (simp add: from_json_event_def get_to_def json_key_def event_js_def cstr_def)

lemma map_of_strings_js:
  "map_of (strings_js k ss) = (if ss = [] then Map.empty else [cstr k \<mapsto> js_strings ss])"
  by (simp add: strings_js_def)

lemma get_if_strings:
  assumes "map_of kvs key = (if ss = [] then None else Some (js_strings ss))"
  shows "get_if (JObj kvs) key (get_vector get_string) upd (s, None) = (if ss = [] then s else upd ss s, None)"
  using assms by (simp add: get_if_def get_to_def json_contains_def json_key_def)

lemma get_if_other:
  "map_of kvs key = None \<Longrightarrow> get_if (JObj kvs) key conv upd st = st"
  "map_of kvs key = Some v \<Longrightarrow> conv v = Inr x \<Longrightarrow> get_if (JObj kvs) key conv upd (s, None) = (upd x s, None)"
  by (simp_all add: get_if_def get_to_def json_contains_def json_key_def)

lemma from_json_filter_js: "from_json_filter L (filter_js s) y = (filter_over s y, None)"
proof -
  define kvs where "kvs = strings_js ''#e'' (f_e s) @ strings_js ''#p'' (f_p s) @ strings_js ''authors'' (f_authors s)
       @ strings_js ''ids'' (f_ids s)
       @ [(cstr ''kinds'', JArr (map (\<lambda>k. JInt (sint k)) (f_kinds s))), (cstr ''limit'', JInt (uint (f_limit s)))]"
  have strings:
      "map_of kvs (cstr ''ids'') = (if f_ids s = [] then None else Some (js_strings (f_ids s)))"
      "map_of kvs (cstr ''authors'') = (if f_authors s = [] then None else Some (js_strings (f_authors s)))"
      "map_of kvs (cstr ''#e'') = (if f_e s = [] then None else Some (js_strings (f_e s)))"
      "map_of kvs (cstr ''#p'') = (if f_p s = [] then None else Some (js_strings (f_p s)))"
    and others: "map_of kvs (cstr ''since'') = None" "map_of kvs (cstr ''until'') = None"
    and numbers: "map_of kvs (cstr ''kinds'') = Some (JArr (map (\<lambda>k. JInt (sint k)) (f_kinds s)))"
      "map_of kvs (cstr ''limit'') = Some (JInt (uint (f_limit s)))"
    by (simp_all add: kvs_def map_of_strings_js map_add_def)
  have "filter_js s = JObj kvs" by (simp add: filter_js_def kvs_def)
  then show ?thesis
    by (simp add: from_json_filter_def filter_over_def strings [THEN get_if_strings] others [THEN get_if_other(1)]
        numbers [THEN get_if_other(2)])
qed

interpretation event_class: json_class event_js from_json_event "\<lambda>s y. s" event_valid
proof
  show "json_utf8 (event_js s) \<longleftrightarrow> event_valid s" for s
    by (auto simp: event_js_def event_valid_def list_all_iff cstr_def utf8_tail_def)
  show "json_exact (event_js s)" for s
    by (simp add: event_js_def list_all_iff cstr_def del: json_exact.simps(3))
qed (rule from_json_event_js)

interpretation filter_class: json_class filter_js from_json_filter filter_over filter_valid
proof
  show "json_utf8 (filter_js s) \<longleftrightarrow> filter_valid s" for s
    by (auto simp: filter_js_def strings_js_def filter_valid_def list_all_iff cstr_def)
  show "json_exact (filter_js s)" for s
    by (auto simp: filter_js_def strings_js_def list_all_iff cstr_def simp del: json_exact.simps(3))
qed (rule from_json_filter_js)

text \<open>Every one of the seven fields of an event has to be there.\<close>

lemma get_to_err [simp]: "get_to j k conv upd (s, Some e) = (s, Some e)"
  by (simp add: get_to_def)

lemma get_to_snd: "snd (get_to j k conv upd st) = None \<Longrightarrow> snd st = None \<and> json_contains j k"
  by (auto simp: get_to_def json_contains_def json_key_def split: prod.splits option.splits sum.splits json.splits)

lemma from_json_event_missing:
  assumes "key \<in> set [cstr ''id'', cstr ''pubkey'', cstr ''created_at'', cstr ''kind'', cstr ''tags'', cstr ''content'',
      cstr ''sig'']" "json_contains j key = False"
  shows "snd (from_json_event L j s) \<noteq> None"
proof
  assume "snd (from_json_event L j s) = None"
  then have "json_contains j (cstr ''id'')" "json_contains j (cstr ''pubkey'')" "json_contains j (cstr ''created_at'')"
      "json_contains j (cstr ''kind'')" "json_contains j (cstr ''tags'')" "json_contains j (cstr ''content'')"
      "json_contains j (cstr ''sig'')"
    unfolding from_json_event_def by (blast dest!: get_to_snd)+
  with assms show False by auto
qed

section \<open>What is read is UTF-8\<close>

lemma get_to_keeps:
  assumes "json_utf8 j" "\<And>v x. json_utf8 v \<Longrightarrow> conv v = Inr x \<Longrightarrow> Q x" "\<And>x s. Q x \<Longrightarrow> P s \<Longrightarrow> P (upd x s)" "P (fst st)"
  shows "P (fst (get_to j k conv upd st))"
proof -
  have "P (upd x s)" if "json_key j k = Inr v" "conv v = Inr x" "P s" for v x s
    using that assms json_key_utf8 by blast
  with assms(4) show ?thesis by (auto simp: get_to_def split: prod.split option.split sum.split)
qed

lemma get_strings_utf8: "json_utf8 v \<Longrightarrow> get_vector get_string v = Inr ss \<Longrightarrow> list_all utf8 ss"
  by (rule get_vector_utf8 [OF get_string_utf8])

lemma get_tags_utf8:
  "json_utf8 v \<Longrightarrow> get_vector (get_vector get_string) v = Inr tags \<Longrightarrow> list_all (list_all utf8) tags"
  by (rule get_vector_utf8 [OF get_strings_utf8])

lemma from_json_event_valid:
  assumes "json_utf8 j" "event_valid s"
  shows "event_valid (fst (from_json_event L j s))"
proof -
  note keep = get_to_keeps [where P = event_valid, OF assms(1)]
  show ?thesis unfolding from_json_event_def
    by (rule keep [where Q = utf8, OF get_string_utf8]
        keep [where Q = "list_all (list_all utf8)", OF get_tags_utf8]
        keep [where Q = "\<lambda>_. True", OF TrueI] | assumption | simp add: event_valid_def assms(2) [unfolded event_valid_def])+
qed

section \<open>Messages through text\<close>

lemma message_head_parse:
  "json_parse L s = Inr (JArr (JStr t # js)) \<Longrightarrow> message_head L s = Inr (JArr (JStr t # js), t)"
  by (simp add: message_head_def)

lemma utf8_names [simp]:
  "utf8 (cstr ''EVENT'')" "utf8 (cstr ''REQ'')" "utf8 (cstr ''EOSE'')" "utf8 (cstr ''NOTICE'')" "utf8 (cstr ''Error'')"
  by (simp_all add: cstr_def)

lemma json_at_2 [simp]: "json_at (JArr [a, b, c]) 2 = Inr c"
  by (simp add: json_at_def)

lemma json_at_1 [simp]: "json_at (JArr (a # b # js)) 1 = Inr b"
  by (simp add: json_at_def)

lemma make_request_text:
  assumes "json_lib_ok L" "utf8 i" "filter_valid s"
  obtains json where "make_request L i s w = (json, w)"
    "json_parse L json = Inr (JArr [JStr (cstr ''REQ''), JStr i, filter_js s])"
proof -
  let ?j = "JArr [JStr (cstr ''REQ''), JStr i, filter_js s]"
  have "json_utf8 ?j" "json_exact ?j"
    using assms(2,3) filter_class.to_utf8 filter_class.to_exact by simp_all
  with assms(1) obtain json where "json_dump L Compact ?j = Inr json" "json_parse L json = Inr ?j"
    by (rule dump_parse_obtain)
  with that show ?thesis by (simp add: make_request_def)
qed

lemma make_request_quiet: "make_request L i s w = (json, w') \<Longrightarrow> quiet w w'"
  by (auto simp: make_request_def split: sum.splits)

text \<open>
  C34. A request arrives as it was made, but for its times: for a subscription id and a
  filter in UTF-8, the text of make_request is a REQ message from which parse_request reads the
  id and, over a filter with empty lists, the filter with its lists, kinds and limit; the bounds
  since and until are those of the receiving object, as they are never sent. With other
  strings no message is made.
\<close>

theorem request_round_trip:
  assumes "json_lib_ok L"
  shows "(utf8 i \<and> filter_valid s \<longrightarrow>
      (\<exists>json. make_request L i s w = (json, w)
        \<and> get_message_type L json v = (REQ, v)
        \<and> parse_request L json i0 (filter_at now) v = (0, (i, s\<lparr>f_since := 0, f_until := now\<rparr>), v)))
    \<and> (\<not> (utf8 i \<and> filter_valid s) \<longrightarrow> make_request L i s w = ([], comm_log (what L (Type_error 316)) w))"
proof (intro conjI impI)
  assume *: "utf8 i \<and> filter_valid s"
  obtain json where json: "make_request L i s w = (json, w)"
      "json_parse L json = Inr (JArr [JStr (cstr ''REQ''), JStr i, filter_js s])"
    by (rule make_request_text [OF assms, of i s w]) (use * in auto)
  have "filter_over s (filter_at now) = s\<lparr>f_since := 0, f_until := now\<rparr>"
    by (cases s) (simp add: filter_over_def filter_at_def)
  with json(1) message_head_parse [OF json(2)]
  show "\<exists>json. make_request L i s w = (json, w) \<and> get_message_type L json v = (REQ, v)
      \<and> parse_request L json i0 (filter_at now) v = (0, (i, s\<lparr>f_since := 0, f_until := now\<rparr>), v)"
    by (simp add: get_message_type_def parse_request_def parsed_def id_and_object_def from_json_filter_js)
next
  assume "\<not> (utf8 i \<and> filter_valid s)"
  then have "\<not> json_utf8 (JArr [JStr (cstr ''REQ''), JStr i, filter_js s])"
    using filter_class.to_utf8 by simp
  from dump_invalid [OF assms this] show "make_request L i s w = ([], comm_log (what L (Type_error 316)) w)"
    by (simp add: make_request_def)
qed

theorem request_round_trip_witness:
  "\<exists>json. make_request sample_json (cstr ''sub'') (filter_at 5) sample_world = (json, sample_world)
     \<and> parse_request sample_json json [] (filter_at 7) sample_world = (0, (cstr ''sub'', (filter_at 5)\<lparr>f_until := 7\<rparr>), sample_world)"
proof -
  have "utf8 (cstr ''sub'') \<and> filter_valid (filter_at 5)"
    by (simp add: cstr_def filter_valid_def filter_at_def)
  with request_round_trip [OF sample_json_ok, of "cstr ''sub''" "filter_at 5" sample_world sample_world "[]" 7] show ?thesis
    by (auto simp: filter_at_def)
qed

text \<open>
  Events arrive as they were sent, in both directions: the text of an EVENT message of a
  client, or of a relay with its subscription id, is parsed to the very event, whatever the
  object held before it is filled.
\<close>

theorem event_round_trip:
  assumes "json_lib_ok L"
    and "json_dump L n (JArr [JStr (cstr ''EVENT''), event_js ev]) = Inr client_text"
    and "json_dump L n (JArr [JStr (cstr ''EVENT''), JStr i, event_js ev]) = Inr relay_text"
  shows "get_message_type L client_text w = (EVENT, w)
    \<and> parse_client_event L client_text ev0 w = (0, ev, w)
    \<and> parse_relay_event L relay_text i0 ev0 w = (0, (i, ev), w)"
proof -
  have "json_parse L client_text = Inr (JArr [JStr (cstr ''EVENT''), event_js ev])"
    by (rule parse_dump [OF assms(1) _ assms(2)]) (simp add: event_class.to_exact)
  moreover have "json_parse L relay_text = Inr (JArr [JStr (cstr ''EVENT''), JStr i, event_js ev])"
    by (rule parse_dump [OF assms(1) _ assms(3)]) (simp add: event_class.to_exact)
  ultimately show ?thesis
    by (simp add: message_head_parse get_message_type_def parse_client_event_def parse_relay_event_def parsed_def
        id_and_object_def from_json_event_js)
qed

definition sample_note :: event_t where
  "sample_note = (event_at 9)\<lparr>e_id := cstr ''ab'', e_pubkey := cstr ''cd'', e_tags := [[cstr ''p'', cstr ''ef'']]\<rparr>"

lemma sample_note_valid: "event_valid sample_note"
  by (simp add: sample_note_def event_at_def event_valid_def cstr_def)

theorem event_round_trip_witness:
  "\<exists>t. json_dump sample_json Compact (JArr [JStr (cstr ''EVENT''), event_js sample_note]) = Inr t
     \<and> parse_client_event sample_json t (event_at 0) sample_world = (0, sample_note, sample_world)"
proof -
  have "json_utf8 (JArr [JStr (cstr ''EVENT''), event_js sample_note])"
      "json_utf8 (JArr [JStr (cstr ''EVENT''), JStr (cstr ''REQ''), event_js sample_note])"
    using sample_note_valid event_class.to_utf8 by simp_all
  then obtain t u where "json_dump sample_json Compact (JArr [JStr (cstr ''EVENT''), event_js sample_note]) = Inr t"
      "json_dump sample_json Compact (JArr [JStr (cstr ''EVENT''), JStr (cstr ''REQ''), event_js sample_note]) = Inr u"
    using dump_total [OF sample_json_ok] by blast
  with event_round_trip [OF sample_json_ok this, of sample_world "event_at 0"] show ?thesis by blast
qed

end
