(* ===== verification/Relay_Database.thy ===== *)
theory Relay_Database
  imports Nostr_Protocol
begin

text \<open>
  The store of the relays, \<open>src/src/database.cc\<close>: an array of events in the file
  \<open>database.json\<close>, read and written as a whole by every operation. When elements are read, the
  default event of each is overwritten or discarded as a whole, so that its time does not matter.

  Shown: appended events are read back after those that were there; a request returns the
  events of the named authors in their order; an unreadable file is taken for an empty one
  and overwritten by the next append. The contract of a store is the locale \<open>event_store\<close>,
  in which the growth of the file under repeated publishing is computed.
\<close>

section \<open>Operations\<close>

definition database_file :: "byte list" where
  "database_file = cstr ''database.json''"

definition get_events_js :: "json_lib \<Rightarrow> json \<Rightarrow> event_t list throwing" where
  "get_events_js L = get_vector (get_value (from_json_event L) (event_at 0))"

definition events_js :: "event_t list \<Rightarrow> json throwing" where
  "events_js events = then_try (all_throwing (to_json_event JNull) events) (\<lambda>js. Inr (JArr js))"

definition database_read :: "json_lib \<Rightarrow> world \<Rightarrow> event_t list \<times> world" where
  "database_read L w =
     (case then_try (json_parse L (stream_bytes database_file w)) (get_events_js L) of
        Inl e \<Rightarrow> ([], comm_log (what L e) w)
      | Inr database \<Rightarrow> (database, w))"

definition database_save :: "json_lib \<Rightarrow> event_t list \<Rightarrow> world \<Rightarrow> int \<times> world" where
  "database_save L database w =
     (case then_try (events_js database) (json_dump L Indent_2) of
        Inl e \<Rightarrow> (- 1, comm_log (what L e) w)
      | Inr json \<Rightarrow> (0, write_file database_file json w))"

definition database_append :: "json_lib \<Rightarrow> event_t list \<Rightarrow> world \<Rightarrow> int \<times> world" where
  "database_append L events w =
     (case database_read L w of (database, w) \<Rightarrow>
      let database = fold (\<lambda>ev database. database @ [ev]) events database in
      case then_try (events_js database) (json_dump L Indent_2) of
        Inl e \<Rightarrow> (- 1, comm_log (what L e) w)
      | Inr json \<Rightarrow> (0, write_file database_file json w))"

text \<open>The inner loop of \<open>request\<close>, left at the first author that matches.\<close>

primrec match_authors :: "event_t \<Rightarrow> byte list list \<Rightarrow> event_t list \<Rightarrow> event_t list" where
  "match_authors ev [] events = events"
| "match_authors ev (author # authors) events =
     (if e_pubkey ev = author then events @ [ev] else match_authors ev authors events)"

definition database_request :: "json_lib \<Rightarrow> filter_t \<Rightarrow> world \<Rightarrow> event_t list \<times> world" where
  "database_request L s w =
     (case database_read L w of (database, w) \<Rightarrow>
        (fold (\<lambda>ev events. match_authors ev (f_authors s) events) database [], w))"

section \<open>Stores\<close>

text \<open>
  What the relay uses of a store: appending keeps what is there. A relay that publishes each
  event by appending its whole list of events, as both programs do, grows its store by a
  prefix of the list each time.
\<close>

primrec publish_all :: "('e list \<Rightarrow> 's \<Rightarrow> 's) \<Rightarrow> 'e list \<Rightarrow> 'e list \<times> 's \<Rightarrow> 'e list \<times> 's" where
  "publish_all app [] st = st"
| "publish_all app (e # es) st = publish_all app es (fst st @ [e], app (fst st @ [e]) (snd st))"

text \<open>The lists that are appended one after the other.\<close>

definition prefixes_after :: "'e list \<Rightarrow> 'e list \<Rightarrow> 'e list" where
  "prefixes_after mem es = concat (map (\<lambda>i. mem @ take (Suc i) es) [0..<length es])"

lemma prefixes_after_Cons: "prefixes_after mem (e # es) = (mem @ [e]) @ prefixes_after (mem @ [e]) es"
  by (simp add: prefixes_after_def upt_conv_Cons map_Suc_upt [symmetric] comp_def del: upt_Suc map_Suc_upt)

lemma length_prefixes_after:
  "2 * length (prefixes_after mem es) = length es * (2 * length mem + length es + 1)"
proof (induction es arbitrary: mem)
  case (Cons e es)
  then show ?case by (simp add: prefixes_after_Cons algebra_simps)
qed (simp add: prefixes_after_def)

lemma set_prefixes_after: "es \<noteq> [] \<Longrightarrow> set (prefixes_after mem es) = set mem \<union> set es"
proof (induction es arbitrary: mem)
  case (Cons e es)
  then show ?case by (cases "es = []") (auto simp: prefixes_after_Cons, simp add: prefixes_after_def)
qed simp

locale event_store =
  fixes contents :: "'s \<Rightarrow> 'e list"
    and app :: "'e list \<Rightarrow> 's \<Rightarrow> 's"
    and ok :: "'s \<Rightarrow> bool"
    and good :: "'e \<Rightarrow> bool"
  assumes app_contents: "ok s \<Longrightarrow> list_all good es \<Longrightarrow> contents (app es s) = contents s @ es"
    and app_ok: "ok s \<Longrightarrow> list_all good es \<Longrightarrow> ok (app es s)"
    and contents_good: "ok s \<Longrightarrow> list_all good (contents s)"
begin

lemma publish_all_contents:
  assumes "ok s" "list_all good mem" "list_all good es"
  shows "fst (publish_all app es (mem, s)) = mem @ es
    \<and> contents (snd (publish_all app es (mem, s))) = contents s @ prefixes_after mem es
    \<and> ok (snd (publish_all app es (mem, s)))"
  using assms
proof (induction es arbitrary: mem s)
  case (Cons e es)
  then show ?case by (simp add: prefixes_after_Cons app_contents app_ok)
qed (simp add: prefixes_after_def)

end

section \<open>The file as a store\<close>

definition db_ok :: "json_lib \<Rightarrow> world \<Rightarrow> bool" where
  "db_ok L w \<longleftrightarrow> json_lib_ok L \<and> writable w database_file \<and> log_apart w"

definition stored :: "json_lib \<Rightarrow> world \<Rightarrow> event_t list" where
  "stored L w = fst (database_read L w)"

lemma events_js_eq [simp]: "events_js events = Inr (JArr (map event_js events))"
proof -
  have "all_throwing (to_json_event JNull) (map id events) = Inr (map event_js events)"
    by (rule all_throwing_map) simp
  then show ?thesis by (simp add: events_js_def)
qed

lemma fold_push_back [simp]: "fold (\<lambda>x xs. xs @ [x]) ys xs = xs @ ys"
  by (induction ys arbitrary: xs) simp_all

lemma database_file_apart: "log_apart w \<Longrightarrow> ofs_log w \<noteq> Some database_file"
  by (rule log_apart_file) (simp_all add: database_file_def cstr_def)

lemma database_read_quiet: "database_read L w = (es, w') \<Longrightarrow> quiet w w'"
  by (auto simp: database_read_def split: sum.splits)

lemma stored_alt:
  "stored L w = (case then_try (json_parse L (stream_bytes database_file w)) (get_events_js L) of Inl _ \<Rightarrow> [] | Inr es \<Rightarrow> es)"
  unfolding stored_def database_read_def
  by (cases "then_try (json_parse L (stream_bytes database_file w)) (get_events_js L)") (simp_all del: then_try_Inr)

lemma stored_cong: "files w' database_file = files w database_file \<Longrightarrow> stored L w' = stored L w"
  by (simp add: stored_alt stream_bytes_def)

lemma stored_quiet: "quiet w w' \<Longrightarrow> log_apart w \<Longrightarrow> stored L w' = stored L w"
  by (rule stored_cong) (simp add: quiet_files database_file_apart)

lemma db_ok_quiet: "quiet w w' \<Longrightarrow> db_ok L w' = db_ok L w"
  by (simp add: db_ok_def quiet_log_apart quiet_writable)

lemma stored_valid: "json_lib_ok L \<Longrightarrow> list_all event_valid (stored L w)"
proof -
  have elem: "event_valid s" if "json_utf8 j" "get_value (from_json_event L) (event_at 0) j = Inr s" for j s
  proof -
    have "event_valid (event_at 0)" by (simp add: event_valid_def event_at_def)
    from from_json_event_valid [OF that(1) this, of L] that(2) show ?thesis
      by (auto simp: get_value_def split: prod.splits option.splits)
  qed
  assume "json_lib_ok L"
  then have "list_all event_valid es"
    if "json_parse L t = Inr j" "get_events_js L j = Inr es" for t j es
    using get_vector_utf8 [of "get_value (from_json_event L) (event_at 0)" event_valid j es] elem parse_utf8 that
    unfolding get_events_js_def by blast
  then show ?thesis by (auto simp: stored_def database_read_def split: sum.splits)
qed

lemma write_events:
  assumes "db_ok L w" "json_dump L Indent_2 (JArr (map event_js es)) = Inr t"
  shows "stored L (write_file database_file t w) = es" "db_ok L (write_file database_file t w)"
proof -
  have "then_try (json_parse L t) (get_events_js L) = Inr es"
    using event_class.vector_text_round_trip [OF _ assms(2), of "event_at 0"] assms(1)
    by (simp add: db_ok_def get_events_js_def)
  then show "stored L (write_file database_file t w) = es"
    using assms(1) by (simp add: stored_alt stream_bytes_def quiet_write_file db_ok_def del: then_try_Inr)
  show "db_ok L (write_file database_file t w)"
    using assms(1) by (simp add: db_ok_def quiet_write_file log_apart_def)
qed

lemma database_save_ok:
  assumes "db_ok L w" "list_all event_valid es"
  obtains w' where "database_save L es w = (0, w')" "stored L w' = es" "db_ok L w'"
proof -
  obtain t where t: "json_dump L Indent_2 (JArr (map event_js es)) = Inr t"
    using event_class.vector_dump_iff [of L Indent_2 es] assms by (auto simp: db_ok_def)
  with that write_events [OF assms(1) t] show ?thesis by (simp add: database_save_def)
qed

text \<open>An append is a read and a save.\<close>

lemma database_append_save:
  "database_append L es w = (case database_read L w of (db, w) \<Rightarrow> database_save L (db @ es) w)"
  by (simp add: database_append_def database_save_def Let_def split: prod.split)

lemma database_append_ok:
  assumes "db_ok L w" "list_all event_valid es"
  obtains w' where "database_append L es w = (0, w')" "stored L w' = stored L w @ es" "db_ok L w'"
proof -
  obtain db w1 where r: "database_read L w = (db, w1)" by (metis prod.collapse)
  then have "db_ok L w1" using assms(1) database_read_quiet db_ok_quiet by blast
  moreover have db: "stored L w = db" by (simp add: stored_def r)
  then have "list_all event_valid (db @ es)" using stored_valid assms by (auto simp: db_ok_def)
  ultimately obtain w' where "database_save L (db @ es) w1 = (0, w')" "stored L w' = db @ es" "db_ok L w'"
    by (rule database_save_ok)
  with that r db show ?thesis by (simp add: database_append_save)
qed

interpretation db_store: event_store "\<lambda>(L, w). stored L w" "\<lambda>es (L, w). (L, snd (database_append L es w))"
    "\<lambda>(L, w). db_ok L w" event_valid
proof
  fix s :: "json_lib \<times> world" and es
  assume ok: "(\<lambda>(L, w). db_ok L w) s" "list_all event_valid es"
  obtain L w where s: "s = (L, w)" by (cases s)
  with ok database_append_ok [of L w es] obtain w' where "database_append L es w = (0, w')"
      "stored L w' = stored L w @ es" "db_ok L w'" by auto
  with s show "(\<lambda>(L, w). stored L w) ((\<lambda>es (L, w). (L, snd (database_append L es w))) es s)
        = (\<lambda>(L, w). stored L w) s @ es"
      "(\<lambda>(L, w). db_ok L w) ((\<lambda>es (L, w). (L, snd (database_append L es w))) es s)" by simp_all
next
  fix s :: "json_lib \<times> world"
  assume "(\<lambda>(L, w). db_ok L w) s"
  then show "list_all event_valid ((\<lambda>(L, w). stored L w) s)"
    using stored_valid by (cases s) (simp add: db_ok_def)
qed

section \<open>Requests\<close>

lemma match_authors_eq: "match_authors ev authors events = (if e_pubkey ev \<in> set authors then events @ [ev] else events)"
  by (induction authors) auto

lemma fold_match:
  "fold (\<lambda>ev events. match_authors ev authors events) db events = events @ filter (\<lambda>ev. e_pubkey ev \<in> set authors) db"
  by (induction db arbitrary: events) (simp_all add: match_authors_eq)

lemma database_request_eq:
  "fst (database_request L s w) = filter (\<lambda>ev. e_pubkey ev \<in> set (f_authors s)) (stored L w)"
  "quiet w (snd (database_request L s w))"
  using database_read_quiet [of L w]
  by (auto simp: database_request_def stored_def fold_match split: prod.split)

section \<open>Properties\<close>

text \<open>
  The database keeps what is appended: with a writable file, append of events in UTF-8
  succeeds and the next read returns the stored events followed by the new ones; save replaces
  them; a request returns, in their order, the stored events whose public key is one of the
  authors of the filter, whatever else the filter asks for. Events that are not UTF-8 make both
  fail with -1, and the stored events remain.
\<close>

theorem database_operations:
  assumes "db_ok L w"
  shows "(list_all event_valid es \<longrightarrow>
      (\<exists>w1 w2. database_append L es w = (0, w1) \<and> fst (database_read L w1) = fst (database_read L w) @ es
        \<and> database_save L es w = (0, w2) \<and> fst (database_read L w2) = es \<and> db_ok L w1 \<and> db_ok L w2))
    \<and> (\<not> list_all event_valid es \<longrightarrow>
      (\<exists>w1 w2. database_append L es w = (- 1, w1) \<and> fst (database_read L w1) = fst (database_read L w)
        \<and> database_save L es w = (- 1, w2) \<and> fst (database_read L w2) = fst (database_read L w)))
    \<and> fst (database_request L s w) = filter (\<lambda>ev. e_pubkey ev \<in> set (f_authors s)) (fst (database_read L w))"
proof (intro conjI impI)
  assume "list_all event_valid es"
  from database_append_ok [OF assms this] database_save_ok [OF assms this]
  show "\<exists>w1 w2. database_append L es w = (0, w1) \<and> fst (database_read L w1) = fst (database_read L w) @ es
      \<and> database_save L es w = (0, w2) \<and> fst (database_read L w2) = es \<and> db_ok L w1 \<and> db_ok L w2"
    unfolding stored_def by metis
next
  assume bad: "\<not> list_all event_valid es"
  have fails: "\<exists>w'. database_save L (db @ es) v = (- 1, w') \<and> quiet v w'" for db v
    using assms bad dump_invalid [of L "JArr (map event_js (db @ es))" Indent_2] event_class.vector_utf8 [of "db @ es"]
    by (simp add: database_save_def db_ok_def)
  obtain db v where r: "database_read L w = (db, v)" by (metis prod.collapse)
  obtain w1 where w1: "database_append L es w = (- 1, w1)" "quiet v w1"
    using fails [of db v] r by (auto simp: database_append_save)
  obtain w2 where w2: "database_save L es w = (- 1, w2)" "quiet w w2" using fails [of "[]" w] by auto
  have "quiet w w1" using database_read_quiet [OF r] w1(2) by (rule quiet_trans)
  with w1(1) w2 stored_quiet [of w w1 L] stored_quiet [of w w2 L] assms
  show "\<exists>w1 w2. database_append L es w = (- 1, w1) \<and> fst (database_read L w1) = fst (database_read L w)
      \<and> database_save L es w = (- 1, w2) \<and> fst (database_read L w2) = fst (database_read L w)"
    by (auto simp: stored_def db_ok_def)
next
  show "fst (database_request L s w) = filter (\<lambda>ev. e_pubkey ev \<in> set (f_authors s)) (fst (database_read L w))"
    by (simp add: database_request_eq stored_def)
qed

lemma sample_db_ok: "db_ok sample_json sample_world"
  by (simp add: db_ok_def sample_json_ok sample_world_def log_apart_def)

theorem database_operations_witness:
  "\<exists>w1. database_append sample_json [sample_note] sample_world = (0, w1)
     \<and> fst (database_read sample_json w1) = fst (database_read sample_json sample_world) @ [sample_note]"
  using database_operations [OF sample_db_ok, of "[sample_note]" "filter_at 0"] sample_note_valid by auto



end
