(* ===== verification/Relay.thy ===== *)
theory Relay
  imports Relay_Database
begin

text \<open>
  The web socket relay: \<open>relay_t\<close> of \<open>src/src/relay.cc\<close>, which answers messages from its
  database, and the handlers and the start of the program in \<open>src/src/wss_relay.cc\<close>. The
  server library calls the handlers from one thread, in an order of its own; a run of the
  program is a sequence of such calls, the step relation \<open>ws_step\<close>. An exception that leaves a
  handler ends the program: there is no step then.

  Shown: \<open>make_response\<close> implements an abstract relay on two lists of events, the one in memory
  and the one in the file; in every reachable state the invariant holds and every event of the
  library has a step; what the relay returns was published or stored before; the file grows
  with the square of the number of events.
\<close>

section \<open>Answering a message\<close>

record relay_t =
  database :: "event_t list"

definition relay_new :: "json_lib \<Rightarrow> world \<Rightarrow> relay_t \<times> world" where
  "relay_new L w = (case database_read L w of (db, w) \<Rightarrow> (\<lparr>database = db\<rparr>, w))"

text \<open>The branches for EVENT and for REQ messages.\<close>

definition respond_event :: "json_lib \<Rightarrow> byte list \<Rightarrow> relay_t \<Rightarrow> world \<Rightarrow> byte list throwing \<times> relay_t \<times> world" where
  "respond_event L msg r w =
     (case new_event w of (ev, w) \<Rightarrow>
      case parse_client_event L msg ev w of (_, ev, w) \<Rightarrow>
      let r = r\<lparr>database := database r @ [ev]\<rparr>
      in case database_append L (database r) w of (_, w) \<Rightarrow>
         (json_dump L Compact (JArr [JStr (cstr ''EOSE''), JStr (e_id ev)]), r, w))"

definition respond_request :: "json_lib \<Rightarrow> byte list \<Rightarrow> relay_t \<Rightarrow> world \<Rightarrow> byte list throwing \<times> relay_t \<times> world" where
  "respond_request L msg r w =
     (case new_filter w of (s, w) \<Rightarrow>
      case parse_request L msg [] s w of (_, (request_id, s), w) \<Rightarrow>
      case database_request L s w of (events, w) \<Rightarrow>
        (case events of
           ev # _ \<Rightarrow> then_try (to_json_event JNull ev)
                       (\<lambda>j. json_dump L Compact (JArr [JStr (cstr ''EVENT''), JStr request_id, j]))
         | [] \<Rightarrow> json_dump L Compact (JArr [JStr (cstr ''EOSE''), JStr request_id]), r, w))"

definition make_response :: "json_lib \<Rightarrow> byte list \<Rightarrow> relay_t \<Rightarrow> world \<Rightarrow> byte list throwing \<times> relay_t \<times> world" where
  "make_response L msg r w =
     (let w = json_to_file L (cstr ''relay_message.json'') msg w in
      case get_message_type L msg w of (mtype, w) \<Rightarrow>
      case (if mtype = EVENT then respond_event L msg r w
            else if mtype = REQ then respond_request L msg r w
            else (json_dump L Compact (JArr [JStr (cstr ''NOTICE''), JStr (cstr ''Error'')]), r, w)) of
        (Inl e, r, w) \<Rightarrow> (Inl e, r, w)
      | (Inr json, r, w) \<Rightarrow> (Inr json, r, json_to_file L (cstr ''relay_response.json'') json w))"

section \<open>The server\<close>

text \<open>
  What the library reports, with the texts it prints for a connection and for an error code:
  a connection opened or closed, a message, an error, and the end of a send that failed.
\<close>

datatype ws_event =
    WsOpen "byte list"
  | WsMessage "byte list" "byte list"
  | WsClose "byte list" int
  | WsError "byte list" "byte list" "byte list"
  | WsSendFailed "byte list" "byte list"

record server =
  srv_relay :: relay_t
  srv_world :: world
  srv_sent :: "(byte list \<times> byte list) list"

definition on_message :: "json_lib \<Rightarrow> byte list \<Rightarrow> byte list \<Rightarrow> server \<Rightarrow> server throwing" where
  "on_message L conn msg s =
     (let w = comm_log (cstr ''Server: Message received: \"'' @ msg @ cstr ''\" from '' @ conn) (srv_world s) in
      case make_response L msg (srv_relay s) w of
        (Inl e, _, _) \<Rightarrow> Inl e
      | (Inr resp, r, w) \<Rightarrow> Inr \<lparr>srv_relay = r, srv_world = w, srv_sent = srv_sent s @ [(conn, resp)]\<rparr>)"

definition on_open :: "byte list \<Rightarrow> server \<Rightarrow> server" where
  "on_open conn s = s\<lparr>srv_world := comm_log (cstr ''Opened connection: '' @ conn) (srv_world s)\<rparr>"

definition on_close :: "byte list \<Rightarrow> int \<Rightarrow> server \<Rightarrow> server" where
  "on_close conn status s =
     s\<lparr>srv_world := comm_log (cstr ''Closed connection: '' @ conn @ cstr '' code '' @ dec_int status) (srv_world s)\<rparr>"

definition on_error :: "byte list \<Rightarrow> byte list \<Rightarrow> byte list \<Rightarrow> server \<Rightarrow> server" where
  "on_error conn ec ec_message s =
     s\<lparr>srv_world := comm_log (cstr ''Error: '' @ conn @ cstr ''. '' @ ec @ cstr '' : '' @ ec_message @ [0x0a]) (srv_world s)\<rparr>"

definition on_send_failed :: "byte list \<Rightarrow> byte list \<Rightarrow> server \<Rightarrow> server" where
  "on_send_failed ec ec_message s =
     s\<lparr>srv_world := comm_log (cstr ''Error sending message: '' @ ec @ cstr '' : '' @ ec_message) (srv_world s)\<rparr>"

inductive ws_step :: "json_lib \<Rightarrow> server \<Rightarrow> ws_event \<Rightarrow> server \<Rightarrow> bool" for L where
  step_open: "ws_step L s (WsOpen conn) (on_open conn s)"
| step_message: "on_message L conn msg s = Inr s' \<Longrightarrow> ws_step L s (WsMessage conn msg) s'"
| step_close: "ws_step L s (WsClose conn status) (on_close conn status s)"
| step_error: "ws_step L s (WsError conn ec ec_message) (on_error conn ec ec_message s)"
| step_send_failed: "ws_step L s (WsSendFailed ec ec_message) (on_send_failed ec ec_message s)"

text \<open>\<open>main\<close> up to the loop of the library; \<open>port\<close> is the port the library reports.\<close>

definition relay_start :: "json_lib \<Rightarrow> nat \<Rightarrow> world \<Rightarrow> server" where
  "relay_start L port w =
     (case relay_new L (comm_start_log w) of (r, w) \<Rightarrow>
        \<lparr>srv_relay = r, srv_world = comm_log (cstr ''Listening on port: '' @ dec_nat port) w, srv_sent = []\<rparr>)"

inductive ws_run :: "json_lib \<Rightarrow> server \<Rightarrow> ws_event list \<Rightarrow> server \<Rightarrow> bool" for L where
  run_nil: "ws_run L s [] s"
| run_cons: "ws_step L s e s' \<Longrightarrow> ws_run L s' es s'' \<Longrightarrow> ws_run L s (e # es) s''"

inductive_simps ws_step_simps:
  "ws_step L s (WsOpen conn) s'"
  "ws_step L s (WsMessage conn msg) s'"
  "ws_step L s (WsClose conn status) s'"
  "ws_step L s (WsError conn ec ec_message) s'"
  "ws_step L s (WsSendFailed ec ec_message) s'"

inductive_cases ws_run_nilE: "ws_run L s [] s'"
inductive_cases ws_run_consE: "ws_run L s (e # es) s'"

section \<open>The abstract relay\<close>

text \<open>
  A message as the relay understands it. An event that cannot be read completely is published
  with the fields that were read before the error.
\<close>

datatype client_message = Publish event_t | Query "byte list" filter_t | Other

definition decode_message :: "json_lib \<Rightarrow> u64 \<Rightarrow> byte list \<Rightarrow> client_message" where
  "decode_message L now msg =
     (case message_head L msg of
        Inl _ \<Rightarrow> Other
      | Inr (j, t) \<Rightarrow>
          if t = cstr ''EVENT'' then
            Publish (case json_at j 1 of Inl _ \<Rightarrow> event_at now | Inr obj \<Rightarrow> fst (from_json_event L obj (event_at now)))
          else if t = cstr ''REQ'' then
            (case id_and_object L j from_json_filter [] (filter_at now) of ((i, s), _) \<Rightarrow> Query i s)
          else Other)"

text \<open>
  The relay as it is, without its texts and files. The state is the list in memory and the list in
  the file; the answer is a JSON value. This is not the relay of NIP-01 and of the comments above
  \<open>make_response\<close> and in \<open>nostr.hh\<close>. There, EOSE carries a subscription id and marks the end of the
  stored events; here it also acknowledges an event, with the id of the event. There, a request is
  answered by all matching events and EOSE, and subscribes to later ones; here by the first stored
  event of its authors or by EOSE alone, and nothing is subscribed to. There, CLOSE ends a
  subscription; here it is answered like any unknown message.
\<close>

fun relay_spec :: "client_message \<Rightarrow> event_t list \<times> event_t list \<Rightarrow> json \<times> (event_t list \<times> event_t list)" where
  "relay_spec (Publish ev) (mem, disk) =
     (JArr [JStr (cstr ''EOSE''), JStr (e_id ev)], (mem @ [ev], disk @ mem @ [ev]))"
| "relay_spec (Query i s) (mem, disk) =
     (case filter (\<lambda>ev. e_pubkey ev \<in> set (f_authors s)) disk of
        ev # _ \<Rightarrow> JArr [JStr (cstr ''EVENT''), JStr i, event_js ev]
      | [] \<Rightarrow> JArr [JStr (cstr ''EOSE''), JStr i], (mem, disk))"
| "relay_spec Other (mem, disk) = (JArr [JStr (cstr ''NOTICE''), JStr (cstr ''Error'')], (mem, disk))"

section \<open>Refinement\<close>

text \<open>Steps of the world that leave the database alone.\<close>

definition calm :: "world \<Rightarrow> world \<Rightarrow> bool" where
  "calm w w' \<longleftrightarrow> files w' database_file = files w database_file \<and> writable w' = writable w
     \<and> ofs_log w' = ofs_log w \<and> clock w' = clock w"

lemma calm_refl [simp]: "calm w w"
  by (simp add: calm_def)

lemma calm_trans [trans]: "calm w w' \<Longrightarrow> calm w' w'' \<Longrightarrow> calm w w''"
  by (simp add: calm_def)

lemma calm_log_apart: "calm w w' \<Longrightarrow> log_apart w' = log_apart w"
  by (simp add: calm_def log_apart_def)

lemma quiet_calm: "quiet w w' \<Longrightarrow> log_apart w \<Longrightarrow> calm w w'"
  using database_file_apart [of w] by (simp add: calm_def quiet_def)

lemma calm_stored: "calm w w' \<Longrightarrow> stored L w' = stored L w"
  by (rule stored_cong) (simp add: calm_def)

lemma calm_db_ok: "calm w w' \<Longrightarrow> db_ok L w' = db_ok L w"
  by (simp add: db_ok_def calm_log_apart) (simp add: calm_def)

lemma calm_json_to_file:
  assumes "log_apart w" "name \<noteq> database_file"
  shows "calm w (json_to_file L name s w)"
proof (cases "then_try (json_parse L s) (json_dump L Indent_1)")
  case (Inl e)
  then show ?thesis using quiet_calm [OF quiet_comm_log assms(1)] by (simp add: json_to_file_def)
next
  case (Inr json)
  then show ?thesis using assms(2)
    by (simp add: json_to_file_def calm_def write_file_def put_def del: then_try_Inr)
qed

lemma relay_files_apart [simp]:
  "cstr ''relay_message.json'' \<noteq> database_file" "cstr ''relay_response.json'' \<noteq> database_file"
  by (simp_all add: database_file_def)

lemma parsed_parts: "fst (snd (parsed L r w)) = fst r" "quiet w (snd (snd (parsed L r w)))"
  by (simp_all add: parsed_def split: prod.split option.split)

text \<open>The functions of the protocol, over the message that \<open>decode_message\<close> reads.\<close>

lemma message_type_decode:
  "quiet w (snd (get_message_type L msg w))"
  "fst (get_message_type L msg w) = EVENT \<longleftrightarrow> (\<exists>ev. decode_message L now msg = Publish ev)"
  "fst (get_message_type L msg w) = REQ \<longleftrightarrow> (\<exists>i s. decode_message L now msg = Query i s)"
  by (auto simp: get_message_type_def decode_message_def split: sum.split prod.split)

lemma parse_client_decode:
  assumes "decode_message L now msg = Publish ev"
  shows "\<exists>c w'. parse_client_event L msg (event_at now) w = (c, ev, w') \<and> quiet w w'"
proof -
  obtain j t where j: "message_head L msg = Inr (j, t)" "t = cstr ''EVENT''"
    using assms by (auto simp: decode_message_def split: sum.splits if_splits prod.splits)
  show ?thesis
  proof (cases "json_at j 1")
    case (Inl e)
    with j assms show ?thesis by (simp add: decode_message_def parse_client_event_def)
  next
    case (Inr obj)
    with j assms parsed_parts [where L = L and r = "from_json_event L obj (event_at now)" and w = w] show ?thesis
      by (simp add: decode_message_def parse_client_event_def) (metis prod.collapse)
  qed
qed

lemma parse_request_decode:
  assumes "decode_message L now msg = Query i s"
  shows "\<exists>c w'. parse_request L msg [] (filter_at now) w = (c, (i, s), w') \<and> quiet w w'"
proof -
  obtain j t where j: "message_head L msg = Inr (j, t)" "t = cstr ''REQ''"
      "fst (id_and_object L j from_json_filter [] (filter_at now)) = (i, s)"
    using assms by (auto simp: decode_message_def split: sum.splits if_splits prod.splits)
  with parsed_parts [where L = L and r = "id_and_object L j from_json_filter [] (filter_at now)" and w = w] show ?thesis
    by (simp add: parse_request_def) (metis prod.collapse)
qed

lemma message_head_utf8: "json_lib_ok L \<Longrightarrow> message_head L msg = Inr (j, t) \<Longrightarrow> json_utf8 j"
  by (auto simp: message_head_def dest: parse_utf8)

lemma decode_valid:
  assumes "json_lib_ok L"
  shows "decode_message L now msg = Publish ev \<Longrightarrow> event_valid ev"
    and "decode_message L now msg = Query i s \<Longrightarrow> utf8 i"
proof -
  have now: "event_valid (event_at now)" by (simp add: event_valid_def event_at_def)
  show "event_valid ev" if "decode_message L now msg = Publish ev"
    using that message_head_utf8 [OF assms, of msg] json_at_utf8 from_json_event_valid [OF _ now] now
    by (auto simp: decode_message_def split: sum.splits if_splits prod.splits)
  show "utf8 i" if "decode_message L now msg = Query i s"
    using that message_head_utf8 [OF assms, of msg]
    by (auto intro: get_string_utf8 dest: json_at_utf8 simp: decode_message_def id_and_object_def split: sum.splits if_splits prod.splits)
qed

text \<open>The answers of the abstract relay have a text, and its lists stay valid.\<close>

lemma relay_spec_valid:
  assumes "json_lib_ok L" "list_all event_valid mem" "list_all event_valid disk"
    and "relay_spec (decode_message L now msg) (mem, disk) = (reply, (mem', disk'))"
  shows "json_utf8 reply" "json_exact reply" "list_all event_valid mem'"
proof -
  note [simp] = event_class.to_utf8 event_class.to_exact
  have first: "event_valid ev" if "filter P disk = ev # evs" for P ev evs
  proof -
    have "ev \<in> set (filter P disk)" by (simp add: that)
    with assms(3) show ?thesis by (auto simp: list_all_iff)
  qed
  have "json_utf8 reply \<and> json_exact reply \<and> list_all event_valid mem'"
  proof (cases "decode_message L now msg")
    case (Publish ev)
    with decode_valid(1) [OF assms(1) Publish] assms(2,4) show ?thesis by (auto simp: event_valid_def)
  next
    case (Query i s)
    note i = decode_valid(2) [OF assms(1) Query]
    show ?thesis
    proof (cases "filter (\<lambda>ev. e_pubkey ev \<in> set (f_authors s)) disk")
      case Nil
      with Query i assms(2,4) show ?thesis by auto
    next
      case (Cons ev evs)
      with Query i assms(2,4) first [OF Cons] show ?thesis by auto
    qed
  next
    case Other
    with assms(2,4) show ?thesis by auto
  qed
  then show "json_utf8 reply" "json_exact reply" "list_all event_valid mem'" by simp_all
qed

definition relay_ok :: "json_lib \<Rightarrow> relay_t \<Rightarrow> world \<Rightarrow> bool" where
  "relay_ok L r w \<longleftrightarrow> db_ok L w \<and> list_all event_valid (database r)"

text \<open>The part of \<open>make_response\<close> between the two message files.\<close>

definition answers :: "json_lib \<Rightarrow> byte list \<Rightarrow> relay_t \<Rightarrow> world \<Rightarrow> byte list throwing \<times> relay_t \<times> world \<Rightarrow> bool" where
  "answers L msg r w result \<longleftrightarrow>
     (\<exists>n t r' w'. result = (Inr t, r', w')
        \<and> (\<exists>reply. json_parse L t = Inr reply
             \<and> relay_spec (decode_message L (clock w n) msg) (database r, stored L w) = (reply, (database r', stored L w')))
        \<and> relay_ok L r' w' \<and> clock w' = clock w)"

lemma dump_reply:
  assumes "relay_ok L r w" "relay_spec (decode_message L now msg) (database r, stored L w) = (reply, (mem', disk'))"
  obtains t where "json_dump L Compact reply = Inr t" "json_parse L t = Inr reply" "list_all event_valid mem'"
proof -
  have L: "json_lib_ok L" using assms(1) by (simp add: relay_ok_def db_ok_def)
  note v = relay_spec_valid [OF L _ stored_valid [OF L] assms(2)]
  have mem: "list_all event_valid (database r)" using assms(1) by (simp add: relay_ok_def)
  from dump_parse_obtain [OF L v(1) [OF mem] v(2) [OF mem], of Compact] v(3) [OF mem] that show ?thesis by blast
qed

lemma database_append_clock: "clock (snd (database_append L es w)) = clock w"
  using database_read_quiet [of L w]
  by (simp add: database_append_save database_save_def write_file_def quiet_def split: prod.split sum.split)
    (metis quiet_comm_log quiet_def)

lemma respond_event_answers:
  assumes "relay_ok L r w" "decode_message L (clock w (ticks w)) msg = Publish ev"
  shows "answers L msg r w (respond_event L msg r w)"
proof -
  let ?w = "w\<lparr>ticks := ticks w + 1\<rparr>" and ?now = "clock w (ticks w)" and ?r = "r\<lparr>database := database r @ [ev]\<rparr>"
  have ok: "db_ok L w" "log_apart w" "json_lib_ok L" using assms(1) by (simp_all add: relay_ok_def db_ok_def)
  obtain c w1 where p: "parse_client_event L msg (event_at ?now) ?w = (c, ev, w1)" "quiet ?w w1"
    using parse_client_decode [OF assms(2)] by blast
  have "quiet w w1" using quiet_std_time [of w ?now ?w] p(2) by (auto simp: std_time_def intro: quiet_trans)
  then have w1: "calm w w1" by (rule quiet_calm [OF _ ok(2)])
  obtain t where t: "json_dump L Compact (JArr [JStr (cstr ''EOSE''), JStr (e_id ev)]) = Inr t"
      "json_parse L t = Inr (JArr [JStr (cstr ''EOSE''), JStr (e_id ev)])" "list_all event_valid (database ?r)"
    using dump_reply [OF assms(1), of ?now msg] assms(2) by auto
  obtain w2 where w2: "database_append L (database ?r) w1 = (0, w2)" "stored L w2 = stored L w1 @ database ?r" "db_ok L w2"
    using database_append_ok [OF _ t(3)] calm_db_ok [OF w1] ok(1) by metis
  have "clock w2 = clock w1"
    using database_append_clock [of L "database ?r" w1] w2(1) by simp
  moreover have "respond_event L msg r w = (Inr t, ?r, w2)"
    using p(1) w2(1) t(1) by (simp add: respond_event_def new_event_def std_time_def Let_def)
  ultimately show ?thesis
    using t(2,3) w2(2,3) calm_stored [OF w1] w1 assms(2)
    unfolding answers_def relay_ok_def by (auto simp: calm_def intro!: exI [of _ "ticks w"])
qed

lemma respond_request_answers:
  assumes "relay_ok L r w" "decode_message L (clock w (ticks w)) msg = Query i s"
  shows "answers L msg r w (respond_request L msg r w)"
proof -
  let ?w = "w\<lparr>ticks := ticks w + 1\<rparr>" and ?now = "clock w (ticks w)"
  let ?evs = "filter (\<lambda>ev. e_pubkey ev \<in> set (f_authors s)) (stored L w)"
  have ok: "db_ok L w" "log_apart w" using assms(1) by (simp_all add: relay_ok_def db_ok_def)
  obtain c w1 where p: "parse_request L msg [] (filter_at ?now) ?w = (c, (i, s), w1)" "quiet ?w w1"
    using parse_request_decode [OF assms(2)] by blast
  obtain w2 where d: "database_request L s w1 = (fst (database_request L s w1), w2)" by (metis prod.collapse)
  have "quiet w w1" using quiet_std_time [of w ?now ?w] p(2) by (auto simp: std_time_def intro: quiet_trans)
  moreover have "quiet w1 w2" using database_request_eq(2) [of w1 L s] d by (metis snd_conv)
  ultimately have calm: "calm w w1" "calm w w2"
    using quiet_calm [OF _ ok(2)] quiet_trans by blast+
  have evs: "fst (database_request L s w1) = ?evs"
    by (simp add: database_request_eq calm_stored [OF calm(1)])
  obtain reply where reply: "relay_spec (decode_message L ?now msg) (database r, stored L w) = (reply, (database r, stored L w))"
    using assms(2) by simp
  obtain t where t: "json_dump L Compact reply = Inr t" "json_parse L t = Inr reply"
    using dump_reply [OF assms(1) reply] by blast
  have "respond_request L msg r w = (json_dump L Compact reply, r, w2)"
    using p(1) d evs reply assms(2)
    by (cases ?evs) (simp_all add: respond_request_def new_filter_def std_time_def)
  with t reply calm_stored [OF calm(2)] calm_db_ok [OF calm(2)] calm(2) assms(1) show ?thesis
    unfolding answers_def relay_ok_def calm_def by auto
qed

lemma make_response_answers:
  assumes "relay_ok L r w"
  shows "answers L msg r w (make_response L msg r w)"
proof -
  let ?w1 = "json_to_file L (cstr ''relay_message.json'') msg w"
  obtain mtype w2 where ty: "get_message_type L msg ?w1 = (mtype, w2)" by (metis prod.collapse)
  have apart: "log_apart w" using assms by (simp add: relay_ok_def db_ok_def)
  have "calm w ?w1" by (rule calm_json_to_file [OF apart]) simp
  moreover have "quiet ?w1 w2" using message_type_decode(1) [of ?w1 L msg] ty by simp
  ultimately have calm: "calm w w2" using quiet_calm [of ?w1 w2] apart calm_trans by simp
  then have ok: "relay_ok L r w2" using assms calm_db_ok by (simp add: relay_ok_def)
  let ?now = "clock w2 (ticks w2)"
  let ?mid = "if mtype = EVENT then respond_event L msg r w2 else if mtype = REQ then respond_request L msg r w2
     else (json_dump L Compact (JArr [JStr (cstr ''NOTICE''), JStr (cstr ''Error'')]), r, w2)"
  note kinds = message_type_decode(2,3) [where L = L and msg = msg and w = ?w1 and now = ?now, unfolded ty fst_conv]
  have "answers L msg r w2 ?mid"
  proof (cases "decode_message L ?now msg")
    case (Publish ev)
    with kinds respond_event_answers [OF ok Publish] show ?thesis by simp
  next
    case (Query i s)
    with kinds respond_request_answers [OF ok Query] show ?thesis by simp
  next
    case Other
    with kinds have "?mid = (json_dump L Compact (JArr [JStr (cstr ''NOTICE''), JStr (cstr ''Error'')]), r, w2)" by simp
    with dump_reply [OF ok, of ?now msg] Other ok show ?thesis unfolding answers_def by (metis relay_spec.simps(3))
  qed
  then obtain n t r' w3 reply where mid: "?mid = (Inr t, r', w3)" "json_parse L t = Inr reply" "relay_ok L r' w3"
      "clock w3 = clock w2"
      "relay_spec (decode_message L (clock w2 n) msg) (database r, stored L w2) = (reply, (database r', stored L w3))"
    unfolding answers_def by blast
  let ?w4 = "json_to_file L (cstr ''relay_response.json'') t w3"
  have w4: "calm w3 ?w4" using mid(3) by (intro calm_json_to_file) (simp_all add: relay_ok_def db_ok_def)
  have "make_response L msg r w = (Inr t, r', ?w4)" using mid(1) ty by (simp add: make_response_def Let_def)
  moreover have "relay_ok L r' ?w4" using mid(3) calm_db_ok [OF w4] by (simp add: relay_ok_def)
  ultimately show ?thesis
    using mid(2,4,5) calm_stored [OF w4] calm_stored [OF calm] calm w4
    unfolding answers_def by (auto simp: calm_def)
qed

section \<open>Runs of the server\<close>

definition server_ok :: "json_lib \<Rightarrow> server \<Rightarrow> bool" where
  "server_ok L s \<longleftrightarrow> relay_ok L (srv_relay s) (srv_world s)"

definition server_lists :: "json_lib \<Rightarrow> server \<Rightarrow> event_t list \<times> event_t list" where
  "server_lists L s = (database (srv_relay s), stored L (srv_world s))"

lemma logged_lists:
  assumes "server_ok L s"
  shows "server_ok L (s\<lparr>srv_world := comm_log m (srv_world s)\<rparr>)"
    "server_lists L (s\<lparr>srv_world := comm_log m (srv_world s)\<rparr>) = server_lists L s"
proof -
  have "calm (srv_world s) (comm_log m (srv_world s))"
    using assms by (intro quiet_calm) (simp_all add: server_ok_def relay_ok_def db_ok_def)
  from calm_stored [OF this] calm_db_ok [OF this] assms show "server_ok L (s\<lparr>srv_world := comm_log m (srv_world s)\<rparr>)"
    "server_lists L (s\<lparr>srv_world := comm_log m (srv_world s)\<rparr>) = server_lists L s"
    by (simp_all add: server_ok_def server_lists_def relay_ok_def)
qed

lemma on_message_ok:
  assumes "server_ok L s"
  obtains s' t reply n where "on_message L conn msg s = Inr s'" "server_ok L s'" "srv_sent s' = srv_sent s @ [(conn, t)]"
    "json_parse L t = Inr reply"
    "relay_spec (decode_message L (clock (srv_world s) n) msg) (server_lists L s) = (reply, server_lists L s')"
    "clock (srv_world s') = clock (srv_world s)"
proof -
  let ?m = "cstr ''Server: Message received: \"'' @ msg @ cstr ''\" from '' @ conn"
  let ?w = "comm_log ?m (srv_world s)"
  have ok: "relay_ok L (srv_relay s) ?w" using logged_lists(1) [OF assms, of ?m] by (simp add: server_ok_def)
  have clk: "clock ?w = clock (srv_world s)" using quiet_comm_log unfolding quiet_def by blast
  from make_response_answers [OF ok, of msg] obtain n t r' w' reply where
      "make_response L msg (srv_relay s) ?w = (Inr t, r', w')" "json_parse L t = Inr reply" "relay_ok L r' w'"
      "relay_spec (decode_message L (clock ?w n) msg) (database (srv_relay s), stored L ?w) = (reply, (database r', stored L w'))"
      "clock w' = clock ?w"
    unfolding answers_def by blast
  with that [of "\<lparr>srv_relay = r', srv_world = w', srv_sent = srv_sent s @ [(conn, t)]\<rparr>" t reply n]
    logged_lists(2) [OF assms, of ?m] clk show ?thesis
    by (simp add: on_message_def server_ok_def server_lists_def Let_def)
qed

text \<open>The lists after an event of the library, and the connection that is answered.\<close>

definition answered :: "ws_event list \<Rightarrow> byte list list" where
  "answered es = concat (map (\<lambda>e. case e of WsMessage conn _ \<Rightarrow> [conn] | _ \<Rightarrow> []) es)"

lemma ws_step_lists:
  assumes "server_ok L s" "ws_step L s e s'"
  shows "server_ok L s' \<and> map fst (srv_sent s') = map fst (srv_sent s) @ answered [e]
    \<and> (case e of
         WsMessage conn msg \<Rightarrow> \<exists>now. server_lists L s' = snd (relay_spec (decode_message L now msg) (server_lists L s))
       | _ \<Rightarrow> server_lists L s' = server_lists L s)"
proof (cases e)
  case (WsMessage conn msg)
  with assms(2) have "on_message L conn msg s = Inr s'" by (simp add: ws_step_simps)
  with on_message_ok [OF assms(1), of conn msg] obtain t reply n where "server_ok L s'" "srv_sent s' = srv_sent s @ [(conn, t)]"
      "relay_spec (decode_message L (clock (srv_world s) n) msg) (server_lists L s) = (reply, server_lists L s')"
    by (metis sum.inject(2))
  with WsMessage show ?thesis by (auto simp: answered_def intro!: exI [of _ "clock (srv_world s) n"])
qed (use assms logged_lists [OF assms(1)] in
  \<open>simp_all add: ws_step_simps answered_def on_open_def on_close_def on_error_def on_send_failed_def\<close>)

lemma ws_step_exists: "server_ok L s \<Longrightarrow> \<exists>s'. ws_step L s e s'"
  by (cases e) (auto simp: ws_step_simps elim: on_message_ok)

lemma log_name_apart [simp]: "log_name w \<noteq> database_file" "database_file \<noteq> log_name w"
proof -
  have "last (log_name w) \<noteq> last database_file" by (simp add: log_name_def database_file_def cstr_def)
  then show "log_name w \<noteq> database_file" "database_file \<noteq> log_name w" by metis+
qed

lemma relay_start_ok:
  assumes "json_lib_ok L" "writable w database_file" "ofs_log w = None"
  shows "server_ok L (relay_start L port w)" "server_lists L (relay_start L port w) = (stored L w, stored L w)"
    "srv_sent (relay_start L port w) = []"
proof -
  let ?w = "comm_start_log w"
  have calm: "files ?w database_file = files w database_file" and ok: "db_ok L ?w"
    using assms quiet_start [OF assms(3)] by (auto simp: db_ok_def comm_start_log_def)
  obtain w1 where r: "database_read L ?w = (stored L ?w, w1)" by (simp add: stored_def) (metis prod.collapse)
  have w1: "db_ok L w1" "stored L w1 = stored L ?w"
    using database_read_quiet [OF r] db_ok_quiet stored_quiet ok by (auto simp: db_ok_def)
  have "server_ok L \<lparr>srv_relay = \<lparr>database = stored L ?w\<rparr>, srv_world = w1, srv_sent = []\<rparr>"
    using w1(1) stored_valid [OF assms(1)] by (simp add: server_ok_def relay_ok_def)
  from logged_lists [OF this, of "cstr ''Listening on port: '' @ dec_nat port"] r w1(2) stored_cong [OF calm]
  show "server_ok L (relay_start L port w)" "server_lists L (relay_start L port w) = (stored L w, stored L w)"
    "srv_sent (relay_start L port w) = []"
    by (simp_all add: relay_start_def relay_new_def server_lists_def)
qed

lemma ws_run_ok:
  assumes "ws_run L s es s'" "server_ok L s"
  shows "server_ok L s' \<and> map fst (srv_sent s') = map fst (srv_sent s) @ answered es"
  using assms
proof (induction rule: ws_run.induct)
  case (run_cons s e s' es s'')
  then show ?case using ws_step_lists [OF run_cons.prems run_cons.hyps(1)] by (auto simp: answered_def)
qed (simp add: answered_def)

text \<open>Publishing, on the lists alone.\<close>

interpretation list_store: event_store "\<lambda>d. d" "\<lambda>es d. d @ es" "\<lambda>_. True" "\<lambda>_ :: event_t. True"
  by unfold_locales (simp_all add: list_all_iff)

text \<open>An event of the library that publishes a complete event, whatever the time.\<close>

definition publishes :: "json_lib \<Rightarrow> ws_event \<Rightarrow> event_t \<Rightarrow> bool" where
  "publishes L e ev \<longleftrightarrow> (\<exists>conn msg. e = WsMessage conn msg \<and> (\<forall>now. decode_message L now msg = Publish ev))"

lemma publishing_run:
  assumes "ws_run L s es s'" "server_ok L s" "list_all2 (publishes L) es evs"
  shows "server_lists L s' = publish_all (\<lambda>es d. d @ es) evs (server_lists L s)"
  using assms
proof (induction arbitrary: evs rule: ws_run.induct)
  case (run_cons s e s' es s'')
  obtain ev evs' where evs: "evs = ev # evs'" "publishes L e ev" "list_all2 (publishes L) es evs'"
    using run_cons.prems(2) by (auto simp: list_all2_Cons1)
  note step = ws_step_lists [OF run_cons.prems(1) run_cons.hyps(1)]
  have "server_lists L s' = snd (relay_spec (Publish ev) (server_lists L s))"
    using step evs(2) by (auto simp: publishes_def)
  then have "server_lists L s' = (fst (server_lists L s) @ [ev], snd (server_lists L s) @ fst (server_lists L s) @ [ev])"
    by (cases "server_lists L s") simp
  with run_cons.IH [of evs'] step evs show ?case by simp
qed simp

lemma decode_event_text:
  assumes "json_parse L msg = Inr (JArr [JStr (cstr ''EVENT''), event_js ev])"
  shows "decode_message L now msg = Publish ev"
  by (simp add: decode_message_def message_head_parse [OF assms] from_json_event_js)

text \<open>What a run can do to the two lists.\<close>

definition published_by :: "json_lib \<Rightarrow> ws_event list \<Rightarrow> event_t set" where
  "published_by L es = {ev. \<exists>conn msg now. WsMessage conn msg \<in> set es \<and> decode_message L now msg = Publish ev}"

lemma published_by_Cons: "published_by L (e # es) = published_by L [e] \<union> published_by L es"
  by (auto simp: published_by_def)

definition provenance ::
    "json_lib \<Rightarrow> ws_event list \<Rightarrow> event_t list \<times> event_t list \<Rightarrow> event_t list \<times> event_t list \<Rightarrow> bool" where
  "provenance L es st st' \<longleftrightarrow>
     set (fst st') \<union> set (snd st')
       \<subseteq> set (fst st) \<union> set (snd st) \<union> published_by L es
     \<and> (\<exists>later. snd st' = snd st @ later)
     \<and> set (fst st') \<subseteq> set (snd st')
     \<and> (\<forall>ev e. e \<in> set es \<and> publishes L e ev \<longrightarrow> ev \<in> set (snd st'))"

lemma provenance_trans: "provenance L [e] st st' \<Longrightarrow> provenance L es st' st'' \<Longrightarrow> provenance L (e # es) st st''"
proof -
  assume a: "provenance L [e] st st'" and b: "provenance L es st' st''"
  obtain l1 l2 where l: "snd st' = snd st @ l1" "snd st'' = snd st' @ l2"
    using a b unfolding provenance_def by blast
  have "set (fst st') \<union> set (snd st') \<subseteq> set (fst st) \<union> set (snd st) \<union> published_by L [e]"
      "set (fst st'') \<union> set (snd st'') \<subseteq> set (fst st') \<union> set (snd st') \<union> published_by L es"
    using a b unfolding provenance_def by blast+
  then have "set (fst st'') \<union> set (snd st'') \<subseteq> set (fst st) \<union> set (snd st) \<union> published_by L (e # es)"
    using published_by_Cons [of L e es] by blast
  moreover have "ev \<in> set (snd st'')" if "e' \<in> set (e # es)" "publishes L e' ev" for ev e'
    using that a b l unfolding provenance_def by auto
  ultimately show ?thesis using b l unfolding provenance_def by auto
qed

lemma ws_step_provenance:
  assumes "server_ok L s" "ws_step L s e s'" "set (fst (server_lists L s)) \<subseteq> set (snd (server_lists L s))"
  shows "provenance L [e] (server_lists L s) (server_lists L s')"
proof (cases "server_lists L s' = server_lists L s \<and> (\<forall>ev. \<not> publishes L e ev)")
  case True
  with assms(3) show ?thesis by (auto simp: provenance_def)
next
  case False
  note step = ws_step_lists [OF assms(1,2)]
  from False step obtain conn msg now where e: "e = WsMessage conn msg"
      "server_lists L s' = snd (relay_spec (decode_message L now msg) (server_lists L s))"
    by (cases e) (auto simp: publishes_def)
  obtain mem disk where st: "server_lists L s = (mem, disk)" by (cases "server_lists L s")
  have pub: "decode_message L now msg = Publish ev" if "publishes L e ev" for ev
    using that e(1) by (auto simp: publishes_def)
  show ?thesis
    using pub e st assms(3) by (cases "decode_message L now msg") (auto simp: provenance_def published_by_def)
qed

lemma ws_run_provenance:
  assumes "ws_run L s es s'" "server_ok L s" "set (fst (server_lists L s)) \<subseteq> set (snd (server_lists L s))"
  shows "provenance L es (server_lists L s) (server_lists L s')"
  using assms
proof (induction rule: ws_run.induct)
  case (run_cons s e s' es s'')
  have "provenance L [e] (server_lists L s) (server_lists L s')"
    by (rule ws_step_provenance [OF run_cons.prems(1) run_cons.hyps(1) run_cons.prems(2)])
  moreover from this run_cons have "provenance L es (server_lists L s') (server_lists L s'')"
    using ws_step_lists [OF run_cons.prems(1) run_cons.hyps(1)] by (auto simp: provenance_def)
  ultimately show ?case by (rule provenance_trans)
qed (simp add: provenance_def)

section \<open>Properties\<close>

text \<open>
  C2. The relay implements its abstract specification: with a writable database file and a
  JSON library that does its part, make_response always returns a text, without an
  exception, and the text is the answer that the abstract relay gives to the message: EOSE with
  the id for an event, which is added to the list in memory while the whole of that list is
  appended to the file; the first stored event of one of the authors for a request, or EOSE; a
  NOTICE for everything else, CLOSE among it. The invariant is kept. These answers are not those of
  NIP-01 and of the comments in the code, by which EOSE carries a subscription id and follows all
  the events that match a request, and CLOSE ends a subscription.
\<close>

theorem make_response_refines:
  assumes "relay_ok L r w"
  shows "\<exists>n t r' w' reply. make_response L msg r w = (Inr t, r', w') \<and> json_parse L t = Inr reply
    \<and> relay_spec (decode_message L (clock w n) msg) (database r, stored L w) = (reply, (database r', stored L w'))
    \<and> relay_ok L r' w'"
  using make_response_answers [OF assms, of msg] unfolding answers_def by blast

lemma sample_relay_ok: "relay_ok sample_json \<lparr>database = [sample_note]\<rparr> sample_world"
  using sample_db_ok sample_note_valid by (simp add: relay_ok_def)

theorem make_response_refines_witness:
  "\<exists>t r' w' reply. make_response sample_json (cstr ''hello'') \<lparr>database = [sample_note]\<rparr> sample_world = (Inr t, r', w')
     \<and> json_parse sample_json t = Inr reply \<and> relay_ok sample_json r' w'"
  using make_response_refines [OF sample_relay_ok, of "cstr ''hello''"] by blast

text \<open>
  C6. The relay never stops by an exception: from the start of the program, after any
  sequence of events of the server library, the invariant holds, every further event, be it any
  message at all, has a step, and each message so far was answered exactly once, on its own
  connection and in the order of arrival.
\<close>

theorem relay_never_stuck:
  assumes "json_lib_ok L" "writable w database_file" "ofs_log w = None" "ws_run L (relay_start L port w) es s"
  shows "server_ok L s \<and> (\<exists>s'. ws_step L s e s') \<and> map fst (srv_sent s) = answered es"
  using ws_run_ok [OF assms(4) relay_start_ok(1) [OF assms(1-3)]] relay_start_ok(3) [OF assms(1-3)] ws_step_exists [of L s e]
  by simp

theorem relay_never_stuck_witness:
  "\<exists>s. ws_run sample_json (relay_start sample_json 8080 sample_world) [WsOpen [1], WsMessage [1] [2]] s
     \<and> map fst (srv_sent s) = [[1]] \<and> (\<exists>s'. ws_step sample_json s (WsMessage [3] []) s')"
proof -
  let ?s0 = "relay_start sample_json 8080 sample_world"
  have start: "writable sample_world database_file" "ofs_log sample_world = None" by (simp_all add: sample_world_def)
  have "server_ok sample_json (on_open [1] ?s0)"
    using ws_step_lists [OF relay_start_ok(1) [OF sample_json_ok start] step_open] by blast
  from ws_step_exists [OF this] obtain s where "ws_step sample_json (on_open [1] ?s0) (WsMessage [1] [2]) s" by blast
  then have "ws_run sample_json ?s0 [WsOpen [1], WsMessage [1] [2]] s"
    by (intro run_cons [OF step_open] run_cons [OF _ run_nil])
  with relay_never_stuck [OF sample_json_ok start this, of "WsMessage [3] []"] show ?thesis
    by (auto simp: answered_def)
qed

text \<open>
  C11. The database file grows with the square of the number of events: when the relay starts
  with k stored events and then receives n complete EVENT messages, its list in memory has
  the k + n events in order, and the file has k + n k + n (n + 1) / 2, since each message
  appends the whole list. Started on an empty file, an event is stored once for every message
  from its own on.
\<close>

theorem relay_database_growth:
  assumes "json_lib_ok L" "writable w database_file" "ofs_log w = None" "ws_run L (relay_start L port w) es s"
    and "list_all2 (publishes L) es evs" "fst (database_read L w) = old"
  shows "database (srv_relay s) = old @ evs
    \<and> fst (database_read L (srv_world s)) = old @ concat (map (\<lambda>i. old @ take (Suc i) evs) [0..<length evs])
    \<and> 2 * length (fst (database_read L (srv_world s)))
        = 2 * length old + length evs * (2 * length old + length evs + 1)"
proof -
  have old: "stored L w = old" using assms(6) by (simp add: stored_def)
  have "server_lists L s = publish_all (\<lambda>es d. d @ es) evs (old, old)"
    using publishing_run [OF assms(4) _ assms(5)] relay_start_ok [OF assms(1-3)] old by simp
  with list_store.publish_all_contents [of old evs old]
  have "fst (server_lists L s) = old @ evs" "snd (server_lists L s) = old @ prefixes_after old evs"
    by (simp_all add: list_all_iff)
  then have "database (srv_relay s) = old @ evs \<and> stored L (srv_world s) = old @ prefixes_after old evs"
    by (simp add: server_lists_def)
  with length_prefixes_after [of old evs] show ?thesis by (simp add: stored_def prefixes_after_def)
qed

lemma sample_event_text:
  obtains msg where "json_parse sample_json msg = Inr (JArr [JStr (cstr ''EVENT''), event_js sample_note])"
proof -
  let ?j = "JArr [JStr (cstr ''EVENT''), event_js sample_note]"
  have "json_utf8 ?j" "json_exact ?j"
    using sample_note_valid event_class.to_utf8 event_class.to_exact by simp_all
  from dump_parse_obtain [OF sample_json_ok this] that show ?thesis by blast
qed

theorem relay_database_growth_witness:
  "\<exists>msg s. ws_run sample_json (relay_start sample_json 8080 sample_world) [WsMessage [1] msg, WsMessage [1] msg] s
     \<and> database (srv_relay s) = fst (database_read sample_json sample_world) @ [sample_note, sample_note]"
proof -
  obtain msg where msg: "json_parse sample_json msg = Inr (JArr [JStr (cstr ''EVENT''), event_js sample_note])"
    by (rule sample_event_text)
  let ?e = "WsMessage [1] msg" and ?s0 = "relay_start sample_json 8080 sample_world"
  have start: "writable sample_world database_file" "ofs_log sample_world = None" by (simp_all add: sample_world_def)
  have s0: "server_ok sample_json ?s0" by (rule relay_start_ok [OF sample_json_ok start])
  then obtain s1 where s1: "ws_step sample_json ?s0 ?e s1" using ws_step_exists by blast
  then obtain s where s: "ws_step sample_json s1 ?e s" using ws_step_exists ws_step_lists [OF s0 s1] by blast
  have run: "ws_run sample_json ?s0 [?e, ?e] s" by (intro run_cons [OF s1] run_cons [OF s] run_nil)
  have "list_all2 (publishes sample_json) [?e, ?e] [sample_note, sample_note]"
    using decode_event_text [OF msg] by (simp add: publishes_def)
  from relay_database_growth [OF sample_json_ok start run this refl] run show ?thesis by blast
qed

text \<open>
  C10. Nothing appears from nowhere and nothing is lost: at any time the events in memory and
  in the file are those that the file held at the start and those that the messages so far
  published; those of the start stay at the front of the file, and every published event is
  in the file.
\<close>

theorem relay_provenance:
  assumes "json_lib_ok L" "writable w database_file" "ofs_log w = None" "ws_run L (relay_start L port w) es s"
    and "fst (database_read L w) = old"
  shows "set (fst (database_read L (srv_world s))) \<union> set (database (srv_relay s))
      \<subseteq> set old \<union> published_by L es
    \<and> (\<exists>later. fst (database_read L (srv_world s)) = old @ later)
    \<and> set (database (srv_relay s)) \<subseteq> set (fst (database_read L (srv_world s)))
    \<and> (\<forall>ev e. e \<in> set es \<and> publishes L e ev \<longrightarrow> ev \<in> set (fst (database_read L (srv_world s))))"
proof -
  have "provenance L es (server_lists L (relay_start L port w)) (server_lists L s)"
    by (rule ws_run_provenance [OF assms(4)])
      (use relay_start_ok [OF assms(1-3)] in simp_all)
  with relay_start_ok(2) [OF assms(1-3), of port] assms(5) show ?thesis
    by (auto simp: provenance_def server_lists_def stored_def)
qed

theorem relay_provenance_witness:
  "\<exists>msg s. ws_run sample_json (relay_start sample_json 8080 sample_world) [WsMessage [1] msg] s
     \<and> sample_note \<in> set (fst (database_read sample_json (srv_world s)))"
proof -
  obtain msg where msg: "json_parse sample_json msg = Inr (JArr [JStr (cstr ''EVENT''), event_js sample_note])"
    by (rule sample_event_text)
  let ?e = "WsMessage [1] msg" and ?s0 = "relay_start sample_json 8080 sample_world"
  have start: "writable sample_world database_file" "ofs_log sample_world = None" by (simp_all add: sample_world_def)
  obtain s where s: "ws_step sample_json ?s0 ?e s" using ws_step_exists relay_start_ok(1) [OF sample_json_ok start] by blast
  then have run: "ws_run sample_json ?s0 [?e] s" by (intro run_cons [OF s] run_nil)
  have "publishes sample_json ?e sample_note" using decode_event_text [OF msg] by (simp add: publishes_def)
  then have "sample_note \<in> set (fst (database_read sample_json (srv_world s)))"
    using relay_provenance [OF sample_json_ok start run refl] by (meson list.set_intros(1))
  with run show ?thesis by blast
qed

end
