(* ===== verification/Http.thy ===== *)
theory Http
  imports Comm_Log Nostril_Cli
begin

text \<open>
  The HTTP messages of \<open>src/src/http/http.cc\<close>. A socket is the list of the pieces that successive
  reads return, in whatever way the network cuts the stream; its end is the end of the
  connection. \<open>size_t\<close> is a 64 bit word.

  Shown: a message of \<open>make_post\<close> is read back by \<open>parse\<close> however it is cut into pieces; more
  bytes than announced in the same piece make \<open>parse\<close> fail.
\<close>

section \<open>Strings\<close>

text \<open>\<open>std::string::find\<close> and \<open>substr\<close>; \<open>None\<close> is \<open>npos\<close>.\<close>

fun str_find :: "byte list \<Rightarrow> byte list \<Rightarrow> nat option" where
  "str_find pat [] = (if pat = [] then Some 0 else None)"
| "str_find pat (c # cs) = (if take (length pat) (c # cs) = pat then Some 0 else map_option Suc (str_find pat cs))"

definition size_of :: "nat option \<Rightarrow> u64" where
  "size_of r = (case r of None \<Rightarrow> - 1 | Some n \<Rightarrow> word_of_nat n)"

definition substr :: "byte list \<Rightarrow> nat \<Rightarrow> u64 \<Rightarrow> byte list" where
  "substr s start n = take (unat n) (drop start s)"

text \<open>\<open>atoi\<close> of the C library: \<open>strtol\<close>, cut to an \<open>int\<close>.\<close>

definition atoi :: "byte list \<Rightarrow> int" where
  "atoi s = sint (word_of_int (fst (strtol10 s 0)) :: u32)"

definition crlf :: "byte list" where
  "crlf = [0x0d, 0x0a]"

section \<open>Operations\<close>

record http_msg_t =
  content_size :: u64
  h_method :: "byte list"
  h_url :: "byte list"
  h_header :: "byte list list"
  h_msg :: "byte list"

definition http_new :: http_msg_t where
  "http_new = \<lparr>content_size = 0, h_method = [], h_url = [], h_header = [], h_msg = []\<rparr>"

definition make_post :: "byte list \<Rightarrow> byte list \<Rightarrow> byte list" where
  "make_post host json =
     cstr ''POST / HTTP/1.1'' @ crlf
     @ cstr ''Host: '' @ host @ crlf
     @ cstr ''Connection: close'' @ crlf
     @ cstr ''Content-Type: application/json'' @ crlf
     @ cstr ''Content-Length: '' @ dec_nat (length json) @ crlf
     @ crlf
     @ json"

definition get_method :: "byte list \<Rightarrow> world \<Rightarrow> byte list \<times> world" where
  "get_method header w =
     (if substr header 0 4 = cstr ''HTTP'' then ([], w)
      else case str_find (cstr '' '') header of
        None \<Rightarrow> ([], comm_log (cstr ''HTTP bad format'') w)
      | Some pos \<Rightarrow> (substr header 0 (word_of_nat pos), w))"

definition get_url :: "byte list \<Rightarrow> world \<Rightarrow> byte list \<times> world" where
  "get_url header w =
     (if substr header 0 4 = cstr ''HTTP'' then ([], w)
      else let ver_pos = str_find (cstr '' HTTP'') header in
        case str_find (cstr '' '') header of
          None \<Rightarrow> ([], comm_log (cstr ''HTTP bad format'') w)
        | Some pos \<Rightarrow>
            if ver_pos = Some pos then ([], w)
            else (substr header (pos + 1) (size_of ver_pos - word_of_nat pos - 1), w))"

text \<open>\<open>asio::read_until\<close> reads until the delimiter is in the buffer; \<open>None\<close> is the exception at the end.\<close>

fun read_until :: "byte list \<Rightarrow> byte list \<Rightarrow> byte list list \<Rightarrow> (byte list \<times> byte list list) option" where
  "read_until delim buf [] = (if str_find delim buf \<noteq> None then Some (buf, []) else None)"
| "read_until delim buf (c # cs) =
     (if str_find delim buf \<noteq> None then Some (buf, c # cs) else read_until delim (buf @ c) cs)"

text \<open>\<open>asio::read\<close> with \<open>transfer_exactly\<close>.\<close>

definition read_exactly :: "u64 \<Rightarrow> byte list list \<Rightarrow> byte list option" where
  "read_exactly n sock = (if unat n \<le> length (concat sock) then Some (take (unat n) (concat sock)) else None)"

text \<open>The loop of \<open>std::getline\<close> up to an empty line: the lines and what is left in the buffer.\<close>

function header_loop :: "byte list \<Rightarrow> byte list list \<times> byte list" where
  "header_loop s =
     (if s = [] then ([], [])
      else let line = takeWhile (\<lambda>c. c \<noteq> 0x0a) s;
               rest = drop (length line + 1) s
           in if line = [0x0d] then ([], rest)
              else case header_loop rest of (ls, r) \<Rightarrow> (line # ls, r))"
  by pat_completeness auto
termination
  by (relation "measure length") auto

declare header_loop.simps [simp del]

text \<open>One header line in the search for the content length.\<close>

definition content_length_step :: "byte list \<Rightarrow> u64 \<Rightarrow> u64" where
  "content_length_step line n =
     (if str_find (cstr ''Content-Length: '') line \<noteq> None
      then let start = (case str_find (cstr '':'') line of Some i \<Rightarrow> i | None \<Rightarrow> 0) + 2;
               s = substr line start (size_of (str_find [0x0d] line) - 1)
           in word_of_int (atoi s)
      else n)"

datatype net_exn = Net_eof | Net_write | Net_connect | Vector_at

text \<open>\<open>wt\<close> gives the texts of the exceptions of the network and of the vector.\<close>

definition http_parse ::
    "(net_exn \<Rightarrow> byte list) \<Rightarrow> byte list list \<Rightarrow> http_msg_t \<Rightarrow> world \<Rightarrow> int \<times> http_msg_t \<times> world" where
  "http_parse wt sock http w =
     (case read_until (crlf @ crlf) [] sock of
        None \<Rightarrow> (- 1, http, comm_log (wt Net_eof) w)
      | Some (buf, sock) \<Rightarrow>
          (case header_loop buf of (ls, buf) \<Rightarrow>
           let http = http\<lparr>h_header := h_header http @ ls\<rparr> in
           case h_header http of
             [] \<Rightarrow> (- 1, http, comm_log (wt Vector_at) w)
           | line # _ \<Rightarrow>
               (case get_method line w of (m, w) \<Rightarrow>
                case get_url line w of (u, w) \<Rightarrow>
                let http = http\<lparr>h_method := m, h_url := u\<rparr>;
                    http = http\<lparr>content_size := fold content_length_step (h_header http) (content_size http)\<rparr>
                in if content_size http = 0 then (0, http, w)
                   else let read_left = content_size http - word_of_nat (length buf) in
                     case read_exactly read_left sock of
                       None \<Rightarrow> (- 1, http, comm_log (wt Net_eof) w)
                     | Some more_bytes \<Rightarrow> (0, http\<lparr>h_msg := buf @ more_bytes\<rparr>, w))))"

section \<open>Reading what was written\<close>

lemma strtol_digits:
  assumes "n < 2 ^ 63" "\<not> is_digit_byte (hd r)" "0 \<notin> set r"
  shows "strtol10 (dec_nat n @ r) errno = (int n, errno)"
proof -
  have first: "is_digit_byte (hd (dec_nat n @ r))" using dec_nat_digits [of "hd (dec_nat n)" n] by simp
  then have "\<not> is_space_byte (hd (dec_nat n @ r))" "hd (dec_nat n @ r) \<noteq> 0x2d" "hd (dec_nat n @ r) \<noteq> 0x2b"
    by (auto simp: is_digit_byte_def is_space_byte_def word_le_nat_alt)
  moreover have "dropWhile is_space_byte (dec_nat n @ r) = dec_nat n @ r"
    using calculation(1) by (cases "dec_nat n @ r") auto
  moreover have "takeWhile is_digit_byte (dec_nat n @ r) = dec_nat n"
    using dec_nat_digits assms(2) by (cases r) (simp_all add: takeWhile_append2 takeWhile_eq_all_conv)
  ultimately show ?thesis using assms by (simp add: strtol10_def Let_def)
qed

lemma atoi_digits: "n < 2 ^ 31 \<Longrightarrow> \<not> is_digit_byte (hd r) \<Longrightarrow> 0 \<notin> set r \<Longrightarrow> atoi (dec_nat n @ r) = int n"
  by (simp add: atoi_def strtol_digits signed_of_nat signed_take_bit_int_eq_self)

text \<open>The delimiter does not occur where there is no carriage return.\<close>

lemma str_find_skip: "c \<notin> set s \<Longrightarrow> (str_find (c # cs) (s @ t) = None) = (str_find (c # cs) t = None)"
  by (induction s) auto

lemma str_find_None: "str_find pat s = None \<longleftrightarrow> (\<nexists>a b. s = a @ pat @ b)"
proof (induction s)
  case (Cons c cs)
  have "(\<exists>a b. c # cs = a @ pat @ b) \<longleftrightarrow> take (length pat) (c # cs) = pat \<or> (\<exists>a b. cs = a @ pat @ b)"
  proof
    assume "\<exists>a b. c # cs = a @ pat @ b"
    then obtain a b where "c # cs = a @ pat @ b" by blast
    then show "take (length pat) (c # cs) = pat \<or> (\<exists>a b. cs = a @ pat @ b)" by (cases a) auto
  next
    assume "take (length pat) (c # cs) = pat \<or> (\<exists>a b. cs = a @ pat @ b)"
    then show "\<exists>a b. c # cs = a @ pat @ b"
      by (metis append_Cons append_Nil append_take_drop_id)
  qed
  with Cons.IH show ?case by auto
qed auto

lemma str_find_prefix: "str_find pat (a @ b) = None \<Longrightarrow> str_find pat a = None"
  unfolding str_find_None by (metis append_assoc)

text \<open>
  Header lines: no line is empty and none has a line break. The blank line is the first place
  where the delimiter occurs, and the loop returns the lines.
\<close>

definition line_ok :: "byte list \<Rightarrow> bool" where
  "line_ok l \<longleftrightarrow> l \<noteq> [] \<and> 0x0d \<notin> set l \<and> 0x0a \<notin> set l"

definition header_text :: "byte list list \<Rightarrow> byte list" where
  "header_text ls = concat (map (\<lambda>l. l @ crlf) ls)"

lemma header_text_no_delim: "list_all line_ok ls \<Longrightarrow> str_find (crlf @ crlf) (header_text ls @ [0x0d]) = None"
proof (induction ls)
  case Nil
  then show ?case by (simp add: header_text_def crlf_def)
next
  case (Cons l ls)
  let ?r = "header_text ls @ [0x0d]"
  have l: "0x0d \<notin> set l" using Cons.prems by (simp add: line_ok_def)
  have next_line: "take (Suc (Suc 0)) ?r \<noteq> [0x0d, 0x0a]"
  proof (cases ls)
    case (Cons l' ls')
    with Cons.prems show ?thesis by (cases l') (auto simp: header_text_def line_ok_def)
  qed (simp add: header_text_def)
  have "str_find (crlf @ crlf) (header_text (l # ls) @ [0x0d]) = str_find (crlf @ crlf) (l @ 0x0d # 0x0a # ?r)"
    by (simp add: header_text_def crlf_def)
  moreover have "str_find (crlf @ crlf) (0x0d # 0x0a # r) = None"
    if "take (Suc (Suc 0)) r \<noteq> [0x0d, 0x0a]" "str_find (crlf @ crlf) r = None" for r
    using that by (simp add: crlf_def)
  then have "str_find (crlf @ crlf) (0x0d # 0x0a # ?r) = None" using next_line Cons by simp
  ultimately show ?case using str_find_skip [OF l, of "[0x0a, 0x0d, 0x0a]" "0x0d # 0x0a # ?r"]
    by (simp add: crlf_def)
qed

lemma header_loop_line:
  assumes "0x0a \<notin> set l" "l \<noteq> [0x0d]"
  shows "header_loop (l @ 0x0a # s) = (l # fst (header_loop s), snd (header_loop s))"
proof -
  have "takeWhile (\<lambda>c. c \<noteq> 0x0a) (l @ 0x0a # s) = l" using assms(1) by (induction l) auto
  with assms(2) show ?thesis by (subst header_loop.simps) (simp add: Let_def split: prod.split)
qed

lemma header_loop_end: "header_loop (0x0d # 0x0a # s) = ([], s)"
  by (subst header_loop.simps) simp

lemma header_loop_text:
  "list_all line_ok ls \<Longrightarrow> header_loop (header_text ls @ crlf @ s) = (map (\<lambda>l. l @ [0x0d]) ls, s)"
proof (induction ls)
  case Nil
  then show ?case by (simp add: header_text_def crlf_def header_loop_end)
next
  case (Cons l ls)
  have "header_loop ((l @ [0x0d]) @ 0x0a # header_text ls @ crlf @ s) = ((l @ [0x0d]) # map (\<lambda>l. l @ [0x0d]) ls, s)"
    using Cons by (subst header_loop_line) (auto simp: line_ok_def)
  then show ?case by (simp add: header_text_def crlf_def)
qed

text \<open>However the stream is cut: the buffer has the header and a part of the body.\<close>

lemma read_until_header:
  assumes "str_find delim h = None" "\<exists>p. h @ [c] = p @ delim" "buf @ concat sock = h @ c # body"
  shows "\<exists>part rest. read_until delim buf sock = Some (h @ c # part, rest) \<and> part @ concat rest = body"
  using assms(3)
proof (induction sock arbitrary: buf)
  have found: "\<exists>part. buf = h @ c # part \<and> part @ s = body"
    if "str_find delim buf \<noteq> None" "buf @ s = h @ c # body" for buf s
  proof -
    from that(2) obtain us where "buf = h @ us \<and> us @ s = c # body \<or> buf @ us = h \<and> s = us @ c # body"
      by (auto simp: append_eq_append_conv2)
    moreover have "buf @ us \<noteq> h \<or> us = []" if "us \<noteq> []" for us
      using assms(1) str_find_prefix \<open>str_find delim buf \<noteq> None\<close> by metis
    moreover have "buf \<noteq> h" using assms(1) that(1) by metis
    ultimately show ?thesis by (cases us) auto
  qed
  {
    case Nil
    obtain p where "h @ c # body = p @ delim @ body" using assms(2) by (metis append.assoc append_Cons append_Nil)
    then have "str_find delim (h @ c # body) \<noteq> None" unfolding str_find_None by blast
    with Nil show ?case by simp
  next
    case (Cons s sock)
    show ?case
    proof (cases "str_find delim buf = None")
      case True
      with Cons show ?thesis by simp
    next
      case False
      with found [OF False Cons.prems] show ?thesis by auto
    qed
  }
qed

definition post_lines :: "byte list \<Rightarrow> nat \<Rightarrow> byte list list" where
  "post_lines host n =
     [cstr ''POST / HTTP/1.1'', cstr ''Host: '' @ host, cstr ''Connection: close'',
      cstr ''Content-Type: application/json'', cstr ''Content-Length: '' @ dec_nat n]"

lemma make_post_lines: "make_post host json = header_text (post_lines host (length json)) @ crlf @ json"
  by (simp add: make_post_def header_text_def post_lines_def)

lemma dec_nat_no_break: "0x0d \<notin> set (dec_nat n)" "0x0a \<notin> set (dec_nat n)"
  using dec_nat_digits [of "0x0d" n] dec_nat_digits [of "0x0a" n] by (auto simp: is_digit_byte_def)

lemma post_lines_ok: "0x0d \<notin> set host \<Longrightarrow> 0x0a \<notin> set host \<Longrightarrow> list_all line_ok (post_lines host n)"
  by (simp add: post_lines_def line_ok_def cstr_def dec_nat_no_break)

text \<open>The content length is read from its own line, the last one.\<close>

lemma str_find_here: "pat \<noteq> [] \<Longrightarrow> str_find pat (pat @ s) = Some 0"
  by (cases pat) simp_all

lemma str_find_after: "c \<notin> set a \<Longrightarrow> str_find [c] (a @ c # s) = Some (length a)"
  by (induction a) auto

lemma content_length_line:
  assumes "n < 2 ^ 31"
  shows "content_length_step ((cstr ''Content-Length: '' @ dec_nat n) @ [0x0d]) m = word_of_nat n"
proof -
  let ?l = "(cstr ''Content-Length: '' @ dec_nat n) @ [0x0d]"
  have len: "length (dec_nat n) < 20" using length_dec_nat [of 19 n] assms by simp
  have colon: "str_find (cstr '':'') ?l = Some 14" by (simp add: cstr_def)
  have cr: "str_find [0x0d] ?l = Some (16 + length (dec_nat n))"
    using str_find_after [of "0x0d" "cstr ''Content-Length: '' @ dec_nat n" "[]"] dec_nat_no_break
    by (simp add: cstr_def)
  have "unat (size_of (Some (16 + length (dec_nat n))) - 1) = 15 + length (dec_nat n)"
    using len unsigned_of_nat [of "15 + length (dec_nat n)", where 'a = nat and 'b = 64]
    by (simp add: size_of_def take_bit_nat_eq_self)
  then have "substr ?l 16 (size_of (str_find [0x0d] ?l) - 1) = dec_nat n @ [0x0d]"
    unfolding substr_def cr by (simp add: cstr_def)
  moreover have "atoi (dec_nat n @ [0x0d]) = int n"
    using assms by (intro atoi_digits) (simp_all add: is_digit_byte_def)
  moreover have "str_find (cstr ''Content-Length: '') ?l \<noteq> None"
    using str_find_here [of "cstr ''Content-Length: ''" "dec_nat n @ [0x0d]"] by (simp add: cstr_def)
  ultimately show ?thesis by (simp add: content_length_step_def colon del: append_assoc)
qed

lemma post_content_length:
  assumes "n < 2 ^ 31"
  shows "fold content_length_step (map (\<lambda>l. l @ [0x0d]) (post_lines host n)) m = word_of_nat n"
  using content_length_line [OF assms] by (simp add: post_lines_def)

lemma post_request_line:
  "get_method (cstr ''POST / HTTP/1.1'' @ [0x0d]) w = (cstr ''POST'', w)"
  "get_url (cstr ''POST / HTTP/1.1'' @ [0x0d]) w = (cstr ''/'', w)"
  by (simp_all add: get_method_def get_url_def substr_def cstr_def size_of_def)

definition post_msg :: "byte list \<Rightarrow> nat \<Rightarrow> http_msg_t" where
  "post_msg host n = \<lparr>content_size = word_of_nat n, h_method = cstr ''POST'', h_url = cstr ''/'',
     h_header = map (\<lambda>l. l @ [0x0d]) (post_lines host n), h_msg = []\<rparr>"

text \<open>The state of \<open>parse\<close> after the header of a post, with the bytes read beyond it.\<close>

lemma http_parse_post:
  assumes "0x0d \<notin> set host" "0x0a \<notin> set host" "0 < n" "n < 2 ^ 31"
    and "read_until (crlf @ crlf) [] sock = Some (header_text (post_lines host n) @ crlf @ part, rest)"
  shows "http_parse wt sock http_new w =
    (case read_exactly (word_of_nat n - word_of_nat (length part)) rest of
       None \<Rightarrow> (- 1, post_msg host n, comm_log (wt Net_eof) w)
     | Some bs \<Rightarrow> (0, (post_msg host n)\<lparr>h_msg := part @ bs\<rparr>, w))"
proof -
  let ?ls = "map (\<lambda>l. l @ [0x0d]) (post_lines host n)"
  obtain ls where ls: "?ls = (cstr ''POST / HTTP/1.1'' @ [0x0d]) # ls" by (simp add: post_lines_def)
  have "(word_of_nat n :: u64) \<noteq> 0" using assms(3,4) by (simp add: word_of_nat_eq_0_iff) (use nat_dvd_not_less in fastforce)
  moreover have "header_loop (header_text (post_lines host n) @ crlf @ part) = (?ls, part)"
    using assms(1,2) by (intro header_loop_text post_lines_ok)
  ultimately show ?thesis
    using post_content_length [OF assms(4), of host 0] ls
    by (simp add: http_parse_def assms(5) http_new_def post_request_line post_msg_def Let_def del: list.map
        cong: option.case_cong)
qed

lemma http_post_read:
  assumes "0x0d \<notin> set host" "0x0a \<notin> set host" "json \<noteq> []" "length json < 2 ^ 31"
    and "concat sock = make_post host json"
  shows "\<exists>http. http_parse wt sock http_new w = (0, http, w) \<and> h_msg http = json \<and> h_method http = cstr ''POST''
    \<and> h_url http = cstr ''/'' \<and> content_size http = word_of_nat (length json)"
proof -
  let ?h = "header_text (post_lines host (length json))"
  have "\<exists>part rest. read_until (crlf @ crlf) [] sock = Some ((?h @ [0x0d]) @ 0x0a # part, rest) \<and> part @ concat rest = json"
  proof (rule read_until_header)
    show "str_find (crlf @ crlf) (?h @ [0x0d]) = None"
      using assms(1,2) by (intro header_text_no_delim post_lines_ok)
    have "?h = header_text (butlast (post_lines host (length json))) @ (cstr ''Content-Length: '' @ dec_nat (length json)) @ crlf"
      by (simp add: header_text_def post_lines_def)
    then show "\<exists>p. (?h @ [0x0d]) @ [0x0a] = p @ crlf @ crlf" by (simp add: crlf_def)
    show "[] @ concat sock = (?h @ [0x0d]) @ 0x0a # json" using assms(5) by (simp add: make_post_lines crlf_def)
  qed
  then obtain part rest where r: "read_until (crlf @ crlf) [] sock = Some (?h @ crlf @ part, rest)" "json = part @ concat rest"
    by (auto simp: crlf_def)
  have "unat (word_of_nat (length json) - word_of_nat (length part) :: u64) = length (concat rest)"
    using r(2) assms(4) by (simp add: unsigned_of_nat take_bit_nat_eq_self)
  then have "read_exactly (word_of_nat (length json) - word_of_nat (length part)) rest = Some (concat rest)"
    by (simp add: read_exactly_def)
  with http_parse_post [OF assms(1,2) _ assms(4) r(1), of wt w] assms(3) r(2) show ?thesis
    by (simp add: post_msg_def)
qed

text \<open>
  C13. A posted message is received: however the network cuts the bytes of make_post into
  pieces, parse returns 0 with the method POST, the url /, the length and exactly the posted
  text, for texts of 1 to 2^31 - 1 bytes and a host name without line breaks; when the
  connection ends before the last byte, it returns -1.
\<close>

theorem http_post_round_trip:
  assumes "0x0d \<notin> set host" "0x0a \<notin> set host" "json \<noteq> []" "length json < 2 ^ 31"
    and "concat sock = make_post host json"
  shows "\<exists>http. http_parse wt sock http_new w = (0, http, w) \<and> h_msg http = json \<and> h_method http = cstr ''POST''
    \<and> h_url http = cstr ''/'' \<and> content_size http = word_of_nat (length json)"
  using assms by (rule http_post_read)

lemma unat_neg_nat:
  assumes "0 < k" "k < 2 ^ 64"
  shows "unat (- word_of_nat k :: u64) = 2 ^ 64 - k"
proof -
  have "(- word_of_nat k :: u64) = word_of_nat (2 ^ 64 - k)"
    using assms by (simp add: of_nat_diff)
  moreover have "take_bit LENGTH(64) (2 ^ 64 - k) = (2 ^ 64 - k :: nat)"
    using assms by (intro take_bit_nat_eq_self) simp
  ultimately show ?thesis by (metis unsigned_of_nat of_nat_id)
qed

text \<open>
  Bytes behind the announced length break the connection: when a piece that holds the end
  of the header holds more bytes after it than the content length says, the number of bytes left
  to read wraps around to almost 2^64 and parse fails with -1 at the end of the connection.
\<close>

theorem http_parse_overlong:
  assumes "0x0d \<notin> set host" "0x0a \<notin> set host" "json \<noteq> []" "length json < 2 ^ 31"
    and "extra \<noteq> []" "length extra < 2 ^ 31" "length (concat more_pieces) < 2 ^ 63"
  shows "fst (http_parse wt ((make_post host json @ extra) # more_pieces) http_new w) = - 1"
proof -
  let ?h = "header_text (post_lines host (length json))"
  have "?h @ crlf @ json @ extra = header_text (butlast (post_lines host (length json)))
      @ (cstr ''Content-Length: '' @ dec_nat (length json)) @ (crlf @ crlf) @ json @ extra"
    by (simp add: header_text_def post_lines_def)
  then have "str_find (crlf @ crlf) (?h @ crlf @ json @ extra) \<noteq> None"
    unfolding str_find_None by (metis append_assoc)
  then have r: "read_until (crlf @ crlf) [] ((make_post host json @ extra) # more_pieces) = Some (?h @ crlf @ json @ extra, more_pieces)"
    by (cases more_pieces) (simp_all add: make_post_lines crlf_def)
  have "unat (word_of_nat (length json) - word_of_nat (length (json @ extra)) :: u64) = 2 ^ 64 - length extra"
    using assms(5,6) by (simp add: unat_neg_nat)
  then have "read_exactly (word_of_nat (length json) - word_of_nat (length (json @ extra))) more_pieces = None"
    using assms(6,7) by (simp add: read_exactly_def)
  with http_parse_post [OF assms(1,2) _ assms(4) r, of wt w] assms(3) show ?thesis by simp
qed

theorem http_post_round_trip_witness:
  "\<exists>http. http_parse (\<lambda>_. []) [take 20 (make_post (cstr ''h'') (cstr ''[1]'')), drop 20 (make_post (cstr ''h'') (cstr ''[1]''))]
      http_new sample_world = (0, http, sample_world) \<and> h_msg http = cstr ''[1]''"
  using http_post_round_trip [of "cstr ''h''" "cstr ''[1]''"
      "[take 20 (make_post (cstr ''h'') (cstr ''[1]'')), drop 20 (make_post (cstr ''h'') (cstr ''[1]''))]"
      "\<lambda>_. []" sample_world]
  by (auto simp: cstr_def)

theorem http_parse_overlong_witness:
  "fst (http_parse (\<lambda>_. []) [make_post (cstr ''h'') (cstr ''[1]'') @ cstr ''x''] http_new sample_world) = - 1"
  using http_parse_overlong [of "cstr ''h''" "cstr ''[1]''" "cstr ''x''" "[]" "\<lambda>_. []" sample_world]
  by (simp add: cstr_def)

end
