(* ===== verification/Http_Relay.thy ===== *)
theory Http_Relay
  imports Http Relay_Database
begin

text \<open>
  The relay over HTTP, \<open>src/src/http/http_relay.cc\<close>: one connection at a time, one message and
  one answer per connection. A connection is its address, the pieces in which its bytes arrive
  and whether the answer can be written. Every exception of an iteration is caught and logged.

  Shown: what is answered to complete messages, and that an incomplete event is refused here
  (the web socket relay stores it); the database after any number of connections.
\<close>

section \<open>Operations\<close>

record connection =
  client_ip :: "byte list"
  c_sock :: "byte list list"
  c_writes :: bool

definition ok_response :: "byte list" where
  "ok_response = cstr ''HTTP/1.1 200 OK'' @ crlf @ crlf"

text \<open>\<open>asio::write\<close> of the answer and the line in the log.\<close>

definition answer :: "(net_exn \<Rightarrow> byte list) \<Rightarrow> connection \<Rightarrow> byte list \<Rightarrow> world \<Rightarrow> byte list option \<times> world" where
  "answer wt c response w =
     (if c_writes c then (Some response, comm_log (cstr ''send response: '' @ client_ip c) w)
      else (None, comm_log (wt Net_write) w))"

definition serve_event ::
    "json_lib \<Rightarrow> (net_exn \<Rightarrow> byte list) \<Rightarrow> connection \<Rightarrow> json \<Rightarrow> event_t list \<Rightarrow> world
     \<Rightarrow> byte list option \<times> event_t list \<times> world" where
  "serve_event L wt c js_message db w =
     (case new_event w of (ev, w) \<Rightarrow>
      case json_at js_message 1 of
        Inl e \<Rightarrow> (None, db, comm_log (what L e) w)
      | Inr obj \<Rightarrow>
          (case from_json_event L obj ev of
             (_, Some e) \<Rightarrow> (None, db, comm_log (what L e) w)
           | (ev, None) \<Rightarrow>
               (let w = comm_log (cstr ''event received: '' @ e_content ev) w;
                    db = db @ [ev]
                in case database_append L db w of (_, w) \<Rightarrow>
                   case answer wt c ok_response w of (r, w) \<Rightarrow> (r, db, w))))"

definition serve_request ::
    "json_lib \<Rightarrow> (net_exn \<Rightarrow> byte list) \<Rightarrow> connection \<Rightarrow> json \<Rightarrow> world \<Rightarrow> byte list option \<times> world" where
  "serve_request L wt c js_message w =
     (case then_try (json_at js_message 1) get_string of
        Inl e \<Rightarrow> (None, comm_log (what L e) w)
      | Inr subscription_id \<Rightarrow>
          (case new_filter w of (s, w) \<Rightarrow>
           case json_at js_message 2 of
             Inl e \<Rightarrow> (None, comm_log (what L e) w)
           | Inr obj \<Rightarrow>
               (case from_json_filter L obj s of
                  (_, Some e) \<Rightarrow> (None, comm_log (what L e) w)
                | (s, None) \<Rightarrow>
                    (let w = comm_log (cstr ''filter received: '' @ subscription_id) w in
                     case database_request L s w of (events, w) \<Rightarrow>
                     case then_try (events_js events) (json_dump L Indent_2) of
                       Inl e \<Rightarrow> (None, comm_log (what L e) w)
                     | Inr json \<Rightarrow> answer wt c (make_post (client_ip c) json) w))))"

text \<open>One iteration of the loop: what is written to the connection, the list and the world.\<close>

definition serve ::
    "json_lib \<Rightarrow> (net_exn \<Rightarrow> byte list) \<Rightarrow> connection \<Rightarrow> event_t list \<Rightarrow> world
     \<Rightarrow> byte list option \<times> event_t list \<times> world" where
  "serve L wt c db w =
     (case http_parse wt (c_sock c) http_new w of (code, http, w) \<Rightarrow>
      let w = (if code < 0 then comm_log (cstr ''HTTP parse failed'') w else w);
          w = comm_log (cstr ''received POST from '' @ client_ip c @ cstr '' '' @ dec_nat (length (h_msg http))
                @ cstr '' bytes'') w
      in case message_head L (h_msg http) of
           Inl e \<Rightarrow> (None, db, comm_log (what L e) w)
         | Inr (js_message, message_type) \<Rightarrow>
             if message_type = cstr ''EVENT'' then serve_event L wt c js_message db w
             else if message_type = cstr ''REQ'' then
               (case serve_request L wt c js_message w of (r, w) \<Rightarrow> (r, db, w))
             else (None, db, w))"

definition http_relay_start :: "json_lib \<Rightarrow> world \<Rightarrow> event_t list \<times> world" where
  "http_relay_start L w =
     (case database_save L [] (comm_start_log w) of (_, w) \<Rightarrow>
        ([], comm_log (cstr ''Listening on port:2000'') w))"

text \<open>The loop over the connections that are accepted, with the answers.\<close>

primrec http_relay_loop ::
    "json_lib \<Rightarrow> (net_exn \<Rightarrow> byte list) \<Rightarrow> connection list \<Rightarrow> event_t list \<Rightarrow> world
     \<Rightarrow> byte list option list \<times> event_t list \<times> world" where
  "http_relay_loop L wt [] db w = ([], db, w)"
| "http_relay_loop L wt (c # cs) db w =
     (case serve L wt c db w of (r, db, w) \<Rightarrow>
      case http_relay_loop L wt cs db w of (rs, db, w) \<Rightarrow> (r # rs, db, w))"

section \<open>What an iteration does\<close>

text \<open>The message of a connection, when its bytes are a post of that body.\<close>

definition posts :: "connection \<Rightarrow> byte list \<Rightarrow> bool" where
  "posts c body \<longleftrightarrow> body \<noteq> [] \<and> length body < 2 ^ 31
     \<and> (\<exists>host. 0x0d \<notin> set host \<and> 0x0a \<notin> set host \<and> concat (c_sock c) = make_post host body)"

lemma quiet_answer [simp]: "answer wt c r w = (s, w') \<Longrightarrow> quiet w w'"
  by (auto simp: answer_def split: if_splits)

text \<open>A complete event leaves nothing of the object it is read into.\<close>

lemma from_json_event_complete:
  "from_json_event L j s = (s', None) \<longleftrightarrow>
     then_try (json_key j (cstr ''id'')) get_string = Inr (e_id s')
     \<and> then_try (json_key j (cstr ''pubkey'')) get_string = Inr (e_pubkey s')
     \<and> then_try (json_key j (cstr ''created_at'')) (get_int64 L) = Inr (e_created_at s')
     \<and> then_try (json_key j (cstr ''kind'')) (get_int32 L) = Inr (e_kind s')
     \<and> then_try (json_key j (cstr ''tags'')) (get_vector (get_vector get_string)) = Inr (e_tags s')
     \<and> then_try (json_key j (cstr ''content'')) get_string = Inr (e_content s')
     \<and> then_try (json_key j (cstr ''sig'')) get_string = Inr (e_sig s')"
  by (cases s, cases s') (auto simp: from_json_event_def get_to_def simp del: then_try_Inr split: sum.splits)

text \<open>The event that a body publishes, if it is a complete EVENT message.\<close>

definition http_event :: "json_lib \<Rightarrow> byte list \<Rightarrow> event_t option" where
  "http_event L body =
     (case then_try (message_head L body) (\<lambda>(j, t). if t = cstr ''EVENT'' then json_at j 1 else Inl (Type_error 0)) of
        Inl _ \<Rightarrow> None
      | Inr obj \<Rightarrow> (case from_json_event L obj (event_at 0) of (ev, None) \<Rightarrow> Some ev | _ \<Rightarrow> None))"

definition http_ok :: "json_lib \<Rightarrow> event_t list \<Rightarrow> world \<Rightarrow> bool" where
  "http_ok L db w \<longleftrightarrow> db_ok L w \<and> list_all event_valid db"

lemma http_ok_quiet: "quiet w w' \<Longrightarrow> http_ok L db w' = http_ok L db w"
  by (simp add: http_ok_def db_ok_quiet)

lemma serve_event_step:
  assumes "http_ok L db w" "json_at j 1 = Inr obj" "from_json_event L obj (event_at 0) = (ev, None)" "json_utf8 obj"
  shows "\<exists>w'. serve_event L wt c j db w = (if c_writes c then Some ok_response else None, db @ [ev], w')
    \<and> stored L w' = stored L w @ db @ [ev] \<and> http_ok L (db @ [ev]) w'"
proof -
  let ?w = "w\<lparr>ticks := ticks w + 1\<rparr>" and ?now = "clock w (ticks w)"
  let ?w1 = "comm_log (cstr ''event received: '' @ e_content ev) ?w"
  have ok: "db_ok L w" "log_apart w" using assms(1) by (simp_all add: http_ok_def db_ok_def)
  have q: "quiet w ?w1"
    using quiet_std_time [of w ?now ?w] quiet_comm_log quiet_trans by (auto simp: std_time_def)
  have "event_valid (event_at 0)" by (simp add: event_valid_def event_at_def)
  then have valid: "list_all event_valid (db @ [ev])"
    using from_json_event_valid [OF assms(4), of "event_at 0" L] assms(1,3) by (simp add: http_ok_def)
  obtain w2 where w2: "database_append L (db @ [ev]) ?w1 = (0, w2)" "stored L w2 = stored L ?w1 @ db @ [ev]" "db_ok L w2"
  proof -
    have "db_ok L ?w1" using db_ok_quiet [OF q] ok(1) by simp
    from database_append_ok [OF this valid] that show thesis by blast
  qed
  obtain r w3 where w3: "answer wt c ok_response w2 = (r, w3)" by (metis prod.collapse)
  have "from_json_event L obj (event_at ?now) = (ev, None)"
    using assms(3) by (simp only: from_json_event_complete)
  then have "serve_event L wt c j db w = (r, db @ [ev], w3)"
    using assms(2) w2(1) w3 by (simp add: serve_event_def new_event_def std_time_def Let_def)
  moreover have "r = (if c_writes c then Some ok_response else None)" using w3 by (auto simp: answer_def)
  moreover have "stored L w3 = stored L w2" using stored_quiet [OF quiet_answer [OF w3]] w2(3) by (simp add: db_ok_def)
  moreover have "db_ok L w3" using db_ok_quiet [OF quiet_answer [OF w3]] w2(3) by simp
  ultimately show ?thesis using w2(2) stored_quiet [OF q ok(2)] valid by (simp add: http_ok_def)
qed

lemma serve_event_refused:
  assumes "json_at j 1 = Inl e \<or> (\<exists>obj. json_at j 1 = Inr obj \<and> snd (from_json_event L obj (event_at 0)) \<noteq> None)"
  shows "\<exists>w'. serve_event L wt c j db w = (None, db, w') \<and> quiet w w'"
proof -
  let ?w = "w\<lparr>ticks := ticks w + 1\<rparr>" and ?now = "clock w (ticks w)"
  have q: "quiet w (comm_log m ?w)" for m
    using quiet_std_time [of w ?now ?w] quiet_comm_log quiet_trans by (auto simp: std_time_def)
  show ?thesis
  proof (cases "json_at j 1")
    case (Inl e)
    with q show ?thesis by (simp add: serve_event_def new_event_def std_time_def)
  next
    case (Inr obj)
    with assms have "snd (from_json_event L obj (event_at 0)) \<noteq> None" by auto
    then obtain x e where x: "from_json_event L obj (event_at 0) = (x, Some e)"
      by (cases "from_json_event L obj (event_at 0)") auto
    obtain ev r where ev: "from_json_event L obj (event_at ?now) = (ev, r)" by (metis prod.collapse)
    have "r \<noteq> None"
      using ev x from_json_event_complete [of L obj "event_at ?now" ev] from_json_event_complete [of L obj "event_at 0" ev] by auto
    with Inr ev q show ?thesis by (auto simp: serve_event_def new_event_def std_time_def)
  qed
qed

lemma new_filter_quiet: "new_filter w = (s, v) \<Longrightarrow> quiet w v"
  using quiet_std_time [of w "clock w (ticks w)"] by (auto simp: new_filter_def std_time_def)

lemma database_request_quiet: "database_request L s w = (evs, v) \<Longrightarrow> quiet w v"
  using database_request_eq(2) [of w L s] by simp

lemma serve_request_quiet:
  assumes "serve_request L wt c j w = (r, w')"
  shows "quiet w w'"
proof (cases "then_try (json_at j 1) get_string")
  case (Inl e)
  with assms show ?thesis by (auto simp: serve_request_def simp del: One_nat_def)
next
  case (Inr i)
  obtain s v where s: "new_filter w = (s, v)" by (metis prod.collapse)
  note q = new_filter_quiet [OF s] quiet_trans [OF new_filter_quiet [OF s] quiet_comm_log]
  show ?thesis
    using assms Inr s q
    by (auto simp: serve_request_def Let_def simp del: One_nat_def then_try_Inr split: sum.splits prod.splits option.splits
        dest!: database_request_quiet quiet_answer intro: quiet_trans [OF q(2)] quiet_trans [OF quiet_trans [OF q(2)]])
qed

text \<open>The iteration on a body that was posted.\<close>

lemma serve_posted:
  assumes "posts c body"
  shows "\<exists>v. quiet w v \<and> serve L wt c db w =
    (case message_head L body of
       Inl e \<Rightarrow> (None, db, comm_log (what L e) v)
     | Inr (j, t) \<Rightarrow>
         if t = cstr ''EVENT'' then serve_event L wt c j db v
         else if t = cstr ''REQ'' then (case serve_request L wt c j v of (r, w) \<Rightarrow> (r, db, w))
         else (None, db, v))"
proof -
  obtain http where http: "http_parse wt (c_sock c) http_new w = (0, http, w)" "body = h_msg http"
    using assms http_post_read [of _ body "c_sock c" wt w] unfolding posts_def by blast
  show ?thesis unfolding http(2)
    by (rule exI [of _ "comm_log (cstr ''received POST from '' @ client_ip c @ cstr '' '' @ dec_nat (length (h_msg http))
                @ cstr '' bytes'') w"]) (simp add: serve_def http(1) Let_def)
qed

lemma http_event_head:
  "http_event L body = Some ev \<longleftrightarrow>
     (\<exists>j obj. message_head L body = Inr (j, cstr ''EVENT'') \<and> json_at j 1 = Inr obj
        \<and> from_json_event L obj (event_at 0) = (ev, None))"
  by (cases "message_head L body") (auto simp: http_event_def split: sum.splits prod.splits option.splits if_splits)

lemma serve_publishes:
  assumes "http_ok L db w" "posts c body" "http_event L body = Some ev"
  shows "\<exists>w'. serve L wt c db w = (if c_writes c then Some ok_response else None, db @ [ev], w')
    \<and> stored L w' = stored L w @ db @ [ev] \<and> http_ok L (db @ [ev]) w'"
proof -
  obtain j obj where j: "message_head L body = Inr (j, cstr ''EVENT'')" "json_at j 1 = Inr obj"
      "from_json_event L obj (event_at 0) = (ev, None)"
    using assms(3) by (auto simp: http_event_head)
  have L: "json_lib_ok L" "log_apart w" using assms(1) by (simp_all add: http_ok_def db_ok_def)
  have "json_utf8 j" using j(1) parse_utf8 [OF L(1)] by (auto simp: message_head_def)
  then have obj: "json_utf8 obj" using j(2) by (rule json_at_utf8)
  obtain v where v: "quiet w v" "serve L wt c db w = serve_event L wt c j db v"
    using serve_posted [OF assms(2), of w L wt db] j(1) by auto
  have "http_ok L db v" using http_ok_quiet [OF v(1)] assms(1) by simp
  from serve_event_step [OF this j(2,3) obj, of wt c] v stored_quiet [OF v(1) L(2)] show ?thesis by simp
qed

lemma serve_other:
  assumes "posts c body" "http_event L body = None"
  shows "\<exists>r w'. serve L wt c db w = (r, db, w') \<and> quiet w w'"
proof -
  obtain v where v: "quiet w v" "serve L wt c db w =
    (case message_head L body of
       Inl e \<Rightarrow> (None, db, comm_log (what L e) v)
     | Inr (j, t) \<Rightarrow>
         if t = cstr ''EVENT'' then serve_event L wt c j db v
         else if t = cstr ''REQ'' then (case serve_request L wt c j v of (r, w) \<Rightarrow> (r, db, w))
         else (None, db, v))"
    using serve_posted [OF assms(1), of w L wt db] by blast
  show ?thesis
  proof (cases "message_head L body")
    case (Inl e)
    with v quiet_trans [OF v(1) quiet_comm_log] show ?thesis by simp
  next
    case (Inr jt)
    obtain j t where jt: "jt = (j, t)" by (cases jt)
    have refused: "\<exists>w'. serve_event L wt c j db v = (None, db, w') \<and> quiet v w'" if "t = cstr ''EVENT''"
    proof (rule serve_event_refused)
      have "snd (from_json_event L obj (event_at 0)) \<noteq> None" if "json_at j 1 = Inr obj" for obj
        using assms(2) Inr jt \<open>t = cstr ''EVENT''\<close> that http_event_head [of L body] by (metis option.distinct(1) prod.collapse)
      then show "json_at j 1 = Inl (projl (json_at j 1)) \<or> (\<exists>obj. json_at j 1 = Inr obj \<and> snd (from_json_event L obj (event_at 0)) \<noteq> None)"
        by (cases "json_at j 1") simp_all
    qed
    obtain r v' where r: "serve_request L wt c j v = (r, v')" by (metis prod.collapse)
    from v Inr jt refused quiet_trans [OF v(1)] serve_request_quiet [OF r] r show ?thesis by auto
  qed
qed

lemma serve_request_answer:
  assumes "json_lib_ok L" "log_apart w" "c_writes c"
  shows "\<exists>json w'. serve_request L wt c (JArr [JStr (cstr ''REQ''), JStr i, filter_js s]) w
      = (Some (make_post (client_ip c) json), w')
    \<and> then_try (json_parse L json) (get_events_js L) = Inr (filter (\<lambda>ev. e_pubkey ev \<in> set (f_authors s)) (stored L w))"
proof -
  let ?w = "w\<lparr>ticks := ticks w + 1\<rparr>" and ?now = "clock w (ticks w)"
  let ?w1 = "comm_log (cstr ''filter received: '' @ i) ?w" and ?s = "filter_over s (filter_at ?now)"
  let ?evs = "filter (\<lambda>ev. e_pubkey ev \<in> set (f_authors s)) (stored L w)"
  have q: "quiet w ?w1"
    using quiet_std_time [of w ?now ?w] quiet_comm_log quiet_trans by (auto simp: std_time_def)
  obtain w2 where d: "database_request L ?s ?w1 = (?evs, w2)"
    using database_request_eq(1) [of L ?s ?w1] stored_quiet [OF q assms(2)]
    by (cases "database_request L ?s ?w1") (simp add: filter_over_def filter_at_def)
  have "list_all event_valid ?evs" using stored_valid [OF assms(1), of w] by (auto simp: list_all_iff)
  then obtain json where json: "json_dump L Indent_2 (JArr (map event_js ?evs)) = Inr json"
    using event_class.vector_dump_iff [OF assms(1)] by blast
  have "serve_request L wt c (JArr [JStr (cstr ''REQ''), JStr i, filter_js s]) w
      = answer wt c (make_post (client_ip c) json) w2"
    using d json by (simp add: serve_request_def new_filter_def std_time_def from_json_filter_js Let_def)
  with event_class.vector_text_round_trip [OF assms(1) json, of "event_at 0"] assms(3) show ?thesis
    by (auto simp: answer_def get_events_js_def simp del: then_try_Inr)
qed

lemma serve_asked:
  assumes "http_ok L db w" "posts c body" "c_writes c"
    and "json_parse L body = Inr (JArr [JStr (cstr ''REQ''), JStr i, filter_js s])"
  shows "\<exists>json w'. serve L wt c db w = (Some (make_post (client_ip c) json), db, w')
    \<and> then_try (json_parse L json) (get_events_js L) = Inr (filter (\<lambda>ev. e_pubkey ev \<in> set (f_authors s)) (stored L w))"
proof -
  obtain v where v: "quiet w v" "serve L wt c db w =
      (case serve_request L wt c (JArr [JStr (cstr ''REQ''), JStr i, filter_js s]) v of (r, w) \<Rightarrow> (r, db, w))"
    using serve_posted [OF assms(2), of w L wt db] message_head_parse [OF assms(4)] by auto
  have L: "json_lib_ok L" "log_apart w" using assms(1) by (simp_all add: http_ok_def db_ok_def)
  from serve_request_answer [OF L(1) _ assms(3), of v wt i s] v stored_quiet [OF v(1) L(2)] quiet_log_apart [OF v(1)] L(2)
  show ?thesis by (auto simp del: then_try_Inr)
qed

lemma loop_publishes:
  assumes "http_ok L db w" "list_all2 posts cs texts"
  shows "\<exists>rs w'. http_relay_loop L wt cs db w = (rs, db @ List.map_filter (http_event L) texts, w')
    \<and> stored L w' = stored L w @ prefixes_after db (List.map_filter (http_event L) texts)
    \<and> http_ok L (db @ List.map_filter (http_event L) texts) w'"
  using assms(2,1)
proof (induction arbitrary: db w rule: list_all2_induct)
  case Nil
  then show ?case by (simp add: map_filter_simps prefixes_after_def)
next
  case (Cons c cs body texts)
  show ?case
  proof (cases "http_event L body")
    case None
    obtain r v where v: "serve L wt c db w = (r, db, v)" "quiet w v"
      using serve_other [OF Cons.hyps(1) None] by blast
    have "http_ok L db v" using http_ok_quiet [OF v(2)] Cons.prems by simp
    moreover have "stored L v = stored L w" using stored_quiet [OF v(2)] Cons.prems by (simp add: http_ok_def db_ok_def)
    ultimately show ?thesis using Cons.IH [of db v] v(1) None by (auto simp: map_filter_simps)
  next
    case (Some ev)
    obtain r v where v: "serve L wt c db w = (r, db @ [ev], v)" "stored L v = stored L w @ db @ [ev]" "http_ok L (db @ [ev]) v"
      using serve_publishes [OF Cons.prems Cons.hyps(1) Some] by blast
    from Cons.IH [OF v(3)] v(1,2) Some show ?thesis by (auto simp: map_filter_simps prefixes_after_Cons)
  qed
qed

section \<open>Properties\<close>

text \<open>
  The HTTP relay answers complete messages and refuses the others: a posted complete event
  is answered by the status 200, added to the list, and the whole list appended to the file; a
  posted request is answered by a post whose text reads as the array of all stored events of
  the authors of the filter; a posted text that is no complete EVENT message changes nothing,
  in memory or in the file.
\<close>

theorem http_relay_serves:
  assumes "http_ok L db w" "posts c body" "c_writes c"
  shows "(\<forall>ev. http_event L body = Some ev \<longrightarrow>
        (\<exists>w'. serve L wt c db w = (Some ok_response, db @ [ev], w') \<and> http_ok L (db @ [ev]) w'
          \<and> fst (database_read L w') = fst (database_read L w) @ db @ [ev]))
    \<and> (http_event L body = None \<longrightarrow>
        (\<exists>r w'. serve L wt c db w = (r, db, w') \<and> http_ok L db w' \<and> fst (database_read L w') = fst (database_read L w)))
    \<and> (\<forall>i s. json_parse L body = Inr (JArr [JStr (cstr ''REQ''), JStr i, filter_js s]) \<longrightarrow>
        (\<exists>json w'. serve L wt c db w = (Some (make_post (client_ip c) json), db, w')
          \<and> then_try (json_parse L json) (get_events_js L)
              = Inr (filter (\<lambda>ev. e_pubkey ev \<in> set (f_authors s)) (fst (database_read L w)))))"
proof (intro conjI allI impI)
  fix ev assume "http_event L body = Some ev"
  from serve_publishes [OF assms(1,2) this, of wt] assms(3)
  show "\<exists>w'. serve L wt c db w = (Some ok_response, db @ [ev], w') \<and> http_ok L (db @ [ev]) w'
      \<and> fst (database_read L w') = fst (database_read L w) @ db @ [ev]"
    by (auto simp: stored_def)
next
  assume "http_event L body = None"
  then obtain r w' where w': "serve L wt c db w = (r, db, w')" "quiet w w'" using serve_other [OF assms(2)] by blast
  with http_ok_quiet [OF w'(2)] stored_quiet [OF w'(2)] assms(1)
  show "\<exists>r w'. serve L wt c db w = (r, db, w') \<and> http_ok L db w' \<and> fst (database_read L w') = fst (database_read L w)"
    by (auto simp: stored_def http_ok_def db_ok_def)
next
  fix i s assume "json_parse L body = Inr (JArr [JStr (cstr ''REQ''), JStr i, filter_js s])"
  from serve_asked [OF assms this]
  show "\<exists>json w'. serve L wt c db w = (Some (make_post (client_ip c) json), db, w')
      \<and> then_try (json_parse L json) (get_events_js L)
          = Inr (filter (\<lambda>ev. e_pubkey ev \<in> set (f_authors s)) (fst (database_read L w)))"
    by (simp add: stored_def del: then_try_Inr)
qed

text \<open>A codec in which a chosen value has a text of one byte.\<close>

definition short_json :: "json_lib \<Rightarrow> json \<Rightarrow> json_lib" where
  "short_json L j0 = L
     \<lparr>json_parse := (\<lambda>t. if t = [1] then Inr j0 else json_parse L (drop 1 t)),
      json_dump := (\<lambda>n j. if j = j0 then Inr [1] else map_sum id (Cons 2) (json_dump L n j))\<rparr>"

lemma short_json_ok:
  assumes "json_lib_ok L" "json_utf8 j0"
  shows "json_lib_ok (short_json L j0)"
  unfolding json_lib_ok_def
proof (intro conjI allI impI)
  note [simp] = short_json_def
  show "\<exists>t. json_dump (short_json L j0) n j = Inr t" if "json_utf8 j" for n j
    using dump_total [OF assms(1) that, of n] by auto
  show "json_dump (short_json L j0) n j = Inl (Type_error 316)" if "\<not> json_utf8 j" for n j
    using dump_invalid [OF assms(1) that, of n] that assms(2) by auto
  show "json_parse (short_json L j0) t = Inr j" if "json_exact j \<and> json_dump (short_json L j0) n j = Inr t" for n j t
    using that parse_dump [OF assms(1), of j n] by (cases "json_dump L n j") (auto split: if_splits)
  show "json_utf8 j" if "json_parse (short_json L j0) t = Inr j" for t j
    using that parse_utf8 [OF assms(1), of "drop 1 t" j] assms(2) by (auto split: if_splits)
  show "\<exists>m. json_parse (short_json L j0) [] = Inl (Parse_error m)"
    using parse_empty [OF assms(1)] by simp
qed

definition sample_post :: json where
  "sample_post = JArr [JStr (cstr ''EVENT''), event_js sample_note]"

definition sample_connection :: "byte list \<Rightarrow> connection" where
  "sample_connection body = \<lparr>client_ip = cstr ''::1'', c_sock = [make_post (cstr ''h'') body], c_writes = True\<rparr>"

lemma sample_lib: "json_lib_ok (short_json sample_json sample_post)"
  using sample_note_valid event_class.to_utf8 by (intro short_json_ok sample_json_ok) (simp add: sample_post_def)

lemma sample_posts: "body \<noteq> [] \<Longrightarrow> length body < 2 ^ 31 \<Longrightarrow> posts (sample_connection body) body"
  by (simp add: posts_def sample_connection_def) (rule exI [of _ "cstr ''h''"], simp add: cstr_def)

lemma sample_http_event: "http_event (short_json sample_json sample_post) [1] = Some sample_note"
  by (simp add: http_event_head message_head_def short_json_def sample_post_def from_json_event_js)

theorem http_relay_serves_witness:
  "\<exists>w'. serve (short_json sample_json sample_post) (\<lambda>_. []) (sample_connection [1]) [] sample_world = (Some ok_response, [sample_note], w')"
proof -
  have "http_ok (short_json sample_json sample_post) [] sample_world"
    using sample_lib by (simp add: http_ok_def db_ok_def sample_world_def log_apart_def)
  from http_relay_serves [OF this sample_posts [of "[1]"], of "\<lambda>_. []"] sample_http_event show ?thesis
    by (auto simp: sample_connection_def)
qed

lemma http_relay_start_ok:
  assumes "json_lib_ok L" "writable w database_file" "ofs_log w = None" "http_relay_start L w = (db, w0)"
  shows "db = []" "http_ok L [] w0" "stored L w0 = []"
proof -
  let ?w = "comm_start_log w"
  have "db_ok L ?w" using assms(1,2) quiet_start [OF assms(3)] by (auto simp: db_ok_def comm_start_log_def)
  then obtain v where v: "database_save L [] ?w = (0, v)" "stored L v = []" "db_ok L v"
    by (rule database_save_ok [of L _ "[]"]) auto
  then have start: "db = []" "quiet v w0" using assms(4) by (auto simp: http_relay_start_def)
  then show "db = []" by simp
  show "http_ok L [] w0" "stored L w0 = []"
    using db_ok_quiet [OF start(2)] stored_quiet [OF start(2)] v(2,3) by (simp_all add: http_ok_def) (simp add: db_ok_def)
qed

text \<open>
  The HTTP relay starts from nothing and forgets the old file: started on any world with
  a writable database file, after connections that post any texts, its list has exactly the
  complete events among them in order, and the file every prefix of that list one after the
  other; what the file held before the start is gone.
\<close>

theorem http_relay_history:
  assumes "json_lib_ok L" "writable w database_file" "ofs_log w = None" "list_all2 posts cs bodies"
    and "http_relay_start L w = (db, w0)" "http_relay_loop L wt cs db w0 = (rs, db', w')"
  shows "db' = List.map_filter (http_event L) bodies
    \<and> fst (database_read L w') = prefixes_after [] (List.map_filter (http_event L) bodies) \<and> length rs = length cs"
proof -
  note start = http_relay_start_ok [OF assms(1-3,5)]
  from loop_publishes [OF start(2) assms(4), of wt] start(3) assms(6) start(1)
  have "db' = List.map_filter (http_event L) bodies \<and> stored L w' = prefixes_after [] (List.map_filter (http_event L) bodies)"
    by auto
  moreover have "length rs = length cs" if "http_relay_loop L wt cs db w = (rs, db', w')" for cs rs db w
    using that by (induction cs arbitrary: rs db w) (auto split: prod.splits)
  ultimately show ?thesis using assms(6) by (simp add: stored_def)
qed

theorem http_relay_history_witness:
  "\<exists>db w0 rs w'. http_relay_start (short_json sample_json sample_post) sample_world = (db, w0)
     \<and> http_relay_loop (short_json sample_json sample_post) (\<lambda>_. []) [sample_connection [1], sample_connection [1]] db w0
         = (rs, [sample_note, sample_note], w')"
proof -
  obtain db w0 where start: "http_relay_start (short_json sample_json sample_post) sample_world = (db, w0)" by (metis prod.collapse)
  obtain rs db' w' where loop: "http_relay_loop (short_json sample_json sample_post) (\<lambda>_. [])
      [sample_connection [1], sample_connection [1]] db w0 = (rs, db', w')" by (metis prod.collapse)
  have "list_all2 posts [sample_connection [1], sample_connection [1]] [[1], [1]]" using sample_posts by simp
  from http_relay_history [OF sample_lib _ _ this start loop] sample_http_event start loop show ?thesis
    by (simp add: sample_world_def map_filter_simps)
qed

end
