(* ===== verification/Nostr_Sign.thy ===== *)
theory Nostr_Sign
  imports Nostr_Protocol Nostril_Cli
begin

text \<open>
  Signing an event in the client: \<open>make_event\<close> of \<open>src/src/nostr.cc\<close>, which calls the C functions
  of \<open>nostri.c\<close>. The memory \<open>m\<close> and the key structure stand for uninitialised objects; the text on
  standard error is left out. \<open>None\<close> would be a run that does not end, which key generation
  without a difficulty never is.

  Shown: a message that is returned carries the id of the event without its tags and a
  signature of that id; with a usable key a message is returned.
\<close>

section \<open>Operations\<close>

text \<open>The key: decoded from the given string, or generated.\<close>

definition client_key ::
    "('w, 'ctx, 'kp, 'xpk, 'pk) platform \<Rightarrow> 'ctx \<Rightarrow> byte list option \<Rightarrow> 'kp key \<Rightarrow> 'w \<Rightarrow> world
     \<Rightarrow> ('kp key option \<times> 'w \<times> world) option" where
  "client_key P ctx seckey key v w =
     (case seckey of
        Some s \<Rightarrow>
          (case decode_key P ctx s key of (ok, key) \<Rightarrow> Some (if ok then Some key else None, v, w))
      | None \<Rightarrow>
          map_option (\<lambda>((ok, key), v). if ok then (Some key, v, w) else (None, v, comm_log (cstr ''could not generate key'') w))
            (generate_key P ctx key None v))"

text \<open>The C structure that is hashed: time, content, kind and public key; no tags.\<close>

definition nev_of :: "event_t \<Rightarrow> byte list \<Rightarrow> nostr_event" where
  "nev_of ev pk =
     zero_event\<lparr>ev_created_at := e_created_at ev, ev_content := Some (e_content ev), ev_kind := sint (e_kind ev),
       ev_pubkey := take 32 pk\<rparr>"

text \<open>
  From the key on. The results of \<open>hex_encode\<close> are compared with \<open>< 0\<close>, which no \<open>bool\<close> is.
\<close>

definition sign_client_event ::
    "('w, 'ctx, 'kp, 'xpk, 'pk) platform \<Rightarrow> json_lib \<Rightarrow> 'ctx \<Rightarrow> 'kp key \<Rightarrow> event_t \<Rightarrow> memory \<Rightarrow> 'w \<Rightarrow> world
     \<Rightarrow> (byte list throwing \<times> event_t \<times> 'w \<times> world) run" where
  "sign_client_event P L ctx key ev m v w =
     (case generate_event_id (nev_of ev (pubkey key)) m of
        None \<Rightarrow> Abort
      | Some (ok, nev, m) \<Rightarrow>
          if \<not> ok then Return (Inr [], ev, v, comm_log (cstr ''could not generate event id'') w)
          else case sign_event P ctx key nev v of (ok, nev, v) \<Rightarrow>
            if \<not> ok then Return (Inr [], ev, v, comm_log (cstr ''could not sign event'') w)
            else case (hex_encode (ev_id nev) (replicate 65 0) 65, hex_encode (ev_pubkey nev) (replicate 65 0) 65,
                       hex_encode (ev_sig nev) (replicate 129 0) 129) of
              (Some (_, id_text), Some (_, pubkey_text), Some (_, sig_text)) \<Rightarrow>
                (let ev = ev\<lparr>e_pubkey := c_str pubkey_text, e_id := c_str id_text, e_sig := c_str sig_text\<rparr> in
                 Return (then_try (to_json_event JNull ev) (\<lambda>js. json_dump L Compact (JArr [JStr (cstr ''EVENT''), js])),
                   ev, v, w))
            | _ \<Rightarrow> Abort)"

definition make_event ::
    "('w, 'ctx, 'kp, 'xpk, 'pk) platform \<Rightarrow> json_lib \<Rightarrow> event_t \<Rightarrow> byte list option \<Rightarrow> 'kp key \<Rightarrow> memory \<Rightarrow> 'w \<Rightarrow> world
     \<Rightarrow> (byte list throwing \<times> event_t \<times> 'w \<times> world) run option" where
  "make_event P L ev seckey key m v w =
     (case init_secp_context P v of (ok, ctx, v) \<Rightarrow>
        if \<not> ok then Some (Return (Inr [], ev, v, w))
        else map_option (\<lambda>(k, v, w). case k of
               None \<Rightarrow> Return (Inr [], ev, v, w)
             | Some key \<Rightarrow> sign_client_event P L ctx key ev m v w)
             (client_key P ctx seckey key v w))"

section \<open>What is signed\<close>

lemma nev_of_wf: "length pk = 32 \<Longrightarrow> event_wf (nev_of ev pk)"
  using zero_ok(1) sint_range_size [of "e_kind ev"] by (simp add: event_wf_def nev_of_def word_size)

definition signed_text :: "event_t \<Rightarrow> byte list \<Rightarrow> byte list" where
  "signed_text ev pk = commitment_text (nev_of ev pk)"

lemma client_key_ok: "client_key P ctx seckey key v w = Some (Some k, v', w') \<Longrightarrow> key_ok P ctx k"
  by (auto simp: client_key_def decode_key_def generate_key_def Let_def split: option.splits prod.splits if_splits
      intro: create_key_ok)

lemma sign_client_event_run:
  assumes "key_ok P ctx key" "secp_sizes P" "sign_client_event P L ctx key ev m v w = Return (r, ev', v', w')"
  shows "(r = Inr [] \<and> ev' = ev) \<or>
    (\<exists>s. ev' = ev\<lparr>e_pubkey := hex_text (pubkey key), e_id := hex_text (fips_sha256 (signed_text ev (pubkey key))), e_sig := hex_text s\<rparr>
       \<and> (\<exists>kp aux. keypair_create P ctx (secret key) = Some kp
            \<and> schnorrsig_sign32 P ctx (fips_sha256 (signed_text ev (pubkey key))) kp aux = Some s)
       \<and> r = json_dump L Compact (JArr [JStr (cstr ''EVENT''), event_js ev']))"
proof -
  let ?nev = "nev_of ev (pubkey key)" and ?t = "signed_text ev (pubkey key)"
  have len: "length (pubkey key) = 32" by (rule key_ok_length [OF assms(2,1)])
  obtain m' where gen: "generate_event_id ?nev m = Some (if length ?t < 102400
      then (True, ?nev\<lparr>ev_id := fips_sha256 ?t\<rparr>, m') else (False, ?nev, m'))"
    using generate_event_id_text [OF nev_of_wf [OF len, of ev], of m] unfolding signed_text_def by blast
  show ?thesis
  proof (cases "length ?t < 102400")
    case False
    with gen assms(3) show ?thesis by (auto simp: sign_client_event_def)
  next
    case True
    let ?n = "?nev\<lparr>ev_id := fips_sha256 ?t\<rparr>"
    obtain ok n v1 where sign: "sign_event P ctx key ?n v = (ok, n, v1)" by (metis prod.collapse)
    show ?thesis
    proof (cases ok)
      case False
      with gen True sign assms(3) show ?thesis by (auto simp: sign_client_event_def)
    next
      case ok: True
      obtain kp where kp: "keypair_create P ctx (secret key) = Some kp" "pair key = Some kp"
        using assms(1) unfolding key_ok_def by (metis option.exhaust)
      obtain aux s where s: "keypair_create P ctx (secret key) = Some kp" "n = ?n\<lparr>ev_sig := s\<rparr>"
          "schnorrsig_sign32 P ctx (fips_sha256 ?t) kp aux = Some s"
        using sign ok kp
        by (auto simp: sign_event_def make_sig_def split: prod.splits option.splits if_splits)
      have "length s = 64" using assms(2) s(3) unfolding secp_sizes_def by blast
      then have "hex_encode (ev_id n) (replicate 65 0) 65 = Some (True, hex_text (fips_sha256 ?t) @ [0])"
          "hex_encode (ev_pubkey n) (replicate 65 0) 65 = Some (True, hex_text (pubkey key) @ [0])"
          "hex_encode (ev_sig n) (replicate 129 0) 129 = Some (True, hex_text s @ [0])"
        using s(2) len hex_encode_array [of 65 "fips_sha256 ?t"] hex_encode_array [of 65 "pubkey key"] hex_encode_array [of 129 s]
        by (simp_all add: length_fips_sha256 nev_of_def)
      with gen True sign ok assms(3) s show ?thesis
        by (auto simp: sign_client_event_def hex_text_no_nul Let_def)
    qed
  qed
qed

lemma make_event_steps:
  assumes "make_event P L ev seckey key m v w = Some (Return (Inr json, ev', v', w'))" "json \<noteq> []"
  obtains ctx k v1 w1 where "key_ok P ctx k" "sign_client_event P L ctx k ev m v1 w1 = Return (Inr json, ev', v', w')"
proof -
  obtain ok ctx v0 where i: "init_secp_context P v = (ok, ctx, v0)" by (metis prod.collapse)
  with assms obtain k v1 w1 where k: "client_key P ctx seckey key v0 w = Some (Some k, v1, w1)"
      "sign_client_event P L ctx k ev m v1 w1 = Return (Inr json, ev', v', w')"
    by (auto simp: make_event_def split: if_splits option.splits)
  with that client_key_ok [OF k(1)] show ?thesis by blast
qed

lemma make_event_made:
  assumes "json_lib_ok L" "secp_sizes P"
    and "make_event P L ev seckey key m v w = Some (Return (Inr json, ev', v', w'))" "json \<noteq> []"
  obtains ctx k kp aux s where "key_ok P ctx k" "keypair_create P ctx (secret k) = Some kp"
    "ev' = ev\<lparr>e_pubkey := hex_text (pubkey k), e_id := hex_text (fips_sha256 (signed_text ev (pubkey k))), e_sig := hex_text s\<rparr>"
    "schnorrsig_sign32 P ctx (fips_sha256 (signed_text ev (pubkey k))) kp aux = Some s"
    "json_parse L json = Inr (JArr [JStr (cstr ''EVENT''), event_js ev'])"
proof -
  obtain ctx k v1 w1 where k: "key_ok P ctx k" "sign_client_event P L ctx k ev m v1 w1 = Return (Inr json, ev', v', w')"
    using assms(3,4) by (rule make_event_steps)
  from sign_client_event_run [OF k(1) assms(2) k(2)] assms(4)
  obtain s kp aux where s: "keypair_create P ctx (secret k) = Some kp"
      "ev' = ev\<lparr>e_pubkey := hex_text (pubkey k), e_id := hex_text (fips_sha256 (signed_text ev (pubkey k))), e_sig := hex_text s\<rparr>"
      "schnorrsig_sign32 P ctx (fips_sha256 (signed_text ev (pubkey k))) kp aux = Some s"
      "json_dump L Compact (JArr [JStr (cstr ''EVENT''), event_js ev']) = Inr json"
    by auto
  have "json_parse L json = Inr (JArr [JStr (cstr ''EVENT''), event_js ev'])"
    by (rule parse_dump [OF assms(1) _ s(4)]) (simp add: event_class.to_exact)
  with that k(1) s(1-3) show ?thesis by blast
qed

lemma parse_client_event_text:
  "json_parse L json = Inr (JArr [JStr (cstr ''EVENT''), event_js ev]) \<Longrightarrow> parse_client_event L json ev0 u = (0, ev, u)"
  by (simp add: parse_client_event_def message_head_parse parsed_def from_json_event_js)

lemma hex_text_utf8: "utf8 (hex_text bs)"
proof (rule utf8_ascii, rule ballI)
  fix b assume "b \<in> set (hex_text bs)"
  then have "is_hex b" using hex_text_is_hex by blast
  then show "b \<le> 0x7F" by (auto simp: is_hex_def char_to_hex_def word_le_nat_alt split: if_splits)
qed

text \<open>The text whose hash is the id, written out: NIP-01 with an empty tag list.\<close>

lemma signed_text_nip01:
  assumes "length pk = 32" "unat (e_created_at ev) < 10 ^ 15"
  shows "signed_text ev pk = cstr ''[0,\"'' @ hex_text pk @ cstr ''\",'' @ dec_nat (unat (e_created_at ev))
      @ cstr '','' @ dec_int (sint (e_kind ev)) @ cstr '',[],'' @ json_opt (Some (e_content ev)) @ cstr '']''"
  using assms commitment_is_nip01 [of "nev_of ev pk"]
  by (simp add: signed_text_def nip01_serialization_def nip01_text_def nev_of_def zero_event_def tags_json_def
      event_tags_def json_array_def cstr_def)

section \<open>Properties\<close>

text \<open>
  C9. What the client publishes is signed, but for its tags: a message that make_event returns
  is read by the relay as the very event with its three fields filled: the public key of the
  key that was decoded or generated, an id that is the SHA-256 of the serialisation of the time,
  kind, key and content of the event with an empty tag list (NIP-01 for time stamps of at
  most 15 digits), and a signature that the library made of that id with that key. The tags of
  the event do not enter the id.
\<close>

theorem make_event_signed:
  assumes "json_lib_ok L" "secp_sizes P"
    and "make_event P L ev seckey key m v w = Some (Return (Inr json, ev', v', w'))" "json \<noteq> []"
  shows "parse_client_event L json ev0 u = (0, ev', u)
    \<and> (\<exists>ctx k kp aux s. key_ok P ctx k \<and> keypair_create P ctx (secret k) = Some kp
        \<and> ev' = ev\<lparr>e_pubkey := hex_text (pubkey k), e_id := hex_text (fips_sha256 (signed_text ev (pubkey k))), e_sig := hex_text s\<rparr>
        \<and> schnorrsig_sign32 P ctx (fips_sha256 (signed_text ev (pubkey k))) kp aux = Some s
        \<and> (unat (e_created_at ev) < 10 ^ 15 \<longrightarrow> signed_text ev (pubkey k)
              = cstr ''[0,\"'' @ hex_text (pubkey k) @ cstr ''\",'' @ dec_nat (unat (e_created_at ev)) @ cstr '',''
                @ dec_int (sint (e_kind ev)) @ cstr '',[],'' @ json_opt (Some (e_content ev)) @ cstr '']''))
    \<and> (\<forall>ts pk. signed_text (ev\<lparr>e_tags := ts\<rparr>) pk = signed_text ev pk)"
proof -
  obtain ctx k kp aux s where made: "key_ok P ctx k" "keypair_create P ctx (secret k) = Some kp"
      "ev' = ev\<lparr>e_pubkey := hex_text (pubkey k), e_id := hex_text (fips_sha256 (signed_text ev (pubkey k))), e_sig := hex_text s\<rparr>"
      "schnorrsig_sign32 P ctx (fips_sha256 (signed_text ev (pubkey k))) kp aux = Some s"
      "json_parse L json = Inr (JArr [JStr (cstr ''EVENT''), event_js ev'])"
    using assms by (rule make_event_made)
  moreover have "signed_text ev (pubkey k) = cstr ''[0,\"'' @ hex_text (pubkey k) @ cstr ''\",'' @ dec_nat (unat (e_created_at ev))
      @ cstr '','' @ dec_int (sint (e_kind ev)) @ cstr '',[],'' @ json_opt (Some (e_content ev)) @ cstr '']''"
    if "unat (e_created_at ev) < 10 ^ 15"
    by (rule signed_text_nip01 [OF key_ok_length [OF assms(2) made(1)] that])
  moreover have "signed_text (ev\<lparr>e_tags := ts\<rparr>) pk = signed_text ev pk" for ts pk
    by (simp add: signed_text_def nev_of_def)
  ultimately show ?thesis using parse_client_event_text by blast
qed

lemma make_event_run:
  assumes "json_lib_ok L" "secp_sizes P" "init_secp_context P v = (True, ctx, v1)" "decode_key P ctx sk key = (True, k)"
    and "pair k = Some kp" "getrandom P 32 v1 = ((32, aux), v2)" "length aux = 32"
    and "length (signed_text ev (pubkey k)) < 102400" "event_valid ev"
    and "schnorrsig_sign32 P ctx (fips_sha256 (signed_text ev (pubkey k))) kp aux = Some s"
  shows "\<exists>json ev'. make_event P L ev (Some sk) key m v w = Some (Return (Inr json, ev', v2, w)) \<and> json \<noteq> []"
proof -
  let ?nev = "nev_of ev (pubkey k)" and ?h = "fips_sha256 (signed_text ev (pubkey k))"
  have k: "key_ok P ctx k" by (rule client_key_ok [of P ctx "Some sk" key v w k v w]) (simp add: client_key_def assms(4))
  have len: "length (pubkey k) = 32" by (rule key_ok_length [OF assms(2) k])
  obtain m' where gen: "generate_event_id ?nev m = Some (True, ?nev\<lparr>ev_id := ?h\<rparr>, m')"
    using generate_event_id_text [OF nev_of_wf [OF len, of ev], of m] assms(8) by (auto simp: signed_text_def)
  have "copy_at (replicate 32 0) 0 (take 32 aux) = aux" using assms(7) by (simp add: copy_at_def)
  then have sign: "sign_event P ctx k (?nev\<lparr>ev_id := ?h\<rparr>) v1 = (True, ?nev\<lparr>ev_id := ?h, ev_sig := s\<rparr>, v2)"
    using assms(5-7,10) by (simp add: sign_event_def make_sig_def fill_random_def)
  have "length s = 64" using assms(2,10) unfolding secp_sizes_def by blast
  define ev' where "ev' = ev\<lparr>e_pubkey := hex_text (pubkey k), e_id := hex_text ?h, e_sig := hex_text s\<rparr>"
  have "json_utf8 (JArr [JStr (cstr ''EVENT''), event_js ev'])"
    using assms(9) by (simp add: event_class.to_utf8 event_valid_def ev'_def hex_text_utf8)
  moreover have "json_exact (JArr [JStr (cstr ''EVENT''), event_js ev'])" by (simp add: event_class.to_exact)
  ultimately obtain json where json: "json_dump L Compact (JArr [JStr (cstr ''EVENT''), event_js ev']) = Inr json"
      "json_parse L json = Inr (JArr [JStr (cstr ''EVENT''), event_js ev'])"
    using dump_parse_obtain [OF assms(1)] by blast
  have "json \<noteq> []" using json(2) parse_empty [OF assms(1)] by auto
  moreover have "make_event P L ev (Some sk) key m v w = Some (Return (Inr json, ev', v2, w))"
    using assms(3,4) gen sign json(1) \<open>length s = 64\<close> len hex_encode_array [of 65 ?h] hex_encode_array [of 65 "pubkey k"]
      hex_encode_array [of 129 s]
    by (simp add: make_event_def client_key_def sign_client_event_def ev'_def Let_def length_fips_sha256 hex_text_no_nul,
        simp add: nev_of_def)
  ultimately show ?thesis by blast
qed

lemma sample_make_event:
  "\<exists>json ev'. make_event toy_platform sample_json sample_note (Some (hex_text (replicate 32 7))) blank_key (\<lambda>_. 0) 5 sample_world
     = Some (Return (Inr json, ev', 7, sample_world)) \<and> json \<noteq> []"
proof (rule make_event_run [OF sample_json_ok toy_sizes toy_init toy_decode, of "replicate 32 7" "replicate 32 6"])
  have "length (signed_text sample_note (replicate 32 7)) < 102400"
    by (simp add: signed_text_def nev_of_def zero_event_def sample_note_def event_at_def commitment_text_def
        nip01_text_def timebuf_text_def dec_int_def dec_nat.simps tags_json_def event_tags_def json_array_def json_opt_def
        json_str_def c_str_def)
  then show "length (signed_text sample_note (pubkey \<lparr>pair = Some (replicate 32 7), secret = replicate 32 7,
      pubkey = replicate 32 (7 :: byte)\<rparr>)) < 102400" by simp
qed (simp_all add: toy_platform_def sample_note_valid length_fips_sha256)

theorem make_event_signed_witness:
  "\<exists>json ev'. make_event toy_platform sample_json sample_note (Some (hex_text (replicate 32 7))) blank_key (\<lambda>_. 0) 5 sample_world
       = Some (Return (Inr json, ev', 7, sample_world))
     \<and> parse_client_event sample_json json (event_at 0) sample_world = (0, ev', sample_world)"
proof -
  obtain json ev' where r: "make_event toy_platform sample_json sample_note (Some (hex_text (replicate 32 7))) blank_key (\<lambda>_. 0) 5 sample_world
       = Some (Return (Inr json, ev', 7, sample_world))" "json \<noteq> []"
    using sample_make_event by blast
  with make_event_signed [OF sample_json_ok toy_sizes r, of "event_at 0" sample_world] show ?thesis by blast
qed

end
