(* ===== verification/Nostr_Client.thy ===== *)
theory Nostr_Client
  imports Nostr_Protocol Hex
begin

text \<open>
  The client side of the library: subscription ids of \<open>src/src/uuid.cc\<close>, and the functions of
  \<open>src/src/nostr.cc\<close> that send a request to a relay and read its answers. The random numbers are
  those of a generator \<open>rng\<close>; the web socket client library is a function \<open>net\<close> that gives, for
  a relay and the text that is sent to it, the events it reports.

  Shown: the form of a subscription id; what is asked for, and what is taken from the answers.
\<close>

section \<open>Subscription ids\<close>

text \<open>\<open>uniform_int_distribution\<close>: a number between two bounds.\<close>

record 'g rng =
  draw :: "nat \<Rightarrow> nat \<Rightarrow> 'g \<Rightarrow> nat \<times> 'g"

definition rng_ok :: "'g rng \<Rightarrow> bool" where
  "rng_ok R \<longleftrightarrow> (\<forall>lo hi g. lo \<le> hi \<longrightarrow> lo \<le> fst (draw R lo hi g) \<and> fst (draw R lo hi g) \<le> hi)"

fun hex_draws :: "'g rng \<Rightarrow> nat \<Rightarrow> nat \<Rightarrow> nat \<Rightarrow> 'g \<Rightarrow> byte list \<times> 'g" where
  "hex_draws R lo hi 0 g = ([], g)"
| "hex_draws R lo hi (Suc n) g =
     (case draw R lo hi g of (d, g) \<Rightarrow>
      case hex_draws R lo hi n g of (ds, g) \<Rightarrow> (hex_digit (word_of_nat d) # ds, g))"

definition to_upper :: "byte \<Rightarrow> byte" where
  "to_upper c = (if 0x61 \<le> c \<and> c \<le> 0x7A then c - 0x20 else c)"

definition generate_uuid_v4 :: "'g rng \<Rightarrow> 'g \<Rightarrow> byte list \<times> 'g" where
  "generate_uuid_v4 R g =
     (case hex_draws R 0 15 8 g of (a, g) \<Rightarrow>
      case hex_draws R 0 15 4 g of (b, g) \<Rightarrow>
      case hex_draws R 0 15 3 g of (c, g) \<Rightarrow>
      case hex_draws R 8 11 1 g of (d, g) \<Rightarrow>
      case hex_draws R 0 15 3 g of (e, g) \<Rightarrow>
      case hex_draws R 0 15 12 g of (f, g) \<Rightarrow>
        (map to_upper (a @ cstr ''-'' @ b @ cstr ''-4'' @ c @ cstr ''-'' @ d @ e @ cstr ''-'' @ f), g))"

section \<open>Talking to a relay\<close>

text \<open>What the client library reports, and what the handlers send.\<close>

datatype wsc_event = COpen "byte list" "byte list" | CMessage "byte list" | CClose int | CError "byte list" "byte list"

datatype wsc_send = Send "byte list" | SendClose int

type_synonym 'n net = "byte list \<Rightarrow> byte list \<Rightarrow> 'n \<Rightarrow> wsc_event list \<times> 'n"

text \<open>The handlers of \<open>relay_to\<close>, on the store and the sent frames.\<close>

definition relay_handler :: "byte list \<Rightarrow> wsc_event \<Rightarrow> byte list list \<times> wsc_send list \<Rightarrow> byte list list \<times> wsc_send list" where
  "relay_handler json e st =
     (case st of (store, sent) \<Rightarrow>
      case e of
        CMessage str \<Rightarrow> (store @ [str], sent @ [SendClose 1000])
      | COpen _ _ \<Rightarrow> (store, sent @ [Send json])
      | CClose _ \<Rightarrow> (store, sent)
      | CError _ _ \<Rightarrow> (store, sent))"

definition relay_to :: "'n net \<Rightarrow> byte list \<Rightarrow> byte list \<Rightarrow> byte list list \<Rightarrow> 'n \<Rightarrow> int \<times> byte list list \<times> wsc_send list \<times> 'n" where
  "relay_to net uri json store n =
     (case net uri json n of (es, n) \<Rightarrow>
      case fold (relay_handler json) es (store, []) of (store, sent) \<Rightarrow> (0, store, sent, n))"

text \<open>One received message in \<open>get_follows\<close> and \<open>get_feed\<close>: the event of an EVENT message.\<close>

definition event_response :: "json_lib \<Rightarrow> byte list \<Rightarrow> world \<Rightarrow> event_t option \<times> world" where
  "event_response L message w =
     (case message_head L message of
        Inl e \<Rightarrow> (None, comm_log (what L e) w)
      | Inr (js, t) \<Rightarrow>
          if t = cstr ''EVENT'' then
            (case new_event w of (ev, w) \<Rightarrow>
             case json_at js 2 of
               Inl e \<Rightarrow> (None, comm_log (what L e) w)
             | Inr obj \<Rightarrow>
                 (case from_json_event L obj ev of
                    (ev, None) \<Rightarrow> (Some ev, w)
                  | (_, Some e) \<Rightarrow> (None, comm_log (what L e) w)))
          else (None, w))"

text \<open>The loop over the received messages, keeping of each EVENT message what \<open>pick\<close> says.\<close>

definition responses_loop ::
    "json_lib \<Rightarrow> (byte list \<Rightarrow> event_t \<Rightarrow> 'a) \<Rightarrow> byte list list \<Rightarrow> 'a list \<Rightarrow> world \<Rightarrow> 'a list \<times> world" where
  "responses_loop L pick messages acc w =
     fold (\<lambda>message (acc, w).
        case event_response L message w of
          (None, w) \<Rightarrow> (acc, w)
        | (Some ev, w) \<Rightarrow> (acc @ [pick message ev], json_to_file L (cstr ''follows_event.json'') message w))
       messages (acc, w)"

text \<open>The \<open>p\<close> tags of a contact list.\<close>

definition follow_keys :: "event_t \<Rightarrow> byte list list" where
  "follow_keys ev = concat (map (\<lambda>tag. if 1 < length tag \<and> tag ! 0 = cstr ''p'' then [tag ! 1] else []) (e_tags ev))"

text \<open>A request of the three functions for one author: its text goes to a file and to the relay.\<close>

definition author_filter :: "byte list \<Rightarrow> u32 \<Rightarrow> u64 option \<Rightarrow> filter_t \<Rightarrow> filter_t" where
  "author_filter key k lim s =
     s\<lparr>f_authors := f_authors s @ [key], f_kinds := f_kinds s @ [k], f_limit := (case lim of None \<Rightarrow> f_limit s | Some n \<Rightarrow> n)\<rparr>"

definition ask ::
    "json_lib \<Rightarrow> 'g rng \<Rightarrow> 'n net \<Rightarrow> byte list \<Rightarrow> byte list \<Rightarrow> byte list \<Rightarrow> u32 \<Rightarrow> u64 option \<Rightarrow> 'g \<Rightarrow> 'n \<Rightarrow> world
     \<Rightarrow> byte list list \<times> 'g \<times> 'n \<times> world" where
  "ask L R net file uri key k lim g n w =
     (case generate_uuid_v4 R g of (subscription_id, g) \<Rightarrow>
      case new_filter w of (s, w) \<Rightarrow>
      case make_request L subscription_id (author_filter key k lim s) w of (json, w) \<Rightarrow>
      let w = json_to_file L file json w in
      case relay_to net uri json [] n of (_, messages, _, n) \<Rightarrow> (messages, g, n, w))"

definition get_follows ::
    "json_lib \<Rightarrow> 'g rng \<Rightarrow> 'n net \<Rightarrow> byte list \<Rightarrow> byte list \<Rightarrow> byte list list \<Rightarrow> 'g \<Rightarrow> 'n \<Rightarrow> world
     \<Rightarrow> int \<times> byte list list \<times> 'g \<times> 'n \<times> world" where
  "get_follows L R net uri key keys g n w =
     (case ask L R net (cstr ''follows_request.json'') uri key kind_3 (Some 1) g n w of (messages, g, n, w) \<Rightarrow>
      case responses_loop L (\<lambda>_ ev. ev) messages [] w of (subs_events, w) \<Rightarrow>
      case subs_events of
        [] \<Rightarrow> (0, keys, g, n, w)
      | ev # _ \<Rightarrow> (0, keys @ follow_keys ev, g, n, w))"

definition get_feed ::
    "json_lib \<Rightarrow> 'g rng \<Rightarrow> 'n net \<Rightarrow> byte list \<Rightarrow> byte list \<Rightarrow> byte list list \<Rightarrow> 'g \<Rightarrow> 'n \<Rightarrow> world
     \<Rightarrow> int \<times> byte list list \<times> 'g \<times> 'n \<times> world" where
  "get_feed L R net uri key response g n w =
     (case ask L R net (cstr ''req_feed.json'') uri key kind_1 (Some 2) g n w of (messages, g, n, w) \<Rightarrow>
      case responses_loop L (\<lambda>message _. message) messages response w of (response, w) \<Rightarrow> (0, response, g, n, w))"

definition get_metadata ::
    "json_lib \<Rightarrow> 'g rng \<Rightarrow> 'n net \<Rightarrow> byte list \<Rightarrow> byte list \<Rightarrow> byte list list \<Rightarrow> 'g \<Rightarrow> 'n \<Rightarrow> world
     \<Rightarrow> int \<times> byte list list \<times> 'g \<times> 'n \<times> world" where
  "get_metadata L R net uri key response g n w =
     (case ask L R net (cstr ''req_metadata.json'') uri key kind_0 None g n w of (messages, g, n, w) \<Rightarrow>
        (0, response @ messages, g, n, w))"

primrec feeds_loop ::
    "json_lib \<Rightarrow> 'g rng \<Rightarrow> 'n net \<Rightarrow> byte list \<Rightarrow> byte list list \<Rightarrow> byte list list \<Rightarrow> 'g \<Rightarrow> 'n \<Rightarrow> world
     \<Rightarrow> byte list list \<times> 'g \<times> 'n \<times> world" where
  "feeds_loop L R net uri [] response g n w = (response, g, n, w)"
| "feeds_loop L R net uri (key # keys) response g n w =
     (case get_feed L R net uri key [] g n w of (_, events, g, n, w) \<Rightarrow>
        feeds_loop L R net uri keys (response @ events) g n w)"

definition get_events ::
    "json_lib \<Rightarrow> 'g rng \<Rightarrow> 'n net \<Rightarrow> byte list \<Rightarrow> byte list \<Rightarrow> byte list list \<Rightarrow> 'g \<Rightarrow> 'n \<Rightarrow> world
     \<Rightarrow> byte list list \<times> 'g \<times> 'n \<times> world" where
  "get_events L R net key uri response g n w =
     (case get_follows L R net uri key [] g n w of (_, keys, g, n, w) \<Rightarrow>
        feeds_loop L R net uri keys response g n (to_file_vec (cstr ''pubkeys.txt'') keys w))"

section \<open>The form of an id\<close>

definition is_upper_hex :: "byte \<Rightarrow> bool" where
  "is_upper_hex c \<longleftrightarrow> 0x30 \<le> c \<and> c \<le> 0x39 \<or> 0x41 \<le> c \<and> c \<le> 0x46"

lemma upper_digit:
  "n \<le> 15 \<Longrightarrow> is_upper_hex (to_upper (hex_digit (word_of_nat n)))"
  "8 \<le> n \<Longrightarrow> n \<le> 11 \<Longrightarrow> to_upper (hex_digit (word_of_nat n)) \<in> set (cstr ''89AB'')"
proof -
  have "list_all (\<lambda>n. is_upper_hex (to_upper (hex_digit (word_of_nat n)))) [0..<16]"
      "list_all (\<lambda>n. to_upper (hex_digit (word_of_nat n)) \<in> set (cstr ''89AB'')) [8, 9, 10, 11]"
    by (simp_all add: upt_explicit is_upper_hex_def to_upper_def hex_digit_def cstr_def)
  then show "n \<le> 15 \<Longrightarrow> is_upper_hex (to_upper (hex_digit (word_of_nat n)))"
      "8 \<le> n \<Longrightarrow> n \<le> 11 \<Longrightarrow> to_upper (hex_digit (word_of_nat n)) \<in> set (cstr ''89AB'')"
    by (auto simp: list_all_iff numeral_eq_Suc le_Suc_eq simp del: upt_Suc)
qed

lemma hex_draws_upper:
  assumes "rng_ok R" "lo \<le> hi" "hex_draws R lo hi n g = (ds, g')"
    and "\<And>d. lo \<le> d \<Longrightarrow> d \<le> hi \<Longrightarrow> P (to_upper (hex_digit (word_of_nat d)))"
  shows "length ds = n \<and> list_all P (map to_upper ds)"
  using assms(3)
proof (induction n arbitrary: g ds)
  case (Suc n)
  obtain d g1 where d: "draw R lo hi g = (d, g1)" by (cases "draw R lo hi g")
  then have "lo \<le> d \<and> d \<le> hi" using assms(1,2) unfolding rng_ok_def by (metis fst_conv)
  with d Suc assms(4) show ?case by (auto split: prod.splits)
qed simp

definition uuid_form :: "byte list \<Rightarrow> bool" where
  "uuid_form s \<longleftrightarrow> (\<exists>a b c y e f. s = a @ cstr ''-'' @ b @ cstr ''-4'' @ c @ cstr ''-'' @ y # e @ cstr ''-'' @ f
     \<and> length a = 8 \<and> length b = 4 \<and> length c = 3 \<and> length e = 3 \<and> length f = 12
     \<and> list_all is_upper_hex (a @ b @ c @ y # e @ f) \<and> y \<in> set (cstr ''89AB''))"

lemma generate_uuid_form:
  assumes "rng_ok R"
  shows "uuid_form (fst (generate_uuid_v4 R g))"
proof -
  have any: "length ds = n \<and> list_all is_upper_hex (map to_upper ds)" if "hex_draws R 0 15 n g = (ds, g')" for n g ds g'
    by (rule hex_draws_upper [OF assms _ that]) (simp_all add: upper_digit(1))
  have variant: "length ds = n \<and> list_all (\<lambda>y. y \<in> set (cstr ''89AB'')) (map to_upper ds)"
    if "hex_draws R 8 11 n g = (ds, g')" for n g ds g'
    by (rule hex_draws_upper [OF assms _ that]) (simp_all add: upper_digit(2))
  obtain a g1 where a: "hex_draws R 0 15 8 g = (a, g1)" by (metis prod.collapse)
  obtain b g2 where b: "hex_draws R 0 15 4 g1 = (b, g2)" by (metis prod.collapse)
  obtain c g3 where c: "hex_draws R 0 15 3 g2 = (c, g3)" by (metis prod.collapse)
  obtain d g4 where d: "hex_draws R 8 11 1 g3 = (d, g4)" by (metis prod.collapse)
  obtain e g5 where e: "hex_draws R 0 15 3 g4 = (e, g5)" by (metis prod.collapse)
  obtain f g6 where f: "hex_draws R 0 15 12 g5 = (f, g6)" by (metis prod.collapse)
  from variant [OF d] obtain y where y: "d = [y]" "to_upper y \<in> set (cstr ''89AB'')"
    by (cases d) auto
  then have y_hex: "is_upper_hex (to_upper y)" by (auto simp: is_upper_hex_def cstr_def)
  have dash: "map to_upper (cstr ''-'') = cstr ''-''" "map to_upper (cstr ''-4'') = cstr ''-4''"
    by (simp_all add: to_upper_def cstr_def)
  let ?m = "map to_upper"
  have form: "fst (generate_uuid_v4 R g) = ?m a @ cstr ''-'' @ ?m b @ cstr ''-4'' @ ?m c @ cstr ''-'' @ to_upper y # ?m e @ cstr ''-'' @ ?m f"
    by (simp only: generate_uuid_v4_def a b c d e f prod.case dash y(1) map_append list.map fst_conv append_Cons append_Nil)
  have digits: "list_all is_upper_hex (?m a @ ?m b @ ?m c @ to_upper y # ?m e @ ?m f)"
    using any [OF a] any [OF b] any [OF c] any [OF e] any [OF f] y_hex by simp
  have "length (?m a) = 8" "length (?m b) = 4" "length (?m c) = 3" "length (?m e) = 3" "length (?m f) = 12"
    using any [OF a] any [OF b] any [OF c] any [OF e] any [OF f] by simp_all
  with form digits y(2) show ?thesis unfolding uuid_form_def by blast
qed

lemma uuid_form_utf8: "uuid_form s \<Longrightarrow> utf8 s"
proof (rule utf8_ascii, rule ballI)
  fix x assume "uuid_form s" "x \<in> set s"
  then have "is_upper_hex x \<or> x \<in> set (cstr ''-'') \<or> x \<in> set (cstr ''-4'')"
    unfolding uuid_form_def by (auto simp: list_all_iff)
  then show "x \<le> 0x7F" by (auto simp: is_upper_hex_def cstr_def word_le_nat_alt)
qed

section \<open>Properties\<close>

text \<open>
  Subscription ids are version 4 UUIDs: 8, 4, 4, 4 and 12 upper case hexadecimal digits
  between hyphens, with the version 4 and the variant 8, 9, A or B in their places.
\<close>

theorem uuid_version_4:
  assumes "rng_ok R"
  shows "\<exists>a b c y e f. fst (generate_uuid_v4 R g) = a @ cstr ''-'' @ b @ cstr ''-4'' @ c @ cstr ''-'' @ y # e @ cstr ''-'' @ f
     \<and> length a = 8 \<and> length b = 4 \<and> length c = 3 \<and> length e = 3 \<and> length f = 12
     \<and> list_all is_upper_hex (a @ b @ c @ y # e @ f) \<and> y \<in> set (cstr ''89AB'')"
  using generate_uuid_form [OF assms, of g] unfolding uuid_form_def .

definition toy_rng :: "nat rng" where
  "toy_rng = \<lparr>draw = (\<lambda>lo hi g. (lo + g mod (hi + 1 - lo), Suc g))\<rparr>"

lemma toy_rng_ok: "rng_ok toy_rng"
  unfolding rng_ok_def
proof (intro allI impI conjI)
  fix lo hi g :: nat assume "lo \<le> hi"
  moreover from this have "g mod (hi + 1 - lo) < hi + 1 - lo" by (intro mod_less_divisor) simp
  ultimately have "lo + g mod (hi + 1 - lo) \<le> hi" by linarith
  then show "lo \<le> fst (draw toy_rng lo hi g)" "fst (draw toy_rng lo hi g) \<le> hi"
    by (simp_all add: toy_rng_def)
qed

theorem uuid_version_4_witness:
  "uuid_form (fst (generate_uuid_v4 toy_rng 0))"
  unfolding uuid_form_def by (rule uuid_version_4 [OF toy_rng_ok])

lemma relay_to_one:
  assumes "net uri json n = ([COpen ver code, CMessage t, CClose status], n')"
  shows "relay_to net uri json [] n = (0, [t], [Send json, SendClose 1000], n')"
  using assms by (simp add: relay_to_def relay_handler_def)

lemma event_response_event:
  "json_parse L t = Inr (JArr [JStr (cstr ''EVENT''), JStr i, event_js ev]) \<Longrightarrow> \<exists>w'. event_response L t w = (Some ev, w')"
  by (simp add: event_response_def message_head_parse new_event_def std_time_def from_json_event_js)

text \<open>
  What the client asks for and what it learns: get_follows sends one REQ message that a
  relay reads as a filter for the contact lists (kind 3, at most one) of the given key; when the
  relay answers it with an EVENT message, the keys that get_follows adds are those of the
  tags p of that event, in their order, whatever subscription id the answer has, and the client
  closes the connection after the first message.
\<close>

theorem get_follows_contacts:
  assumes "json_lib_ok L" "rng_ok R" "utf8 key"
  shows "\<exists>json i. parse_request L json [] (filter_at now) u
        = (0, (i, (filter_at now)\<lparr>f_authors := [key], f_kinds := [3], f_limit := 1\<rparr>), u)
    \<and> (\<forall>ver code status t i' ev n'. net uri json n = ([COpen ver code, CMessage t, CClose status], n')
         \<and> json_parse L t = Inr (JArr [JStr (cstr ''EVENT''), JStr i', event_js ev]) \<longrightarrow>
         (\<exists>g' w'. get_follows L R net uri key keys g n w = (0, keys @ follow_keys ev, g', n', w')
           \<and> relay_to net uri json [] n = (0, [t], [Send json, SendClose 1000], n')))"
proof -
  obtain i g1 where i: "generate_uuid_v4 R g = (i, g1)" by (metis prod.collapse)
  have "utf8 i" using generate_uuid_form [OF assms(2), of g] i uuid_form_utf8 by simp
  let ?w = "w\<lparr>ticks := ticks w + 1\<rparr>"
  let ?f = "author_filter key kind_3 (Some 1) (filter_at (clock w (ticks w)))"
  have "filter_valid ?f" using assms(3) by (simp add: filter_valid_def author_filter_def filter_at_def)
  with assms(1) \<open>utf8 i\<close> obtain json where json: "make_request L i ?f ?w = (json, ?w)"
      "json_parse L json = Inr (JArr [JStr (cstr ''REQ''), JStr i, filter_js ?f])"
    by (rule make_request_text)
  have "filter_over ?f (filter_at now) = (filter_at now)\<lparr>f_authors := [key], f_kinds := [3], f_limit := 1\<rparr>"
    by (simp add: filter_over_def author_filter_def filter_at_def kind_3_def)
  with message_head_parse [OF json(2)]
  have "parse_request L json [] (filter_at now) u
      = (0, (i, (filter_at now)\<lparr>f_authors := [key], f_kinds := [3], f_limit := 1\<rparr>), u)"
    by (simp add: parse_request_def parsed_def id_and_object_def from_json_filter_js)
  moreover have "\<exists>g' w'. get_follows L R net uri key keys g n w = (0, keys @ follow_keys ev, g', n', w')
        \<and> relay_to net uri json [] n = (0, [t], [Send json, SendClose 1000], n')"
    if net: "net uri json n = ([COpen ver code, CMessage t, CClose status], n')"
      and t: "json_parse L t = Inr (JArr [JStr (cstr ''EVENT''), JStr i', event_js ev])" for ver code status t i' ev n'
  proof -
    note r = relay_to_one [of net, OF net]
    have ask: "ask L R net (cstr ''follows_request.json'') uri key kind_3 (Some 1) g n w
        = ([t], g1, n', json_to_file L (cstr ''follows_request.json'') json ?w)"
      by (simp add: ask_def i new_filter_def std_time_def json(1) [unfolded Suc_eq_plus1 [symmetric]] r Let_def)
    obtain w1 where "event_response L t (json_to_file L (cstr ''follows_request.json'') json ?w) = (Some ev, w1)"
      using event_response_event [OF t] by blast
    with ask r show ?thesis by (simp add: get_follows_def responses_loop_def)
  qed
  ultimately show ?thesis by blast
qed

theorem get_follows_contacts_witness:
  "\<exists>t g' w'. get_follows sample_json toy_rng (\<lambda>_ _ n. ([COpen [] [], CMessage t, CClose 1000], n)) [] (cstr ''ab'') [] 0 (0 :: nat)
     sample_world = (0, [cstr ''ef''], g', 0, w')"
proof -
  let ?j = "JArr [JStr (cstr ''EVENT''), JStr (cstr ''REQ''), event_js sample_note]"
  have "json_utf8 ?j" "json_exact ?j" using sample_note_valid event_class.to_utf8 event_class.to_exact by simp_all
  then obtain t where t: "json_parse sample_json t = Inr ?j" using dump_parse_obtain [OF sample_json_ok] by blast
  have "follow_keys sample_note = [cstr ''ef'']" by (simp add: follow_keys_def sample_note_def)
  moreover have "utf8 (cstr ''ab'')" by (simp add: cstr_def)
  ultimately show ?thesis
    using get_follows_contacts [OF sample_json_ok toy_rng_ok, of "cstr ''ab''" 0 sample_world
      "\<lambda>_ _ n. ([COpen [] [], CMessage t, CClose 1000], n)" "[]" "0 :: nat" "[]" 0 sample_world] t
    by (metis append_Nil)
qed

end
