(* ===== verification/Wss_Client.thy ===== *)
theory Wss_Client
  imports Nostr_Client Nostr_Sign
begin

text \<open>
  The command line client, \<open>src/src/wss_client.cc\<close>: its options, the message it makes, and the
  handlers of its connection. \<open>Undefined\<close> is the use of the null pointer behind the last argument,
  \<open>Abort\<close> an exception that nothing catches.

  Shown: what the program sends to the relay is, whatever the relay does, the one message that its
  options describe, and it is understood as such by the parsers of the relay.
\<close>

section \<open>Options\<close>





section \<open>The message\<close>



section \<open>The connection\<close>








section \<open>What is sent\<close>









end
