(* ===== verification/Http_Client.thy ===== *)
theory Http_Client
  imports Http_Relay
begin

text \<open>
  The test client over HTTP, \<open>src/src/http/http_client.cc\<close>: it sends one made up event and one
  request to the relay on the same machine and logs the answers. \<open>rand\<close> of the C library is a
  function of the seed and the number of calls since; the network is a function from the bytes
  sent to the pieces received, or no connection. Closing the socket is left out.

  Shown: what the two messages are for the relay.
\<close>

section \<open>Operations\<close>

type_synonym rand_fun = "u32 \<Rightarrow> nat \<Rightarrow> nat"
type_synonym rand_state = "u32 \<times> nat"

definition hex_characters :: "byte list" where
  "hex_characters = cstr ''0123456789ABCDEF''"

definition tolower_byte :: "byte \<Rightarrow> byte" where
  "tolower_byte c = (if 0x41 \<le> c \<and> c \<le> 0x5A then c + 0x20 else c)"

definition hex_string :: "rand_fun \<Rightarrow> nat \<Rightarrow> bool \<Rightarrow> rand_state \<Rightarrow> byte list \<times> rand_state" where
  "hex_string rand len to_lower st =
     (case st of (seed, k) \<Rightarrow>
      let hex = map (\<lambda>idx. hex_characters ! (rand seed (k + idx) mod 16)) [0..<len]
      in (if to_lower then map tolower_byte hex else hex, (seed, k + len)))"

definition client_pubkey :: "byte list" where
  "client_pubkey = cstr ''b2b41e936821bb48572c2295ec5f1741''"

definition http_make_event :: "json_lib \<Rightarrow> rand_fun \<Rightarrow> rand_state \<Rightarrow> world \<Rightarrow> byte list throwing \<times> rand_state \<times> world" where
  "http_make_event L rand st w =
     (case hex_string rand 32 True st of (eid, st) \<Rightarrow>
      case std_time w of (t, w) \<Rightarrow>
      let st = (ucast t, 0) in
      case new_event w of (ev, w) \<Rightarrow>
      case std_time w of (now, w) \<Rightarrow>
      case hex_string rand 64 False st of (s, st) \<Rightarrow>
      let ev = ev\<lparr>e_id := eid, e_pubkey := client_pubkey, e_created_at := now, e_kind := 1,
                  e_tags := [[cstr ''e'', eid], [cstr ''p'', client_pubkey]],
                  e_content := cstr ''some great content'', e_sig := s\<rparr>
      in case then_try (to_json_event JNull ev) (\<lambda>js. json_dump L Indent_2 (JArr [JStr (cstr ''EVENT''), js])) of
           Inl e \<Rightarrow> (Inl e, st, w)
         | Inr json \<Rightarrow> (Inr json, st, write_file (cstr ''event.json'') json w))"

definition http_make_request :: "json_lib \<Rightarrow> rand_fun \<Rightarrow> rand_state \<Rightarrow> world \<Rightarrow> byte list throwing \<times> rand_state \<times> world" where
  "http_make_request L rand st w =
     (case hex_string rand 32 True st of (eid, st) \<Rightarrow>
      case new_filter w of (s, w) \<Rightarrow>
      case std_time w of (now, w) \<Rightarrow>
      let s = s\<lparr>f_ids := [eid], f_authors := [client_pubkey], f_kinds := [kind_1], f_e := [eid], f_p := [client_pubkey],
                f_since := 1643873040, f_until := now, f_limit := 100\<rparr>
      in case then_try (to_json_filter JNull s False)
                (\<lambda>js. json_dump L Indent_2 (JArr [JStr (cstr ''REQ''), JStr (cstr ''subscription_1''), js])) of
           Inl e \<Rightarrow> (Inl e, st, w)
         | Inr json \<Rightarrow> (Inr json, st, write_file (cstr ''request.json'') json w))"

definition log_answer :: "json_lib \<Rightarrow> http_msg_t \<Rightarrow> world \<Rightarrow> world" where
  "log_answer L http w =
     (let w = fold (\<lambda>line. comm_log (cstr ''header: '' @ line)) (h_header http) w;
          w = comm_log (cstr ''message: '' @ h_msg http) w
      in if h_msg http = [] then comm_log (cstr ''received empty message'') w
         else case then_try (json_parse L (h_msg http)) (get_events_js L) of
           Inl e \<Rightarrow> comm_log (what L e) w
         | Inr events \<Rightarrow>
             fold (\<lambda>ev. comm_log (e_content ev)) events
               (comm_log (cstr ''received '' @ dec_nat (length events) @ cstr '' events'') w))"

definition http_send ::
    "json_lib \<Rightarrow> (net_exn \<Rightarrow> byte list) \<Rightarrow> (byte list \<Rightarrow> 'n \<Rightarrow> byte list list option \<times> 'n) \<Rightarrow> byte list \<Rightarrow> byte list \<Rightarrow> 'n \<Rightarrow> world
     \<Rightarrow> int \<times> 'n \<times> world" where
  "http_send L wt net host json n w =
     (let buf_http = make_post host json in
      case net buf_http n of
        (None, n) \<Rightarrow> (0, n, comm_log (wt Net_connect) w)
      | (Some pieces, n) \<Rightarrow>
          (let w = comm_log (cstr ''sent '' @ dec_nat (length buf_http) @ cstr '' bytes'') w in
           case http_parse wt pieces http_new w of (code, http, w) \<Rightarrow>
             (0, n, if code < 0 then comm_log (cstr ''HTTP parse failed'') w else log_answer L http w)))"

text \<open>\<open>main\<close>; \<open>Abort\<close> is an exception of the library that leaves it.\<close>

definition http_client_main ::
    "json_lib \<Rightarrow> (net_exn \<Rightarrow> byte list) \<Rightarrow> (byte list \<Rightarrow> 'n \<Rightarrow> byte list list option \<times> 'n) \<Rightarrow> rand_fun \<Rightarrow> rand_state \<Rightarrow> 'n \<Rightarrow> world
     \<Rightarrow> (int \<times> 'n \<times> world) run" where
  "http_client_main L wt net rand st n w =
     (case http_make_event L rand st (comm_start_log w) of
        (Inl _, _, _) \<Rightarrow> Abort
      | (Inr json, st, w) \<Rightarrow>
          (case http_send L wt net (cstr ''127.0.0.1'') json n w of (_, n, w) \<Rightarrow>
             case http_make_request L rand st w of
               (Inl _, _, _) \<Rightarrow> Abort
             | (Inr json, st, w) \<Rightarrow> Return (http_send L wt net (cstr ''127.0.0.1'') json n w)))"

section \<open>The messages\<close>

lemma hex_string_utf8:
  assumes "hex_string rand len low st = (s, st')"
  shows "utf8 s" and "length s = len"
proof -
  obtain seed k where st: "st = (seed, k)" by (cases st)
  have digit: "hex_characters ! (n mod 16) \<in> set hex_characters" for n
    by (rule nth_mem) (simp add: hex_characters_def)
  moreover have "list_all (\<lambda>c. c \<le> 0x7F \<and> tolower_byte c \<le> 0x7F) hex_characters"
    by (simp add: hex_characters_def tolower_byte_def cstr_def)
  ultimately have "\<forall>c \<in> set s. c \<le> 0x7F"
    using assms unfolding st by (auto simp: hex_string_def list_all_iff Let_def split: if_splits)
  then show "utf8 s" by (rule utf8_ascii)
  show "length s = len" using assms unfolding st by (auto simp: hex_string_def Let_def split: if_splits)
qed

lemma client_pubkey_utf8: "utf8 client_pubkey"
  by (simp add: client_pubkey_def cstr_def)

text \<open>
  The test client and the relay understand each other: the first message is an EVENT that
  the relay reads completely, with the made up id of 32 digits (not a hash), the fixed public
  key, the tags e and p and the signature of 64 digits; the second is a REQ that is read as a
  filter for that key, though not with the bounds since and until that the client set.
\<close>

theorem http_client_messages:
  assumes "json_lib_ok L"
  shows "\<exists>json st1 w1 ev. http_make_event L rand st w = (Inr json, st1, w1) \<and> http_event L json = Some ev
      \<and> e_pubkey ev = client_pubkey \<and> length (e_id ev) = 32 \<and> length (e_sig ev) = 64
      \<and> e_tags ev = [[cstr ''e'', e_id ev], [cstr ''p'', client_pubkey]] \<and> e_content ev = cstr ''some great content''
      \<and> (\<exists>req st2 w2 eid. http_make_request L rand st1 w1 = (Inr req, st2, w2)
          \<and> parse_request L req [] (filter_at now) u = (0, (cstr ''subscription_1'',
              \<lparr>f_ids = [eid], f_authors = [client_pubkey], f_kinds = [1], f_e = [eid], f_p = [client_pubkey],
               f_since = 0, f_until = now, f_limit = 100\<rparr>), u))"
proof -
  obtain eid s0 where eid: "hex_string rand 32 True st = (eid, s0)" by (metis prod.collapse)
  let ?w2 = "w\<lparr>ticks := ticks w + 1, ticks := ticks w + 1 + 1, ticks := ticks w + 1 + 1 + 1\<rparr>"
  obtain s st1 where s: "hex_string rand 64 False (ucast (clock w (ticks w)), 0) = (s, st1)" by (metis prod.collapse)
  define ev where "ev = \<lparr>e_id = eid, e_pubkey = client_pubkey, e_created_at = clock w (Suc (Suc (ticks w))), e_kind = 1,
      e_tags = [[cstr ''e'', eid], [cstr ''p'', client_pubkey]], e_content = cstr ''some great content'', e_sig = s\<rparr>"
  let ?j = "JArr [JStr (cstr ''EVENT''), event_js ev]"
  have "event_valid ev" using hex_string_utf8 [OF eid] hex_string_utf8 [OF s] client_pubkey_utf8
    by (simp add: event_valid_def ev_def) (simp add: cstr_def)
  then have "json_utf8 ?j" "json_exact ?j" using event_class.to_utf8 event_class.to_exact by simp_all
  then obtain json where json: "json_dump L Indent_2 ?j = Inr json" "json_parse L json = Inr ?j"
    using dump_parse_obtain [OF assms] by blast
  obtain w1 where made: "http_make_event L rand st w = (Inr json, st1, w1)"
    using json(1) by (simp add: http_make_event_def eid s std_time_def new_event_def event_at_def ev_def Let_def)
  have read: "http_event L json = Some ev"
    by (simp add: http_event_head message_head_parse [OF json(2)] from_json_event_js)
  obtain eid2 st2 where eid2: "hex_string rand 32 True st1 = (eid2, st2)" by (metis prod.collapse)
  define f where "f = \<lparr>f_ids = [eid2], f_authors = [client_pubkey], f_kinds = [kind_1], f_e = [eid2], f_p = [client_pubkey],
      f_since = 1643873040, f_until = clock w1 (Suc (ticks w1)), f_limit = 100\<rparr>"
  let ?r = "JArr [JStr (cstr ''REQ''), JStr (cstr ''subscription_1''), filter_js f]"
  have "filter_valid f" using hex_string_utf8 [OF eid2] client_pubkey_utf8 by (simp add: filter_valid_def f_def)
  then have "json_utf8 ?r" "json_exact ?r" using filter_class.to_utf8 filter_class.to_exact
    by simp_all (simp add: cstr_def)
  then obtain req where req: "json_dump L Indent_2 ?r = Inr req" "json_parse L req = Inr ?r"
    using dump_parse_obtain [OF assms] by blast
  obtain w2 where asked: "http_make_request L rand st1 w1 = (Inr req, st2, w2)"
    using req(1) by (simp add: http_make_request_def eid2 std_time_def new_filter_def filter_at_def f_def Let_def)
  have "parse_request L req [] (filter_at now) u = (0, (cstr ''subscription_1'',
      \<lparr>f_ids = [eid2], f_authors = [client_pubkey], f_kinds = [1], f_e = [eid2], f_p = [client_pubkey],
       f_since = 0, f_until = now, f_limit = 100\<rparr>), u)"
    using message_head_parse [OF req(2)]
    by (simp add: parse_request_def parsed_def id_and_object_def from_json_filter_js filter_over_def f_def filter_at_def kind_1_def)
  with made read asked hex_string_utf8 [OF eid] hex_string_utf8 [OF s] show ?thesis by (auto simp: ev_def)
qed

theorem http_client_messages_witness:
  "\<exists>json st1 w1 ev. http_make_event sample_json (\<lambda>s k. unat s + k) (1, 0) sample_world = (Inr json, st1, w1)
     \<and> http_event sample_json json = Some ev \<and> length (e_id ev) = 32"
  using http_client_messages [OF sample_json_ok, of "\<lambda>s k. unat s + k" "(1, 0)" sample_world 0 sample_world] by blast

end
