(* ===== verification/Ws_Frames.thy ===== *)
theory Ws_Frames
  imports Proof_Bits
begin

text \<open>
  The frames of the web socket library, \<open>send\<close> of the two classes \<open>Connection\<close> in
  \<open>server_ws.hpp\<close> and \<open>client_ws.hpp\<close> under \<open>src/ext/Simple-WebSocket-Server-v2.0.2\<close>, the
  reading of a length and the queue of frames to send. A \<open>size_t\<close> has 64 bits.

  Shown: the length bytes are read as the length that was written, the mask undoes itself, and
  the queue puts the frames on the wire whole, one after the other and in order, and calls every
  callback once.
\<close>

section \<open>Lengths\<close>

text \<open>The loops that put a length into \<open>num_bytes\<close> bytes and that add it up again.\<close>

definition length_bytes :: "nat \<Rightarrow> u64 \<Rightarrow> byte list" where
  "length_bytes num_bytes len = map (\<lambda>c. ucast (drop_bit (8 * c) len mod 256)) (rev [0..<num_bytes])"

definition read_length :: "nat \<Rightarrow> byte list \<Rightarrow> u64" where
  "read_length num_bytes bs =
     fold (\<lambda>c len. len + push_bit (8 * (num_bytes - 1 - c)) (ucast (bs ! c))) [0..<num_bytes] 0"

text \<open>The bytes behind the first one that tell the length; \<open>mask_bit\<close> is 128 in the client.\<close>

definition length_field :: "byte \<Rightarrow> u64 \<Rightarrow> byte list" where
  "length_field mask_bit len =
     (if 126 \<le> len
      then if 0xffff < len then (127 + mask_bit) # length_bytes 8 len else (126 + mask_bit) # length_bytes 2 len
      else [ucast len + mask_bit])"

section \<open>Frames\<close>

abbreviation byte_size :: "byte list \<Rightarrow> u64" where
  "byte_size bs \<equiv> word_of_nat (length bs)"

text \<open>The bytes are combined with those of the mask \<open>key\<close> in turn.\<close>

definition mask_bytes :: "byte list \<Rightarrow> byte list \<Rightarrow> byte list" where
  "mask_bytes key bs = map (\<lambda>c. bs ! c XOR key ! (c mod 4)) [0..<length bs]"

definition server_frame :: "byte \<Rightarrow> byte list \<Rightarrow> byte list" where
  "server_frame fin_rsv_opcode out_message =
     fin_rsv_opcode # length_field 0 (byte_size out_message) @ out_message"

definition client_frame :: "byte \<Rightarrow> byte list \<Rightarrow> byte list \<Rightarrow> byte list" where
  "client_frame fin_rsv_opcode key out_message =
     fin_rsv_opcode # length_field 128 (byte_size out_message) @ key @ mask_bytes key out_message"

text \<open>The message of \<open>send_close\<close>: two bytes of the status, as C++ divides, and the reason.\<close>

definition close_message :: "int \<Rightarrow> byte list \<Rightarrow> byte list" where
  "close_message status reason = word_of_int (status div 256) # word_of_int (status mod 256) # reason"

text \<open>\<open>get_status\<close> are the two bytes read back as a number.\<close>

definition get_status :: "byte \<Rightarrow> byte \<Rightarrow> int" where
  "get_status byte1 byte2 = 256 * uint byte1 + uint byte2"

section \<open>What is read is what was written\<close>

lemma length_length_bytes [simp]: "length (length_bytes n len) = n"
  by (simp add: length_bytes_def)

lemma be_value_length_bytes: "be_value (length_bytes n len) = unat len mod 256 ^ n"
proof (induction n)
  case (Suc n)
  have "unat (ucast (drop_bit (8 * n) len mod 256) :: byte) = unat len div 256 ^ n mod 256"
    by (simp add: unsigned_ucast_eq take_bit_eq_mod unat_mod_distrib unat_drop_bit_eq drop_bit_nat_def power_mult)
  with Suc show ?case
    by (simp add: length_bytes_def mod_mult2_eq [of _ "256 ^ n" 256] mult.commute [of 256])
qed (simp add: length_bytes_def)

lemma push_bit_byte: "push_bit (8 * k) (ucast (b :: byte)) = (word_of_nat (unat b * 256 ^ k) :: u64)"
  by (simp add: push_bit_eq_mult power_mult)

lemma read_length_be:
  assumes "n = length bs"
  shows "read_length n bs = word_of_nat (be_value bs)"
proof -
  have "fold (\<lambda>c len. len + push_bit (8 * (length bs - 1 - c)) (ucast (bs ! c))) [0..<length bs] acc
        = acc + (word_of_nat (be_value bs) :: u64)" for acc
  proof (induction bs arbitrary: acc)
    case (Cons b bs)
    have "fold (\<lambda>c len. len + push_bit (8 * (length (b # bs) - 1 - c)) (ucast ((b # bs) ! c))) (map Suc [0..<length bs])
            (acc + push_bit (8 * length bs) (ucast b))
          = acc + push_bit (8 * length bs) (ucast b) + (word_of_nat (be_value bs) :: u64)"
      using Cons.IH by (simp add: fold_map comp_def)
    then show ?case
      by (simp add: upt_conv_Cons map_Suc_upt [symmetric] push_bit_byte add.assoc del: upt_Suc)
  qed simp
  then show ?thesis by (simp add: read_length_def assms)
qed

lemma read_length_bytes:
  "read_length 8 (length_bytes 8 len) = len"
  "len \<le> 0xffff \<Longrightarrow> read_length 2 (length_bytes 2 len) = len"
proof -
  have "unat len < 256 ^ 8" using unsigned_less [of len] by simp
  then show "read_length 8 (length_bytes 8 len) = len"
    by (simp add: read_length_be be_value_length_bytes)
  assume "len \<le> 0xffff"
  then have "unat len < 256 ^ 2" by (simp add: word_le_nat_alt)
  then show "read_length 2 (length_bytes 2 len) = len"
    by (simp add: read_length_be be_value_length_bytes)
qed

lemma length_mask_bytes [simp]: "length (mask_bytes key bs) = length bs"
  by (simp add: mask_bytes_def)

lemma mask_bytes_twice [simp]: "mask_bytes key (mask_bytes key bs) = bs"
  by (rule nth_equalityI) (simp_all add: mask_bytes_def xor.assoc)

lemma get_status_close:
  assumes "0 \<le> status" "status < 65536"
  shows "get_status (word_of_int (status div 256)) (word_of_int (status mod 256)) = status"
proof -
  have "status div 256 mod 256 = status div 256" using assms by simp
  then show ?thesis
    by (simp add: get_status_def uint_word_of_int)
qed

section \<open>The queue of frames to send\<close>

text \<open>
  \<open>send_queue\<close> holds the frames with their callbacks, the first of them in a write of the
  operating system; \<open>sq_written\<close> are the bytes handed to such writes and \<open>sq_called\<close> the callbacks
  with the error they were called with. The events are a \<open>send\<close> of the program and the end of a
  write, which there is only while a frame is in the queue.
\<close>

record ('cb, 'ec) send_queue =
  sq_queue :: "(byte list \<times> 'cb) list"
  sq_written :: "byte list list"
  sq_called :: "('cb \<times> 'ec option) list"

datatype ('cb, 'ec) queue_event = Enqueue "byte list" 'cb | Written | Failed 'ec

definition send_from_queue :: "('cb, 'ec) send_queue \<Rightarrow> ('cb, 'ec) send_queue" where
  "send_from_queue q = q\<lparr>sq_written := sq_written q @ [fst (hd (sq_queue q))]\<rparr>"

definition send_enqueue :: "byte list \<Rightarrow> 'cb \<Rightarrow> ('cb, 'ec) send_queue \<Rightarrow> ('cb, 'ec) send_queue" where
  "send_enqueue frame callback q =
     (let q = q\<lparr>sq_queue := sq_queue q @ [(frame, callback)]\<rparr>
      in if length (sq_queue q) = 1 then send_from_queue q else q)"

definition write_done :: "'ec option \<Rightarrow> ('cb, 'ec) send_queue \<Rightarrow> ('cb, 'ec) send_queue" where
  "write_done ec q =
     (case ec of
        None \<Rightarrow>
          (let callback = snd (hd (sq_queue q));
               q = q\<lparr>sq_queue := tl (sq_queue q)\<rparr>;
               q = (if 0 < length (sq_queue q) then send_from_queue q else q)
           in q\<lparr>sq_called := sq_called q @ [(callback, None)]\<rparr>)
      | Some e \<Rightarrow> q\<lparr>sq_queue := [], sq_called := sq_called q @ map (\<lambda>d. (snd d, Some e)) (sq_queue q)\<rparr>)"

fun queue_step :: "('cb, 'ec) queue_event \<Rightarrow> ('cb, 'ec) send_queue \<Rightarrow> ('cb, 'ec) send_queue option" where
  "queue_step (Enqueue frame callback) q = Some (send_enqueue frame callback q)"
| "queue_step Written q = (if sq_queue q = [] then None else Some (write_done None q))"
| "queue_step (Failed e) q = (if sq_queue q = [] then None else Some (write_done (Some e) q))"

fun queue_run :: "('cb, 'ec) queue_event list \<Rightarrow> ('cb, 'ec) send_queue \<Rightarrow> ('cb, 'ec) send_queue option" where
  "queue_run [] q = Some q"
| "queue_run (e # es) q = (case queue_step e q of None \<Rightarrow> None | Some q \<Rightarrow> queue_run es q)"

definition empty_queue :: "('cb, 'ec) send_queue" where
  "empty_queue = \<lparr>sq_queue = [], sq_written = [], sq_called = []\<rparr>"

text \<open>The sends among the events.\<close>

fun enqueued :: "('cb, 'ec) queue_event list \<Rightarrow> (byte list \<times> 'cb) list" where
  "enqueued [] = []"
| "enqueued (Enqueue frame callback # es) = (frame, callback) # enqueued es"
| "enqueued (_ # es) = enqueued es"

text \<open>What is done in a state and what the queue still holds is what was asked for.\<close>

lemma queue_run_callbacks:
  "queue_run es q = Some q' \<Longrightarrow>
     map fst (sq_called q') @ map snd (sq_queue q')
     = map fst (sq_called q) @ map snd (sq_queue q) @ map snd (enqueued es)"
proof (induction es arbitrary: q)
  case (Cons e es)
  then obtain q1 where q1: "queue_step e q = Some q1" "queue_run es q1 = Some q'" by (auto split: option.splits)
  have "map fst (sq_called q1) @ map snd (sq_queue q1)
        = map fst (sq_called q) @ map snd (sq_queue q) @ map snd (enqueued [e])"
    using q1(1) by (cases e; cases "sq_queue q") (auto simp: send_enqueue_def write_done_def send_from_queue_def Let_def comp_def split: if_splits)
  with Cons.IH [OF q1(2)] show ?case by (cases e) auto
qed simp

definition failed :: "('cb, 'ec) queue_event list \<Rightarrow> bool" where
  "failed es \<longleftrightarrow> (\<exists>e. Failed e \<in> set es)"

lemma queue_run_written:
  "queue_run es q = Some q' \<Longrightarrow> \<not> failed es \<Longrightarrow>
     sq_written q' @ map fst (tl (sq_queue q'))
     = sq_written q @ map fst (tl (sq_queue q)) @ map fst (enqueued es)"
proof (induction es arbitrary: q)
  case (Cons e es)
  then obtain q1 where q1: "queue_step e q = Some q1" "queue_run es q1 = Some q'" by (auto split: option.splits)
  have "sq_written q1 @ map fst (tl (sq_queue q1))
        = sq_written q @ map fst (tl (sq_queue q)) @ map fst (enqueued [e])"
    using q1(1) Cons.prems(2)
    by (cases e; cases "sq_queue q"; cases "tl (sq_queue q)")
      (auto simp: failed_def send_enqueue_def write_done_def send_from_queue_def Let_def split: if_splits)
  with Cons.IH [OF q1(2)] Cons.prems(2) show ?case by (cases e) (auto simp: failed_def)
qed simp

text \<open>
  The send queue: whatever the ends of the writes are, the callbacks called and those of the
  frames still in the queue are the callbacks of the sends, each once and in order; and as long as
  no write fails the bytes handed to the system are the frames, whole and in order.
\<close>

theorem send_queue_in_order:
  assumes "queue_run es empty_queue = Some q"
  shows "map fst (sq_called q) @ map snd (sq_queue q) = map snd (enqueued es)
    \<and> (failed es \<or> sq_written q @ map fst (tl (sq_queue q)) = map fst (enqueued es))"
  using queue_run_callbacks [OF assms] queue_run_written [OF assms] by (auto simp: empty_queue_def)

theorem send_queue_in_order_witness:
  "\<exists>q. queue_run [Enqueue [1] ''a'', Enqueue [2] ''b'', Written, Failed (), Enqueue [3] ''c''] empty_queue = Some q
    \<and> map fst (sq_called q) @ map snd (sq_queue q) = [''a'', ''b'', ''c'']"
proof -
  let ?es = "[Enqueue [1] ''a'', Enqueue [2] ''b'', Written, Failed (), Enqueue [3] ''c'']"
  obtain q where "queue_run ?es empty_queue = Some q"
    by (simp add: send_enqueue_def send_from_queue_def write_done_def empty_queue_def)
  with send_queue_in_order [OF this] show ?thesis by simp
qed

end
