(* ===== verification/Ws_Reader.thy ===== *)
theory Ws_Reader
  imports Ws_Frames
begin

text \<open>
  What the readers of \<open>server_ws.hpp\<close> and \<open>client_ws.hpp\<close> under
  \<open>src/ext/Simple-WebSocket-Server-v2.0.2\<close> share: the messages they put together, the fields of
  a connection, the calls of the handlers, and the loop that \<open>read_message\<close> and
  \<open>read_message_content\<close> form by calling each other. The bytes of the peer come in pieces; a
  reader takes a frame when it is there as a whole. What it does before is only to wait, so a
  waiting reader is left in the state in which the frame starts. The time limits, which are off
  unless a program sets them, are not modelled.

  Shown: how the bytes are cut into pieces does not matter, for every such reader.
\<close>

section \<open>Connections\<close>

text \<open>\<open>InMessage\<close>: its first byte, its length and the bytes of its buffer.\<close>

record in_message =
  im_opcode :: byte
  im_length :: u64
  im_buf :: "byte list"

text \<open>
  A connection: the bytes of the peer that are not read yet, \<open>fragmented_in_message\<close>, \<open>closed\<close>
  and the frames given to the queue.
\<close>

record ws_conn =
  w_in :: "byte list"
  w_frag :: "in_message option"
  w_closed :: bool
  w_sent :: "byte list list"

text \<open>
  What the library reports to the handlers; a message is its first byte and its text. A handler
  acts on the state of its program and calls \<open>send\<close> and \<open>send_close\<close> of the connection.
\<close>

datatype ws_failure = Read_failed | Message_size

datatype ws_report =
    Report_open
  | Report_message byte "byte list"
  | Report_close int "byte list"
  | Report_error ws_failure
  | Report_ping
  | Report_pong

datatype ws_call = Call_send byte "byte list" | Call_close int "byte list"

type_synonym 'u ws_handler = "ws_report \<Rightarrow> 'u \<Rightarrow> 'u \<times> ws_call list"

text \<open>A handler that records the reports and sends every message back as text.\<close>

definition echo :: "ws_report list ws_handler" where
  "echo r u = (u @ [r], case r of Report_message op s \<Rightarrow> [Call_send 129 s] | _ \<Rightarrow> [])"

text \<open>\<open>length + fragmented_in_message->length > max_message_size\<close>, a sum of two \<open>size_t\<close>.\<close>

definition too_big :: "u64 \<Rightarrow> in_message option \<Rightarrow> u64 \<Rightarrow> bool" where
  "too_big len frag max_message_size \<longleftrightarrow>
     max_message_size < len + (case frag of None \<Rightarrow> 0 | Some m \<Rightarrow> im_length m)"

text \<open>The status and the reason in a close frame: \<open>get\<close> twice if there are two bytes, \<open>string\<close>.\<close>

definition close_status :: "u64 \<Rightarrow> byte list \<Rightarrow> int \<times> byte list" where
  "close_status len buf =
     (if 2 \<le> len then (get_status (buf ! 0) (buf ! 1), drop 2 buf) else (0, buf))"

text \<open>The first byte of a message in one frame: the final bit is set and it is no control frame.\<close>

definition is_message :: "byte \<Rightarrow> bool" where
  "is_message op \<longleftrightarrow> op AND 0x80 \<noteq> 0 \<and> op AND 0x0f \<notin> {0, 8, 9, 10}"

section \<open>The loop of a reader\<close>

text \<open>
  One frame is read and handled, and then the next one, or the reader ends, or it has to wait for
  bytes. \<open>Overrun\<close> is a read past the end of a stream, which gives no bytes of the peer; it ends the model
  of the connection.
\<close>

datatype progress = Next | Waiting | Finished | Overrun

text \<open>The pieces in which the bytes come; a reader that has ended reads no more.\<close>

fun receive :: "('s \<Rightarrow> progress \<times> 's) \<Rightarrow> (byte list \<Rightarrow> 's \<Rightarrow> 's) \<Rightarrow> byte list list \<Rightarrow> progress \<times> 's \<Rightarrow> progress \<times> 's" where
  "receive run feed [] r = r"
| "receive run feed (piece # pieces) (p, s) =
     receive run feed pieces (if p = Waiting then run (feed piece s) else (p, feed piece s))"

locale stream_reader =
  fixes step :: "'s \<Rightarrow> (progress \<times> 's) option"
    and feed :: "byte list \<Rightarrow> 's \<Rightarrow> 's"
    and run :: "'s \<Rightarrow> progress \<times> 's"
    and pending :: "'s \<Rightarrow> nat"
  assumes run_unfold: "run s = (case step s of None \<Rightarrow> (Waiting, s) | Some (p, s') \<Rightarrow> if p = Next then run s' else (p, s'))"
    and step_decreases: "step s = Some (Next, s') \<Longrightarrow> pending s' < pending s"
    and step_feed: "step s = Some (p, s') \<Longrightarrow> step (feed bs s) = Some (p, feed bs s')"
    and step_not_waiting: "step s \<noteq> Some (Waiting, s')"
    and feed_nil: "feed [] s = s"
    and feed_append: "feed b (feed a s) = feed (a @ b) s"
begin

lemma run_step: "step s = Some (Next, s') \<Longrightarrow> run s = run s'"
  using run_unfold [of s] by simp

lemma run_end: "step s = Some (p, s') \<Longrightarrow> p \<noteq> Next \<Longrightarrow> run s = (p, s')"
  using run_unfold [of s] by simp

lemma run_wait: "step s = None \<Longrightarrow> run s = (Waiting, s)"
  using run_unfold [of s] by simp

lemma run_feed:
  "run (feed bs s) = (case run s of (p, s') \<Rightarrow> if p = Waiting then run (feed bs s') else (p, feed bs s'))"
proof (induction "pending s" arbitrary: s rule: less_induct)
  case less
  show ?case
  proof (cases "step s")
    case None
    then show ?thesis by (simp add: run_wait)
  next
    case (Some r)
    obtain p s' where r: "r = (p, s')" by fastforce
    show ?thesis
    proof (cases "p = Next")
      case True
      with Some r have s: "step s = Some (Next, s')" by simp
      show ?thesis using less [OF step_decreases [OF s]] run_step [OF s] run_step [OF step_feed [OF s]] by simp
    next
      case False
      with Some r show ?thesis
        using run_end [of s p s'] run_end [OF step_feed [of s p s' bs]] step_not_waiting by auto
    qed
  qed
qed

lemma run_not_next: "fst (run s) \<noteq> Next"
proof (induction "pending s" arbitrary: s rule: less_induct)
  case less
  show ?case
    using less step_decreases by (subst run_unfold) (auto split: option.split)
qed

lemma receive_run: "receive run feed pieces (run s) = run (feed (concat pieces) s)"
proof (induction pieces arbitrary: s)
  case (Cons piece pieces)
  have "(case run s of (p, s') \<Rightarrow> if p = Waiting then run (feed piece s') else (p, feed piece s')) = run (feed piece s)"
    by (simp add: run_feed)
  with Cons.IH [of "feed piece s"] show ?case by (simp add: feed_append split: prod.split_asm)
qed (simp add: feed_nil)

end

end
