(* ===== verification/Ws_Server.thy ===== *)
theory Ws_Server
  imports Ws_Reader
begin

text \<open>
  The server end of a web socket connection after its handshake: \<open>SocketServerBase\<close> of
  \<open>src/ext/Simple-WebSocket-Server-v2.0.2/server_ws.hpp\<close>. \<open>asio::async_read\<close> takes bytes of the
  peer into the buffer of the connection, an \<open>istream\<close> takes them out of it. \<open>s_open\<close> says whether
  the connection is among those of the endpoint.

  Shown: frames of a client, wherever the network cuts them, are handled one by one in order with
  the payload that was masked; fragments are joined; at most one close frame is sent by the
  library and nothing is handled after the connection has ended; the length check and the sum
  \<open>4 + length\<close> wrap around.
\<close>

section \<open>The connection\<close>

record server_conn = ws_conn +
  s_buf :: "byte list"
  s_open :: bool

definition server_send :: "byte \<Rightarrow> byte list \<Rightarrow> server_conn \<Rightarrow> server_conn" where
  "server_send fin_rsv_opcode out_message c = c\<lparr>w_sent := w_sent c @ [server_frame fin_rsv_opcode out_message]\<rparr>"

definition server_send_close :: "int \<Rightarrow> byte list \<Rightarrow> server_conn \<Rightarrow> server_conn" where
  "server_send_close status reason c =
     (if w_closed c then c else server_send 136 (close_message status reason) (c\<lparr>w_closed := True\<rparr>))"

primrec server_call :: "ws_call \<Rightarrow> server_conn \<Rightarrow> server_conn" where
  "server_call (Call_send fin_rsv_opcode s) c = server_send fin_rsv_opcode s c"
| "server_call (Call_close status reason) c = server_send_close status reason c"

type_synonym 'u server_state = "'u \<times> server_conn"

definition server_report :: "'u ws_handler \<Rightarrow> ws_report \<Rightarrow> 'u server_state \<Rightarrow> 'u server_state" where
  "server_report h r s = (case h r (fst s) of (u, calls) \<Rightarrow> (u, fold server_call calls (snd s)))"

definition connection_open :: "'u ws_handler \<Rightarrow> 'u server_state \<Rightarrow> 'u server_state" where
  "connection_open h s = server_report h Report_open (fst s, (snd s)\<lparr>s_open := True\<rparr>)"

definition connection_close :: "'u ws_handler \<Rightarrow> int \<Rightarrow> byte list \<Rightarrow> 'u server_state \<Rightarrow> 'u server_state" where
  "connection_close h status reason s = server_report h (Report_close status reason) (fst s, (snd s)\<lparr>s_open := False\<rparr>)"

definition connection_error :: "'u ws_handler \<Rightarrow> ws_failure \<Rightarrow> 'u server_state \<Rightarrow> 'u server_state" where
  "connection_error h ec s = server_report h (Report_error ec) (fst s, (snd s)\<lparr>s_open := False\<rparr>)"

section \<open>Reading\<close>

text \<open>\<open>async_read\<close> with \<open>transfer_exactly\<close>, \<open>None\<close> while the bytes are not there, and \<open>istream::read\<close>.\<close>

definition async_read :: "u64 \<Rightarrow> server_conn \<Rightarrow> server_conn option" where
  "async_read n c =
     (if unat n \<le> length (w_in c)
      then Some (c\<lparr>s_buf := s_buf c @ take (unat n) (w_in c), w_in := drop (unat n) (w_in c)\<rparr>) else None)"

definition get_bytes :: "nat \<Rightarrow> server_conn \<Rightarrow> byte list \<times> server_conn" where
  "get_bytes n c = (take n (s_buf c), c\<lparr>s_buf := drop n (s_buf c)\<rparr>)"

definition read_bytes :: "nat \<Rightarrow> server_conn \<Rightarrow> (byte list \<times> server_conn) option" where
  "read_bytes n c = (case async_read (word_of_nat n) c of None \<Rightarrow> None | Some c \<Rightarrow> Some (get_bytes n c))"

text \<open>The message the payload goes to: a new one, or the one whose fragments are collected.\<close>

definition frame_message :: "byte \<Rightarrow> u64 \<Rightarrow> byte list \<Rightarrow> server_conn \<Rightarrow> in_message \<times> server_conn" where
  "frame_message fin_rsv_opcode len payload c =
     (if fin_rsv_opcode AND 0x80 = 0 \<or> fin_rsv_opcode AND 0x0f = 0
      then (let m = (case w_frag c of
                       None \<Rightarrow> \<lparr>im_opcode = fin_rsv_opcode OR 0x80, im_length = len, im_buf = payload\<rparr>
                     | Some m \<Rightarrow> m\<lparr>im_length := im_length m + len, im_buf := im_buf m @ payload\<rparr>)
            in (m, c\<lparr>w_frag := Some m\<rparr>))
      else (\<lparr>im_opcode = fin_rsv_opcode, im_length = len, im_buf = payload\<rparr>, c))"

definition server_dispatch ::
    "'u ws_handler \<Rightarrow> byte \<Rightarrow> u64 \<Rightarrow> byte list \<Rightarrow> 'u server_state \<Rightarrow> progress \<times> 'u server_state" where
  "server_dispatch h fin_rsv_opcode len payload s =
     (case frame_message fin_rsv_opcode len payload (snd s) of (in_message, c) \<Rightarrow>
        if fin_rsv_opcode AND 0x0f = 8 then
          (case close_status len (im_buf in_message) of (status, reason) \<Rightarrow>
             (Finished, connection_close h status reason (fst s, server_send_close status reason c)))
        else if fin_rsv_opcode AND 0x0f = 9 then
          (Next, server_report h Report_ping (fst s, server_send (fin_rsv_opcode + 1) (im_buf in_message) c))
        else if fin_rsv_opcode AND 0x0f = 10 then (Next, server_report h Report_pong (fst s, c))
        else if fin_rsv_opcode AND 0x80 = 0 then (Next, (fst s, c))
        else (case server_report h (Report_message (im_opcode in_message) (im_buf in_message)) (fst s, c) of
                (u, c) \<Rightarrow> (Next, (u, c\<lparr>w_frag := None\<rparr>))))"

definition read_message_content ::
    "'u ws_handler \<Rightarrow> u64 \<Rightarrow> u64 \<Rightarrow> byte \<Rightarrow> 'u server_state \<Rightarrow> (progress \<times> 'u server_state) option" where
  "read_message_content h max_message_size len fin_rsv_opcode s =
     (if too_big len (w_frag (snd s)) max_message_size
      then (let reason = cstr ''message too big'';
                s = connection_error h Message_size s
            in Some (Finished, connection_close h 1009 reason (fst s, server_send_close 1009 reason (snd s))))
      else (case async_read (4 + len) (snd s) of
              None \<Rightarrow> None
            | Some c \<Rightarrow>
                if length (s_buf c) < 4 + unat len then Some (Overrun, (fst s, c))
                else (case get_bytes 4 c of (key, c) \<Rightarrow>
                      case get_bytes (unat len) c of (masked, c) \<Rightarrow>
                        Some (server_dispatch h fin_rsv_opcode len (mask_bytes key masked) (fst s, c)))))"

definition read_message ::
    "'u ws_handler \<Rightarrow> u64 \<Rightarrow> 'u server_state \<Rightarrow> (progress \<times> 'u server_state) option" where
  "read_message h max_message_size s =
     (case read_bytes 2 (snd s) of
        None \<Rightarrow> None
      | Some (first_bytes, c) \<Rightarrow>
          (let fin_rsv_opcode = first_bytes ! 0 in
           if first_bytes ! 1 < 128
           then (let reason = cstr ''message from client not masked''
                 in Some (Finished, connection_close h 1002 reason (fst s, server_send_close 1002 reason c)))
           else (let len = ucast (first_bytes ! 1 AND 127) in
                 if len = 126 then
                   (case read_bytes 2 c of
                      None \<Rightarrow> None
                    | Some (bs, c) \<Rightarrow> read_message_content h max_message_size (read_length 2 bs) fin_rsv_opcode (fst s, c))
                 else if len = 127 then
                   (case read_bytes 8 c of
                      None \<Rightarrow> None
                    | Some (bs, c) \<Rightarrow> read_message_content h max_message_size (read_length 8 bs) fin_rsv_opcode (fst s, c))
                 else read_message_content h max_message_size len fin_rsv_opcode (fst s, c))))"

text \<open>More bytes of the peer, and its end, which ends a read that waits.\<close>

definition server_feed :: "byte list \<Rightarrow> 'u server_state \<Rightarrow> 'u server_state" where
  "server_feed bs s = (fst s, (snd s)\<lparr>w_in := w_in (snd s) @ bs\<rparr>)"

definition server_end_of_stream :: "'u ws_handler \<Rightarrow> progress \<times> 'u server_state \<Rightarrow> progress \<times> 'u server_state" where
  "server_end_of_stream h r = (case r of (p, s) \<Rightarrow> if p = Waiting then (Finished, connection_error h Read_failed s) else r)"

section \<open>Reading consumes bytes\<close>

named_theorems server_in

lemma server_call_in [server_in]: "w_in (server_call a c) = w_in c"
  by (cases a) (simp_all add: server_send_close_def server_send_def)

lemma server_calls_in [server_in]: "w_in (fold server_call as c) = w_in c"
  by (induction as arbitrary: c) (simp_all add: server_in)

lemma server_report_in [server_in]: "w_in (snd (server_report h r s)) = w_in (snd s)"
  by (simp add: server_report_def server_in split: prod.split)

lemma server_dispatch_in [server_in]: "w_in (snd (snd (server_dispatch h f len p s))) = w_in (snd s)"
proof -
  have "w_in (snd (frame_message f len p c)) = w_in c" for c
    by (simp add: frame_message_def Let_def)
  moreover have "w_in (server_send_close st r c) = w_in c" "w_in (server_send b q c) = w_in c" for st r b q c
    by (simp_all add: server_send_close_def server_send_def)
  moreover have "w_in c' = w_in (snd s')" if "server_report h r s' = (u, c')" for r s' u c'
    using server_report_in [of h r s'] that by simp
  ultimately show ?thesis
    by (auto simp: server_dispatch_def connection_close_def server_in split: prod.split)
      (metis snd_conv)+
qed

lemma async_read_in: "async_read n c = Some c' \<Longrightarrow> length (w_in c) = unat n + length (w_in c')"
  by (auto simp: async_read_def split: if_splits)

lemma get_bytes_in [server_in]: "get_bytes n c = (bs, c') \<Longrightarrow> w_in c' = w_in c"
  by (auto simp: get_bytes_def)

lemma read_bytes_in:
  "read_bytes n c = Some (bs, c') \<Longrightarrow> n < 2 ^ 64 \<Longrightarrow> length (w_in c) = n + length (w_in c')"
  by (auto simp: read_bytes_def unsigned_of_nat take_bit_nat_eq_self dest!: async_read_in get_bytes_in split: option.splits)

lemma server_send_in [server_in]:
  "w_in (server_send op msg c) = w_in c" "w_in (server_send_close status reason c) = w_in c"
  by (simp_all add: server_send_close_def server_send_def)

lemma read_message_content_in:
  assumes "read_message_content h mx len op s = Some (p, s')"
  shows "length (w_in (snd s')) \<le> length (w_in (snd s))"
proof (cases "too_big len (w_frag (snd s)) mx")
  case True
  with assms show ?thesis
    by (auto simp: read_message_content_def connection_close_def connection_error_def Let_def server_in)
next
  case False
  with assms obtain c where c: "async_read (4 + len) (snd s) = Some c"
    by (auto simp: read_message_content_def split: option.splits)
  show ?thesis
  proof (cases "length (s_buf c) < 4 + unat len")
    case True
    with assms False c async_read_in [OF c] show ?thesis by (auto simp: read_message_content_def)
  next
    case False': False
    with assms False c have
      "(p, s') = server_dispatch h op len (mask_bytes (take 4 (s_buf c)) (take (unat len) (drop 4 (s_buf c))))
                   (fst s, c\<lparr>s_buf := drop (unat len) (drop 4 (s_buf c))\<rparr>)"
      by (simp add: read_message_content_def get_bytes_def)
    from arg_cong [OF this, where f = "\<lambda>x. w_in (snd (snd x))"] have "w_in (snd s') = w_in c"
      by (simp only: server_dispatch_in snd_conv) simp
    with async_read_in [OF c] show ?thesis by simp
  qed
qed

lemma read_message_in:
  assumes "read_message h mx s = Some (p, s')"
  shows "length (w_in (snd s')) < length (w_in (snd s))"
proof -
  obtain bs c where c: "read_bytes 2 (snd s) = Some (bs, c)"
    using assms by (auto simp: read_message_def split: option.splits)
  have content: "length (w_in (snd s')) \<le> length (w_in c')"
    if "read_message_content h mx len op (u, c') = Some (p, s')" for len op u c'
    using read_message_content_in [OF that] by simp
  have "length (w_in (snd s')) \<le> length (w_in c)"
    using assms c
    by (auto simp: read_message_def connection_close_def Let_def server_in dest!: content read_bytes_in
        split: if_splits option.splits)
  with read_bytes_in [OF c] show ?thesis by simp
qed

function server_run :: "'u ws_handler \<Rightarrow> u64 \<Rightarrow> 'u server_state \<Rightarrow> progress \<times> 'u server_state" where
  "server_run h max_message_size s =
     (case read_message h max_message_size s of
        None \<Rightarrow> (Waiting, s)
      | Some (p, s') \<Rightarrow> if p = Next then server_run h max_message_size s' else (p, s'))"
  by pat_completeness auto
termination
  by (relation "measure (\<lambda>(h, mx, s). length (w_in (snd s)))") (auto dest: read_message_in)

declare server_run.simps [simp del]

section \<open>The network may cut the bytes anywhere\<close>

named_theorems server_fed

lemma server_call_feed [server_fed]:
  "server_call a (c\<lparr>w_in := x\<rparr>) = (server_call a c)\<lparr>w_in := x\<rparr>"
  by (cases a) (simp_all add: server_send_close_def server_send_def)

lemma server_calls_feed [server_fed]:
  "fold server_call as (c\<lparr>w_in := x\<rparr>) = (fold server_call as c)\<lparr>w_in := x\<rparr>"
  by (induction as arbitrary: c) (simp_all add: server_fed)

lemma server_report_feed [server_fed]:
  "server_report h r (u, c\<lparr>w_in := x\<rparr>) = (case server_report h r (u, c) of (u, c) \<Rightarrow> (u, c\<lparr>w_in := x\<rparr>))"
  by (simp add: server_report_def server_fed split: prod.split)

lemma server_conn_updates:
  fixes c :: server_conn
  shows "c\<lparr>w_in := x, s_open := b\<rparr> = c\<lparr>s_open := b, w_in := x\<rparr>"
    "c\<lparr>w_in := x, w_frag := m\<rparr> = c\<lparr>w_frag := m, w_in := x\<rparr>"
    "c\<lparr>w_in := x, s_buf := b'\<rparr> = c\<lparr>s_buf := b', w_in := x\<rparr>"
  by simp_all

lemma server_send_feed [server_fed]:
  "server_send op msg (c\<lparr>w_in := x\<rparr>) = (server_send op msg c)\<lparr>w_in := x\<rparr>"
  "server_send_close status reason (c\<lparr>w_in := x\<rparr>) = (server_send_close status reason c)\<lparr>w_in := x\<rparr>"
  by (simp_all add: server_send_close_def server_send_def)

lemma frame_message_feed [server_fed]:
  "frame_message op len p (c\<lparr>w_in := x\<rparr>) = (case frame_message op len p c of (m, c) \<Rightarrow> (m, c\<lparr>w_in := x\<rparr>))"
  by (simp add: frame_message_def Let_def)

lemma server_dispatch_feed [server_fed]:
  "server_dispatch h op len p (u, c\<lparr>w_in := x\<rparr>) =
     (case server_dispatch h op len p (u, c) of (r, u, c) \<Rightarrow> (r, u, c\<lparr>w_in := x\<rparr>))"
  by (auto simp: server_dispatch_def connection_close_def server_fed server_conn_updates split: prod.split)

lemma async_read_feed:
  "async_read n c = Some c' \<Longrightarrow> async_read n (c\<lparr>w_in := w_in c @ bs\<rparr>) = Some (c'\<lparr>w_in := w_in c' @ bs\<rparr>)"
  by (auto simp: async_read_def split: if_splits)

lemma read_bytes_feed:
  "read_bytes n c = Some (b, c') \<Longrightarrow> read_bytes n (c\<lparr>w_in := w_in c @ bs\<rparr>) = Some (b, c'\<lparr>w_in := w_in c' @ bs\<rparr>)"
  by (auto simp: read_bytes_def async_read_def get_bytes_def split: if_splits)

lemma server_feed_pair: "server_feed bs (u, c) = (u, c\<lparr>w_in := w_in c @ bs\<rparr>)"
  by (simp add: server_feed_def)

lemma server_dispatch_fed:
  "server_dispatch h op len p (server_feed bs s) = (case server_dispatch h op len p s of (r, s) \<Rightarrow> (r, server_feed bs s))"
  using server_dispatch_in [of h op len p s] by (cases s) (auto simp: server_feed_pair server_fed split: prod.split)

lemma server_report_fed: "server_report h r (server_feed bs s) = server_feed bs (server_report h r s)"
  using server_report_in [of h r s] by (cases s) (auto simp: server_feed_pair server_fed split: prod.split)

lemma connection_fed:
  "connection_close h status reason (server_feed bs s) = server_feed bs (connection_close h status reason s)"
  "connection_error h ec (server_feed bs s) = server_feed bs (connection_error h ec s)"
  using server_report_fed [of h _ bs "(fst s, (snd s)\<lparr>s_open := False\<rparr>)"]
  by (simp_all add: connection_close_def connection_error_def server_feed_def server_conn_updates)

lemma send_close_fed:
  "(fst (server_feed bs s), server_send_close status reason (snd (server_feed bs s)))
     = server_feed bs (fst s, server_send_close status reason (snd s))"
  by (simp add: server_feed_def server_fed server_in)

lemma read_message_content_feed:
  assumes "read_message_content h mx len op s = Some (p, s')"
  shows "read_message_content h mx len op (server_feed bs s) = Some (p, server_feed bs s')"
proof (cases s)
  case s: (Pair u c)
  show ?thesis
  proof (cases "too_big len (w_frag c) mx")
    case True
    have "w_frag (snd (server_feed bs s)) = w_frag c" by (simp add: server_feed_def s)
    with True assms s show ?thesis
      by (auto simp: read_message_content_def Let_def connection_fed send_close_fed)
  next
    case False
    with assms s obtain c1 where c1: "async_read (4 + len) c = Some c1"
      by (auto simp: read_message_content_def split: option.splits)
    note c1' = async_read_feed [OF c1, of bs]
    show ?thesis
    proof (cases "length (s_buf c1) < 4 + unat len")
      case True
      with assms False s c1 c1' show ?thesis by (auto simp: read_message_content_def server_feed_pair)
    next
      case False': False
      let ?d = "server_dispatch h op len (mask_bytes (take 4 (s_buf c1)) (take (unat len) (drop 4 (s_buf c1))))"
      let ?c = "c1\<lparr>s_buf := drop (unat len) (drop 4 (s_buf c1))\<rparr>"
      have "?d (u, ?c) = (p, s')" using assms False s c1 False' by (simp add: read_message_content_def get_bytes_def)
      then have "?d (server_feed bs (u, ?c)) = (p, server_feed bs s')" by (simp add: server_dispatch_fed)
      then show ?thesis using False s c1' False'
        by (simp add: read_message_content_def get_bytes_def server_feed_pair server_conn_updates)
    qed
  qed
qed

lemma read_message_feed:
  assumes "read_message h mx s = Some (p, s')"
  shows "read_message h mx (server_feed bs s) = Some (p, server_feed bs s')"
proof -
  obtain u c where s: "s = (u, c)" by fastforce
  obtain b c1 where c1: "read_bytes 2 c = Some (b, c1)" using assms s by (auto simp: read_message_def split: option.splits)
  note c1' = read_bytes_feed [OF c1, of bs]
  have content: "read_message_content h mx len op (u, c'\<lparr>w_in := w_in c' @ bs\<rparr>) = Some (p, server_feed bs s')"
    if "read_message_content h mx len op (u, c') = Some (p, s')" for len op c'
    using read_message_content_feed [OF that, of bs] by (simp add: server_feed_pair)
  show ?thesis
  proof (cases "b ! 1 < 128")
    case True
    then have "(p, s') = (Finished, connection_close h 1002 (cstr ''message from client not masked'')
        (u, server_send_close 1002 (cstr ''message from client not masked'') c1))"
      using assms s c1 by (simp add: read_message_def Let_def)
    then show ?thesis
      using True s read_bytes_feed [OF c1, of bs] send_close_fed [of bs "(u, c1)" 1002]
        connection_fed(1) [of h 1002 _ bs "(u, server_send_close 1002 r c1)" for r, unfolded server_feed_pair]
      by (simp add: read_message_def Let_def server_feed_pair)
  next
    case False
    let ?op = "b ! 0"
    consider (two) "ucast (b ! 1 AND 127) = (126 :: u64)" | (eight) "ucast (b ! 1 AND 127) = (127 :: u64)"
      | (direct) "ucast (b ! 1 AND 127) \<noteq> (126 :: u64)" "ucast (b ! 1 AND 127) \<noteq> (127 :: u64)" by blast
    then show ?thesis
    proof cases
      case two
      then obtain l c2 where c2: "read_bytes 2 c1 = Some (l, c2)"
          "read_message_content h mx (read_length 2 l) ?op (u, c2) = Some (p, s')"
        using False assms s c1 by (auto simp: read_message_def Let_def split: option.splits)
      show ?thesis using two False s c1' read_bytes_feed [OF c2(1), of bs] content [OF c2(2)]
        by (simp add: read_message_def Let_def server_feed_pair)
    next
      case eight
      then obtain l c2 where c2: "read_bytes 8 c1 = Some (l, c2)"
          "read_message_content h mx (read_length 8 l) ?op (u, c2) = Some (p, s')"
        using False assms s c1 by (auto simp: read_message_def Let_def split: option.splits)
      show ?thesis using eight False s c1' read_bytes_feed [OF c2(1), of bs] content [OF c2(2)]
        by (simp add: read_message_def Let_def server_feed_pair)
    next
      case direct
      then have "read_message_content h mx (ucast (b ! 1 AND 127)) ?op (u, c1) = Some (p, s')"
        using False assms s c1 by (simp add: read_message_def Let_def)
      from content [OF this] direct False s c1' show ?thesis
        by (simp add: read_message_def Let_def server_feed_pair)
    qed
  qed
qed

lemma server_dispatch_not_waiting: "fst (server_dispatch h op len p s) \<in> {Next, Finished}"
  by (simp add: server_dispatch_def split: prod.split)

lemma read_message_not_waiting: "read_message h mx s \<noteq> Some (Waiting, s')"
proof -
  have "server_dispatch h op len p t \<noteq> (Waiting, s')" for op len p t
    using server_dispatch_not_waiting [of h op len p t] by auto
  then have "read_message_content h mx len op t \<noteq> Some (Waiting, s')" for len op t
    by (simp add: read_message_content_def Let_def split: option.split prod.split)
  then show ?thesis
    by (simp add: read_message_def Let_def split: option.split prod.split)
qed

interpretation server_reader:
  stream_reader "read_message h mx" server_feed "server_run h mx" "\<lambda>s. length (w_in (snd s))" for h mx
proof unfold_locales
  fix s s' :: "'u server_state" and p bs
  show "server_run h mx s = (case read_message h mx s of None \<Rightarrow> (Waiting, s)
      | Some (p, s') \<Rightarrow> if p = Next then server_run h mx s' else (p, s'))" for h :: "'u ws_handler"
    by (rule server_run.simps)
  show "length (w_in (snd s')) < length (w_in (snd s))" if "read_message h mx s = Some (Next, s')" for h
    using that by (rule read_message_in)
  show "read_message h mx (server_feed bs s) = Some (p, server_feed bs s')" if "read_message h mx s = Some (p, s')" for h
    using that by (rule read_message_feed)
  show "read_message h mx s \<noteq> Some (Waiting, s')" for h by (rule read_message_not_waiting)
  show "server_feed [] s = s" "server_feed b (server_feed a s) = server_feed (a @ b) s" for a b
    by (simp_all add: server_feed_def)
qed

section \<open>Frames of a client\<close>

lemma server_buf_nil [simp]: "s_buf c = [] \<Longrightarrow> c\<lparr>s_buf := []\<rparr> = c"
  by (cases c) simp

lemma read_bytes_append:
  assumes "s_buf c = []" "w_in c = bs @ rest" "n = length bs" "n < 2 ^ 64"
  shows "read_bytes n c = Some (bs, c\<lparr>w_in := rest\<rparr>)"
  using assms by (simp add: read_bytes_def async_read_def get_bytes_def unsigned_of_nat take_bit_nat_eq_self)

lemma read_content_frame:
  assumes "s_buf c = []" "w_in c = key @ mask_bytes key p @ rest" "length key = 4" "length p < 2 ^ 64 - 4"
    and "\<not> too_big (byte_size p) (w_frag c) mx"
  shows "read_message_content h mx (byte_size p) op (u, c) = Some (server_dispatch h op (byte_size p) p (u, c\<lparr>w_in := rest\<rparr>))"
proof -
  have "unat (4 + byte_size p) = unat (word_of_nat (4 + length p) :: u64)" by simp
  also have "\<dots> = 4 + length p" using assms(4) by (simp only: unsigned_of_nat) (simp add: take_bit_nat_eq_self)
  finally have len: "unat (4 + byte_size p) = 4 + length p" "unat (byte_size p) = length p"
    using assms(4) by (simp_all add: unsigned_of_nat take_bit_nat_eq_self)
  show ?thesis
    using assms(1,2,3,5) by (simp add: read_message_content_def async_read_def get_bytes_def len)
qed

lemma length_field_small:
  assumes "\<not> 126 \<le> (len :: u64)"
  shows "\<not> (ucast len + 128 :: byte) < 128" "ucast ((ucast len + 128 :: byte) AND 127) = len"
proof -
  have "unat len < 126" using assms by (simp add: word_le_nat_alt)
  then have "unat len \<in> set [0..<126]" by simp
  then have "word_of_nat (unat len) \<in> (word_of_nat :: nat \<Rightarrow> u64) ` set [0..<126]" by (rule imageI)
  then have "len \<in> word_of_nat ` set [0..<126]" by simp
  then have "\<not> (ucast len + 128 :: byte) < 128 \<and> ucast ((ucast len + 128 :: byte) AND 127) = len"
    by (simp add: upt_rec) (elim disjE; simp)
  then show "\<not> (ucast len + 128 :: byte) < 128" "ucast ((ucast len + 128 :: byte) AND 127) = len" by simp_all
qed

lemma read_client_header:
  assumes c: "s_buf c = []" "w_in c = op # length_field 128 len @ rest"
  shows "read_message h mx (u, c) = read_message_content h mx len op (u, c\<lparr>w_in := rest\<rparr>)"
proof (cases "126 \<le> len")
  case False
  with c have "w_in c = [op, ucast len + 128] @ rest" by (simp add: length_field_def)
  from read_bytes_append [OF c(1) this, of 2] False length_field_small [OF False] show ?thesis
    by (auto simp: read_message_def Let_def)
next
  case True
  show ?thesis
  proof (cases "0xffff < len")
    case long: True
    with c True have "w_in c = [op, 255] @ length_bytes 8 len @ rest" by (simp add: length_field_def)
    from read_bytes_append [OF c(1) this, of 2] c(1)
      read_bytes_append [of "c\<lparr>w_in := length_bytes 8 len @ rest\<rparr>" "length_bytes 8 len" _ 8]
    show ?thesis by (simp add: read_message_def Let_def read_length_bytes(1))
  next
    case short: False
    with c True have "w_in c = [op, 254] @ length_bytes 2 len @ rest" by (simp add: length_field_def)
    from read_bytes_append [OF c(1) this, of 2] c(1) read_length_bytes(2) [of len] short
      read_bytes_append [of "c\<lparr>w_in := length_bytes 2 len @ rest\<rparr>" "length_bytes 2 len" _ 2]
    show ?thesis by (simp add: read_message_def Let_def linorder_not_less)
  qed
qed

lemma read_client_frame:
  assumes c: "s_buf c = []" "w_in c = client_frame op key p @ rest" and key: "length key = 4"
    and len: "length p < 2 ^ 64 - 4" and big: "\<not> too_big (byte_size p) (w_frag c) mx"
  shows "read_message h mx (u, c) = Some (server_dispatch h op (byte_size p) p (u, c\<lparr>w_in := rest\<rparr>))"
proof -
  have "w_in c = op # length_field 128 (byte_size p) @ key @ mask_bytes key p @ rest"
    using c(2) by (simp add: client_frame_def)
  from read_client_header [OF c(1) this, of h mx u] show ?thesis
    using read_content_frame [of "c\<lparr>w_in := key @ mask_bytes key p @ rest\<rparr>" key p rest mx h op u] c(1) key len big by simp
qed

section \<open>What the handlers are told\<close>

lemma server_call_frag: "w_frag (server_call a c) = w_frag c" "s_buf (server_call a c) = s_buf c"
  by (cases a; simp add: server_send_close_def server_send_def)+

lemma server_report_frag [simp]:
  "w_frag (snd (server_report h r s)) = w_frag (snd s)" "s_buf (snd (server_report h r s)) = s_buf (snd s)"
proof -
  have "w_frag (fold server_call as c) = w_frag c \<and> s_buf (fold server_call as c) = s_buf c" for as c
    by (induction as arbitrary: c) (simp_all add: server_call_frag)
  then show "w_frag (snd (server_report h r s)) = w_frag (snd s)" "s_buf (snd (server_report h r s)) = s_buf (snd s)"
    by (simp_all add: server_report_def split: prod.split)
qed

lemma too_big_default: "\<not> too_big len frag (- 1)"
  by (simp add: too_big_def not_less)

text \<open>A sequence of frames that do not close the connection.\<close>

type_synonym frame = "byte \<times> byte list \<times> byte list"

definition sent_frame :: "frame \<Rightarrow> byte list" where
  "sent_frame f = (case f of (op, key, p) \<Rightarrow> client_frame op key p)"

definition good_frame :: "frame \<Rightarrow> bool" where
  "good_frame f = (case f of (op, key, p) \<Rightarrow> length key = 4 \<and> length p < 2 ^ 64 - 4 \<and> op AND 0x0f \<noteq> 8)"

definition frame_effect :: "'u ws_handler \<Rightarrow> frame \<Rightarrow> 'u server_state \<Rightarrow> 'u server_state" where
  "frame_effect h f s = (case f of (op, key, p) \<Rightarrow> snd (server_dispatch h op (byte_size p) p s))"

lemma frame_effect_fed: "frame_effect h f (server_feed bs s) = server_feed bs (frame_effect h f s)"
  by (simp add: frame_effect_def server_dispatch_fed split: prod.split)

lemma frame_effect_buf: "s_buf (snd (frame_effect h f s)) = s_buf (snd s)"
proof -
  have "s_buf (snd (frame_message op len p c)) = s_buf c" for op len p c
    by (simp add: frame_message_def Let_def)
  then show ?thesis
    by (auto simp: frame_effect_def server_dispatch_def connection_close_def server_send_close_def server_send_def
        split: prod.split) (metis server_report_frag(2) snd_conv)+
qed

lemma read_good_frame:
  assumes "s_buf (snd s) = []" "w_in (snd s) = []" "good_frame f"
  shows "read_message h (- 1) (server_feed (sent_frame f @ rest) s) = Some (Next, server_feed rest (frame_effect h f s))"
proof -
  obtain op key p where f: "f = (op, key, p)" by (cases f) auto
  have "fst (server_dispatch h op (byte_size p) p s) = Next"
    using assms(3) by (simp add: f good_frame_def server_dispatch_def split: prod.split)
  then have "server_dispatch h op (byte_size p) p (server_feed rest s) = (Next, server_feed rest (frame_effect h f s))"
    by (cases "server_dispatch h op (byte_size p) p s") (simp add: server_dispatch_fed frame_effect_def f)
  then show ?thesis
    using read_client_frame [of "(snd s)\<lparr>w_in := sent_frame f @ rest\<rparr>" op key p rest "- 1" h "fst s"] assms
    by (simp add: f sent_frame_def good_frame_def too_big_default server_feed_def)
qed

lemma server_run_frames:
  assumes "s_buf (snd s) = []" "w_in (snd s) = []" "list_all good_frame fs"
  shows "server_run h (- 1) (server_feed (concat (map sent_frame fs)) s) = (Waiting, fold (frame_effect h) fs s)"
  using assms
proof (induction fs arbitrary: s)
  case Nil
  then have "read_message h (- 1) s = None" by (simp add: read_message_def read_bytes_def async_read_def)
  with server_reader.feed_nil server_reader.run_wait [of h "- 1" s] show ?case by (simp add: server_reader.run_wait server_reader.feed_nil)
next
  case (Cons f fs)
  let ?s = "frame_effect h f s"
  have "w_in (snd ?s) = []" using Cons.prems(2) by (simp add: frame_effect_def server_dispatch_in split: prod.split)
  moreover have "s_buf (snd ?s) = []" using Cons.prems(1) by (simp add: frame_effect_buf)
  moreover have "read_message h (- 1) (server_feed (concat (map sent_frame (f # fs))) s)
      = Some (Next, server_feed (concat (map sent_frame fs)) ?s)"
    using read_good_frame [OF Cons.prems(1,2), of f h] Cons.prems(3) by simp
  ultimately show ?case using Cons.IH [of ?s] Cons.prems(3) by (simp add: server_reader.run_step)
qed

section \<open>Messages\<close>

definition report_frame :: "'u ws_handler \<Rightarrow> frame \<Rightarrow> 'u server_state \<Rightarrow> 'u server_state" where
  "report_frame h f = (case f of (op, key, p) \<Rightarrow> server_report h (Report_message op p))"

lemma server_frag_none [simp]: "w_frag c = None \<Longrightarrow> c\<lparr>w_frag := None\<rparr> = (c :: server_conn)"
  by (cases c) simp

lemma message_effect:
  assumes "w_frag (snd s) = None" "is_message (fst f)"
  shows "frame_effect h f s = report_frame h f s"
proof -
  obtain op key p where f: "f = (op, key, p)" by (cases f) auto
  have "w_frag (snd (server_report h (Report_message op p) s)) = None" using assms(1) by simp
  then show ?thesis
    using assms by (cases "server_report h (Report_message op p) s")
      (simp add: f frame_effect_def report_frame_def server_dispatch_def frame_message_def is_message_def)
qed

lemma messages_effect:
  assumes "w_frag (snd s) = None" "list_all (\<lambda>f. is_message (fst f)) fs"
  shows "fold (frame_effect h) fs s = fold (report_frame h) fs s"
  using assms
proof (induction fs arbitrary: s)
  case (Cons f fs)
  then have "w_frag (snd (report_frame h f s)) = None" by (simp add: report_frame_def split: prod.split)
  with Cons.IH [OF this] Cons.prems message_effect [of s f h] show ?case by simp
qed simp

text \<open>A connection that waits for the first byte of a frame.\<close>

definition between_frames :: "server_conn \<Rightarrow> bool" where
  "between_frames c \<longleftrightarrow> s_buf c = [] \<and> w_in c = [] \<and> w_frag c = None"

text \<open>
  C15. What the server reads: for frames as the client sends them, each a data frame with its final
  bit, masked with any key, of any length that the code can read, and however the network cuts
  their bytes into pieces, the message handler is called for each frame in order with exactly the
  text that was masked, nothing else is reported, and the connection then waits for more.
\<close>

theorem server_receives_messages:
  assumes "between_frames c" "list_all good_frame fs" "list_all (\<lambda>f. is_message (fst f)) fs"
    and "concat pieces = concat (map sent_frame fs)"
  shows "receive (server_run h (- 1)) server_feed pieces (Waiting, (u, c)) = (Waiting, fold (report_frame h) fs (u, c))"
proof -
  have c: "s_buf (snd (u, c)) = []" "w_in (snd (u, c)) = []" "w_frag (snd (u, c)) = None"
    using assms(1) by (simp_all add: between_frames_def)
  have "server_run h (- 1) (u, c) = (Waiting, (u, c))"
    using server_run_frames [OF c(1,2), of "[]" h] by (simp add: server_reader.feed_nil)
  with server_reader.receive_run [of h "- 1" pieces "(u, c)"] assms(4) server_run_frames [OF c(1,2) assms(2), of h]
    messages_effect [OF c(3) assms(3), of h]
  show ?thesis by simp
qed

definition idle_server :: server_conn where
  "idle_server = \<lparr>w_in = [], w_frag = None, w_closed = False, w_sent = [], s_buf = [], s_open = True\<rparr>"

lemma idle_server_between: "between_frames idle_server"
  by (simp add: between_frames_def idle_server_def)

theorem server_receives_messages_witness:
  "receive (server_run echo (- 1)) server_feed [[129], [130, 1, 2, 3], [4, 105, 107, 130, 128, 9, 9, 9, 9]]
     (Waiting, ([], idle_server))
   = (Waiting, fold (report_frame echo) [(129, [1, 2, 3, 4], [104, 105]), (130, [9, 9, 9, 9], [])] ([], idle_server))"
proof -
  let ?fs = "[(129, [1, 2, 3, 4], [104, 105]), (130, [9, 9, 9, 9], [])] :: frame list"
  have "list_all good_frame ?fs" "list_all (\<lambda>f. is_message (fst f)) ?fs"
    by (simp_all add: good_frame_def is_message_def)
  moreover have "concat [[129], [130, 1, 2, 3], [4, 105, 107, 130, 128, 9, 9, 9, 9]] = concat (map sent_frame ?fs)"
    by (simp add: sent_frame_def client_frame_def length_field_def mask_bytes_def)
  ultimately show ?thesis by (rule server_receives_messages [OF idle_server_between])
qed

section \<open>Fragments\<close>

text \<open>Between the first and the last fragment come further ones, and frames of the kinds ping and pong.\<close>

definition middle_frame :: "frame \<Rightarrow> bool" where
  "middle_frame f \<longleftrightarrow> fst f \<in> {0x00, 0x89, 0x8a}"

definition middle_text :: "frame \<Rightarrow> byte list" where
  "middle_text f = (case f of (op, key, p) \<Rightarrow> if op = 0 then p else [])"

definition middle_effect :: "'u ws_handler \<Rightarrow> frame \<Rightarrow> 'u server_state \<Rightarrow> 'u server_state" where
  "middle_effect h f s =
     (case f of (op, key, p) \<Rightarrow>
        if op = 0x89 then server_report h Report_ping (fst s, server_send 0x8a p (snd s))
        else if op = 0x8a then server_report h Report_pong s
        else s)"

definition set_frag :: "in_message option \<Rightarrow> 'u server_state \<Rightarrow> 'u server_state" where
  "set_frag m s = (fst s, (snd s)\<lparr>w_frag := m\<rparr>)"

lemma server_call_set_frag: "server_call a (c\<lparr>w_frag := m\<rparr>) = (server_call a c)\<lparr>w_frag := m\<rparr>"
  by (cases a) (simp_all add: server_send_close_def server_send_def)

lemma server_calls_set_frag: "fold server_call as (c\<lparr>w_frag := m\<rparr>) = (fold server_call as c)\<lparr>w_frag := m\<rparr>"
  by (induction as arbitrary: c) (simp_all add: server_call_set_frag)

lemma server_report_set_frag: "server_report h r (set_frag m s) = set_frag m (server_report h r s)"
  by (simp add: server_report_def set_frag_def server_calls_set_frag split: prod.split)

lemma middle_effect_set_frag: "middle_effect h f (set_frag m s) = set_frag m (middle_effect h f s)"
proof -
  have "(fst (set_frag m s), server_send 0x8a p (snd (set_frag m s))) = set_frag m (fst s, server_send 0x8a p (snd s))" for p
    by (simp add: set_frag_def server_send_def)
  then show ?thesis by (simp add: middle_effect_def server_report_set_frag split: prod.split)
qed

lemma set_frag_none: "w_frag (snd s) = None \<Longrightarrow> set_frag None s = s"
  by (cases s) (simp add: set_frag_def)

lemma set_frag_twice [simp]: "set_frag m (set_frag m' s) = set_frag m s"
  by (simp add: set_frag_def)

lemma middle_effect_frag: "w_frag (snd (middle_effect h f s)) = w_frag (snd s)"
  by (simp add: middle_effect_def server_send_def split: prod.split)

lemma first_fragment:
  assumes "w_frag (snd s) = None" "op AND 0x80 = 0" "op AND 0x0f \<notin> {8, 9, 10}"
  shows "frame_effect h (op, key, p) s = set_frag (Some \<lparr>im_opcode = op OR 0x80, im_length = byte_size p, im_buf = p\<rparr>) s"
  using assms by (simp add: frame_effect_def server_dispatch_def frame_message_def set_frag_def Let_def)

lemma middle_fragment:
  assumes "middle_frame f"
  shows "\<exists>n'. frame_effect h f (set_frag (Some \<lparr>im_opcode = op, im_length = n, im_buf = t\<rparr>) s)
    = set_frag (Some \<lparr>im_opcode = op, im_length = n', im_buf = t @ middle_text f\<rparr>) (middle_effect h f s)"
proof -
  let ?m = "Some \<lparr>im_opcode = op, im_length = n, im_buf = t\<rparr>"
  obtain o' key p where f: "f = (o', key, p)" by (cases f) auto
  consider "o' = 0" | "o' = 0x89" | "o' = 0x8a" using assms f by (auto simp: middle_frame_def)
  then show ?thesis
  proof cases
    case 1
    then show ?thesis
      by (intro exI [of _ "n + byte_size p"])
        (simp add: f frame_effect_def server_dispatch_def frame_message_def set_frag_def middle_effect_def middle_text_def Let_def)
  next
    case 2
    then have "frame_effect h f (set_frag ?m s) = middle_effect h f (set_frag ?m s)"
      by (simp add: f frame_effect_def server_dispatch_def frame_message_def middle_effect_def)
    with 2 show ?thesis by (intro exI [of _ n]) (simp add: middle_effect_set_frag middle_text_def f)
  next
    case 3
    then have "frame_effect h f (set_frag ?m s) = middle_effect h f (set_frag ?m s)"
      by (simp add: f frame_effect_def server_dispatch_def frame_message_def middle_effect_def)
    with 3 show ?thesis by (intro exI [of _ n]) (simp add: middle_effect_set_frag middle_text_def f)
  qed
qed

lemma middle_fragments:
  assumes "list_all middle_frame fs"
  shows "\<exists>n'. fold (frame_effect h) fs (set_frag (Some \<lparr>im_opcode = op, im_length = n, im_buf = t\<rparr>) s)
    = set_frag (Some \<lparr>im_opcode = op, im_length = n', im_buf = t @ concat (map middle_text fs)\<rparr>) (fold (middle_effect h) fs s)"
  using assms
proof (induction fs arbitrary: n t s)
  case (Cons f fs)
  obtain n1 where n1: "frame_effect h f (set_frag (Some \<lparr>im_opcode = op, im_length = n, im_buf = t\<rparr>) s)
      = set_frag (Some \<lparr>im_opcode = op, im_length = n1, im_buf = t @ middle_text f\<rparr>) (middle_effect h f s)"
    using middle_fragment [of f h op n t s] Cons.prems by auto
  show ?case
    using Cons.IH [of n1 "t @ middle_text f" "middle_effect h f s"] Cons.prems by (simp add: n1)
qed auto

lemma last_fragment:
  "frame_effect h (0x80, key, p) (set_frag (Some \<lparr>im_opcode = op, im_length = n, im_buf = t\<rparr>) s)
     = set_frag None (server_report h (Report_message op (t @ p)) s)"
proof -
  let ?m = "\<lparr>im_opcode = op, im_length = n + byte_size p, im_buf = t @ p\<rparr>"
  have "frame_effect h (0x80, key, p) (set_frag (Some \<lparr>im_opcode = op, im_length = n, im_buf = t\<rparr>) s)
      = set_frag None (server_report h (Report_message op (t @ p)) (set_frag (Some ?m) s))"
    by (simp add: frame_effect_def server_dispatch_def frame_message_def set_frag_def Let_def split: prod.split)
  then show ?thesis by (simp add: server_report_set_frag)
qed

text \<open>
  Fragments: a message that comes in a first frame without the final bit, any number of further
  ones and a last one, with frames of the kinds ping and pong between them, is reported once, with
  the texts joined, after the pings were answered.
\<close>

theorem server_joins_fragments:
  assumes "between_frames c" "op AND 0x80 = 0" "op AND 0x0f \<notin> {8, 9, 10}" "list_all middle_frame fs"
    and "fs' = (op, key, p) # fs @ [(0x80, key', p')]" "list_all good_frame fs'"
    and "concat pieces = concat (map sent_frame fs')"
  shows "receive (server_run h (- 1)) server_feed pieces (Waiting, (u, c)) =
    (Waiting, server_report h (Report_message (op OR 0x80) (p @ concat (map middle_text fs) @ p'))
                (fold (middle_effect h) fs (u, c)))"
proof -
  have c: "s_buf (snd (u, c)) = []" "w_in (snd (u, c)) = []" "w_frag (snd (u, c)) = None"
    using assms(1) by (simp_all add: between_frames_def)
  obtain n' where n': "fold (frame_effect h) fs (set_frag (Some \<lparr>im_opcode = op OR 0x80, im_length = byte_size p, im_buf = p\<rparr>) (u, c))
    = set_frag (Some \<lparr>im_opcode = op OR 0x80, im_length = n', im_buf = p @ concat (map middle_text fs)\<rparr>) (fold (middle_effect h) fs (u, c))"
    using middle_fragments [OF assms(4), of h "op OR 0x80" "byte_size p" p "(u, c)"] by blast
  have "w_frag (snd (fold (middle_effect h) fs (u, c))) = None"
    using c(3) by (induction fs rule: rev_induct) (simp_all add: middle_effect_frag)
  then have "set_frag None (server_report h r (fold (middle_effect h) fs (u, c))) = server_report h r (fold (middle_effect h) fs (u, c))" for r
    by (intro set_frag_none) simp
  then have "fold (frame_effect h) fs' (u, c) =
      server_report h (Report_message (op OR 0x80) (p @ concat (map middle_text fs) @ p')) (fold (middle_effect h) fs (u, c))"
    by (simp add: assms(5) first_fragment [OF c(3) assms(2,3)] n' last_fragment)
  moreover have "server_run h (- 1) (u, c) = (Waiting, (u, c))"
    using server_run_frames [OF c(1,2), of "[]" h] by (simp add: server_reader.feed_nil)
  ultimately show ?thesis
    using server_reader.receive_run [of h "- 1" pieces "(u, c)"] assms(7) server_run_frames [OF c(1,2) assms(6), of h] by simp
qed

theorem server_joins_fragments_witness:
  "receive (server_run echo (- 1)) server_feed [concat (map sent_frame
       [(1, [1, 2, 3, 4], [104]), (0x89, [1, 2, 3, 4], []), (0, [9, 9, 9, 9], [101]), (0x80, [5, 6, 7, 8], [108])])]
     (Waiting, ([], idle_server))
   = (Waiting, server_report echo (Report_message 129 [104, 101, 108]) (server_report echo Report_ping
        ([], server_send 0x8a [] idle_server)))"
proof -
  let ?mid = "[(0x89, [1, 2, 3, 4], []), (0, [9, 9, 9, 9], [101])] :: frame list"
  have "list_all middle_frame ?mid" "list_all good_frame ((1, [1, 2, 3, 4], [104]) # ?mid @ [(0x80, [5, 6, 7, 8], [108])])"
    by (simp_all add: middle_frame_def good_frame_def)
  from server_joins_fragments [OF idle_server_between _ _ this(1) refl this(2), of
      "[concat (map sent_frame ((1, [1, 2, 3, 4], [104]) # ?mid @ [(0x80, [5, 6, 7, 8], [108])]))]" echo "[]"]
  show ?thesis by (simp add: middle_text_def middle_effect_def)
qed

section \<open>Limits\<close>

lemma server_run_end: "read_message h mx s = Some (p, s') \<Longrightarrow> p \<noteq> Next \<Longrightarrow> server_run h mx s = (p, s')"
  by (rule server_reader.run_end)

text \<open>
  A length above the limit of the server is refused before the payload is read. The longest
  lengths, which every limit but the smaller ones of a program lets pass, make \<open>4 + length\<close> wrap
  around: the server reads up to three bytes and takes the rest of the frame from an empty stream.
\<close>

definition refused :: "'u ws_handler \<Rightarrow> 'u server_state \<Rightarrow> 'u server_state" where
  "refused h s =
     (let s = connection_error h Message_size s; reason = cstr ''message too big''
      in connection_close h 1009 reason (fst s, server_send_close 1009 reason (snd s)))"

lemma long_length:
  assumes "2 ^ 64 - 4 \<le> unat (len :: u64)"
  shows "unat (4 + len) \<le> 3"
proof -
  have "unat (4 + len) = (4 + unat len) mod 2 ^ 64" by (simp add: unat_word_ariths)
  moreover have "unat len < 2 ^ 64" using unsigned_less [of len] by simp
  ultimately show ?thesis using assms by (auto simp: mod_if)
qed

text \<open>
  C18. Lengths: a frame that announces more than the limit of the server is refused with an error
  report and the close status 1009 before its payload is read; and with the limit that the server
  has by default, a frame that announces one of the four greatest lengths makes the sum 4 + length
  wrap around, so that the server takes the mask and the payload from a stream that has ended.
\<close>

theorem server_length_limits:
  assumes "between_frames c"
  shows "(limit < len \<longrightarrow>
      server_run h limit (u, c\<lparr>w_in := op # length_field 128 len @ rest\<rparr>) = (Finished, refused h (u, c\<lparr>w_in := rest\<rparr>)))
    \<and> (2 ^ 64 - 4 \<le> unat len \<and> 3 \<le> length rest \<longrightarrow>
      fst (server_run h (- 1) (u, c\<lparr>w_in := op # length_field 128 len @ rest\<rparr>)) = Overrun)"
proof (intro conjI impI)
  have c: "s_buf c = []" "w_frag c = None" using assms by (simp_all add: between_frames_def)
  have head: "read_message h mx (u, c\<lparr>w_in := op # length_field 128 len @ rest\<rparr>) =
      read_message_content h mx len op (u, c\<lparr>w_in := rest\<rparr>)" for mx
    using read_client_header [of "c\<lparr>w_in := op # length_field 128 len @ rest\<rparr>" op len rest] c by simp
  show "server_run h limit (u, c\<lparr>w_in := op # length_field 128 len @ rest\<rparr>) = (Finished, refused h (u, c\<lparr>w_in := rest\<rparr>))"
    if "limit < len"
    using that c by (intro server_run_end) (simp_all add: head read_message_content_def too_big_def refused_def Let_def)
  assume long: "2 ^ 64 - 4 \<le> unat len \<and> 3 \<le> length rest"
  then have "unat (4 + len) \<le> length rest" "unat (4 + len) < 4 + unat len" using long_length [of len] by linarith+
  then have "read_message h (- 1) (u, c\<lparr>w_in := op # length_field 128 len @ rest\<rparr>) =
      Some (Overrun, (u, c\<lparr>w_in := drop (unat (4 + len)) rest, s_buf := take (unat (4 + len)) rest\<rparr>))"
    using long c by (auto simp: head read_message_content_def too_big_default async_read_def)
  from server_run_end [OF this]
  show "fst (server_run h (- 1) (u, c\<lparr>w_in := op # length_field 128 len @ rest\<rparr>)) = Overrun" by simp
qed

theorem server_length_limits_witness:
  "server_run echo 100 ([], idle_server\<lparr>w_in := 130 # length_field 128 101 @ [1, 2, 3]\<rparr>)
       = (Finished, refused echo ([], idle_server\<lparr>w_in := [1, 2, 3]\<rparr>))
    \<and> fst (server_run echo (- 1) ([], idle_server\<lparr>w_in := 130 # length_field 128 0xfffffffffffffffe @ [1, 2, 3]\<rparr>)) = Overrun"
  using server_length_limits [OF idle_server_between, of 100 101 echo "[]" 130 "[1, 2, 3]"]
    server_length_limits [OF idle_server_between, of 0 "0xfffffffffffffffe" echo "[]" 130 "[1, 2, 3]"]
  by simp

section \<open>One close frame\<close>

text \<open>
  Handlers close a connection with \<open>send_close\<close> only. Then the close frames sent are one or none,
  as \<open>closed\<close> says.
\<close>

definition call_ok :: "ws_call \<Rightarrow> bool" where
  "call_ok a = (case a of Call_send op s \<Rightarrow> op \<noteq> 136 | Call_close status reason \<Rightarrow> True)"

definition handler_ok :: "'u ws_handler \<Rightarrow> bool" where
  "handler_ok h \<longleftrightarrow> (\<forall>r u. list_all call_ok (snd (h r u)))"

definition close_frames :: "'a ws_conn_scheme \<Rightarrow> nat" where
  "close_frames c = length (filter (\<lambda>f. take 1 f = [136]) (w_sent c))"

definition closed_once :: "'a ws_conn_scheme \<Rightarrow> bool" where
  "closed_once c \<longleftrightarrow> close_frames c = of_bool (w_closed c)"

lemma server_send_once: "op \<noteq> 136 \<Longrightarrow> closed_once (server_send op s c) \<longleftrightarrow> closed_once c"
  by (simp add: closed_once_def close_frames_def server_send_def server_frame_def)

lemma server_send_close_once: "closed_once c \<Longrightarrow> closed_once (server_send_close status reason c)"
  by (auto simp: closed_once_def close_frames_def server_send_close_def server_send_def server_frame_def)

lemma server_report_once:
  assumes "handler_ok h" "closed_once (snd s)"
  shows "closed_once (snd (server_report h r s))"
proof -
  have "closed_once (fold server_call as c)"
    if "list_all call_ok as" "closed_once c" for as c
    using that
  proof (induction as arbitrary: c)
    case (Cons a as)
    have "closed_once (server_call a c)"
      using Cons.prems by (cases a) (auto simp: call_ok_def server_send_once server_send_close_once)
    with Cons show ?case by auto
  qed simp
  with assms show ?thesis by (simp add: server_report_def handler_ok_def case_prod_beta)
qed

lemma closed_once_updates [simp]:
  "closed_once (c\<lparr>s_open := b\<rparr>) = closed_once c" "closed_once (c\<lparr>s_buf := b'\<rparr>) = closed_once c"
  "closed_once (d\<lparr>w_in := x\<rparr>) = closed_once d" "closed_once (d\<lparr>w_frag := m\<rparr>) = closed_once d"
  by (simp_all add: closed_once_def close_frames_def)

text \<open>The end of a connection: it is closed and not among those of the endpoint.\<close>

lemma server_report_flags:
  "s_open (snd (server_report h r s)) = s_open (snd s)"
  "w_closed (snd s) \<Longrightarrow> w_closed (snd (server_report h r s))"
proof -
  have "s_open (fold server_call as c) = s_open c \<and> (w_closed c \<longrightarrow> w_closed (fold server_call as c))" for as c
  proof (induction as arbitrary: c)
    case (Cons a as)
    have "s_open (server_call a c) = s_open c \<and> (w_closed c \<longrightarrow> w_closed (server_call a c))"
      by (cases a) (simp_all add: server_send_def server_send_close_def)
    with Cons [of "server_call a c"] show ?case by simp
  qed simp
  then show "s_open (snd (server_report h r s)) = s_open (snd s)"
    "w_closed (snd s) \<Longrightarrow> w_closed (snd (server_report h r s))"
    by (simp_all add: server_report_def split: prod.split)
qed

definition ended_ok :: "'u server_state \<Rightarrow> bool" where
  "ended_ok s \<longleftrightarrow> w_closed (snd s) \<and> \<not> s_open (snd s)"

lemma close_ended:
  "ended_ok (connection_close h status reason (u, server_send_close status' reason' c))"
  by (simp add: ended_ok_def connection_close_def server_report_flags server_send_close_def server_send_def)

lemma connection_close_once:
  "handler_ok h \<Longrightarrow> closed_once (snd s) \<Longrightarrow> closed_once (snd (connection_close h status reason s))"
  "handler_ok h \<Longrightarrow> closed_once (snd s) \<Longrightarrow> closed_once (snd (connection_error h ec s))"
  by (simp_all add: connection_close_def connection_error_def server_report_once)

definition once_ended :: "progress \<times> 'u server_state \<Rightarrow> bool" where
  "once_ended r \<longleftrightarrow> closed_once (snd (snd r)) \<and> (fst r = Finished \<longrightarrow> ended_ok (snd r))"

lemma server_dispatch_once:
  assumes "handler_ok h" "closed_once (snd s)"
  shows "once_ended (server_dispatch h op len p s)"
proof -
  obtain m c where m: "frame_message op len p (snd s) = (m, c)" by fastforce
  then have c: "closed_once c" using assms(2) by (auto simp: frame_message_def Let_def split: if_splits)
  have pong: "op + 1 \<noteq> 136" if "op AND 0x0f = 9"
  proof
    assume "op + 1 = 136"
    then have "op = 136 - 1" by (metis add_diff_cancel_right')
    with that show False by simp
  qed
  consider (close) "op AND 0x0f = 8" | (ping) "op AND 0x0f = 9"
    | (other) "op AND 0x0f \<noteq> 8" "op AND 0x0f \<noteq> 9" by blast
  then show ?thesis
  proof cases
    case close
    with assms(1) c show ?thesis
      by (simp add: server_dispatch_def m once_ended_def connection_close_once server_send_close_once close_ended case_prod_beta)
  next
    case ping
    with assms(1) c pong show ?thesis
      by (simp add: server_dispatch_def m once_ended_def server_report_once server_send_once)
  next
    case other
    with assms(1) c show ?thesis
      by (simp add: server_dispatch_def m once_ended_def server_report_once case_prod_beta)
  qed
qed

lemma read_bytes_once: "read_bytes n c = Some (bs, c') \<Longrightarrow> closed_once c \<Longrightarrow> closed_once c'"
  by (auto simp: read_bytes_def async_read_def get_bytes_def split: if_splits)

lemma read_message_content_once:
  assumes "handler_ok h" "closed_once c" "read_message_content h mx len op (u, c) = Some r"
  shows "once_ended r"
proof (cases "too_big len (w_frag c) mx")
  case True
  with assms show ?thesis
    by (auto simp: read_message_content_def once_ended_def Let_def connection_close_once server_send_close_once close_ended)
next
  case False
  with assms(3) obtain c1 where c1: "async_read (4 + len) c = Some c1"
    by (auto simp: read_message_content_def split: option.splits)
  with assms(2) have "closed_once c1" by (auto simp: async_read_def split: if_splits)
  note c1' = this
  show ?thesis
  proof (cases "length (s_buf c1) < 4 + unat len")
    case True
    with assms(3) False c1 c1' show ?thesis by (auto simp: read_message_content_def once_ended_def)
  next
    case False': False
    let ?p = "mask_bytes (take 4 (s_buf c1)) (take (unat len) (drop 4 (s_buf c1)))"
      and ?c = "c1\<lparr>s_buf := drop (unat len) (drop 4 (s_buf c1))\<rparr>"
    have "r = server_dispatch h op len ?p (u, ?c)"
      using assms(3) False c1 False' by (simp add: read_message_content_def get_bytes_def)
    with server_dispatch_once [OF assms(1), of "(u, ?c)" op len ?p] c1' show ?thesis by simp
  qed
qed

lemma read_message_once:
  assumes "handler_ok h" "closed_once (snd s)" "read_message h mx s = Some r"
  shows "once_ended r"
proof -
  obtain bs c where c: "read_bytes 2 (snd s) = Some (bs, c)"
    using assms(3) by (auto simp: read_message_def split: option.splits)
  note once = read_bytes_once [OF c assms(2)]
  note content = read_message_content_once [OF assms(1)]
  show ?thesis
  proof (cases "bs ! 1 < 128")
    case True
    with assms(1,3) c once show ?thesis
      by (auto simp: read_message_def Let_def once_ended_def connection_close_once server_send_close_once close_ended)
  next
    case False
    have later: "once_ended r"
      if "(case read_bytes n c of None \<Rightarrow> None
           | Some (bs', c) \<Rightarrow> read_message_content h mx (f bs') (bs ! 0) (fst s, c)) = Some r" for n f
      using that by (auto split: option.splits intro: content read_bytes_once [OF _ once])
    consider "ucast (bs ! 1 AND 127) = (126 :: u64)" | "ucast (bs ! 1 AND 127) = (127 :: u64)"
      | "ucast (bs ! 1 AND 127) \<noteq> (126 :: u64)" "ucast (bs ! 1 AND 127) \<noteq> (127 :: u64)" by blast
    then show ?thesis
      using False assms(3) c content [OF once] by cases (auto simp: read_message_def Let_def intro: later)
  qed
qed

lemma server_run_once:
  assumes "handler_ok h" "closed_once (snd s)"
  shows "once_ended (server_run h mx s)"
  using assms
proof (induction h mx s rule: server_run.induct)
  case (1 h mx s)
  show ?case
  proof (cases "read_message h mx s")
    case None
    then show ?thesis using 1 by (simp add: server_run.simps [of h mx s] once_ended_def)
  next
    case (Some r)
    obtain p s' where r: "r = (p, s')" by (rule prod.exhaust)
    have ok: "once_ended (p, s')" using read_message_once [OF 1(2,3) Some] r by simp
    show ?thesis
    proof (cases "p = Next")
      case True
      with ok 1(1) [OF Some r [symmetric] True 1(2)] Some r show ?thesis
        by (simp add: server_run.simps [of h mx s] once_ended_def)
    next
      case False
      with ok Some r show ?thesis by (simp add: server_run.simps [of h mx s])
    qed
  qed
qed

text \<open>
  C17. Closing, when the handlers send no close frames by hand. Whatever bytes the peer sends, in
  whatever pieces, the connection has sent one close frame if it is marked closed and none
  otherwise, and this also holds after the peer has ended its stream. When a frame of the peer ends
  the reading, the connection is marked closed and is out of the endpoint, and the end of the
  stream then changes nothing. When the stream ends while a read waits, the reading ends and the
  connection is out of the endpoint too, but the library sends no close frame for it.
\<close>

theorem server_closes_once:
  assumes "handler_ok h" "closed_once c"
    and "receive (server_run h mx) server_feed pieces (server_run h mx (u, c)) = (p, (u', c'))"
    and "server_end_of_stream h (p, (u', c')) = (p2, (u2, c2))"
  shows "closed_once c' \<and> closed_once c2
    \<and> (p = Finished \<longrightarrow> w_closed c' \<and> \<not> s_open c' \<and> p2 = Finished \<and> u2 = u' \<and> c2 = c')
    \<and> (p = Waiting \<longrightarrow> p2 = Finished \<and> \<not> s_open c2)"
proof -
  have "closed_once (snd (server_feed (concat pieces) (u, c)))" using assms(2) by (simp add: server_feed_def)
  from server_run_once [OF assms(1) this, of mx] have once: "once_ended (p, (u', c'))"
    unfolding server_reader.receive_run [of h mx pieces "(u, c)", unfolded assms(3), symmetric] .
  have "closed_once c2"
    using once assms(4) connection_close_once(2) [OF assms(1), of "(u', c')" Read_failed]
    by (auto simp: server_end_of_stream_def once_ended_def split: if_splits)
  moreover have "\<not> s_open c2" if "p = Waiting"
    using that assms(4) server_report_flags(1) [of h "Report_error Read_failed" "(u', c'\<lparr>s_open := False\<rparr>)"]
    by (simp add: server_end_of_stream_def connection_error_def)
  ultimately show ?thesis using once assms(4)
    by (auto simp: once_ended_def ended_ok_def server_end_of_stream_def split: if_splits)
qed

theorem server_closes_once_witness:
  "(\<exists>u c. receive (server_run echo (- 1)) server_feed [[136, 130], [1, 2, 3, 4, 2, 234]]
        (server_run echo (- 1) ([], idle_server)) = (Finished, (u, c)) \<and> closed_once c \<and> w_closed c \<and> \<not> s_open c)
    \<and> (\<exists>s u c. receive (server_run echo (- 1)) server_feed [[136, 130], [1, 2, 3]]
        (server_run echo (- 1) ([], idle_server)) = (Waiting, s)
      \<and> server_end_of_stream echo (Waiting, s) = (Finished, (u, c)) \<and> closed_once c \<and> \<not> s_open c)"
proof
  have h: "handler_ok echo" "closed_once idle_server"
    by (simp_all add: handler_ok_def echo_def closed_once_def close_frames_def idle_server_def call_ok_def split: ws_report.split)
  have ends: "fst (receive (server_run echo (- 1)) server_feed [[136, 130], [1, 2, 3, 4, 2, 234]]
      (server_run echo (- 1) ([], idle_server))) = Finished"
    by code_simp
  have waits: "fst (receive (server_run echo (- 1)) server_feed [[136, 130], [1, 2, 3]]
      (server_run echo (- 1) ([], idle_server))) = Waiting"
    by code_simp
  obtain u c where r: "receive (server_run echo (- 1)) server_feed [[136, 130], [1, 2, 3, 4, 2, 234]]
      (server_run echo (- 1) ([], idle_server)) = (Finished, (u, c))"
    using ends by (metis prod.collapse)
  have "server_end_of_stream echo (Finished, (u, c)) = (Finished, (u, c))" by (simp add: server_end_of_stream_def)
  from server_closes_once [OF h r this] r
  show "\<exists>u c. receive (server_run echo (- 1)) server_feed [[136, 130], [1, 2, 3, 4, 2, 234]]
      (server_run echo (- 1) ([], idle_server)) = (Finished, (u, c)) \<and> closed_once c \<and> w_closed c \<and> \<not> s_open c" by blast
  obtain u c where r: "receive (server_run echo (- 1)) server_feed [[136, 130], [1, 2, 3]]
      (server_run echo (- 1) ([], idle_server)) = (Waiting, (u, c))"
    using waits by (metis prod.collapse)
  obtain p u2 c2 where e: "server_end_of_stream echo (Waiting, (u, c)) = (p, (u2, c2))" by (metis prod.exhaust)
  from server_closes_once [OF h r e] r e
  show "\<exists>s u c. receive (server_run echo (- 1)) server_feed [[136, 130], [1, 2, 3]]
      (server_run echo (- 1) ([], idle_server)) = (Waiting, s)
    \<and> server_end_of_stream echo (Waiting, s) = (Finished, (u, c)) \<and> closed_once c \<and> \<not> s_open c" by blast
qed

end
