(* ===== verification/Ws_Client.thy ===== *)
theory Ws_Client
  imports Ws_Reader
begin

text \<open>
  The client end of a web socket connection after its handshake: \<open>SocketClientBase\<close> of
  \<open>src/ext/Simple-WebSocket-Server-v2.0.2/client_ws.hpp\<close>. The bytes of the peer go into the
  buffer of \<open>in_message\<close>, which may hold \<open>num_additional_bytes\<close> of them already, since the
  handshake is read up to its end and a piece of the network behind it. \<open>c_rd\<close> are the numbers of
  the \<open>random_device\<close>, \<open>c_drawn\<close> counts those drawn.

  Shown: frames of a server are handled one by one in order, wherever the bytes are cut and
  however many of them came with the handshake; fragments are joined.
\<close>

section \<open>The connection\<close>

record client_conn = ws_conn +
  c_msg :: in_message
  c_extra :: nat
  c_rd :: "nat \<Rightarrow> byte"
  c_drawn :: nat

definition client_send :: "byte \<Rightarrow> byte list \<Rightarrow> client_conn \<Rightarrow> client_conn" where
  "client_send fin_rsv_opcode out_message c =
     (let key = map (c_rd c) [c_drawn c..<c_drawn c + 4]
      in c\<lparr>c_drawn := c_drawn c + 4, w_sent := w_sent c @ [client_frame fin_rsv_opcode key out_message]\<rparr>)"

definition client_send_close :: "int \<Rightarrow> byte list \<Rightarrow> client_conn \<Rightarrow> client_conn" where
  "client_send_close status reason c =
     (if w_closed c then c else client_send 136 (close_message status reason) (c\<lparr>w_closed := True\<rparr>))"

primrec client_call :: "ws_call \<Rightarrow> client_conn \<Rightarrow> client_conn" where
  "client_call (Call_send fin_rsv_opcode s) c = client_send fin_rsv_opcode s c"
| "client_call (Call_close status reason) c = client_send_close status reason c"

type_synonym 'u client_state = "'u \<times> client_conn"

text \<open>\<open>connection_open\<close>, \<open>connection_close\<close> and \<open>connection_error\<close> only call their handlers.\<close>

definition client_report :: "'u ws_handler \<Rightarrow> ws_report \<Rightarrow> 'u client_state \<Rightarrow> 'u client_state" where
  "client_report h r s = (case h r (fst s) of (u, calls) \<Rightarrow> (u, fold client_call calls (snd s)))"

section \<open>Reading\<close>

abbreviation buffered :: "client_conn \<Rightarrow> byte list" where
  "buffered c \<equiv> im_buf (c_msg c)"

text \<open>
  \<open>async_read\<close> into the buffer, and a read of \<open>n\<close> bytes when \<open>c_extra\<close> are there: only the missing
  ones are taken from the network.
\<close>

definition client_async :: "nat \<Rightarrow> client_conn \<Rightarrow> client_conn option" where
  "client_async n c =
     (if n \<le> length (w_in c)
      then Some (c\<lparr>c_msg := (c_msg c)\<lparr>im_buf := buffered c @ take n (w_in c)\<rparr>, w_in := drop n (w_in c)\<rparr>) else None)"

definition missing :: "nat \<Rightarrow> nat \<Rightarrow> nat" where
  "missing n num_additional_bytes = (if n < num_additional_bytes then 0 else n - num_additional_bytes)"

definition still_extra :: "nat \<Rightarrow> nat \<Rightarrow> nat" where
  "still_extra n num_additional_bytes = (if n < num_additional_bytes then num_additional_bytes - n else 0)"

definition client_read :: "nat \<Rightarrow> client_conn \<Rightarrow> (byte list \<times> client_conn) option" where
  "client_read n c =
     (case client_async (missing n (c_extra c)) c of
        None \<Rightarrow> None
      | Some c \<Rightarrow> Some (take n (buffered c),
          c\<lparr>c_msg := (c_msg c)\<lparr>im_buf := drop n (buffered c)\<rparr>, c_extra := still_extra n (c_extra c)\<rparr>))"

text \<open>A new \<open>InMessage\<close>; its first byte is set before it is read.\<close>

definition new_message :: in_message where
  "new_message = \<lparr>im_opcode = 0, im_length = 0, im_buf = []\<rparr>"

definition add_fragment :: "in_message \<Rightarrow> in_message \<Rightarrow> in_message" where
  "add_fragment frag m = frag\<lparr>im_length := im_length frag + im_length m, im_buf := im_buf frag @ im_buf m\<rparr>"

text \<open>What is done with a message that is complete in the buffer.\<close>

definition client_dispatch :: "'u ws_handler \<Rightarrow> in_message \<Rightarrow> 'u client_state \<Rightarrow> progress \<times> 'u client_state" where
  "client_dispatch h in_message s =
     (let op = im_opcode in_message; c = snd s in
      if op AND 0x0f = 8 then
        (case close_status (im_length in_message) (im_buf in_message) of (status, reason) \<Rightarrow>
           (Finished, client_report h (Report_close status reason) (fst s, client_send_close status reason c)))
      else if op AND 0x0f = 9 then
        (Next, client_report h Report_ping (fst s, client_send (op + 1) (im_buf in_message) c))
      else if op AND 0x0f = 10 then (Next, client_report h Report_pong s)
      else if op AND 0x80 = 0 then
        (Next, (fst s, c\<lparr>w_frag := Some (case w_frag c of None \<Rightarrow> in_message\<lparr>im_opcode := op OR 0x80\<rparr>
                                       | Some frag \<Rightarrow> add_fragment frag in_message)\<rparr>))
      else
        (let m = (case w_frag c of None \<Rightarrow> in_message | Some frag \<Rightarrow> add_fragment frag in_message)
         in case client_report h (Report_message (im_opcode m) (im_buf m)) s of (u, c) \<Rightarrow> (Next, (u, c\<lparr>w_frag := None\<rparr>))))"

text \<open>The message and what of the buffer is behind it, which becomes the next message.\<close>

definition split_message :: "nat \<Rightarrow> in_message \<Rightarrow> in_message \<times> in_message" where
  "split_message updated_num_additional_bytes m =
     (if 0 < updated_num_additional_bytes
      then (m\<lparr>im_buf := take (unat (im_length m)) (im_buf m)\<rparr>, m\<lparr>im_buf := drop (unat (im_length m)) (im_buf m)\<rparr>)
      else (m, new_message))"

definition client_refused :: "'u ws_handler \<Rightarrow> 'u client_state \<Rightarrow> 'u client_state" where
  "client_refused h s =
     (let reason = cstr ''message too big'';
          s = client_report h (Report_error Message_size) s
      in client_report h (Report_close 1009 reason) (fst s, client_send_close 1009 reason (snd s)))"

definition client_content :: "'u ws_handler \<Rightarrow> u64 \<Rightarrow> 'u client_state \<Rightarrow> (progress \<times> 'u client_state) option" where
  "client_content h max_message_size s =
     (case s of (u, c) \<Rightarrow>
      let len = im_length (c_msg c) in
      if too_big len (w_frag c) max_message_size then Some (Finished, client_refused h s)
      else (case client_async (missing (unat len) (c_extra c)) c of
              None \<Rightarrow> None
            | Some c \<Rightarrow>
                (let extra = still_extra (unat len) (c_extra c) in
                 case split_message extra (c_msg c) of (in_message, next_in_message) \<Rightarrow>
                 case client_dispatch h in_message (u, c) of (p, (u, c)) \<Rightarrow>
                   Some (p, (u, c\<lparr>c_msg := next_in_message, c_extra := extra\<rparr>)))))"

definition set_length :: "u64 \<Rightarrow> client_conn \<Rightarrow> client_conn" where
  "set_length len c = c\<lparr>c_msg := (c_msg c)\<lparr>im_length := len\<rparr>\<rparr>"

definition client_header :: "'u ws_handler \<Rightarrow> u64 \<Rightarrow> byte \<Rightarrow> 'u client_state \<Rightarrow> (progress \<times> 'u client_state) option" where
  "client_header h max_message_size b1 s =
     (case s of (u, c) \<Rightarrow>
      if 128 \<le> b1
      then (let reason = cstr ''message from server masked''
            in Some (Finished, client_report h (Report_close 1002 reason) (u, client_send_close 1002 reason c)))
      else (let len = ucast (b1 AND 127) in
            if len = 126 then
              (case client_read 2 c of
                 None \<Rightarrow> None
               | Some (bs, c) \<Rightarrow> client_content h max_message_size (u, set_length (read_length 2 bs) c))
            else if len = 127 then
              (case client_read 8 c of
                 None \<Rightarrow> None
               | Some (bs, c) \<Rightarrow> client_content h max_message_size (u, set_length (read_length 8 bs) c))
            else client_content h max_message_size (u, set_length len c)))"

definition client_read_message :: "'u ws_handler \<Rightarrow> u64 \<Rightarrow> 'u client_state \<Rightarrow> (progress \<times> 'u client_state) option" where
  "client_read_message h max_message_size s =
     (case s of (u, c) \<Rightarrow>
      if missing 2 (c_extra c) = 0 \<and> buffered c = [] then Some (Next, (u, c\<lparr>c_extra := 0\<rparr>))
      else (case client_read 2 c of
              None \<Rightarrow> None
            | Some (bs, c) \<Rightarrow>
                if length bs < 2 then Some (Overrun, (u, c))
                else client_header h max_message_size (bs ! 1) (u, c\<lparr>c_msg := (c_msg c)\<lparr>im_opcode := bs ! 0\<rparr>\<rparr>)))"

definition client_feed :: "byte list \<Rightarrow> 'u client_state \<Rightarrow> 'u client_state" where
  "client_feed bs s = (fst s, (snd s)\<lparr>w_in := w_in (snd s) @ bs\<rparr>)"

definition client_end_of_stream :: "'u ws_handler \<Rightarrow> progress \<times> 'u client_state \<Rightarrow> progress \<times> 'u client_state" where
  "client_end_of_stream h r =
     (case r of (p, s) \<Rightarrow> if p = Waiting then (Finished, client_report h (Report_error Read_failed) s) else r)"

section \<open>Handlers leave the reading alone\<close>

text \<open>The fields that the reading uses, and setting them all.\<close>

definition reading :: "client_conn \<Rightarrow> in_message \<times> nat \<times> byte list" where
  "reading c = (c_msg c, c_extra c, w_in c)"

definition set_reading :: "in_message \<times> nat \<times> byte list \<Rightarrow> client_conn \<Rightarrow> client_conn" where
  "set_reading r c = (case r of (m, e, bs) \<Rightarrow> c\<lparr>c_msg := m, c_extra := e, w_in := bs\<rparr>)"

named_theorems client_reading

lemma reading_set [simp]: "reading (set_reading r c) = r"
  by (simp add: reading_def set_reading_def split: prod.split)

lemma set_reading_same [simp]: "set_reading (reading c) c = c"
  by (cases c) (simp add: reading_def set_reading_def)

lemma set_reading_twice [simp]: "set_reading r (set_reading r' c) = set_reading r c"
  by (simp add: set_reading_def split: prod.split)

lemma client_send_reading [client_reading]:
  "client_send op s (set_reading r c) = set_reading r (client_send op s c)"
  "client_send_close status reason (set_reading r c) = set_reading r (client_send_close status reason c)"
  by (simp_all add: client_send_def client_send_close_def set_reading_def Let_def split: prod.split)

lemma client_calls_reading [client_reading]:
  "fold client_call as (set_reading r c) = set_reading r (fold client_call as c)"
proof (induction as arbitrary: c)
  case (Cons a as)
  then show ?case by (cases a) (simp_all add: client_reading)
qed simp

definition set_state :: "in_message \<times> nat \<times> byte list \<Rightarrow> 'u client_state \<Rightarrow> 'u client_state" where
  "set_state r s = (fst s, set_reading r (snd s))"

lemma client_report_reading [client_reading]:
  "client_report h e (set_state r s) = set_state r (client_report h e s)"
  by (simp add: client_report_def set_state_def client_reading split: prod.split)

lemma client_dispatch_reading [client_reading]:
  "client_dispatch h m (set_state r s) = (case client_dispatch h m s of (p, s') \<Rightarrow> (p, set_state r s'))"
proof -
  have [simp]: "w_frag (set_reading r c) = w_frag c"
    "(set_reading r c)\<lparr>w_frag := f\<rparr> = set_reading r (c\<lparr>w_frag := f\<rparr>)" for c f
    by (simp_all add: set_reading_def split: prod.split)
  have [simp]: "client_report h e (fst s, set_reading r c) = (fst (client_report h e (fst s, c)), set_reading r (snd (client_report h e (fst s, c))))" for e c
    using client_report_reading [of h e r "(fst s, c)"] by (simp add: set_state_def)
  show ?thesis
    by (simp add: client_dispatch_def Let_def client_reading set_state_def case_prod_beta)
qed

lemma client_dispatch_keeps: "reading (snd (snd (client_dispatch h m s))) = reading (snd s)"
proof -
  have "set_state (reading (snd s)) s = s" by (simp add: set_state_def)
  then have "client_dispatch h m s = (case client_dispatch h m s of (p, s') \<Rightarrow> (p, set_state (reading (snd s)) s'))"
    using client_dispatch_reading [of h m "reading (snd s)" s] by simp
  then have "snd (client_dispatch h m s) = set_state (reading (snd s)) (snd (client_dispatch h m s))"
    by (metis (no_types, lifting) case_prod_unfold snd_conv)
  then show ?thesis by (metis reading_set set_state_def snd_conv)
qed

lemma client_report_keeps: "reading (snd (client_report h e s)) = reading (snd s)"
proof -
  have "set_state (reading (snd s)) s = s" by (simp add: set_state_def)
  then have "client_report h e s = set_state (reading (snd s)) (client_report h e s)"
    using client_report_reading [of h e "reading (snd s)" s] by simp
  then show ?thesis by (metis reading_set set_state_def snd_conv)
qed

lemma client_send_keeps: "reading (client_send_close status reason c) = reading c"
  by (simp add: reading_def client_send_close_def client_send_def Let_def)

text \<open>The bytes that are still to be handled.\<close>

definition weight :: "client_conn \<Rightarrow> nat" where
  "weight c = length (w_in c) + length (buffered c)"

lemma weight_reading: "reading c = reading c' \<Longrightarrow> weight c = weight c'"
  by (simp add: weight_def reading_def)

lemma client_async_weight: "client_async n c = Some c' \<Longrightarrow> weight c' = weight c"
  by (auto simp: client_async_def weight_def split: if_splits)

lemma client_read_weight:
  assumes "client_read n c = Some (bs, c')"
  shows "weight c = length bs + weight c'"
proof -
  obtain c1 where c1: "client_async (missing n (c_extra c)) c = Some c1"
    using assms by (auto simp: client_read_def split: option.splits)
  have c': "bs = take n (buffered c1)"
      "c' = c1\<lparr>c_msg := (c_msg c1)\<lparr>im_buf := drop n (buffered c1)\<rparr>, c_extra := still_extra n (c_extra c1)\<rparr>"
    using assms [unfolded client_read_def c1 option.case] by (simp_all only: option.inject prod.inject)
  have "length bs = min n (length (buffered c1))" "weight c' = length (w_in c1) + (length (buffered c1) - n)"
    by (simp_all add: c' weight_def)
  moreover have "weight c1 = length (w_in c1) + length (buffered c1)" by (simp add: weight_def)
  ultimately show ?thesis using client_async_weight [OF c1] by simp
qed

text \<open>The result of a content that is there.\<close>

definition content_result :: "'u ws_handler \<Rightarrow> 'u \<Rightarrow> client_conn \<Rightarrow> nat \<Rightarrow> progress \<times> 'u client_state" where
  "content_result h u c extra =
     (case split_message extra (c_msg c) of (in_message, next_in_message) \<Rightarrow>
      case client_dispatch h in_message (u, c) of (p, (u, c)) \<Rightarrow> (p, (u, c\<lparr>c_msg := next_in_message, c_extra := extra\<rparr>)))"

lemma client_content_cases:
  "too_big (im_length (c_msg c)) (w_frag c) mx \<Longrightarrow> client_content h mx (u, c) = Some (Finished, client_refused h (u, c))"
  "\<not> too_big (im_length (c_msg c)) (w_frag c) mx \<Longrightarrow> client_async (missing (unat (im_length (c_msg c))) (c_extra c)) c = None \<Longrightarrow>
     client_content h mx (u, c) = None"
  "\<not> too_big (im_length (c_msg c)) (w_frag c) mx \<Longrightarrow> client_async (missing (unat (im_length (c_msg c))) (c_extra c)) c = Some c1 \<Longrightarrow>
     client_content h mx (u, c) = Some (content_result h u c1 (still_extra (unat (im_length (c_msg c))) (c_extra c1)))"
  by (simp_all add: client_content_def content_result_def Let_def case_prod_beta)

lemma client_contentE:
  assumes "client_content h mx (u, c) = Some r"
  obtains (refused) "too_big (im_length (c_msg c)) (w_frag c) mx" "r = (Finished, client_refused h (u, c))"
    | (content) c1 where "\<not> too_big (im_length (c_msg c)) (w_frag c) mx"
        "client_async (missing (unat (im_length (c_msg c))) (c_extra c)) c = Some c1"
        "r = content_result h u c1 (still_extra (unat (im_length (c_msg c))) (c_extra c1))"
  using assms client_content_cases [where c = c and mx = mx and h = h and u = u]
  by (cases "client_async (missing (unat (im_length (c_msg c))) (c_extra c)) c") auto

lemma client_refused_keeps: "reading (snd (client_refused h s)) = reading (snd s)"
  by (simp add: client_refused_def Let_def client_report_keeps client_send_keeps)

lemma client_content_weight:
  assumes "client_content h mx (u, c) = Some r"
  shows "weight (snd (snd r)) \<le> weight c"
  using assms
proof (cases rule: client_contentE)
  case refused
  then show ?thesis using weight_reading [OF client_refused_keeps [of h "(u, c)"]] by simp
next
  case (content c1)
  define e where "e = still_extra (unat (im_length (c_msg c))) (c_extra c1)"
  define d where "d = client_dispatch h (fst (split_message e (c_msg c1))) (u, c1)"
  have r: "snd (snd r) = (snd (snd d))\<lparr>c_msg := snd (split_message e (c_msg c1)), c_extra := e\<rparr>"
    using content(3) by (simp add: content_result_def case_prod_beta e_def d_def)
  have "w_in (snd (snd d)) = w_in c1" using client_dispatch_keeps [of h _ "(u, c1)"] by (simp add: reading_def d_def)
  moreover have "length (im_buf (snd (split_message e m))) \<le> length (im_buf m)" for m
    by (simp add: split_message_def new_message_def)
  ultimately have "weight (snd (snd r)) \<le> weight c1" by (simp add: r weight_def)
  then show ?thesis using client_async_weight [OF content(2)] by simp
qed

definition client_pending :: "'u client_state \<Rightarrow> nat" where
  "client_pending s = weight (snd s) + of_bool (c_extra (snd s) \<noteq> 0)"

lemma set_length_weight [simp]: "weight (set_length len c) = weight c"
  by (simp add: set_length_def weight_def)

text \<open>The ways in which a header leads to a result.\<close>

lemma client_headerE:
  assumes "client_header h mx b1 (u, c) = Some r"
  obtains (masked) "128 \<le> b1" "r = (Finished, client_report h (Report_close 1002 (cstr ''message from server masked''))
                      (u, client_send_close 1002 (cstr ''message from server masked'') c))"
    | (long) n bs c' where "\<not> 128 \<le> b1" "n = 2 \<and> ucast (b1 AND 127) = (126 :: u64) \<or> n = 8 \<and> ucast (b1 AND 127) = (127 :: u64)"
        "client_read n c = Some (bs, c')" "client_content h mx (u, set_length (read_length n bs) c') = Some r"
    | (direct) "\<not> 128 \<le> b1" "ucast (b1 AND 127) \<noteq> (126 :: u64)" "ucast (b1 AND 127) \<noteq> (127 :: u64)"
        "client_content h mx (u, set_length (ucast (b1 AND 127)) c) = Some r"
proof -
  consider "128 \<le> b1" | "\<not> 128 \<le> b1" "ucast (b1 AND 127) = (126 :: u64)" | "\<not> 128 \<le> b1" "ucast (b1 AND 127) = (127 :: u64)"
    | "\<not> 128 \<le> b1" "ucast (b1 AND 127) \<noteq> (126 :: u64)" "ucast (b1 AND 127) \<noteq> (127 :: u64)" by blast
  then show ?thesis
  proof cases
    case 1
    with assms masked show ?thesis by (simp add: client_header_def Let_def)
  next
    case 2
    then obtain bs c' where "client_read 2 c = Some (bs, c')" "client_content h mx (u, set_length (read_length 2 bs) c') = Some r"
      using assms by (auto simp: client_header_def Let_def split: option.splits)
    with 2 long show ?thesis by blast
  next
    case 3
    then obtain bs c' where "client_read 8 c = Some (bs, c')" "client_content h mx (u, set_length (read_length 8 bs) c') = Some r"
      using assms by (auto simp: client_header_def Let_def split: option.splits)
    with 3 long show ?thesis by blast
  next
    case 4
    with assms direct show ?thesis by (simp add: client_header_def Let_def)
  qed
qed

lemma client_header_weight:
  assumes "client_header h mx b1 (u, c) = Some r"
  shows "weight (snd (snd r)) \<le> weight c"
  using assms
proof (cases rule: client_headerE)
  case masked
  then show ?thesis by (simp add: weight_reading [OF client_report_keeps] weight_reading [OF client_send_keeps])
next
  case (long n bs c')
  from client_content_weight [OF long(4)] client_read_weight [OF long(3)] show ?thesis by simp
next
  case direct
  from client_content_weight [OF direct(4)] show ?thesis by simp
qed

lemma client_read_message_decreases:
  assumes "client_read_message h mx s = Some (Next, s')"
  shows "client_pending s' < client_pending s"
proof -
  obtain u c where s: "s = (u, c)" by fastforce
  show ?thesis
  proof (cases "missing 2 (c_extra c) = 0 \<and> buffered c = []")
    case True
    with assms s show ?thesis
      by (auto simp: client_read_message_def client_pending_def weight_def missing_def split: if_splits)
  next
    case False
    with assms s obtain bs c1 where c1: "client_read 2 c = Some (bs, c1)"
      by (auto simp: client_read_message_def split: option.splits)
    with assms s False have bs: "2 \<le> length bs"
      and "client_header h mx (bs ! 1) (u, c1\<lparr>c_msg := (c_msg c1)\<lparr>im_opcode := bs ! 0\<rparr>\<rparr>) = Some (Next, s')"
      by (auto simp: client_read_message_def split: if_splits)
    from client_header_weight [OF this(2)] have "weight (snd s') \<le> weight c1" by (simp add: weight_def)
    with client_read_weight [OF c1] bs s show ?thesis by (simp add: client_pending_def)
  qed
qed

function client_run :: "'u ws_handler \<Rightarrow> u64 \<Rightarrow> 'u client_state \<Rightarrow> progress \<times> 'u client_state" where
  "client_run h max_message_size s =
     (case client_read_message h max_message_size s of
        None \<Rightarrow> (Waiting, s)
      | Some (p, s') \<Rightarrow> if p = Next then client_run h max_message_size s' else (p, s'))"
  by pat_completeness auto
termination
  by (relation "measure (\<lambda>(h, mx, s). client_pending s)") (auto dest: client_read_message_decreases)

declare client_run.simps [simp del]

section \<open>The network may cut the bytes anywhere\<close>

definition more_bytes :: "byte list \<Rightarrow> client_conn \<Rightarrow> client_conn" where
  "more_bytes bs c = c\<lparr>w_in := w_in c @ bs\<rparr>"

lemma client_feed_pair: "client_feed bs (u, c) = (u, more_bytes bs c)"
  by (simp add: client_feed_def more_bytes_def)

lemma client_feed_parts [simp]: "fst (client_feed bs s) = fst s" "snd (client_feed bs s) = more_bytes bs (snd s)"
  by (simp_all add: client_feed_def more_bytes_def)

lemma more_bytes_set: "reading c = reading c' \<Longrightarrow> more_bytes bs c = set_reading (c_msg c', c_extra c', w_in c' @ bs) c"
  by (cases c) (simp add: more_bytes_def set_reading_def reading_def)

lemma client_feed_set:
  "reading (snd s) = reading (snd s') \<Longrightarrow>
     client_feed bs s = set_state (c_msg (snd s'), c_extra (snd s'), w_in (snd s') @ bs) s"
  using more_bytes_set [of "snd s" "snd s'" bs] by (cases s) (simp add: client_feed_pair set_state_def)

lemma client_report_feed: "client_report h e (client_feed bs s) = client_feed bs (client_report h e s)"
  using client_feed_set [of s s bs] client_feed_set [of "client_report h e s" s bs]
  by (simp add: client_report_reading client_report_keeps)

lemma client_send_close_feed: "client_send_close status reason (more_bytes bs c) = more_bytes bs (client_send_close status reason c)"
  using more_bytes_set [of c c bs] more_bytes_set [of "client_send_close status reason c" c bs]
  by (simp add: client_send_reading client_send_keeps)

lemma client_dispatch_feed:
  "client_dispatch h m (u, more_bytes bs c) =
     (case client_dispatch h m (u, c) of (p, s) \<Rightarrow> (p, client_feed bs s))"
  using client_feed_set [of "(u, c)" "(u, c)" bs] client_feed_set [of "snd (client_dispatch h m (u, c))" "(u, c)" bs]
  by (simp add: client_dispatch_reading client_dispatch_keeps client_feed_pair [of bs u c] case_prod_beta)

lemma client_async_feed: "client_async n c = Some c' \<Longrightarrow> client_async n (more_bytes bs c) = Some (more_bytes bs c')"
  by (auto simp: client_async_def more_bytes_def split: if_splits)

lemma more_bytes_same [simp]:
  "c_extra (more_bytes bs c) = c_extra c" "c_msg (more_bytes bs c) = c_msg c" "w_frag (more_bytes bs c) = w_frag c"
  "(more_bytes bs c)\<lparr>c_extra := e\<rparr> = more_bytes bs (c\<lparr>c_extra := e\<rparr>)"
  "(more_bytes bs c)\<lparr>c_msg := m\<rparr> = more_bytes bs (c\<lparr>c_msg := m\<rparr>)"
  "set_length len (more_bytes bs c) = more_bytes bs (set_length len c)"
  by (simp_all add: more_bytes_def set_length_def)

lemma client_read_feed:
  assumes "client_read n c = Some (b, c')"
  shows "client_read n (more_bytes bs c) = Some (b, more_bytes bs c')"
proof (cases "client_async (missing n (c_extra c)) c")
  case None
  with assms show ?thesis by (simp add: client_read_def)
next
  case (Some c1)
  from client_async_feed [OF this, of bs] assms show ?thesis
    by (auto simp: client_read_def Some)
qed

lemma content_result_feed:
  "content_result h u (more_bytes bs c) e = (case content_result h u c e of (p, s) \<Rightarrow> (p, client_feed bs s))"
  by (simp add: content_result_def client_dispatch_feed client_feed_pair case_prod_beta)

lemma client_refused_feed: "client_refused h (client_feed bs s) = client_feed bs (client_refused h s)"
proof -
  let ?t = "client_report h (Report_error Message_size) s" and ?r = "cstr ''message too big''"
  have "client_feed bs (fst ?t, client_send_close 1009 ?r (snd ?t)) = (fst ?t, client_send_close 1009 ?r (more_bytes bs (snd ?t)))"
    by (simp add: client_feed_pair client_send_close_feed)
  with client_report_feed [of h "Report_close 1009 ?r" bs "(fst ?t, client_send_close 1009 ?r (snd ?t))"] show ?thesis
    by (simp add: client_refused_def Let_def client_report_feed)
qed

lemma client_content_feed:
  assumes "client_content h mx (u, c) = Some (p, s)"
  shows "client_content h mx (u, more_bytes bs c) = Some (p, client_feed bs s)"
  using assms
proof (cases rule: client_contentE)
  case refused
  then show ?thesis using client_content_cases(1) [of "more_bytes bs c" mx h u] client_refused_feed [of h bs "(u, c)"]
    by (simp add: client_feed_pair)
next
  case (content c1)
  then show ?thesis using client_content_cases(3) [of "more_bytes bs c" mx "more_bytes bs c1" h u] client_async_feed [OF content(2), of bs]
    by (simp add: content_result_feed split: prod.splits)
qed

lemma client_header_feed:
  assumes "client_header h mx b1 (u, c) = Some (p, s)"
  shows "client_header h mx b1 (u, more_bytes bs c) = Some (p, client_feed bs s)"
  using assms
proof (cases rule: client_headerE)
  case masked
  then show ?thesis
    using client_report_feed [of h "Report_close 1002 (cstr ''message from server masked'')" bs
        "(u, client_send_close 1002 (cstr ''message from server masked'') c)"]
    by (simp add: client_header_def Let_def client_send_close_feed client_feed_pair)
next
  case (long n b c')
  from client_content_feed [OF long(4), of bs] client_read_feed [OF long(3), of bs] long(1,2) show ?thesis
    by (auto simp: client_header_def Let_def)
next
  case direct
  from client_content_feed [OF direct(4), of bs] direct(1,2,3) show ?thesis by (simp add: client_header_def Let_def)
qed

lemma client_read_message_feed:
  assumes "client_read_message h mx s = Some (p, s')"
  shows "client_read_message h mx (client_feed bs s) = Some (p, client_feed bs s')"
proof -
  obtain u c where s: "s = (u, c)" by fastforce
  show ?thesis
  proof (cases "missing 2 (c_extra c) = 0 \<and> buffered c = []")
    case True
    with assms s show ?thesis by (auto simp: client_read_message_def client_feed_pair)
  next
    case False
    with assms s obtain b c1 where c1: "client_read 2 c = Some (b, c1)"
      by (auto simp: client_read_message_def split: option.splits)
    note fed = client_read_feed [OF c1, of bs]
    show ?thesis
    proof (cases "length b < 2")
      case True
      with assms s c1 False fed show ?thesis by (auto simp: client_read_message_def client_feed_pair)
    next
      case False': False
      with assms s c1 False have
        "client_header h mx (b ! 1) (u, c1\<lparr>c_msg := (c_msg c1)\<lparr>im_opcode := b ! 0\<rparr>\<rparr>) = Some (p, s')"
        by (simp add: client_read_message_def)
      from client_header_feed [OF this, of bs] s False False' fed show ?thesis
        by (auto simp: client_read_message_def client_feed_pair)
    qed
  qed
qed

lemma client_read_message_not_waiting: "client_read_message h mx s \<noteq> Some (Waiting, s')"
proof
  assume *: "client_read_message h mx s = Some (Waiting, s')"
  have "fst (client_dispatch h m t) \<noteq> Waiting" for m t
    by (simp add: client_dispatch_def Let_def split: prod.split)
  then have "fst (content_result h u c e) \<noteq> Waiting" for u c e
    by (simp add: content_result_def case_prod_beta)
  then have content: "client_content h mx (u, c) \<noteq> Some (Waiting, s')" for u c
    by (metis client_contentE fst_conv progress.distinct(7))
  have "client_header h mx b (u, c) \<noteq> Some (Waiting, s')" for b u c
  proof
    assume "client_header h mx b (u, c) = Some (Waiting, s')"
    then show False by (cases rule: client_headerE) (simp_all add: content)
  qed
  with * show False by (auto simp: client_read_message_def split: prod.splits if_splits option.splits)
qed

interpretation client_reader: stream_reader "client_read_message h mx" client_feed "client_run h mx" client_pending for h mx
proof unfold_locales
  fix s s' :: "'u client_state" and h :: "'u ws_handler" and p bs
  show "client_run h mx s = (case client_read_message h mx s of None \<Rightarrow> (Waiting, s)
      | Some (p, s') \<Rightarrow> if p = Next then client_run h mx s' else (p, s'))"
    by (rule client_run.simps)
  show "client_pending s' < client_pending s" if "client_read_message h mx s = Some (Next, s')"
    using that by (rule client_read_message_decreases)
  show "client_read_message h mx (client_feed bs s) = Some (p, client_feed bs s')" if "client_read_message h mx s = Some (p, s')"
    using that by (rule client_read_message_feed)
  show "client_read_message h mx s \<noteq> Some (Waiting, s')" by (rule client_read_message_not_waiting)
  show "client_feed [] s = s" "client_feed b (client_feed a s) = client_feed (a @ b) s" for a b
    by (simp_all add: client_feed_def)
qed

section \<open>Frames of a server\<close>

text \<open>The bytes ahead, in the buffer, which holds \<open>c_extra\<close> of them, and on the network.\<close>

definition bytes_ahead :: "in_message \<times> nat \<times> byte list \<Rightarrow> byte list \<Rightarrow> bool" where
  "bytes_ahead r bs = (case r of (m, e, ws) \<Rightarrow> e = length (im_buf m) \<and> im_buf m @ ws = bs)"

lemma ahead_reading: "bytes_ahead (reading c) bs \<longleftrightarrow> c_extra c = length (buffered c) \<and> buffered c @ w_in c = bs"
  by (simp add: bytes_ahead_def reading_def)

text \<open>The fields other than those of the reading.\<close>

definition same_state :: "client_conn \<Rightarrow> client_conn \<Rightarrow> bool" where
  "same_state c c' \<longleftrightarrow> (\<exists>r. c' = set_reading r c)"

lemma same_state_refl: "same_state c c"
  unfolding same_state_def by (rule exI [of _ "reading c"]) simp

lemma same_state_trans: "same_state a b \<Longrightarrow> same_state b c \<Longrightarrow> same_state a c"
  unfolding same_state_def by (metis set_reading_twice)

lemma same_state_updates: "same_state c (c\<lparr>c_msg := m, c_extra := e, w_in := bs\<rparr>)"
  unfolding same_state_def by (rule exI [of _ "(m, e, bs)"]) (simp add: set_reading_def)

lemma same_state_msg: "same_state c (c\<lparr>c_msg := m\<rparr>)"
  unfolding same_state_def by (rule exI [of _ "(m, c_extra c, w_in c)"]) (cases c; simp add: set_reading_def)

lemma client_read_ahead:
  assumes "bytes_ahead (reading c) (bs @ rest)" "n = length bs"
  obtains c' where "client_read n c = Some (bs, c')" "bytes_ahead (reading c') rest" "same_state c c'"
    "im_opcode (c_msg c') = im_opcode (c_msg c)" "im_length (c_msg c') = im_length (c_msg c)"
proof -
  let ?k = "missing n (length (buffered c))"
  let ?b = "buffered c @ take ?k (w_in c)"
  let ?c = "c\<lparr>c_msg := (c_msg c)\<lparr>im_buf := drop n ?b\<rparr>, c_extra := still_extra n (length (buffered c)), w_in := drop ?k (w_in c)\<rparr>"
  have c: "c_extra c = length (buffered c)" "buffered c @ w_in c = bs @ rest"
    using assms(1) by (simp_all add: ahead_reading)
  from arg_cong [OF c(2), of length] have len: "length (buffered c) + length (w_in c) = n + length rest" by (simp add: assms(2))
  have k: "?k \<le> length (w_in c)" using len by (auto simp: missing_def)
  have "?b @ drop ?k (w_in c) = bs @ rest" using c(2) by simp
  moreover have "n \<le> length ?b" using k by (simp add: missing_def)
  ultimately have b: "take n ?b = bs" "drop n ?b @ drop ?k (w_in c) = rest"
    using assms(2) by (metis append_eq_append_conv_if append_take_drop_id)+
  have "client_read n c = Some (take n ?b, ?c)"
    using c(1) k by (simp add: client_read_def client_async_def)
  moreover have "still_extra n (length (buffered c)) = length (drop n ?b)"
    using k by (simp add: still_extra_def missing_def)
  then have "bytes_ahead (reading ?c) rest" using b(2) by (simp add: ahead_reading)
  ultimately show ?thesis
    using that [of ?c] b(1) same_state_updates [where c = c] by simp
qed

lemma short_length:
  assumes "\<not> 126 \<le> (len :: u64)"
  shows "\<not> 128 \<le> (ucast len :: byte)" "ucast ((ucast len :: byte) AND 127) = len"
proof -
  have "unat len < 126" using assms by (simp add: word_le_nat_alt)
  then have "unat len \<in> set [0..<126]" by simp
  then have "word_of_nat (unat len) \<in> (word_of_nat :: nat \<Rightarrow> u64) ` set [0..<126]" by (rule imageI)
  then have "len \<in> word_of_nat ` set [0..<126]" by simp
  then have "\<not> 128 \<le> (ucast len :: byte) \<and> ucast ((ucast len :: byte) AND 127) = len"
    by (simp add: upt_rec) (elim disjE; simp add: word_le_nat_alt)
  then show "\<not> 128 \<le> (ucast len :: byte)" "ucast ((ucast len :: byte) AND 127) = len" by simp_all
qed

lemma client_header_ahead:
  assumes "bytes_ahead (reading c) (op # length_field 0 len @ rest)"
  obtains (result) c' where "\<forall>h :: 'u ws_handler. \<forall>mx u. client_read_message h mx (u, c) = client_content h mx (u, c')"
    "bytes_ahead (reading c') rest" "same_state c c'" "im_opcode (c_msg c') = op" "im_length (c_msg c') = len"
proof -
  obtain b1 field where field: "length_field 0 len = b1 # field" by (cases "length_field 0 len") (auto simp: length_field_def split: if_splits)
  from assms have "bytes_ahead (reading c) ([op, b1] @ field @ rest)" by (simp add: field)
  from client_read_ahead [OF this, of 2] obtain c1 where
    c1: "client_read 2 c = Some ([op, b1], c1)" "bytes_ahead (reading c1) (field @ rest)" "same_state c c1" by auto
  let ?c = "c1\<lparr>c_msg := (c_msg c1)\<lparr>im_opcode := op\<rparr>\<rparr>"
  have c2: "bytes_ahead (reading ?c) (field @ rest)" "same_state c ?c" "im_opcode (c_msg ?c) = op"
    using c1(2) same_state_trans [OF c1(3) same_state_msg, of "(c_msg c1)\<lparr>im_opcode := op\<rparr>"]
    by (simp_all add: ahead_reading)
  have "\<not> (missing 2 (c_extra c) = 0 \<and> buffered c = [])"
    using assms by (auto simp: ahead_reading missing_def)
  then have step: "client_read_message h mx (u, c) = client_header h mx b1 (u, ?c)" for h :: "'u ws_handler" and mx u
    by (auto simp: client_read_message_def c1(1))
  have goal: thesis
    if "\<forall>h :: 'u ws_handler. \<forall>mx u. client_header h mx b1 (u, ?c) = client_content h mx (u, set_length len c3)"
      "bytes_ahead (reading c3) rest" "same_state ?c c3" "im_opcode (c_msg c3) = op" for c3
  proof -
    have "same_state c3 (set_length len c3)"
      by (simp add: set_length_def same_state_msg)
    from same_state_trans [OF same_state_trans [OF c2(2) that(3)] this] that(1,2,4) step show thesis
      by (intro result [of "set_length len c3"]) (simp_all add: ahead_reading set_length_def)
  qed
  show thesis
  proof (cases "126 \<le> len")
    case False
    then have "b1 = ucast len" "field = []" using field by (simp_all add: length_field_def)
    moreover have "ucast (ucast len AND 127 :: byte) = len" "\<not> 128 \<le> (ucast len :: byte)"
      using short_length [OF False] by simp_all
    ultimately show thesis
      using False c2(1,3) by (intro goal [of ?c]) (auto simp: client_header_def Let_def same_state_refl)
  next
    case True
    define n :: nat where "n = (if 0xffff < len then 8 else 2)"
    have b1: "b1 = (if 0xffff < len then 127 else 126)" "field = length_bytes n len"
      using True field by (auto simp: length_field_def n_def split: if_splits)
    have n: "length field = n" "read_length n field = len"
      using read_length_bytes [of len] by (simp_all add: b1(2) n_def not_less)
    from client_read_ahead [OF c2(1), of n] obtain c3 where
      c3: "client_read n ?c = Some (field, c3)" "bytes_ahead (reading c3) rest" "same_state ?c c3" "im_opcode (c_msg c3) = op"
      using n(1) c2(3) by auto
    then show thesis using n b1(1)
      by (intro goal [of c3]) (auto simp: client_header_def Let_def n_def split: if_splits)
  qed
qed

lemma client_content_ahead:
  assumes "bytes_ahead (reading c) (p @ rest)" "im_length (c_msg c) = byte_size p" "length p < 2 ^ 64"
    and "\<not> too_big (byte_size p) (w_frag c) mx"
  obtains r where "bytes_ahead r rest" "\<forall>h :: 'u ws_handler. \<forall>u. client_content h mx (u, c) =
    Some (case client_dispatch h \<lparr>im_opcode = im_opcode (c_msg c), im_length = byte_size p, im_buf = p\<rparr> (u, c) of
            (pr, s) \<Rightarrow> (pr, set_state r s))"
proof -
  let ?k = "missing (length p) (length (buffered c))"
  let ?b = "buffered c @ take ?k (w_in c)" and ?e = "still_extra (length p) (length (buffered c))"
  let ?m = "(c_msg c)\<lparr>im_buf := ?b\<rparr>"
  let ?c = "c\<lparr>c_msg := ?m, w_in := drop ?k (w_in c)\<rparr>"
  have len: "unat (im_length (c_msg c)) = length p"
    using assms(2,3) by (simp add: unsigned_of_nat take_bit_nat_eq_self)
  have c: "c_extra c = length (buffered c)" "buffered c @ w_in c = p @ rest"
    using assms(1) by (simp_all add: ahead_reading)
  from arg_cong [OF c(2), of length] have total: "length (buffered c) + length (w_in c) = length p + length rest" by simp
  then have k: "?k \<le> length (w_in c)" by (auto simp: missing_def)
  have "?b @ drop ?k (w_in c) = p @ rest" using c(2) by simp
  moreover have "length p \<le> length ?b" using k by (simp add: missing_def)
  ultimately have b: "take (length p) ?b = p" "drop (length p) ?b @ drop ?k (w_in c) = rest"
    by (metis append_eq_append_conv_if append_take_drop_id)+
  have e: "?e = length (drop (length p) ?b)" using k by (simp add: still_extra_def missing_def)
  have async: "client_async (missing (unat (im_length (c_msg c))) (c_extra c)) c = Some ?c"
    using c(1) k by (simp add: client_async_def len)
  let ?n = "snd (split_message ?e ?m)"
  have split: "split_message ?e ?m = (\<lparr>im_opcode = im_opcode (c_msg c), im_length = byte_size p, im_buf = p\<rparr>, ?n)"
  proof (cases "0 < ?e")
    case True
    then show ?thesis using b(1) len assms(2) by (cases "c_msg c") (simp add: split_message_def)
  next
    case False
    then have "length (drop (length p) ?b) = 0" using e by linarith
    then have "drop (length p) ?b = []" by (simp only: length_0_conv)
    with b(1) append_take_drop_id [of "length p" ?b] have "?b = p" by (simp only: append_Nil2)
    with False show ?thesis using assms(2) by (cases "c_msg c") (simp add: split_message_def)
  qed
  have next_buf: "im_buf ?n = drop (length p) ?b"
  proof (cases "0 < ?e")
    case True
    then show ?thesis using len by (simp add: split_message_def)
  next
    case False
    then have "length (drop (length p) ?b) = 0" using e by linarith
    then have "drop (length p) ?b = []" by (simp only: length_0_conv)
    with False show ?thesis by (simp add: split_message_def new_message_def del: drop_append take_append)
  qed
  show thesis
  proof (rule that)
    show "bytes_ahead (?n, ?e, drop ?k (w_in c)) rest" using next_buf e b(2) by (simp add: bytes_ahead_def)
    show "\<forall>h :: 'u ws_handler. \<forall>u. client_content h mx (u, c) =
      Some (case client_dispatch h \<lparr>im_opcode = im_opcode (c_msg c), im_length = byte_size p, im_buf = p\<rparr> (u, c) of
            (pr, s) \<Rightarrow> (pr, set_state (?n, ?e, drop ?k (w_in c)) s))"
    proof (intro allI)
      fix h :: "'u ws_handler" and u :: 'u
      have "(u, ?c) = set_state (?m, c_extra c, drop ?k (w_in c)) (u, c)"
        by (cases c) (simp add: set_state_def set_reading_def)
      then have "client_dispatch h m (u, ?c) = (case client_dispatch h m (u, c) of (pr, s) \<Rightarrow>
          (pr, set_state (?m, c_extra c, drop ?k (w_in c)) s))" for m
        by (simp only: client_dispatch_reading)
      then have result: "content_result h u ?c ?e = (case client_dispatch h (fst (split_message ?e ?m)) (u, c) of
          (pr, s) \<Rightarrow> (pr, set_state (?n, ?e, drop ?k (w_in c)) s))"
        by (simp add: content_result_def case_prod_beta set_state_def set_reading_def)
      have "\<not> too_big (im_length (c_msg c)) (w_frag c) mx" using assms(2,4) by simp
      from client_content_cases(3) [OF this async, of h u]
      have "client_content h mx (u, c) = Some (content_result h u ?c (still_extra (length p) (c_extra ?c)))" by (simp only: len)
      moreover have "c_extra ?c = length (buffered c)" using c(1) by simp
      moreover have "fst (split_message ?e ?m) = \<lparr>im_opcode = im_opcode (c_msg c), im_length = byte_size p, im_buf = p\<rparr>"
        using arg_cong [OF split, of fst] by (simp only: fst_conv)
      ultimately show "client_content h mx (u, c) =
        Some (case client_dispatch h \<lparr>im_opcode = im_opcode (c_msg c), im_length = byte_size p, im_buf = p\<rparr> (u, c) of
            (pr, s) \<Rightarrow> (pr, set_state (?n, ?e, drop ?k (w_in c)) s))"
        by (simp only: result)
    qed
  qed
qed

text \<open>A frame as a whole, then sequences of frames that do not close the connection.\<close>

lemma client_read_frame:
  assumes "bytes_ahead (reading c) (server_frame op p @ rest)" "length p < 2 ^ 64" "\<not> too_big (byte_size p) (w_frag c) mx"
  obtains r where "bytes_ahead r rest" "\<forall>h :: 'u ws_handler. \<forall>u. client_read_message h mx (u, c) =
    Some (case client_dispatch h \<lparr>im_opcode = op, im_length = byte_size p, im_buf = p\<rparr> (u, c) of
            (pr, s) \<Rightarrow> (pr, set_state r s))"
proof -
  from assms(1) have "bytes_ahead (reading c) (op # length_field 0 (byte_size p) @ (p @ rest))" by (simp add: server_frame_def)
  then obtain c1 where c1: "\<forall>h :: 'u ws_handler. \<forall>mx u. client_read_message h mx (u, c) = client_content h mx (u, c1)"
    "bytes_ahead (reading c1) (p @ rest)" "same_state c c1" "im_opcode (c_msg c1) = op" "im_length (c_msg c1) = byte_size p"
    by (rule client_header_ahead)
  obtain r1 where r1: "c1 = set_reading r1 c" using c1(3) by (auto simp: same_state_def)
  have "w_frag c1 = w_frag c" by (simp add: r1 set_reading_def split: prod.split)
  with assms(3) have "\<not> too_big (byte_size p) (w_frag c1) mx" by simp
  from client_content_ahead [OF c1(2,5) assms(2) this] obtain r where r: "bytes_ahead r rest"
    "\<forall>h :: 'u ws_handler. \<forall>u. client_content h mx (u, c1) =
      Some (case client_dispatch h \<lparr>im_opcode = op, im_length = byte_size p, im_buf = p\<rparr> (u, c1) of
              (pr, s) \<Rightarrow> (pr, set_state r s))"
    using c1(4) by auto
  have "client_dispatch h m (u, c1) = (case client_dispatch h m (u, c) of (pr, s) \<Rightarrow> (pr, set_state r1 s))" for h :: "'u ws_handler" and m u
    using client_dispatch_reading [of h m r1 "(u, c)"] by (simp add: set_state_def r1)
  then have "\<forall>h :: 'u ws_handler. \<forall>u. client_content h mx (u, c1) =
      Some (case client_dispatch h \<lparr>im_opcode = op, im_length = byte_size p, im_buf = p\<rparr> (u, c) of
              (pr, s) \<Rightarrow> (pr, set_state r s))"
    using r(2) by (simp add: set_state_def case_prod_beta)
  with that [of r] r(1) c1(1) show thesis by simp
qed

type_synonym plain_frame = "byte \<times> byte list"

definition plain :: "plain_frame \<Rightarrow> byte list" where
  "plain f = server_frame (fst f) (snd f)"

definition plain_ok :: "plain_frame \<Rightarrow> bool" where
  "plain_ok f \<longleftrightarrow> length (snd f) < 2 ^ 64 \<and> fst f AND 0x0f \<noteq> 8"

definition client_effect :: "'u ws_handler \<Rightarrow> plain_frame \<Rightarrow> 'u client_state \<Rightarrow> 'u client_state" where
  "client_effect h f s =
     snd (client_dispatch h \<lparr>im_opcode = fst f, im_length = byte_size (snd f), im_buf = snd f\<rparr> s)"

lemma too_big_never: "\<not> too_big len frag (- 1)"
  by (simp add: too_big_def not_less)

lemma client_run_frames:
  assumes "bytes_ahead (reading c) (concat (map plain fs))" "list_all plain_ok fs"
  shows "\<exists>r. bytes_ahead r [] \<and> client_run h (- 1) (u, c) = (Waiting, set_state r (fold (client_effect h) fs (u, c)))"
  using assms
proof (induction fs arbitrary: u c)
  case Nil
  then have "client_read_message h (- 1) (u, c) = None"
    by (simp add: ahead_reading client_read_message_def client_read_def client_async_def missing_def)
  then have "client_run h (- 1) (u, c) = (Waiting, (u, c))" by (rule client_reader.run_wait)
  with Nil show ?case by (intro exI [of _ "reading c"]) (simp add: set_state_def)
next
  case (Cons f fs)
  let ?m = "\<lparr>im_opcode = fst f, im_length = byte_size (snd f), im_buf = snd f\<rparr>"
  have "bytes_ahead (reading c) (server_frame (fst f) (snd f) @ concat (map plain fs))" "length (snd f) < 2 ^ 64"
    using Cons.prems by (simp_all add: plain_def [of f] plain_ok_def)
  then obtain r where r1: "bytes_ahead r (concat (map plain fs))"
    "\<forall>h :: 'a ws_handler. \<forall>u. client_read_message h (- 1) (u, c) = Some (case client_dispatch h ?m (u, c) of (pr, s) \<Rightarrow> (pr, set_state r s))"
    by (rule client_read_frame [OF _ _ too_big_never])
  then have r: "bytes_ahead r (concat (map plain fs))"
    "client_read_message h (- 1) (u, c) = Some (case client_dispatch h ?m (u, c) of (pr, s) \<Rightarrow> (pr, set_state r s))"
    by simp_all
  have "fst (client_dispatch h ?m (u, c)) = Next"
    using Cons.prems(2) by (simp add: plain_ok_def client_dispatch_def Let_def split: prod.split)
  then have step: "client_read_message h (- 1) (u, c) = Some (Next, set_state r (client_effect h f (u, c)))"
    using r(2) by (simp add: client_effect_def case_prod_beta)
  obtain u1 c1 where c1: "client_effect h f (u, c) = (u1, c1)" by fastforce
  have "bytes_ahead (reading (set_reading r c1)) (concat (map plain fs))" using r(1) by simp
  from Cons.IH [OF this, of u1] Cons.prems(2) obtain r' where r': "bytes_ahead r' []"
    "client_run h (- 1) (u1, set_reading r c1) = (Waiting, set_state r' (fold (client_effect h) fs (u1, set_reading r c1)))"
    by auto
  have effect: "client_effect h g (set_state r s) = set_state r (client_effect h g s)" for g s
    by (simp add: client_effect_def client_dispatch_reading split: prod.split)
  have "fold (client_effect h) gs (set_state r s) = set_state r (fold (client_effect h) gs s)" for gs s
    by (induction gs arbitrary: s) (simp_all add: effect)
  from this [of fs "(u1, c1)"] r' client_reader.run_step [OF step] show ?case
    by (intro exI [of _ r']) (simp add: c1 set_state_def)
qed

section \<open>Messages\<close>

lemma client_call_frag: "w_frag (client_call a c) = w_frag c"
  by (cases a) (simp_all add: client_send_close_def client_send_def Let_def)

lemma client_report_frag [simp]: "w_frag (snd (client_report h e s)) = w_frag (snd s)"
proof -
  have "w_frag (fold client_call as c) = w_frag c" for as c
    by (induction as arbitrary: c) (simp_all add: client_call_frag)
  then show ?thesis by (simp add: client_report_def split: prod.split)
qed

definition report_plain :: "'u ws_handler \<Rightarrow> plain_frame \<Rightarrow> 'u client_state \<Rightarrow> 'u client_state" where
  "report_plain h f s = client_report h (Report_message (fst f) (snd f)) s"

lemma client_frag_none [simp]: "w_frag c = None \<Longrightarrow> c\<lparr>w_frag := None\<rparr> = (c :: client_conn)"
  by (cases c) simp

lemma client_message_effect:
  assumes "w_frag (snd s) = None" "is_message (fst f)"
  shows "client_effect h f s = report_plain h f s"
proof -
  obtain u c where r: "report_plain h f s = (u, c)" by fastforce
  have "w_frag (snd (report_plain h f s)) = None" using assms(1) by (simp add: report_plain_def)
  then have "w_frag c = None" using r by simp
  with assms r show ?thesis
    by (simp add: client_effect_def client_dispatch_def is_message_def report_plain_def Let_def)
qed

lemma client_messages_effect:
  assumes "w_frag (snd s) = None" "list_all (\<lambda>f. is_message (fst f)) fs"
  shows "fold (client_effect h) fs s = fold (report_plain h) fs s"
  using assms
proof (induction fs arbitrary: s)
  case (Cons f fs)
  then have "w_frag (snd (report_plain h f s)) = None" by (simp add: report_plain_def)
  with Cons.IH [OF this] Cons.prems client_message_effect [of s f h] show ?case by simp
qed simp

lemma ahead_more: "bytes_ahead (reading c) bs \<Longrightarrow> bytes_ahead (reading (more_bytes x c)) (bs @ x)"
  by (auto simp: ahead_reading more_bytes_def)

lemma client_receive_frames:
  assumes "bytes_ahead (reading c) first" "list_all plain_ok fs" "first @ concat pieces = concat (map plain fs)"
  shows "\<exists>r. bytes_ahead r [] \<and> receive (client_run h (- 1)) client_feed pieces (client_run h (- 1) (u, c))
    = (Waiting, set_state r (fold (client_effect h) fs (u, c)))"
proof -
  let ?c = "more_bytes (concat pieces) c"
  have "bytes_ahead (reading ?c) (concat (map plain fs))" using ahead_more [OF assms(1), of "concat pieces"] by (simp only: assms(3))
  from client_run_frames [OF this assms(2), of h u] obtain r where r: "bytes_ahead r []"
    "client_run h (- 1) (u, ?c) = (Waiting, set_state r (fold (client_effect h) fs (u, ?c)))" by blast
  have effect: "client_effect h g (set_state r s) = set_state r (client_effect h g s)" for g r s
    by (simp add: client_effect_def client_dispatch_reading split: prod.split)
  have effects: "fold (client_effect h) gs (set_state r s) = set_state r (fold (client_effect h) gs s)" for gs r s
    by (induction gs arbitrary: s) (simp_all add: effect)
  have "(u, ?c) = set_state (c_msg c, c_extra c, w_in c @ concat pieces) (u, c)"
    using more_bytes_set [of c c] by (simp add: set_state_def)
  then have "set_state r (fold (client_effect h) fs (u, ?c)) = set_state r (fold (client_effect h) fs (u, c))"
    by (simp add: effects) (simp add: set_state_def)
  with r client_reader.receive_run [of h "- 1" pieces "(u, c)"] show ?thesis
    by (intro exI [of _ r]) (simp add: client_feed_pair)
qed

text \<open>
  C16. What the client reads: for data frames as the server sends them, of which any number of
  bytes may have come with the response of the handshake and the others come in any pieces, the
  message handler is called for each frame in order with exactly its text, nothing else is
  reported, and the client then waits with nothing unread.
\<close>

theorem client_receives_messages:
  assumes "bytes_ahead (reading c) first" "w_frag c = None" "list_all plain_ok fs" "list_all (\<lambda>f. is_message (fst f)) fs"
    and "first @ concat pieces = concat (map plain fs)"
  shows "\<exists>r. bytes_ahead r [] \<and> receive (client_run h (- 1)) client_feed pieces (client_run h (- 1) (u, c))
    = (Waiting, set_state r (fold (report_plain h) fs (u, c)))"
  using client_receive_frames [OF assms(1,3,5), of h u] client_messages_effect [of "(u, c)" fs h] assms(2,4) by simp

text \<open>A client whose buffer holds the first bytes of a frame from the handshake.\<close>

definition late_client :: client_conn where
  "late_client = \<lparr>w_in = [], w_frag = None, w_closed = False, w_sent = [],
     c_msg = \<lparr>im_opcode = 0, im_length = 0, im_buf = [129, 2, 104]\<rparr>, c_extra = 3, c_rd = (\<lambda>_. 7), c_drawn = 0\<rparr>"

theorem client_receives_messages_witness:
  "\<exists>r. bytes_ahead r [] \<and> receive (client_run echo (- 1)) client_feed [[105, 130], [0]] (client_run echo (- 1) ([], late_client))
    = (Waiting, set_state r (fold (report_plain echo) [(129, [104, 105]), (130, [])] ([], late_client)))"
proof -
  let ?fs = "[(129, [104, 105]), (130, [])] :: plain_frame list"
  have "bytes_ahead (reading late_client) [129, 2, 104]" "w_frag late_client = None"
    by (simp_all add: ahead_reading late_client_def)
  moreover have "list_all plain_ok ?fs" "list_all (\<lambda>f. is_message (fst f)) ?fs"
    by (simp_all add: plain_ok_def is_message_def)
  moreover have "[129, 2, 104] @ concat [[105, 130], [0]] = concat (map plain ?fs)"
    by (simp add: plain_def server_frame_def length_field_def)
  ultimately show ?thesis by (rule client_receives_messages)
qed

section \<open>Fragments\<close>

definition set_client_frag :: "in_message option \<Rightarrow> 'u client_state \<Rightarrow> 'u client_state" where
  "set_client_frag m s = (fst s, (snd s)\<lparr>w_frag := m\<rparr>)"

text \<open>What comes between the first and the last fragment: further ones, pings and pongs.\<close>

definition plain_middle :: "plain_frame \<Rightarrow> bool" where
  "plain_middle f \<longleftrightarrow> fst f \<in> {0x00, 0x89, 0x8a}"

definition plain_text :: "plain_frame \<Rightarrow> byte list" where
  "plain_text f = (if fst f = 0 then snd f else [])"

definition plain_middle_effect :: "'u ws_handler \<Rightarrow> plain_frame \<Rightarrow> 'u client_state \<Rightarrow> 'u client_state" where
  "plain_middle_effect h f s =
     (if fst f = 0x89 then client_report h Report_ping (fst s, client_send 0x8a (snd f) (snd s))
      else if fst f = 0x8a then client_report h Report_pong s
      else s)"

named_theorems client_frag

lemma client_calls_set_frag [client_frag]: "fold client_call as (c\<lparr>w_frag := m\<rparr>) = (fold client_call as c)\<lparr>w_frag := m\<rparr>"
proof (induction as arbitrary: c)
  case (Cons a as)
  have "client_call a (c\<lparr>w_frag := m\<rparr>) = (client_call a c)\<lparr>w_frag := m\<rparr>"
    by (cases a) (simp_all add: client_send_close_def client_send_def Let_def)
  with Cons show ?case by simp
qed simp

lemma client_report_set_frag [client_frag]: "client_report h r (set_client_frag m s) = set_client_frag m (client_report h r s)"
  by (simp add: client_report_def set_client_frag_def client_frag split: prod.split)

lemma plain_middle_set_frag [client_frag]: "plain_middle_effect h f (set_client_frag m s) = set_client_frag m (plain_middle_effect h f s)"
proof -
  have "(fst (set_client_frag m s), client_send 0x8a p (snd (set_client_frag m s))) = set_client_frag m (fst s, client_send 0x8a p (snd s))" for p
    by (simp add: set_client_frag_def client_send_def Let_def)
  then show ?thesis by (simp add: plain_middle_effect_def client_frag)
qed

lemma plain_middle_frag: "w_frag (snd (plain_middle_effect h f s)) = w_frag (snd s)"
  by (simp add: plain_middle_effect_def client_send_def Let_def)

lemma set_client_frag_simps [simp]:
  "set_client_frag m (set_client_frag m' s) = set_client_frag m s"
  "w_frag (snd (set_client_frag m s)) = m"
  by (simp_all add: set_client_frag_def)

lemma set_client_frag_same: "w_frag (snd s) = m \<Longrightarrow> set_client_frag m s = s"
  by (cases s) (auto simp: set_client_frag_def)

lemma client_first_fragment:
  assumes "w_frag (snd s) = None" "op AND 0x80 = 0" "op AND 0x0f \<notin> {8, 9, 10}"
  shows "client_effect h (op, p) s = set_client_frag (Some \<lparr>im_opcode = op OR 0x80, im_length = byte_size p, im_buf = p\<rparr>) s"
  using assms by (simp add: client_effect_def client_dispatch_def set_client_frag_def Let_def)

lemma client_middle_fragment:
  assumes "plain_middle f"
  shows "\<exists>n'. client_effect h f (set_client_frag (Some \<lparr>im_opcode = op, im_length = n, im_buf = t\<rparr>) s)
    = set_client_frag (Some \<lparr>im_opcode = op, im_length = n', im_buf = t @ plain_text f\<rparr>) (plain_middle_effect h f s)"
proof -
  let ?m = "Some \<lparr>im_opcode = op, im_length = n, im_buf = t\<rparr>"
  consider "fst f = 0" | "fst f = 0x89" | "fst f = 0x8a" using assms by (auto simp: plain_middle_def)
  then show ?thesis
  proof cases
    case 1
    then show ?thesis
      by (intro exI [of _ "n + byte_size (snd f)"])
        (simp add: client_effect_def client_dispatch_def add_fragment_def set_client_frag_def plain_middle_effect_def plain_text_def Let_def)
  next
    case 2
    then have "client_effect h f (set_client_frag ?m s) = plain_middle_effect h f (set_client_frag ?m s)"
      by (simp add: client_effect_def client_dispatch_def plain_middle_effect_def Let_def)
    with 2 show ?thesis by (intro exI [of _ n]) (simp add: client_frag plain_text_def)
  next
    case 3
    then have "client_effect h f (set_client_frag ?m s) = plain_middle_effect h f (set_client_frag ?m s)"
      by (simp add: client_effect_def client_dispatch_def plain_middle_effect_def Let_def)
    with 3 show ?thesis by (intro exI [of _ n]) (simp add: client_frag plain_text_def)
  qed
qed

lemma client_middle_fragments:
  assumes "list_all plain_middle fs"
  shows "\<exists>n'. fold (client_effect h) fs (set_client_frag (Some \<lparr>im_opcode = op, im_length = n, im_buf = t\<rparr>) s)
    = set_client_frag (Some \<lparr>im_opcode = op, im_length = n', im_buf = t @ concat (map plain_text fs)\<rparr>)
        (fold (plain_middle_effect h) fs s)"
  using assms
proof (induction fs arbitrary: n t s)
  case (Cons f fs)
  obtain n1 where n1: "client_effect h f (set_client_frag (Some \<lparr>im_opcode = op, im_length = n, im_buf = t\<rparr>) s)
      = set_client_frag (Some \<lparr>im_opcode = op, im_length = n1, im_buf = t @ plain_text f\<rparr>) (plain_middle_effect h f s)"
    using client_middle_fragment [of f h op n t s] Cons.prems by auto
  show ?case
    using Cons.IH [of n1 "t @ plain_text f" "plain_middle_effect h f s"] Cons.prems by (simp add: n1)
qed auto

lemma client_last_fragment:
  "client_effect h (0x80, p) (set_client_frag (Some \<lparr>im_opcode = op, im_length = n, im_buf = t\<rparr>) s)
     = set_client_frag None (client_report h (Report_message op (t @ p)) s)"
proof -
  let ?m = "Some \<lparr>im_opcode = op, im_length = n, im_buf = t\<rparr>"
  have "client_effect h (0x80, p) (set_client_frag ?m s)
      = set_client_frag None (client_report h (Report_message op (t @ p)) (set_client_frag ?m s))"
    by (simp add: client_effect_def client_dispatch_def add_fragment_def set_client_frag_def Let_def split: prod.split)
  then show ?thesis by (simp add: client_frag)
qed

text \<open>
  Fragments: a message that a server sends in a first frame without the final bit, any number of
  further ones and a last one, with pings and pongs between them, is reported once, with the texts
  joined, after the pings were answered, wherever its bytes are cut.
\<close>

theorem client_joins_fragments:
  assumes "bytes_ahead (reading c) first" "w_frag c = None" "op AND 0x80 = 0" "op AND 0x0f \<notin> {8, 9, 10}"
    and "list_all plain_middle fs" "fs' = (op, p) # fs @ [(0x80, p')]" "list_all plain_ok fs'"
    and "first @ concat pieces = concat (map plain fs')"
  shows "\<exists>r. bytes_ahead r [] \<and> receive (client_run h (- 1)) client_feed pieces (client_run h (- 1) (u, c)) =
    (Waiting, set_state r (client_report h (Report_message (op OR 0x80) (p @ concat (map plain_text fs) @ p'))
                (fold (plain_middle_effect h) fs (u, c))))"
proof -
  have c: "w_frag (snd (u, c)) = None" using assms(2) by simp
  obtain n' where n': "fold (client_effect h) fs
        (set_client_frag (Some \<lparr>im_opcode = op OR 0x80, im_length = byte_size p, im_buf = p\<rparr>) (u, c))
      = set_client_frag (Some \<lparr>im_opcode = op OR 0x80, im_length = n', im_buf = p @ concat (map plain_text fs)\<rparr>)
          (fold (plain_middle_effect h) fs (u, c))"
    using client_middle_fragments [OF assms(5), of h "op OR 0x80" "byte_size p" p "(u, c)"] by blast
  have "w_frag (snd (fold (plain_middle_effect h) fs (u, c))) = None"
    using c by (induction fs rule: rev_induct) (simp_all add: plain_middle_frag)
  then have "set_client_frag None (client_report h r (fold (plain_middle_effect h) fs (u, c)))
      = client_report h r (fold (plain_middle_effect h) fs (u, c))" for r
    by (intro set_client_frag_same) simp
  then have "fold (client_effect h) fs' (u, c) =
      client_report h (Report_message (op OR 0x80) (p @ concat (map plain_text fs) @ p')) (fold (plain_middle_effect h) fs (u, c))"
    by (simp add: assms(6) client_first_fragment [OF c assms(3,4)] n' client_last_fragment)
  with client_receive_frames [OF assms(1,7,8), of h u] show ?thesis by simp
qed

theorem client_joins_fragments_witness:
  "\<exists>r. bytes_ahead r [] \<and> receive (client_run echo (- 1)) client_feed [[105, 137], [0, 0, 1, 101, 128, 1, 108]]
      (client_run echo (- 1) ([], late_client\<lparr>c_msg := (c_msg late_client)\<lparr>im_buf := [1, 2, 104]\<rparr>\<rparr>))
    = (Waiting, set_state r (client_report echo (Report_message 129 [104, 105, 101, 108])
        (client_report echo Report_ping ([], client_send 0x8a [] (late_client\<lparr>c_msg := (c_msg late_client)\<lparr>im_buf := [1, 2, 104]\<rparr>\<rparr>)))))"
proof -
  let ?c = "late_client\<lparr>c_msg := (c_msg late_client)\<lparr>im_buf := [1, 2, 104]\<rparr>\<rparr>"
  let ?mid = "[(0x89, []), (0, [101])] :: plain_frame list"
  let ?fs = "(1, [104, 105]) # ?mid @ [(0x80, [108])]"
  have "bytes_ahead (reading ?c) [1, 2, 104]" "w_frag ?c = None"
    by (simp_all add: ahead_reading late_client_def)
  moreover have "list_all plain_middle ?mid" "list_all plain_ok ?fs"
    by (simp_all add: plain_middle_def plain_ok_def)
  moreover have "[1, 2, 104] @ concat [[105, 137], [0, 0, 1, 101, 128, 1, 108]] = concat (map plain ?fs)"
    by (simp add: plain_def server_frame_def length_field_def word_le_nat_alt)
  ultimately show ?thesis
    using client_joins_fragments [of ?c "[1, 2, 104]" 1 ?mid ?fs "[104, 105]" "[108]" "[[105, 137], [0, 0, 1, 101, 128, 1, 108]]" echo "[]"]
    by (simp add: plain_text_def plain_middle_effect_def)
qed

end
