(* ===== verification/Ws_Session.thy ===== *)
theory Ws_Session
  imports Ws_Server Ws_Client Nostr_Client Relay
begin

text \<open>
  The programs at the two ends of one connection: the handlers of \<open>src/src/wss_relay.cc\<close> on the
  server of \<open>Ws_Server\<close> and those that \<open>src/src/wss_client.cc\<close> and \<open>relay_to\<close> of \<open>src/src/nostr.cc\<close>
  share on the client of \<open>Ws_Client\<close>. The two take turns: what the client has sent is handed to the
  server, and what the server has sent to the client. TLS, which carries the bytes, is not modelled.

  Shown: a request is sent, masked, read by the relay, answered, and the answer is read by the
  client, byte for byte, and both ends close the connection with the status 1000.
\<close>

section \<open>The programs\<close>

text \<open>The handlers of the relay; the state of a program that an exception has ended stays.\<close>

definition relay_program ::
    "json_lib \<Rightarrow> byte list \<Rightarrow> (ws_failure \<Rightarrow> byte list \<times> byte list) \<Rightarrow> server throwing ws_handler" where
  "relay_program L conn texts r st =
     (case st of
        Inl e \<Rightarrow> (Inl e, [])
      | Inr s \<Rightarrow>
          (case r of
             Report_open \<Rightarrow> (Inr (on_open conn s), [])
           | Report_message op msg \<Rightarrow>
               (case on_message L conn msg s of
                  Inl e \<Rightarrow> (Inl e, [])
                | Inr s' \<Rightarrow> (Inr s', map (\<lambda>(c, resp). Call_send 129 resp) (drop (length (srv_sent s)) (srv_sent s'))))
           | Report_close status reason \<Rightarrow> (Inr (on_close conn status s), [])
           | Report_error f \<Rightarrow> (Inr (on_error conn (fst (texts f)) (snd (texts f)) s), [])
           | Report_ping \<Rightarrow> (Inr s, [])
           | Report_pong \<Rightarrow> (Inr s, [])))"

text \<open>
  The handlers of the client programs, with the version and the status of the handshake: the
  events they see, and what they send on them.
\<close>

definition client_event ::
    "byte list \<Rightarrow> byte list \<Rightarrow> (ws_failure \<Rightarrow> byte list \<times> byte list) \<Rightarrow> ws_report \<Rightarrow> wsc_event option" where
  "client_event http_version status_code texts r =
     (case r of
        Report_open \<Rightarrow> Some (COpen http_version status_code)
      | Report_message op msg \<Rightarrow> Some (CMessage msg)
      | Report_close status reason \<Rightarrow> Some (CClose status)
      | Report_error f \<Rightarrow> Some (CError (fst (texts f)) (snd (texts f)))
      | Report_ping \<Rightarrow> None
      | Report_pong \<Rightarrow> None)"

definition event_sends :: "byte list \<Rightarrow> wsc_event \<Rightarrow> wsc_send list" where
  "event_sends json e = snd (relay_handler json e ([], []))"

primrec send_call :: "wsc_send \<Rightarrow> ws_call" where
  "send_call (Send s) = Call_send 129 s"
| "send_call (SendClose status) = Call_close status []"

definition client_program ::
    "byte list \<Rightarrow> byte list \<Rightarrow> byte list \<Rightarrow> (ws_failure \<Rightarrow> byte list \<times> byte list) \<Rightarrow> wsc_event list ws_handler" where
  "client_program json http_version status_code texts r es =
     (case client_event http_version status_code texts r of
        None \<Rightarrow> (es, [])
      | Some e \<Rightarrow> (es @ [e], map send_call (event_sends json e)))"

section \<open>A session\<close>

definition new_server_conn :: server_conn where
  "new_server_conn = \<lparr>w_in = [], w_frag = None, w_closed = False, w_sent = [], s_buf = [], s_open = False\<rparr>"

definition new_client_conn :: "(nat \<Rightarrow> byte) \<Rightarrow> client_conn" where
  "new_client_conn rd =
     \<lparr>w_in = [], w_frag = None, w_closed = False, w_sent = [], c_msg = new_message, c_extra = 0, c_rd = rd, c_drawn = 0\<rparr>"

record ('a, 'b) session =
  ss_server :: "progress \<times> 'a server_state"
  ss_client :: "progress \<times> 'b client_state"
  ss_to_server :: nat
  ss_to_client :: nat

text \<open>The frames that the other end has not been handed yet, and handing them over.\<close>

definition exchange :: "'a ws_handler \<Rightarrow> 'b ws_handler \<Rightarrow> ('a, 'b) session \<Rightarrow> ('a, 'b) session" where
  "exchange hs hc ss =
     (let sent = w_sent (snd (snd (ss_client ss)));
          server = receive (server_run hs (- 1)) server_feed [concat (drop (ss_to_server ss) sent)] (ss_server ss);
          answer = w_sent (snd (snd server));
          client = receive (client_run hc (- 1)) client_feed [concat (drop (ss_to_client ss) answer)] (ss_client ss)
      in \<lparr>ss_server = server, ss_client = client, ss_to_server = length sent, ss_to_client = length answer\<rparr>)"

definition session_start :: "'a ws_handler \<Rightarrow> 'b ws_handler \<Rightarrow> (nat \<Rightarrow> byte) \<Rightarrow> 'a \<Rightarrow> 'b \<Rightarrow> ('a, 'b) session" where
  "session_start hs hc rd a b =
     \<lparr>ss_server = (Waiting, connection_open hs (a, new_server_conn)),
      ss_client = (Waiting, client_report hc Report_open (b, new_client_conn rd)), ss_to_server = 0, ss_to_client = 0\<rparr>"

text \<open>
  The network between a client program and the relay: a new connection, \<open>n\<close> turns of both ends.
\<close>

definition ws_net ::
    "json_lib \<Rightarrow> nat \<Rightarrow> (nat \<Rightarrow> byte) \<Rightarrow> byte list \<Rightarrow> byte list \<Rightarrow> byte list \<Rightarrow> (ws_failure \<Rightarrow> byte list \<times> byte list)
     \<Rightarrow> server throwing net" where
  "ws_net L n rd conn http_version status_code texts uri json st =
     (let ss = (exchange (relay_program L conn texts) (client_program json http_version status_code texts) ^^ n)
            (session_start (relay_program L conn texts) (client_program json http_version status_code texts) rd st [])
      in (fst (snd (ss_client ss)), fst (snd (ss_server ss))))"

section \<open>The programs send what their handlers say\<close>

lemma event_sends_simps [simp]:
  "event_sends json (COpen v c) = [Send json]" "event_sends json (CMessage m) = [SendClose 1000]"
  "event_sends json (CClose s) = []" "event_sends json (CError e m) = []"
  by (simp_all add: event_sends_def relay_handler_def)

lemma relay_handler_event: "relay_handler json e (store, sent) = (fst (relay_handler json e (store, [])), sent @ event_sends json e)"
  by (cases e) (simp_all add: relay_handler_def)

lemma on_message_sent:
  "on_message L conn msg s = Inr s' \<Longrightarrow> \<exists>resp r w. srv_sent s' = srv_sent s @ [(conn, resp)]
     \<and> make_response L msg (srv_relay s) (comm_log (cstr ''Server: Message received: \"'' @ msg @ cstr ''\" from '' @ conn) (srv_world s))
         = (Inr resp, r, w) \<and> srv_relay s' = r \<and> srv_world s' = w"
  by (auto simp: on_message_def Let_def split: prod.splits sum.splits)

section \<open>The turns of a session\<close>

lemma receive_one_waiting: "receive run feed [bs] (Waiting, s) = run (feed bs s)"
  by (cases "run (feed bs s)") simp

lemma receive_one_ended: "p \<noteq> Waiting \<Longrightarrow> receive run feed [bs] (p, s) = (p, feed bs s)"
  by simp

lemma unat_byte_size: "length p < 2 ^ 64 \<Longrightarrow> unat (byte_size p) = length p"
  by (simp add: unsigned_of_nat take_bit_nat_eq_self)

lemma close_status_message:
  assumes "0 \<le> status" "status < 65536" "length reason < 2 ^ 32"
  shows "close_status (byte_size (close_message status reason)) (close_message status reason) = (status, reason)"
proof -
  have "length (close_message status reason) < 2 ^ 64" "2 \<le> length (close_message status reason)"
    using assms(3) by (simp_all add: close_message_def)
  then have "2 \<le> byte_size (close_message status reason)" by (simp only: word_le_nat_alt unat_byte_size) simp
  then show ?thesis using get_status_close [OF assms(1,2)] by (simp add: close_status_def close_message_def)
qed

text \<open>A message in one frame, then a close frame, at the server.\<close>

lemma server_message_turn:
  assumes "s_buf c = []" "w_in c = []" "w_frag c = None" "length key = 4" "length p < 2 ^ 64 - 4"
  shows "server_run h (- 1) (server_feed (client_frame 129 key p) (u, c)) =
    (Waiting, server_report h (Report_message 129 p) (u, c))"
proof -
  have "list_all good_frame [(129, key, p)]" using assms(4,5) by (simp add: good_frame_def)
  from server_run_frames [of "(u, c)", OF _ _ this, of h] assms
    messages_effect [of "(u, c)" "[(129, key, p)]" h]
  show ?thesis by (simp add: sent_frame_def report_frame_def is_message_def)
qed

lemma server_close_turn:
  assumes "s_buf c = []" "w_in c = []" "w_frag c = None" "length key = 4" "0 \<le> status" "status < 65536"
    and "length reason < 2 ^ 32"
  shows "server_run h (- 1) (server_feed (client_frame 136 key (close_message status reason)) (u, c)) =
    (Finished, connection_close h status reason (u, server_send_close status reason c))"
proof -
  let ?p = "close_message status reason" and ?c = "c\<lparr>w_in := client_frame 136 key (close_message status reason)\<rparr>"
  have c: "s_buf ?c = []" "w_in ?c = client_frame 136 key ?p @ []" "\<not> too_big (byte_size ?p) (w_frag ?c) (- 1)"
    using assms(1) by (simp_all add: too_big_default)
  have "length ?p < 2 ^ 64 - 4" using assms(7) by (simp add: close_message_def)
  note read = read_client_frame [OF c(1,2) assms(4) this c(3), of h u]
  have "close_status (byte_size ?p) ?p = (status, reason)"
    using assms(5-7) by (rule close_status_message)
  then have "server_dispatch h 136 (byte_size ?p) ?p (u, c) =
      (Finished, connection_close h status reason (u, server_send_close status reason c))"
    by (simp add: server_dispatch_def frame_message_def)
  moreover have "?c\<lparr>w_in := []\<rparr> = c" using assms(2) by (cases c) simp
  ultimately have "read_message h (- 1) (u, ?c) = Some (Finished, connection_close h status reason (u, server_send_close status reason c))"
    using read by simp
  from server_run_end [OF this] assms(2) show ?thesis by (simp add: server_feed_def)
qed

text \<open>The same at the client; what is read leaves the reading as it was before a frame.\<close>

lemma client_message_turn:
  assumes "bytes_ahead (reading c) []" "w_frag c = None" "length p < 2 ^ 64"
  shows "\<exists>r. bytes_ahead r [] \<and> client_run h (- 1) (client_feed (server_frame 129 p) (u, c)) =
    (Waiting, set_state r (client_report h (Report_message 129 p) (u, c)))"
proof -
  have ok: "list_all plain_ok [(129, p)]" "[] @ concat [server_frame 129 p] = concat (map plain [(129, p)])"
    using assms(3) by (simp_all add: plain_ok_def plain_def)
  have "client_run h (- 1) (u, c) = (Waiting, (u, c))"
    using assms(1) by (intro client_reader.run_wait)
      (simp add: ahead_reading client_read_message_def client_read_def client_async_def missing_def)
  with client_receive_frames [OF assms(1) ok, of h u] client_message_effect [of "(u, c)" "(129, p)" h] assms(2)
  show ?thesis by (simp add: receive_one_waiting is_message_def report_plain_def)
qed

lemma client_close_turn:
  assumes "bytes_ahead (reading c) []" "0 \<le> status" "status < 65536" "length reason < 2 ^ 32"
  shows "\<exists>r. client_run h (- 1) (client_feed (server_frame 136 (close_message status reason)) (u, c)) =
    (Finished, set_state r (client_report h (Report_close status reason) (u, client_send_close status reason c)))"
proof -
  let ?p = "close_message status reason" and ?c = "more_bytes (server_frame 136 (close_message status reason)) c"
  have "length ?p < 2 ^ 64" using assms(4) by (simp add: close_message_def)
  moreover have "bytes_ahead (reading ?c) (server_frame 136 ?p @ [])" using ahead_more [OF assms(1)] by simp
  ultimately obtain r where "\<forall>h :: 'a ws_handler. \<forall>u. client_read_message h (- 1) (u, ?c) =
      Some (case client_dispatch h \<lparr>im_opcode = 136, im_length = byte_size ?p, im_buf = ?p\<rparr> (u, ?c) of (pr, s) \<Rightarrow> (pr, set_state r s))"
    using client_read_frame [OF _ _ too_big_never] by metis
  then have "client_read_message h (- 1) (u, ?c) =
      Some (case client_dispatch h \<lparr>im_opcode = 136, im_length = byte_size ?p, im_buf = ?p\<rparr> (u, ?c) of (pr, s) \<Rightarrow> (pr, set_state r s))"
    by simp
  also have "client_dispatch h \<lparr>im_opcode = 136, im_length = byte_size ?p, im_buf = ?p\<rparr> (u, ?c) =
      (Finished, client_report h (Report_close status reason) (u, client_send_close status reason ?c))"
    using close_status_message [OF assms(2-4)] by (simp add: client_dispatch_def)
  also have "(u, client_send_close status reason ?c) =
      client_feed (server_frame 136 ?p) (u, client_send_close status reason c)"
    by (simp add: client_feed_pair client_send_close_feed)
  finally have "client_read_message h (- 1) (u, ?c) = Some (Finished,
      set_state r (client_feed (server_frame 136 ?p) (client_report h (Report_close status reason) (u, client_send_close status reason c))))"
    by (simp add: client_report_feed)
  moreover have "set_state r (client_feed bs s) = set_state r s" for bs and s :: "'a client_state"
    by (simp add: set_state_def set_reading_def more_bytes_def split: prod.split)
  ultimately have "client_read_message h (- 1) (u, ?c) = Some (Finished,
      set_state r (client_report h (Report_close status reason) (u, client_send_close status reason c)))" by simp
  from client_reader.run_end [OF this] show ?thesis by (intro exI [of _ r]) (simp add: client_feed_pair)
qed

section \<open>A whole session\<close>

lemma client_send_close_closed: "w_closed c \<Longrightarrow> client_send_close status reason c = c"
  by (simp add: client_send_close_def)

lemma exchange_idle:
  assumes "ss_server ss = (p, (a, s))" "ss_client ss = (q, (b, c))" "p \<noteq> Waiting" "q \<noteq> Waiting"
    and "ss_to_server ss = length (w_sent c)" "ss_to_client ss = length (w_sent s)"
  shows "(exchange hs hc ^^ n) ss = ss"
proof -
  have "exchange hs hc ss = ss"
    using assms by (cases ss) (simp add: exchange_def Let_def server_feed_def client_feed_def)
  then show ?thesis by (induction n) simp_all
qed

definition session_ended ::
    "(server throwing, wsc_event list) session \<Rightarrow> byte list list \<Rightarrow> byte list list \<Rightarrow> server \<Rightarrow> wsc_event list \<Rightarrow> bool" where
  "session_ended ss to_client to_server st events \<longleftrightarrow>
     fst (ss_server ss) = Finished \<and> fst (ss_client ss) = Finished
     \<and> fst (snd (ss_server ss)) = Inr st \<and> fst (snd (ss_client ss)) = events
     \<and> w_sent (snd (snd (ss_server ss))) = to_client \<and> w_sent (snd (snd (ss_client ss))) = to_server
     \<and> \<not> s_open (snd (snd (ss_server ss)))"

lemma session_runs:
  assumes "on_message L conn json (on_open conn s) = Inr s'" "length json < 2 ^ 64 - 4"
    and "srv_sent s' = srv_sent s @ [(conn, resp)]" "length resp < 2 ^ 64"
  shows "session_ended
    ((exchange (relay_program L conn texts) (client_program json v sc texts) ^^ Suc (Suc n))
       (session_start (relay_program L conn texts) (client_program json v sc texts) rd (Inr s) []))
    [server_frame 129 resp, server_frame 136 (close_message 1000 [])]
    [client_frame 129 (map rd [0..<4]) json, client_frame 136 (map rd [4..<8]) (close_message 1000 [])]
    (on_close conn 1000 s') [COpen v sc, CMessage resp, CClose 1000]"
proof -
  define k1 k2 where "k1 = map rd [0..<4]" and "k2 = map rd [4..<8]"
  then have k: "length k1 = 4" "length k2 = 4" by simp_all
  let ?hs = "relay_program L conn texts" and ?hc = "client_program json v sc texts"
  let ?s0 = "new_server_conn\<lparr>s_open := True\<rparr>" and ?c0 = "client_send 129 json (new_client_conn rd)"
  let ?stop = "close_message 1000 []"
  have start: "session_start ?hs ?hc rd (Inr s) [] =
      \<lparr>ss_server = (Waiting, (Inr (on_open conn s), ?s0)), ss_client = (Waiting, ([COpen v sc], ?c0)),
       ss_to_server = 0, ss_to_client = 0\<rparr>"
    by (simp add: session_start_def connection_open_def server_report_def relay_program_def client_report_def
        client_program_def client_event_def)
  have c0: "w_sent ?c0 = [client_frame 129 (k1) json]" "w_closed ?c0 = False" "c_drawn ?c0 = 4" "c_rd ?c0 = rd"
      "w_frag ?c0 = None" "bytes_ahead (reading ?c0) []"
    by (simp_all add: client_send_def new_client_conn_def Let_def ahead_reading new_message_def k1_def)
  have s0: "s_buf ?s0 = []" "w_in ?s0 = []" "w_frag ?s0 = None" by (simp_all add: new_server_conn_def)
  have sent: "srv_sent (on_open conn s) = srv_sent s" by (simp add: on_open_def)
  have server1: "server_run ?hs (- 1) (server_feed (client_frame 129 (k1) json) (Inr (on_open conn s), ?s0)) =
      (Waiting, (Inr s', server_send 129 resp ?s0))"
    using server_message_turn [OF s0 k(1) assms(2), of ?hs] assms(1,3) sent
    by (simp add: server_report_def relay_program_def)
  obtain r where r: "bytes_ahead r []"
      "client_run ?hc (- 1) (client_feed (server_frame 129 resp) ([COpen v sc], ?c0)) =
       (Waiting, set_state r (client_report ?hc (Report_message 129 resp) ([COpen v sc], ?c0)))"
    using client_message_turn [OF c0(6,5) assms(4), of ?hc "[COpen v sc]"] by blast
  let ?c1 = "set_reading r (client_send_close 1000 [] ?c0)"
  have client1: "client_run ?hc (- 1) (client_feed (server_frame 129 resp) ([COpen v sc], ?c0)) =
      (Waiting, ([COpen v sc, CMessage resp], ?c1))"
    by (simp add: r(2) client_report_def client_program_def client_event_def set_state_def)
  have c1: "w_sent ?c1 = [client_frame 129 (k1) json, client_frame 136 (k2) ?stop]" "w_closed ?c1"
    using c0 by (simp_all add: set_reading_def client_send_close_def client_send_def Let_def k2_def split: prod.split)
  have c1_ahead: "bytes_ahead (reading ?c1) []" using r(1) by simp
  let ?s1 = "server_send 129 resp ?s0"
  have s1: "s_buf ?s1 = []" "w_in ?s1 = []" "w_frag ?s1 = None" "w_sent ?s1 = [server_frame 129 resp]" "w_closed ?s1 = False"
    by (simp_all add: server_send_def new_server_conn_def)
  let ?s2 = "(server_send 136 ?stop (?s1\<lparr>w_closed := True\<rparr>))\<lparr>s_open := False\<rparr>"
  have server2: "server_run ?hs (- 1) (server_feed (client_frame 136 (k2) ?stop) (Inr s', ?s1)) =
      (Finished, (Inr (on_close conn 1000 s'), ?s2))"
    using server_close_turn [OF s1(1-3) k(2), of 1000 "[]" ?hs "Inr s'"] s1(5)
    by (simp add: connection_close_def server_report_def relay_program_def server_send_close_def)
  have s2: "w_sent (server_send 136 ?stop (?s1\<lparr>w_closed := True\<rparr>)) = [server_frame 129 resp, server_frame 136 ?stop]" using s1(4) by (simp add: server_send_def)
  obtain r' where r': "client_run ?hc (- 1) (client_feed (server_frame 136 ?stop) ([COpen v sc, CMessage resp], ?c1)) =
      (Finished, set_state r' (client_report ?hc (Report_close 1000 []) ([COpen v sc, CMessage resp], client_send_close 1000 [] ?c1)))"
    using client_close_turn [OF c1_ahead, of 1000 "[]" ?hc "[COpen v sc, CMessage resp]"] by auto
  let ?c2 = "set_reading r' ?c1"
  have client2: "client_run ?hc (- 1) (client_feed (server_frame 136 ?stop) ([COpen v sc, CMessage resp], ?c1)) =
      (Finished, ([COpen v sc, CMessage resp, CClose 1000], ?c2))"
    unfolding r' client_send_close_closed [OF c1(2)]
    by (simp add: client_report_def client_program_def client_event_def set_state_def)
  have "w_sent ?c2 = w_sent ?c1" by (simp add: set_reading_def split: prod.split)
  then have c2: "w_sent (set_reading r' (client_send_close 1000 [] ?c0)) =
      [client_frame 129 k1 json, client_frame 136 k2 ?stop]" by (simp only: set_reading_twice c1(1))
  let ?ss1 = "\<lparr>ss_server = (Waiting, (Inr s', ?s1)), ss_client = (Waiting, ([COpen v sc, CMessage resp], ?c1)),
       ss_to_server = 1, ss_to_client = 1\<rparr>"
  let ?ss2 = "\<lparr>ss_server = (Finished, (Inr (on_close conn 1000 s'), ?s2)),
       ss_client = (Finished, ([COpen v sc, CMessage resp, CClose 1000], ?c2)), ss_to_server = 2, ss_to_client = 2\<rparr>"
  have one: "exchange ?hs ?hc (session_start ?hs ?hc rd (Inr s) []) = ?ss1"
    by (simp only: start) (simp add: exchange_def Let_def c0(1) server1 s1(4) client1)
  have two: "exchange ?hs ?hc ?ss1 = ?ss2"
    by (simp add: exchange_def Let_def c1(1) server2 s2 client2)
  have "(exchange ?hs ?hc ^^ n) ?ss2 = ?ss2"
    by (rule exchange_idle [OF session.select_convs(1,2)]) (simp_all add: s2 c2 c1(1))
  then have "(exchange ?hs ?hc ^^ Suc (Suc n)) (session_start ?hs ?hc rd (Inr s) []) = ?ss2"
    by (simp only: funpow_Suc_right comp_apply one two)
  then show ?thesis by (simp only:) (simp add: session_ended_def s2 c2 c1(1) k1_def k2_def)
qed

text \<open>The answer to a text that is no message.\<close>

definition notice_text :: "byte list" where
  "notice_text = cstr ''[\"NOTICE\",\"Error\"]''"

lemma sample_no_message: "\<exists>e. message_head sample_json (cstr ''hello'') = Inl e"
proof -
  have "case message_head sample_json (cstr ''hello'') of Inl _ \<Rightarrow> True | Inr _ \<Rightarrow> False" by code_simp
  then show ?thesis by (auto split: sum.splits)
qed

lemma sample_notice: "json_dump sample_json Compact (JArr [JStr (cstr ''NOTICE''), JStr (cstr ''Error'')]) = Inr notice_text"
  unfolding notice_text_def by code_simp

lemma sample_answer:
  assumes "on_message sample_json conn (cstr ''hello'') s = Inr s'"
  shows "srv_sent s' = srv_sent s @ [(conn, notice_text)]"
proof -
  obtain e where "message_head sample_json (cstr ''hello'') = Inl e" using sample_no_message by blast
  with assms show ?thesis
    by (auto simp: on_message_def make_response_def get_message_type_def sample_notice)
qed

text \<open>
  C14. A session of a client program with the relay, over the frames of both ends of the library:
  the relay's handler gets exactly the text that the client sent and the client's handler exactly
  the text that the relay answered, which is the answer of the abstract relay; the client sees the
  opening, that answer and the end with the status 1000, and each end sends one message and one
  close frame.
\<close>

theorem session_answers:
  assumes "server_ok L s" "length json < 2 ^ 64 - 4"
  shows "\<exists>s' resp now reply. on_message L conn json (on_open conn s) = Inr s'
    \<and> srv_sent s' = srv_sent s @ [(conn, resp)] \<and> json_parse L resp = Inr reply
    \<and> relay_spec (decode_message L now json) (server_lists L s) = (reply, server_lists L s')
    \<and> (length resp < 2 ^ 64 \<longrightarrow> session_ended
        ((exchange (relay_program L conn texts) (client_program json v sc texts) ^^ Suc (Suc n))
           (session_start (relay_program L conn texts) (client_program json v sc texts) rd (Inr s) []))
        [server_frame 129 resp, server_frame 136 (close_message 1000 [])]
        [client_frame 129 (map rd [0..<4]) json, client_frame 136 (map rd [4..<8]) (close_message 1000 [])]
        (on_close conn 1000 s') [COpen v sc, CMessage resp, CClose 1000])"
proof -
  have open': "server_ok L (on_open conn s)" "server_lists L (on_open conn s) = server_lists L s"
      "srv_sent (on_open conn s) = srv_sent s"
    using logged_lists [OF assms(1)] by (simp_all add: on_open_def)
  from on_message_ok [OF open'(1), of conn json] obtain s' t reply k where
    s': "on_message L conn json (on_open conn s) = Inr s'" "srv_sent s' = srv_sent s @ [(conn, t)]"
      "json_parse L t = Inr reply"
      "relay_spec (decode_message L (clock (srv_world (on_open conn s)) k) json) (server_lists L s) = (reply, server_lists L s')"
    using open'(2,3) by metis
  with session_runs [OF s'(1) assms(2) s'(2), where texts = texts and v = v and sc = sc and n = n and rd = rd] show ?thesis by blast
qed

theorem session_answers_witness:
  "\<exists>s'. on_message sample_json [1] (cstr ''hello'') (on_open [1] (relay_start sample_json 8080 sample_world)) = Inr s'
    \<and> session_ended
        ((exchange (relay_program sample_json [1] (\<lambda>_. ([], []))) (client_program (cstr ''hello'') [] [] (\<lambda>_. ([], []))) ^^ Suc (Suc 0))
           (session_start (relay_program sample_json [1] (\<lambda>_. ([], []))) (client_program (cstr ''hello'') [] [] (\<lambda>_. ([], [])))
              (\<lambda>_. 7) (Inr (relay_start sample_json 8080 sample_world)) []))
        [server_frame 129 notice_text, server_frame 136 (close_message 1000 [])]
        [client_frame 129 (map (\<lambda>_. 7) [0..<4]) (cstr ''hello''), client_frame 136 (map (\<lambda>_. 7) [4..<8]) (close_message 1000 [])]
        (on_close [1] 1000 s') [COpen [] [], CMessage notice_text, CClose 1000]"
proof -
  have world: "writable sample_world database_file" "ofs_log sample_world = None" by (simp_all add: sample_world_def)
  have "length (cstr ''hello'') < 2 ^ 64 - 4" by simp
  from session_answers [OF relay_start_ok(1) [OF sample_json_ok world] this, where conn = "[1]" and texts = "\<lambda>_. ([], [])"
      and v = "[]" and sc = "[]" and n = 0 and rd = "\<lambda>_. 7"]
  obtain s' resp where s': "on_message sample_json [1] (cstr ''hello'') (on_open [1] (relay_start sample_json 8080 sample_world)) = Inr s'"
    "srv_sent s' = srv_sent (relay_start sample_json 8080 sample_world) @ [([1], resp)]" and ended: "length resp < 2 ^ 64 \<longrightarrow> session_ended
        ((exchange (relay_program sample_json [1] (\<lambda>_. ([], []))) (client_program (cstr ''hello'') [] [] (\<lambda>_. ([], []))) ^^ Suc (Suc 0))
           (session_start (relay_program sample_json [1] (\<lambda>_. ([], []))) (client_program (cstr ''hello'') [] [] (\<lambda>_. ([], [])))
              (\<lambda>_. 7) (Inr (relay_start sample_json 8080 sample_world)) []))
        [server_frame 129 resp, server_frame 136 (close_message 1000 [])]
        [client_frame 129 (map (\<lambda>_. 7) [0..<4]) (cstr ''hello''), client_frame 136 (map (\<lambda>_. 7) [4..<8]) (close_message 1000 [])]
        (on_close [1] 1000 s') [COpen [] [], CMessage resp, CClose 1000]"
    by blast
  have "resp = notice_text" using sample_answer [OF s'(1)] s'(2) by (simp add: on_open_def)
  moreover have "length notice_text < 2 ^ 64" by (simp add: notice_text_def cstr_def)
  ultimately show ?thesis using s'(1) ended by blast
qed

end
