(* ===== verification/Ws_Handshake.thy ===== *)
theory Ws_Handshake
  imports Base64 Http Ws_Server Ws_Client
begin

text \<open>
  The handshake of the web socket library: \<open>RequestMessage\<close>, \<open>ResponseMessage\<close> and \<open>HttpHeader\<close> of
  \<open>utility.hpp\<close>, the addresses and \<open>upgrade\<close> of \<open>client_ws.hpp\<close>, \<open>read_handshake\<close> and
  \<open>write_handshake\<close> of \<open>server_ws.hpp\<close> and the table of \<open>status_code.hpp\<close>, all under
  \<open>src/ext/Simple-WebSocket-Server-v2.0.2\<close>. The functions of OpenSSL behind \<open>crypto.hpp\<close> are the
  record \<open>ws_crypto\<close>; the patterns of the endpoints, which \<open>std::regex\<close> matches, are predicates on
  the path; an \<open>unordered_multimap\<close> is a list of fields in the order in which it is walked, and
  \<open>find\<close> gives the first field of a name. The port of an address is cut to 16 bits, as the cast does. The types are those of the TLS classes, for which there is
  no proxy in the request line.

  Shown: the server answers the request of the client with a response that the client accepts, and
  what comes behind the response in the same piece is what the reader of \<open>Ws_Client\<close> expects.
\<close>

section \<open>Header fields\<close>

definition tolower_ascii :: "byte \<Rightarrow> byte" where
  "tolower_ascii c = (if 0x41 \<le> c \<and> c \<le> 0x5A then c + 0x20 else c)"

definition case_insensitive_equal :: "byte list \<Rightarrow> byte list \<Rightarrow> bool" where
  "case_insensitive_equal str1 str2 \<longleftrightarrow> length str1 = length str2 \<and> list_all2 (\<lambda>a b. tolower_ascii a = tolower_ascii b) str1 str2"

type_synonym multimap = "(byte list \<times> byte list) list"

definition field_find :: "byte list \<Rightarrow> multimap \<Rightarrow> byte list option" where
  "field_find name flds = map_option snd (find (\<lambda>f. case_insensitive_equal (fst f) name) flds)"

text \<open>\<open>getline\<close> on a stream: the line and what is behind its end; there is none in an empty stream.\<close>

definition getline :: "byte list \<Rightarrow> (byte list \<times> byte list) option" where
  "getline s =
     (if s = [] then None
      else let line = takeWhile (\<lambda>c. c \<noteq> 0x0a) s in Some (line, drop (length line + 1) s))"

lemma getline_shorter: "getline s = Some (line, rest) \<Longrightarrow> length rest < length s"
  by (auto simp: getline_def Let_def split: if_splits)

function value_start :: "byte list \<Rightarrow> nat \<Rightarrow> nat" where
  "value_start line pos = (if pos + 1 < length line \<and> line ! pos = 0x20 then value_start line (pos + 1) else pos)"
  by pat_completeness auto
termination
  by (relation "measure (\<lambda>(line, pos). length line - pos)") auto

declare value_start.simps [simp del]

text \<open>1 when the line ends with a carriage return.\<close>

definition cr :: "byte list \<Rightarrow> nat" where
  "cr line = (if last line = 0x0d then 1 else 0)"

definition header_field :: "byte list \<Rightarrow> nat \<Rightarrow> multimap" where
  "header_field line param_end =
     (let start = value_start line (param_end + 1)
      in if start < length line
         then [(take param_end line, take (length line - start - cr line) (drop start line))] else [])"

function header_parse :: "byte list \<Rightarrow> multimap \<times> byte list" where
  "header_parse stream =
     (case getline stream of
        None \<Rightarrow> ([], stream)
      | Some (line, rest) \<Rightarrow>
          (case str_find (cstr '':'') line of
             None \<Rightarrow> ([], rest)
           | Some param_end \<Rightarrow>
               (case header_parse rest of (flds, rest) \<Rightarrow> (header_field line param_end @ flds, rest))))"
  by pat_completeness auto
termination
  by (relation "measure length") (auto dest: getline_shorter)

declare header_parse.simps [simp del]

section \<open>Request and status lines\<close>

text \<open>The loop over the request line: the start of the query and the end of the path.\<close>

function uri_scan :: "byte list \<Rightarrow> nat \<Rightarrow> nat option \<Rightarrow> nat option \<times> nat option" where
  "uri_scan line i query_start =
     (if i < length line then
        (if line ! i = 0x3f \<and> i + 1 < length line \<and> query_start = None then uri_scan line (i + 1) (Some (i + 1))
         else if line ! i = 0x20 then (query_start, Some i)
         else uri_scan line (i + 1) query_start)
      else (query_start, None))"
  by pat_completeness auto
termination
  by (relation "measure (\<lambda>(line, i, q). length line - i)") auto

declare uri_scan.simps [simp del]

record request_t =
  r_method :: "byte list"
  r_path :: "byte list"
  r_query :: "byte list"
  r_version :: "byte list"
  r_header :: multimap

definition request_parse :: "byte list \<Rightarrow> (request_t \<times> byte list) option" where
  "request_parse stream =
     (case getline stream of
        None \<Rightarrow> None
      | Some (line, rest) \<Rightarrow>
          (case str_find (cstr '' '') line of
             None \<Rightarrow> None
           | Some method_end \<Rightarrow>
               (case uri_scan line (method_end + 1) None of
                  (_, None) \<Rightarrow> None
                | (query_start, Some path_end) \<Rightarrow>
                    (case str_find (cstr ''/'') (drop (path_end + 1) line) of
                       None \<Rightarrow> None
                     | Some k \<Rightarrow>
                         (let protocol_end = path_end + 1 + k in
                          if take k (drop (path_end + 1) line) \<noteq> cstr ''HTTP'' then None
                          else (case header_parse rest of (header, rest) \<Rightarrow>
                            Some (\<lparr>r_method = take method_end line,
                              r_path = (case query_start of
                                 Some q \<Rightarrow> substr line (method_end + 1) (word_of_nat q - word_of_nat method_end - 2)
                               | None \<Rightarrow> substr line (method_end + 1) (word_of_nat path_end - word_of_nat method_end - 1)),
                              r_query = (case query_start of
                                 Some q \<Rightarrow> substr line q (word_of_nat path_end - word_of_nat q) | None \<Rightarrow> []),
                              r_version = substr line (protocol_end + 1) (word_of_nat (length line) - word_of_nat protocol_end - 2),
                              r_header = header\<rparr>, rest)))))))"

definition response_parse :: "byte list \<Rightarrow> (byte list \<times> byte list \<times> multimap \<times> byte list) option" where
  "response_parse stream =
     (case getline stream of
        None \<Rightarrow> None
      | Some (line, rest) \<Rightarrow>
          (case str_find (cstr '' '') line of
             None \<Rightarrow> None
           | Some version_end \<Rightarrow>
               if 5 < length line then
                 (if version_end + 1 < length line
                  then (case header_parse rest of (header, rest) \<Rightarrow>
                    Some (substr line 5 (word_of_nat version_end - 5),
                          take (length line - (version_end + 1) - cr line) (drop (version_end + 1) line), header, rest))
                  else None)
               else None))"

section \<open>The status table\<close>

definition status_code_strings :: "(nat \<times> byte list) list" where
  "status_code_strings =
    [(0, cstr ''''),
     (100, cstr ''100 Continue''),
     (101, cstr ''101 Switching Protocols''),
     (102, cstr ''102 Processing''),
     (200, cstr ''200 OK''),
     (201, cstr ''201 Created''),
     (202, cstr ''202 Accepted''),
     (203, cstr ''203 Non-Authoritative Information''),
     (204, cstr ''204 No Content''),
     (205, cstr ''205 Reset Content''),
     (206, cstr ''206 Partial Content''),
     (207, cstr ''207 Multi-Status''),
     (208, cstr ''208 Already Reported''),
     (226, cstr ''226 IM Used''),
     (300, cstr ''300 Multiple Choices''),
     (301, cstr ''301 Moved Permanently''),
     (302, cstr ''302 Found''),
     (303, cstr ''303 See Other''),
     (304, cstr ''304 Not Modified''),
     (305, cstr ''305 Use Proxy''),
     (306, cstr ''306 Switch Proxy''),
     (307, cstr ''307 Temporary Redirect''),
     (308, cstr ''308 Permanent Redirect''),
     (400, cstr ''400 Bad Request''),
     (401, cstr ''401 Unauthorized''),
     (402, cstr ''402 Payment Required''),
     (403, cstr ''403 Forbidden''),
     (404, cstr ''404 Not Found''),
     (405, cstr ''405 Method Not Allowed''),
     (406, cstr ''406 Not Acceptable''),
     (407, cstr ''407 Proxy Authentication Required''),
     (408, cstr ''408 Request Timeout''),
     (409, cstr ''409 Conflict''),
     (410, cstr ''410 Gone''),
     (411, cstr ''411 Length Required''),
     (412, cstr ''412 Precondition Failed''),
     (413, cstr ''413 Payload Too Large''),
     (414, cstr ''414 URI Too Long''),
     (415, cstr ''415 Unsupported Media Type''),
     (416, cstr ''416 Range Not Satisfiable''),
     (417, cstr ''417 Expectation Failed''),
     (418, cstr ''418 I'' @ [0x27] @ cstr ''m a teapot''),
     (421, cstr ''421 Misdirected Request''),
     (422, cstr ''422 Unprocessable Entity''),
     (423, cstr ''423 Locked''),
     (424, cstr ''424 Failed Dependency''),
     (426, cstr ''426 Upgrade Required''),
     (428, cstr ''428 Precondition Required''),
     (429, cstr ''429 Too Many Requests''),
     (431, cstr ''431 Request Header Fields Too Large''),
     (451, cstr ''451 Unavailable For Legal Reasons''),
     (500, cstr ''500 Internal Server Error''),
     (501, cstr ''501 Not Implemented''),
     (502, cstr ''502 Bad Gateway''),
     (503, cstr ''503 Service Unavailable''),
     (504, cstr ''504 Gateway Timeout''),
     (505, cstr ''505 HTTP Version Not Supported''),
     (506, cstr ''506 Variant Also Negotiates''),
     (507, cstr ''507 Insufficient Storage''),
     (508, cstr ''508 Loop Detected''),
     (510, cstr ''510 Not Extended''),
     (511, cstr ''511 Network Authentication Required'')]"

definition status_text :: "nat \<Rightarrow> byte list" where
  "status_text code = (case map_of status_code_strings code of None \<Rightarrow> [] | Some s \<Rightarrow> s)"

section \<open>The server\<close>

record ws_crypto =
  sha1 :: "byte list \<Rightarrow> byte list"
  b64_encode :: "byte list \<Rightarrow> byte list"
  b64_decode :: "byte list \<Rightarrow> byte list"

definition ws_magic_string :: "byte list" where
  "ws_magic_string = cstr ''258EAFA5-E914-47DA-95CA-C5AB0DC85B11''"

text \<open>An endpoint: its pattern and \<open>on_handshake\<close>, which may change the fields of the response.\<close>

record endpoint =
  ep_matches :: "byte list \<Rightarrow> bool"
  ep_on_handshake :: "(multimap \<Rightarrow> nat \<times> multimap) option"

definition header_lines :: "multimap \<Rightarrow> byte list" where
  "header_lines flds = concat (map (\<lambda>f. fst f @ cstr '': '' @ snd f @ crlf) flds)"

text \<open>\<open>walk\<close> is the order in which the fields of the response are walked.\<close>

definition endpoint_response :: "ws_crypto \<Rightarrow> (multimap \<Rightarrow> multimap) \<Rightarrow> multimap \<Rightarrow> endpoint \<Rightarrow> request_t \<Rightarrow> nat \<times> byte list" where
  "endpoint_response C walk config_header e rq =
     (let (status, head) = (case field_find (cstr ''Sec-WebSocket-Key'') (r_header rq) of
              None \<Rightarrow> (426, [])
            | Some key \<Rightarrow>
                (let response_header = config_header @ [(cstr ''Upgrade'', cstr ''websocket''), (cstr ''Connection'', cstr ''Upgrade''),
                       (cstr ''Sec-WebSocket-Accept'', b64_encode C (sha1 C (key @ ws_magic_string)))];
                     (status, response_header) = (case ep_on_handshake e of
                         None \<Rightarrow> (101, response_header) | Some f \<Rightarrow> f response_header)
                 in (status, if status = 101
                     then cstr ''HTTP/1.1 101 Web Socket Protocol Handshake'' @ crlf @ header_lines (walk response_header) @ crlf
                     else [])))
      in (status, head @ (if status \<noteq> 101 then cstr ''HTTP/1.1 '' @ status_text status @ crlf @ crlf else [])))"

definition write_handshake :: "ws_crypto \<Rightarrow> (multimap \<Rightarrow> multimap) \<Rightarrow> multimap \<Rightarrow> endpoint list \<Rightarrow> request_t \<Rightarrow> (endpoint \<times> nat \<times> byte list) option" where
  "write_handshake C walk config_header endpoints rq =
     map_option (\<lambda>e. (e, endpoint_response C walk config_header e rq)) (find (\<lambda>e. ep_matches e (r_path rq)) endpoints)"

text \<open>
  \<open>read_handshake\<close> on the bytes that are in the buffer when the blank line has come: the endpoint,
  the status, the response and the connection of an endpoint that switches, with what is left in its buffer.
\<close>

definition read_handshake ::
    "ws_crypto \<Rightarrow> (multimap \<Rightarrow> multimap) \<Rightarrow> multimap \<Rightarrow> endpoint list \<Rightarrow> byte list \<Rightarrow> (endpoint \<times> nat \<times> byte list \<times> server_conn) option" where
  "read_handshake C walk config_header endpoints streambuf =
     (case request_parse streambuf of
        None \<Rightarrow> None
      | Some (rq, rest) \<Rightarrow>
          map_option (\<lambda>(e, status, response). (e, status, response,
              \<lparr>w_in = [], w_frag = None, w_closed = False, w_sent = [], s_buf = rest, s_open = False\<rparr>))
            (write_handshake C walk config_header endpoints rq))"

section \<open>The client\<close>

text \<open>\<open>std::stoul\<close>; \<open>None\<close> is one of its exceptions.\<close>

definition stoul :: "byte list \<Rightarrow> u64 option" where
  "stoul s =
     (let d = dropWhile is_space_byte (c_str s);
          neg = (d \<noteq> [] \<and> hd d = 0x2d);
          d = (if d \<noteq> [] \<and> (hd d = 0x2d \<or> hd d = 0x2b) then tl d else d);
          n = undec (takeWhile is_digit_byte d)
      in if d = [] \<or> \<not> is_digit_byte (hd d) \<or> 2 ^ 64 \<le> n then None
         else Some (if neg then - word_of_nat n else word_of_nat n))"

definition parse_host_port :: "byte list \<Rightarrow> u16 \<Rightarrow> byte list \<times> u16" where
  "parse_host_port host_port default_port =
     (case str_find (cstr '':'') host_port of
        None \<Rightarrow> (host_port, default_port)
      | Some host_end \<Rightarrow> (take host_end host_port,
          case stoul (drop (host_end + 1) host_port) of None \<Rightarrow> default_port | Some n \<Rightarrow> ucast n))"

record client_address =
  a_host :: "byte list"
  a_port :: u16
  a_path :: "byte list"

definition client_address_of :: "byte list \<Rightarrow> u16 \<Rightarrow> client_address" where
  "client_address_of host_port_path default_port =
     (let host_port_end = str_find (cstr ''/'') host_port_path;
          (host, port) = parse_host_port (case host_port_end of None \<Rightarrow> host_port_path | Some n \<Rightarrow> take n host_port_path) default_port
      in \<lparr>a_host = host, a_port = port,
          a_path = (case host_port_end of Some n \<Rightarrow> drop n host_port_path | None \<Rightarrow> cstr ''/'')\<rparr>)"

text \<open>The nonce in Base64, of the first 16 numbers of the random device \<open>rd\<close>, and the request.\<close>

definition upgrade_nonce :: "ws_crypto \<Rightarrow> (nat \<Rightarrow> byte) \<Rightarrow> byte list" where
  "upgrade_nonce C rd = b64_encode C (map rd [0..<16])"

definition upgrade_request :: "client_address \<Rightarrow> u16 \<Rightarrow> multimap \<Rightarrow> byte list \<Rightarrow> byte list" where
  "upgrade_request a default_port config_header nonce_base64 =
     cstr ''GET '' @ a_path a @ cstr '' HTTP/1.1'' @ crlf
     @ cstr ''Host: '' @ a_host a @ (if a_port a \<noteq> default_port then cstr '':'' @ dec_nat (unat (a_port a)) else []) @ crlf
     @ cstr ''Upgrade: websocket'' @ crlf
     @ cstr ''Connection: Upgrade'' @ crlf
     @ cstr ''Sec-WebSocket-Key: '' @ nonce_base64 @ crlf
     @ cstr ''Sec-WebSocket-Version: 13'' @ crlf
     @ header_lines config_header
     @ crlf"

datatype upgrade_result =
    Upgraded "byte list" "byte list" client_conn
  | Protocol_error
  | Permission_denied

text \<open>The bytes in the buffer when the blank line has come; \<open>bytes_transferred\<close> ends behind it.\<close>

definition upgrade_response :: "ws_crypto \<Rightarrow> (nat \<Rightarrow> byte) \<Rightarrow> byte list \<Rightarrow> upgrade_result" where
  "upgrade_response C rd streambuf =
     (let bytes_transferred = (case str_find (crlf @ crlf) streambuf of None \<Rightarrow> 0 | Some n \<Rightarrow> n + 4);
          num_additional_bytes = length streambuf - bytes_transferred
      in case response_parse streambuf of
           None \<Rightarrow> Protocol_error
         | Some (http_version, status_code, header, rest) \<Rightarrow>
             if take 4 status_code \<noteq> cstr ''101 '' then Permission_denied
             else (case field_find (cstr ''Sec-WebSocket-Accept'') header of
                     None \<Rightarrow> Protocol_error
                   | Some accept \<Rightarrow>
                       if b64_decode C accept = sha1 C (upgrade_nonce C rd @ ws_magic_string)
                       then Upgraded http_version status_code
                         \<lparr>w_in = [], w_frag = None, w_closed = False, w_sent = [], c_msg = new_message\<lparr>im_buf := rest\<rparr>,
                          c_extra = num_additional_bytes, c_rd = rd, c_drawn = 16\<rparr>
                       else Protocol_error))"

section \<open>Reading header fields\<close>

lemma getline_line:
  assumes "0x0a \<notin> set l"
  shows "getline (l @ crlf @ s) = Some (l @ [0x0d], s)"
proof -
  have "takeWhile (\<lambda>c. c \<noteq> 0x0a) (l @ crlf @ s) = l @ [0x0d]"
    using assms by (induction l) (auto simp: crlf_def)
  then show ?thesis by (simp add: getline_def crlf_def)
qed

definition value_ok :: "byte list \<Rightarrow> bool" where
  "value_ok v \<longleftrightarrow> line_ok v \<and> hd v \<noteq> 0x20"

definition field_ok :: "byte list \<times> byte list \<Rightarrow> bool" where
  "field_ok f \<longleftrightarrow> line_ok (fst f) \<and> 0x3a \<notin> set (fst f) \<and> value_ok (snd f)"

lemma header_field_line:
  assumes "field_ok (n, v)"
  shows "str_find (cstr '':'') (n @ cstr '': '' @ v @ [0x0d]) = Some (length n)"
    "header_field (n @ cstr '': '' @ v @ [0x0d]) (length n) = [(n, v)]"
proof -
  show "str_find (cstr '':'') (n @ cstr '': '' @ v @ [0x0d]) = Some (length n)"
    using str_find_after [where c = "0x3a" and a = n and s = "0x20 # v @ [0x0d]"] assms by (simp add: field_ok_def cstr_def)
  obtain c cs where v: "v = c # cs" "c \<noteq> 0x20" using assms by (cases v) (auto simp: field_ok_def value_ok_def line_ok_def)
  let ?l = "n @ cstr '': '' @ v @ [0x0d]"
  have at: "?l ! Suc (length n) = 0x20" "?l ! Suc (Suc (length n)) = c"
    by (simp_all add: nth_append cstr_def v(1))
  have "value_start ?l (length n + 1) = value_start ?l (length n + 2)"
    using at by (subst value_start.simps) simp
  also have "\<dots> = length n + 2" using at v(2) by (subst value_start.simps) simp
  finally have "value_start ?l (length n + 1) = length n + 2" .
  then show "header_field ?l (length n) = [(n, v)]"
    by (simp add: header_field_def cr_def cstr_def)
qed

lemma header_parse_lines:
  "list_all field_ok fs \<Longrightarrow> header_parse (header_lines fs @ crlf @ s) = (fs, s)"
proof (induction fs)
  case Nil
  have "getline (crlf @ s) = Some ([0x0d], s)" using getline_line [of "[]" s] by simp
  then show ?case by (subst header_parse.simps) (simp add: header_lines_def cstr_def)
next
  case (Cons f fs)
  obtain n v where f: "f = (n, v)" by (cases f)
  let ?l = "n @ cstr '': '' @ v"
  have "field_ok (n, v)" using Cons.prems f by simp
  note field = header_field_line [OF this]
  have "0x0a \<notin> set ?l" using \<open>field_ok (n, v)\<close> by (auto simp: field_ok_def value_ok_def line_ok_def cstr_def)
  then have "getline (?l @ crlf @ (header_lines fs @ crlf @ s)) = Some (?l @ [0x0d], header_lines fs @ crlf @ s)"
    by (rule getline_line)
  with Cons field show ?case by (subst header_parse.simps) (simp add: header_lines_def f)
qed

lemma field_find_only:
  assumes "(n, v) \<in> set fs" "\<forall>f \<in> set fs. case_insensitive_equal (fst f) n \<longrightarrow> f = (n, v)"
  shows "field_find n fs = Some v"
proof -
  have "case_insensitive_equal n n" by (simp add: case_insensitive_equal_def list_all2_refl)
  with assms(1) obtain f where f: "find (\<lambda>f. case_insensitive_equal (fst f) n) fs = Some f"
    by (cases "find (\<lambda>f. case_insensitive_equal (fst f) n) fs") (auto simp: find_None_iff)
  then have "f \<in> set fs \<and> case_insensitive_equal (fst f) n" by (auto simp: find_Some_iff)
  with assms(2) have "f = (n, v)" by blast
  with f show ?thesis by (simp add: field_find_def)
qed

section \<open>Where the blank line is\<close>

lemma str_find_first:
  "str_find pat h = None \<Longrightarrow> h @ [c] = p @ pat \<Longrightarrow> str_find pat (h @ c # s) = Some (length p)"
proof (induction p arbitrary: h)
  case Nil
  then have "take (length pat) (h @ c # s) = pat" by (metis append.assoc append_Cons append_Nil append_eq_conv_conj)
  then show ?case by (cases h) auto
next
  case (Cons a p)
  show ?case
  proof (cases h)
    case Nil
    with Cons.prems have "pat = []" "p = []" by simp_all
    with Cons.prems show ?thesis by (simp add: Nil)
  next
    case h: (Cons b h')
    with Cons.prems have eq: "b = a" "h' @ [c] = p @ pat" by simp_all
    from arg_cong [OF eq(2), of length] have "length pat \<le> length (b # h')" by simp
    then have "take (length pat) ((b # h') @ c # s) = take (length pat) (b # h')" by (simp only: take_append) simp
    then have "take (length pat) (b # h' @ c # s) = take (length pat) (b # h')" by (simp only: append_Cons)
    moreover have "take (length pat) (b # h') \<noteq> pat" "str_find pat h' = None"
      using Cons.prems(1) h by (auto split: if_splits)
    ultimately show ?thesis using Cons.IH [OF _ eq(2)] h by simp
  qed
qed

definition blank :: "byte list" where
  "blank = crlf @ crlf"

text \<open>A head of lines with its blank line, in pieces, and what comes behind it.\<close>

lemma read_head:
  assumes "list_all line_ok ls" "ls \<noteq> []" "concat pieces = header_text ls @ crlf @ body"
  shows "\<exists>part rest. read_until blank [] pieces = Some (header_text ls @ crlf @ part, rest) \<and> part @ concat rest = body
    \<and> str_find blank (header_text ls @ crlf @ part) = Some (length (header_text ls) - 2)"
proof -
  let ?h = "header_text ls @ [0x0d]"
  have none: "str_find blank ?h = None" unfolding blank_def by (rule header_text_no_delim [OF assms(1)])
  obtain ls' l where ls: "ls = ls' @ [l]" using assms(2) by (metis append_butlast_last_id)
  let ?p = "header_text ls' @ l"
  have head: "header_text ls = ?p @ crlf" by (simp add: ls header_text_def)
  have p: "?h @ [0x0a] = ?p @ blank" by (simp add: head blank_def crlf_def)
  then have "\<exists>p. ?h @ [0x0a] = p @ blank" by blast
  moreover have "[] @ concat pieces = ?h @ 0x0a # body" using assms(3) by (simp add: crlf_def)
  ultimately obtain part rest where "read_until blank [] pieces = Some (?h @ 0x0a # part, rest)" "part @ concat rest = body"
    using read_until_header [OF none] by blast
  moreover have "str_find blank (?h @ 0x0a # part) = Some (length ?p)" by (rule str_find_first [OF none p])
  ultimately show ?thesis by (intro exI [of _ part] exI [of _ rest]) (simp add: head crlf_def)
qed

section \<open>The request\<close>

definition address_ok :: "client_address \<Rightarrow> bool" where
  "address_ok a \<longleftrightarrow> value_ok (a_host a) \<and> set (a_path a) \<inter> {0x20, 0x3f, 0x0a, 0x0d} = {} \<and> length (a_path a) < 2 ^ 32"

definition request_fields :: "client_address \<Rightarrow> u16 \<Rightarrow> byte list \<Rightarrow> multimap" where
  "request_fields a default_port nonce_base64 =
     [(cstr ''Host'', a_host a @ (if a_port a \<noteq> default_port then cstr '':'' @ dec_nat (unat (a_port a)) else [])),
      (cstr ''Upgrade'', cstr ''websocket''), (cstr ''Connection'', cstr ''Upgrade''),
      (cstr ''Sec-WebSocket-Key'', nonce_base64), (cstr ''Sec-WebSocket-Version'', cstr ''13'')]"

definition request_line :: "client_address \<Rightarrow> byte list" where
  "request_line a = cstr ''GET '' @ a_path a @ cstr '' HTTP/1.1''"

lemma upgrade_request_text:
  "upgrade_request a dp [] k = request_line a @ crlf @ header_lines (request_fields a dp k) @ crlf"
  by (simp add: upgrade_request_def request_line_def header_lines_def request_fields_def cstr_def)

lemma dec_nat_line: "0x0d \<notin> set (dec_nat n)" "0x0a \<notin> set (dec_nat n)"
  using dec_nat_digits [of "0x0d" n] dec_nat_digits [of "0x0a" n] by (auto simp: is_digit_byte_def)

lemma request_fields_ok:
  assumes "address_ok a" "value_ok k"
  shows "list_all field_ok (request_fields a dp k)"
proof -
  have host: "value_ok (a_host a)" using assms(1) by (simp add: address_ok_def)
  then have "value_ok (a_host a @ (if a_port a \<noteq> dp then cstr '':'' @ dec_nat (unat (a_port a)) else []))"
    using dec_nat_line [of "unat (a_port a)"] by (cases "a_host a") (auto simp: value_ok_def line_ok_def cstr_def)
  moreover have "value_ok (cstr ''websocket'')" "value_ok (cstr ''Upgrade'')" "value_ok (cstr ''13'')"
    by (simp_all add: value_ok_def line_ok_def cstr_def)
  ultimately show ?thesis
    using assms(2) by (simp add: request_fields_def field_ok_def) (simp add: line_ok_def cstr_def)
qed

lemma uri_scan_path:
  "0x20 \<notin> set p \<Longrightarrow> 0x3f \<notin> set p \<Longrightarrow>
     uri_scan (pre @ p @ 0x20 # post) (length pre) None = (None, Some (length pre + length p))"
proof (induction p arbitrary: pre)
  case Nil
  then show ?case by (subst uri_scan.simps) (simp add: nth_append)
next
  case (Cons c p)
  have "uri_scan (pre @ (c # p) @ 0x20 # post) (length pre) None =
      uri_scan ((pre @ [c]) @ p @ 0x20 # post) (length (pre @ [c])) None"
    using Cons.prems by (subst uri_scan.simps) (auto simp: nth_append)
  also have "\<dots> = (None, Some (length (pre @ [c]) + length p))"
    using Cons.prems by (intro Cons.IH) simp_all
  finally show ?case by simp
qed

lemma unat_small: "n < 2 ^ 64 \<Longrightarrow> unat (word_of_nat n :: u64) = n"
  by (simp add: unsigned_of_nat take_bit_nat_eq_self)

lemma drop_exact: "length xs = n \<Longrightarrow> drop n (xs @ ys) = ys"
  by simp

lemma request_parse_text:
  assumes "address_ok a" "list_all field_ok flds"
  shows "request_parse (request_line a @ crlf @ header_lines flds @ crlf @ s) =
    Some (\<lparr>r_method = cstr ''GET'', r_path = a_path a, r_query = [], r_version = cstr ''1.1'', r_header = flds\<rparr>, s)"
proof -
  let ?p = "a_path a"
  let ?l = "cstr ''GET '' @ ?p @ 0x20 # cstr ''HTTP/1.1'' @ [0x0d]"
  have line: "request_line a @ [0x0d] = ?l" by (simp add: request_line_def cstr_def)
  have "0x0a \<notin> set (request_line a)"
    using assms(1) by (auto simp: request_line_def address_ok_def cstr_def)
  from getline_line [OF this] have get: "getline (request_line a @ crlf @ (header_lines flds @ crlf @ s))
      = Some (?l, header_lines flds @ crlf @ s)" by (simp only: line)
  have method_end: "str_find (cstr '' '') ?l = Some 3"
    using str_find_after [where c = "0x20" and a = "cstr ''GET''" and s = "?p @ 0x20 # cstr ''HTTP/1.1'' @ [0x0d]"]
    by (simp add: cstr_def)
  have four: "length (cstr ''GET '') = 4" by (simp add: cstr_def)
  have "0x20 \<notin> set ?p" "0x3f \<notin> set ?p" using assms(1) by (simp_all add: address_ok_def)
  then have "uri_scan ?l (length (cstr ''GET '')) None = (None, Some (length (cstr ''GET '') + length ?p))"
    by (rule uri_scan_path)
  then have scan: "uri_scan ?l (3 + 1) None = (None, Some (4 + length ?p))" unfolding four by simp
  have "?l = (cstr ''GET '' @ ?p @ [0x20]) @ cstr ''HTTP/1.1'' @ [0x0d]" by simp
  then have behind: "drop (4 + length ?p + 1) ?l = cstr ''HTTP/1.1'' @ [0x0d]" by (simp only:) (rule drop_exact, simp add: four)
  have version: "drop (4 + length ?p + 1 + 4 + 1) ?l = cstr ''1.1'' @ [0x0d]"
    using drop_exact [of "cstr ''GET '' @ ?p @ cstr '' HTTP/''" "4 + length ?p + 1 + 4 + 1" "cstr ''1.1'' @ [0x0d]"]
    by (simp add: cstr_def)
  have slash: "str_find (cstr ''/'') (cstr ''HTTP/1.1'' @ [0x0d]) = Some 4" by (simp add: cstr_def)
  have len: "length ?p < 2 ^ 64" using assms(1) by (simp add: address_ok_def)
  have from_path: "drop (3 + 1) ?l = ?p @ 0x20 # cstr ''HTTP/1.1'' @ [0x0d]" using four by (intro drop_exact) simp
  have size: "length ?l = 4 + length ?p + 10" by (simp add: cstr_def)
  have counts: "word_of_nat (4 + length ?p) - word_of_nat 3 - 1 = (word_of_nat (length ?p) :: u64)"
      "word_of_nat (4 + length ?p + 10) - word_of_nat (4 + length ?p + 1 + 4) - 2 = (3 :: u64)" by simp_all
  have http: "take 4 (cstr ''HTTP/1.1'' @ [0x0d]) = cstr ''HTTP''" and get_word: "take 3 ?l = cstr ''GET''"
      and three: "take (unat (3 :: u64)) (cstr ''1.1'' @ [0x0d]) = cstr ''1.1''"
    by (simp_all add: cstr_def)
  show ?thesis
    unfolding request_parse_def get option.case prod.case method_end scan behind slash http Let_def
      header_parse_lines [OF assms(2)] substr_def from_path version size counts three get_word unat_small [OF len] by simp
qed

section \<open>The response\<close>

definition status_line :: "byte list" where
  "status_line = cstr ''HTTP/1.1 101 Web Socket Protocol Handshake''"

lemma response_parse_text:
  assumes "list_all field_ok flds"
  shows "response_parse (status_line @ crlf @ header_lines flds @ crlf @ s) =
    Some (cstr ''1.1'', cstr ''101 Web Socket Protocol Handshake'', flds, s)"
proof -
  have "0x0a \<notin> set status_line" by (simp add: status_line_def cstr_def)
  then have get: "getline (status_line @ crlf @ (header_lines flds @ crlf @ s)) =
      Some (status_line @ [0x0d], header_lines flds @ crlf @ s)" by (rule getline_line)
  show ?thesis unfolding response_parse_def get option.case prod.case header_parse_lines [OF assms]
    by (simp add: status_line_def cstr_def substr_def cr_def)
qed

text \<open>What the programs rely on of the functions of OpenSSL: a digest has 20 bytes, and what Base64 encodes is decoded again.\<close>

definition crypto_ok :: "ws_crypto \<Rightarrow> bool" where
  "crypto_ok C \<longleftrightarrow> (\<forall>x. length (sha1 C x) = 20)
     \<and> (\<forall>x. x \<noteq> [] \<longrightarrow> b64_decode C (b64_encode C x) = x \<and> value_ok (b64_encode C x))"

definition accept_fields :: "ws_crypto \<Rightarrow> byte list \<Rightarrow> multimap" where
  "accept_fields C key = [(cstr ''Upgrade'', cstr ''websocket''), (cstr ''Connection'', cstr ''Upgrade''),
     (cstr ''Sec-WebSocket-Accept'', b64_encode C (sha1 C (key @ ws_magic_string)))]"

lemma accept_fields_ok:
  assumes "crypto_ok C"
  shows "list_all field_ok (accept_fields C key)"
proof -
  have "sha1 C (key @ ws_magic_string) \<noteq> []" using assms unfolding crypto_ok_def by (metis list.size(3) zero_neq_numeral)
  then have "value_ok (b64_encode C (sha1 C (key @ ws_magic_string)))" using assms by (simp add: crypto_ok_def)
  moreover have "value_ok (cstr ''websocket'')" "value_ok (cstr ''Upgrade'')" by (simp_all add: value_ok_def line_ok_def cstr_def)
  ultimately show ?thesis by (simp add: accept_fields_def field_ok_def) (simp add: line_ok_def cstr_def)
qed

lemma lines_of_fields: "list_all field_ok fs \<Longrightarrow> \<exists>ls. list_all line_ok ls \<and> header_lines fs = header_text ls"
proof (induction fs)
  case Nil
  then show ?case by (intro exI [of _ "[]"]) (simp add: header_lines_def header_text_def)
next
  case (Cons f fs)
  then obtain ls where ls: "list_all line_ok ls" "header_lines fs = header_text ls" by auto
  have "line_ok (fst f @ cstr '': '' @ snd f)" using Cons.prems by (auto simp: field_ok_def value_ok_def line_ok_def cstr_def)
  with ls show ?case
    by (intro exI [of _ "(fst f @ cstr '': '' @ snd f) # ls"]) (simp add: header_lines_def header_text_def)
qed

text \<open>The head of a request or of a response, cut anywhere, with what comes behind it.\<close>

lemma read_message_head:
  assumes "line_ok l" "list_all field_ok fs" "concat pieces = l @ crlf @ header_lines fs @ crlf @ body"
  obtains part rest k where "read_until blank [] pieces = Some (l @ crlf @ header_lines fs @ crlf @ part, rest)"
    "part @ concat rest = body" "str_find blank (l @ crlf @ header_lines fs @ crlf @ part) = Some k"
    "length (l @ crlf @ header_lines fs @ crlf @ part) = k + 4 + length part"
proof -
  obtain ls where ls: "list_all line_ok ls" "header_lines fs = header_text ls" using lines_of_fields [OF assms(2)] by blast
  have whole: "header_text (l # ls) = l @ crlf @ header_lines fs" by (simp add: header_text_def ls(2))
  have "list_all line_ok (l # ls)" "concat pieces = header_text (l # ls) @ crlf @ body"
    using assms ls(1) by (simp_all add: whole)
  from read_head [OF this(1) _ this(2)] obtain part rest where
    "read_until blank [] pieces = Some (header_text (l # ls) @ crlf @ part, rest)" "part @ concat rest = body"
    "str_find blank (header_text (l # ls) @ crlf @ part) = Some (length (header_text (l # ls)) - 2)" by auto
  moreover have "2 \<le> length (header_text (l # ls))" by (simp add: header_text_def crlf_def)
  ultimately show thesis
    by (intro that [of part rest "length (header_text (l # ls)) - 2"]) (simp_all add: whole, simp add: crlf_def)
qed

section \<open>Both ends agree\<close>

text \<open>The server switches at an endpoint whose \<open>on_handshake\<close> is not set or, as in the relay, leaves the fields alone.\<close>

definition switches :: "endpoint \<Rightarrow> bool" where
  "switches e \<longleftrightarrow> ep_on_handshake e = None \<or> ep_on_handshake e = Some (\<lambda>flds. (101, flds))"

definition relay_endpoint :: endpoint where
  "relay_endpoint = \<lparr>ep_matches = (\<lambda>path. path = cstr ''/''), ep_on_handshake = Some (\<lambda>flds. (101, flds))\<rparr>"

lemma nonce_ok: "crypto_ok C \<Longrightarrow> value_ok (upgrade_nonce C rd)"
  by (simp add: crypto_ok_def upgrade_nonce_def)

lemma request_read:
  assumes "crypto_ok C" "address_ok a" "concat pieces = upgrade_request a dp [] (upgrade_nonce C rd)"
  obtains buf rest where "read_until blank [] pieces = Some (buf, rest)" "concat rest = []"
    "request_parse buf = Some (\<lparr>r_method = cstr ''GET'', r_path = a_path a, r_query = [], r_version = cstr ''1.1'',
       r_header = request_fields a dp (upgrade_nonce C rd)\<rparr>, [])"
proof -
  let ?fs = "request_fields a dp (upgrade_nonce C rd)"
  have fs: "list_all field_ok ?fs" using assms(2) nonce_ok [OF assms(1)] by (rule request_fields_ok)
  have "line_ok (request_line a)" using assms(2) by (auto simp: line_ok_def request_line_def address_ok_def cstr_def)
  moreover have "concat pieces = request_line a @ crlf @ header_lines ?fs @ crlf @ []" using assms(3) by (simp add: upgrade_request_text)
  ultimately obtain part rest where
    "read_until blank [] pieces = Some (request_line a @ crlf @ header_lines ?fs @ crlf @ part, rest)" "part @ concat rest = []"
    using fs by - (rule read_message_head)
  with that request_parse_text [OF assms(2) fs, of "[]"] show thesis by simp
qed

lemma key_found: "field_find (cstr ''Sec-WebSocket-Key'') (request_fields a dp k) = Some k"
  by (simp add: field_find_def request_fields_def case_insensitive_equal_def cstr_def tolower_ascii_def)

lemma endpoint_switches:
  assumes "switches e"
  shows "endpoint_response C walk [] e \<lparr>r_method = m, r_path = p, r_query = q, r_version = v, r_header = request_fields a dp k\<rparr>
    = (101, status_line @ crlf @ header_lines (walk (accept_fields C k)) @ crlf)"
  using assms by (auto simp: endpoint_response_def switches_def key_found accept_fields_def status_line_def)

lemma accept_found:
  assumes "set fs = set (accept_fields C k)"
  shows "field_find (cstr ''Sec-WebSocket-Accept'') fs = Some (b64_encode C (sha1 C (k @ ws_magic_string)))"
  using assms by (intro field_find_only) (auto simp: accept_fields_def case_insensitive_equal_def cstr_def)

lemma response_read:
  assumes "crypto_ok C" "set fs = set (accept_fields C (upgrade_nonce C rd))"
    and "concat pieces = (status_line @ crlf @ header_lines fs @ crlf) @ frames"
  obtains buf rest first c where "read_until blank [] pieces = Some (buf, rest)"
    "upgrade_response C rd buf = Upgraded (cstr ''1.1'') (cstr ''101 Web Socket Protocol Handshake'') c"
    "bytes_ahead (reading c) first" "w_frag c = None" "first @ concat rest = frames"
proof -
  have fs: "list_all field_ok fs"
    using accept_fields_ok [OF assms(1), of "upgrade_nonce C rd"] assms(2) by (simp add: list_all_iff)
  have "line_ok status_line" by (simp add: line_ok_def status_line_def cstr_def)
  then obtain part rest k where head:
    "read_until blank [] pieces = Some (status_line @ crlf @ header_lines fs @ crlf @ part, rest)" "part @ concat rest = frames"
    "str_find blank (status_line @ crlf @ header_lines fs @ crlf @ part) = Some k"
    "length (status_line @ crlf @ header_lines fs @ crlf @ part) = k + 4 + length part"
    using fs assms(3) by - (rule read_message_head [of status_line fs pieces frames], simp_all)
  let ?k = "upgrade_nonce C rd"
  let ?c = "\<lparr>w_in = [], w_frag = None, w_closed = False, w_sent = [], c_msg = new_message\<lparr>im_buf := part\<rparr>,
      c_extra = length part, c_rd = rd, c_drawn = 16\<rparr>"
  have "sha1 C (?k @ ws_magic_string) \<noteq> []" using assms(1) unfolding crypto_ok_def by (metis list.size(3) zero_neq_numeral)
  then have "b64_decode C (b64_encode C (sha1 C (?k @ ws_magic_string))) = sha1 C (?k @ ws_magic_string)"
    using assms(1) by (simp add: crypto_ok_def)
  moreover have "take 4 (cstr ''101 Web Socket Protocol Handshake'') = cstr ''101 ''" by (simp add: cstr_def)
  ultimately have "upgrade_response C rd (status_line @ crlf @ header_lines fs @ crlf @ part) =
      Upgraded (cstr ''1.1'') (cstr ''101 Web Socket Protocol Handshake'') ?c"
    unfolding upgrade_response_def Let_def head(3) [unfolded blank_def] head(4) response_parse_text [OF fs] option.case prod.case
      accept_found [OF assms(2)] by simp
  moreover have "bytes_ahead (reading ?c) part" by (simp add: ahead_reading new_message_def)
  ultimately show thesis using that [OF head(1)] head(2) by simp
qed

text \<open>
  C19. The handshake: the server reads the request of the client and answers it, the client accepts
  the answer, and no byte is lost on the way: the request and the response may be cut anywhere,
  the header fields of the response may come in any order, and of the frames that the server
  sends behind its response any part may come with it; the message handler of the client is called for
  each of them in order, after the opening.
\<close>

theorem handshake_agrees:
  assumes "crypto_ok C" "address_ok a" "find (\<lambda>e. ep_matches e (a_path a)) endpoints = Some e" "switches e"
    and "\<forall>flds. set (walk flds) = set flds" "concat pieces = upgrade_request a default_port [] (upgrade_nonce C rd)"
  shows "\<exists>buf rest resp s. read_until blank [] pieces = Some (buf, rest) \<and> concat rest = []
    \<and> read_handshake C walk [] endpoints buf = Some (e, 101, resp, s) \<and> between_frames s
    \<and> (\<forall>pieces fs. list_all plain_ok fs \<and> list_all (\<lambda>f. is_message (fst f)) fs
        \<and> concat pieces = resp @ concat (map plain fs) \<longrightarrow>
        (\<exists>buf rest c r. read_until blank [] pieces = Some (buf, rest)
          \<and> upgrade_response C rd buf = Upgraded (cstr ''1.1'') (cstr ''101 Web Socket Protocol Handshake'') c
          \<and> bytes_ahead r []
          \<and> receive (client_run h (- 1)) client_feed rest (client_run h (- 1) (client_report h Report_open (u, c)))
              = (Waiting, set_state r (fold (report_plain h) fs (client_report h Report_open (u, c))))))"
proof -
  let ?k = "upgrade_nonce C rd" and ?fs = "walk (accept_fields C (upgrade_nonce C rd))"
  let ?resp = "status_line @ crlf @ header_lines ?fs @ crlf"
  let ?s = "\<lparr>w_in = [], w_frag = None, w_closed = False, w_sent = [], s_buf = [], s_open = False\<rparr> :: server_conn"
  obtain buf rest where req: "read_until blank [] pieces = Some (buf, rest)" "concat rest = []"
    "request_parse buf = Some (\<lparr>r_method = cstr ''GET'', r_path = a_path a, r_query = [], r_version = cstr ''1.1'',
       r_header = request_fields a default_port ?k\<rparr>, [])"
    using assms(1,2,6) by (rule request_read)
  have "read_handshake C walk [] endpoints buf = Some (e, 101, ?resp, ?s)"
    by (simp add: read_handshake_def req(3) write_handshake_def assms(3) endpoint_switches [OF assms(4)])
  moreover have "between_frames ?s" by (simp add: between_frames_def)
  moreover have "\<exists>buf rest c r. read_until blank [] ps = Some (buf, rest)
      \<and> upgrade_response C rd buf = Upgraded (cstr ''1.1'') (cstr ''101 Web Socket Protocol Handshake'') c \<and> bytes_ahead r []
      \<and> receive (client_run h (- 1)) client_feed rest (client_run h (- 1) (client_report h Report_open (u, c)))
          = (Waiting, set_state r (fold (report_plain h) fs (client_report h Report_open (u, c))))"
    if fs: "list_all plain_ok fs" "list_all (\<lambda>f. is_message (fst f)) fs" "concat ps = ?resp @ concat (map plain fs)" for ps fs
  proof -
    have "set ?fs = set (accept_fields C ?k)" using assms(5) by blast
    from response_read [OF assms(1) this fs(3)] obtain buf rest first c where r:
      "read_until blank [] ps = Some (buf, rest)" "bytes_ahead (reading c) first" "w_frag c = None"
      "upgrade_response C rd buf = Upgraded (cstr ''1.1'') (cstr ''101 Web Socket Protocol Handshake'') c"
      "first @ concat rest = concat (map plain fs)" by metis
    obtain u' c' where opened: "client_report h Report_open (u, c) = (u', c')" by fastforce
    have "reading c' = reading c" "w_frag c' = None"
      using client_report_keeps [of h Report_open "(u, c)"] client_report_frag [of h Report_open "(u, c)"] r(3) opened by simp_all
    with client_receive_frames [of c' first fs rest h u'] client_messages_effect [of "(u', c')" fs h] r fs(1,2) opened
    show ?thesis by fastforce
  qed
  ultimately show ?thesis using req(1,2) by blast
qed

text \<open>A library with a constant digest and the Base64 of \<open>base64.c\<close>.\<close>

definition sample_decode :: "byte list \<Rightarrow> byte list" where
  "sample_decode s =
     (let n = base64_decoded_length (length s)
      in case base64_decode_using_maps base64_maps_rfc4648 (replicate n 0) n s of
           Some (Inr k, dest) \<Rightarrow> take k dest | _ \<Rightarrow> [])"

definition sample_crypto :: ws_crypto where
  "sample_crypto = \<lparr>sha1 = (\<lambda>_. replicate 20 7), b64_encode = b64_text (encode_map base64_maps_rfc4648), b64_decode = sample_decode\<rparr>"

lemma b64_text_letters: "length al = 64 \<Longrightarrow> set (b64_text al x) \<subseteq> insert 0x3d (set al)"
  by (induction al x rule: b64_text.induct) (auto simp: b64_digit_def intro!: nth_mem sixbit_bound)

lemma sample_crypto_ok: "crypto_ok sample_crypto"
proof -
  let ?al = "encode_map base64_maps_rfc4648"
  have "0x0d \<notin> set ?al \<and> 0x0a \<notin> set ?al \<and> 0x20 \<notin> set ?al" by (simp add: base64_maps_rfc4648_def cstr_def)
  then have line: "0x0d \<notin> set (b64_text ?al x)" "0x0a \<notin> set (b64_text ?al x)" "0x20 \<notin> set (b64_text ?al x)" for x
    using b64_text_letters [OF rfc4648.length_encode_map, of x] by auto
  have "b64_text ?al x \<noteq> []" if "x \<noteq> []" for x
    using that by (cases "(?al, x)" rule: b64_text.cases) auto
  then have "value_ok (b64_text ?al x)" if "x \<noteq> []" for x
    using that line [of x] by (cases "b64_text ?al x") (auto simp: value_ok_def line_ok_def)
  moreover have "sample_decode (b64_text ?al x) = x" for x
    by (simp add: sample_decode_def rfc4648.decode_text)
  ultimately show ?thesis by (simp add: crypto_ok_def sample_crypto_def)
qed

lemma sample_address:
  "client_address_of (cstr ''localhost:8080'') 443 = \<lparr>a_host = cstr ''localhost'', a_port = 8080, a_path = cstr ''/''\<rparr>"
  by (simp add: client_address_of_def parse_host_port_def stoul_def cstr_def c_str_def is_space_byte_def is_digit_byte_def undec_def)

theorem handshake_agrees_witness:
  "\<exists>buf rest resp s.
     read_until blank [] [upgrade_request (client_address_of (cstr ''localhost:8080'') 443) 443 [] (upgrade_nonce sample_crypto (\<lambda>_. 7))]
       = Some (buf, rest) \<and> concat rest = []
    \<and> read_handshake sample_crypto rev [] [relay_endpoint] buf = Some (relay_endpoint, 101, resp, s) \<and> between_frames s
    \<and> (\<exists>buf rest c r. read_until blank [] [resp @ [129, 2], [104, 105]] = Some (buf, rest)
        \<and> upgrade_response sample_crypto (\<lambda>_. 7) buf = Upgraded (cstr ''1.1'') (cstr ''101 Web Socket Protocol Handshake'') c
        \<and> bytes_ahead r []
        \<and> receive (client_run echo (- 1)) client_feed rest (client_run echo (- 1) (client_report echo Report_open ([], c)))
            = (Waiting, set_state r (report_plain echo (129, [104, 105]) (client_report echo Report_open ([], c)))))"
proof -
  let ?a = "client_address_of (cstr ''localhost:8080'') 443"
  have "address_ok ?a" by (simp add: sample_address address_ok_def value_ok_def line_ok_def) (simp add: cstr_def)
  moreover have "find (\<lambda>e. ep_matches e (a_path ?a)) [relay_endpoint] = Some relay_endpoint"
    by (simp add: sample_address relay_endpoint_def)
  moreover have "switches relay_endpoint" by (simp add: switches_def relay_endpoint_def)
  ultimately obtain buf rest resp s where
    "read_until blank [] [upgrade_request ?a 443 [] (upgrade_nonce sample_crypto (\<lambda>_. 7))] = Some (buf, rest)" "concat rest = []"
    "read_handshake sample_crypto rev [] [relay_endpoint] buf = Some (relay_endpoint, 101, resp, s)" "between_frames s"
    and frames: "\<forall>pieces fs. list_all plain_ok fs \<and> list_all (\<lambda>f. is_message (fst f)) fs
        \<and> concat pieces = resp @ concat (map plain fs) \<longrightarrow>
        (\<exists>buf rest c r. read_until blank [] pieces = Some (buf, rest)
          \<and> upgrade_response sample_crypto (\<lambda>_. 7) buf = Upgraded (cstr ''1.1'') (cstr ''101 Web Socket Protocol Handshake'') c
          \<and> bytes_ahead r []
          \<and> receive (client_run echo (- 1)) client_feed rest (client_run echo (- 1) (client_report echo Report_open ([], c)))
              = (Waiting, set_state r (fold (report_plain echo) fs (client_report echo Report_open ([], c)))))"
    using handshake_agrees [OF sample_crypto_ok, of ?a "[relay_endpoint]" relay_endpoint rev
        "[upgrade_request ?a 443 [] (upgrade_nonce sample_crypto (\<lambda>_. 7))]" 443 "\<lambda>_. 7" echo "[]"] by auto
  moreover have "list_all plain_ok [(129, [104, 105])]" "list_all (\<lambda>f. is_message (fst f)) [(129 :: byte, [104, 105 :: byte])]"
      "concat [resp @ [129, 2], [104, 105]] = resp @ concat (map plain [(129, [104, 105])])"
    by (simp_all add: plain_ok_def is_message_def plain_def server_frame_def length_field_def)
  ultimately show ?thesis using frames [rule_format, of "[(129, [104, 105])]" "[resp @ [129, 2], [104, 105]]"] by auto
qed

end
