(* ===== verification/Spec2Isabelle.thy ===== *)
theory Spec2Isabelle
  imports Json_Text Endian Hex Proof_Bits Cursor Sha256 Base64 Aes Nostr_Event Nostr_Keys Nostr_Mining Nostr_Dm Nostr_Message Nostril_Cli
    Relay Http_Relay Nostr_Sign Nostr_Client Wss_Client Http_Client Ws_Session Ws_Handshake Json_Language
begin

text \<open>
  Verification of nostr_client_relay, a client and a relay for the Nostr protocol. The
  repository has three layers, and so has this library.

  \<^bold>\<open>The C library and program nostril\<close> (\<open>src/src/nostril\<close>), which makes signed events.

    \<^item> Nostr_Prelude: bytes, words, memories, C strings, decimal numbers, results of runs; the
      collection of facts the codecs share.
    \<^item> Endian (\<open>endian.h\<close>), Hex (\<open>hex.h\<close>), Proof_Bits (\<open>proof.h\<close>), Base64 (\<open>base64.c\<close>, \<open>base64.h\<close>):
      the codecs, each with its round trip and the inputs it refuses.
    \<^item> Cursor (\<open>cursor.h\<close>): a buffer in an explicit memory with a position; every operation keeps
      the cursor well-formed and writes inside its buffer only.
    \<^item> Sha256 (\<open>sha256.c\<close>) and Aes (\<open>aes.c\<close>): the unrolled and table-driven code against FIPS 180-4
      and FIPS 197 / SP 800-38A, written as reference definitions.
    \<^item> Nostr_Event (\<open>nostri.c\<close>, \<open>nostri.h\<close>): events, tags, the NIP-01 serialisation in a buffer of
      102400 bytes and the id.
    \<^item> Nostr_Keys: keys, their generation with a wanted difficulty (against the sequence of secrets
      that is described apart from the loop), signatures. The library
      secp256k1, the random source and the clock are the record \<open>platform\<close>; \<open>secp_sizes\<close> states the
      lengths of what secp256k1 returns.
    \<^item> Nostr_Mining: proof of work on events; Nostr_Dm: NIP-04 messages; Nostr_Message: the text of
      the message, given apart from the code that prints it, and \<open>make_message\<close>, which composes
      all of these, with the meaning of its result codes; Nostril_Cli (\<open>nostril.c\<close>): the
      options and \<open>main\<close>, with what goes to the standard output.

  \<^bold>\<open>The C++ core\<close> (\<open>src/src\<close>).

    \<^item> Cpp_Json: the JSON values of nlohmann json, element access and conversions, with exceptions
      as values of a sum. Text is read and written through the record \<open>json_lib\<close>; the contract
      \<open>json_lib_ok\<close> states what the programs rely on, and their results hold for every library
      that keeps it. The locale \<open>json_class\<close> is the contract of a class with \<open>to_json\<close> and
      \<open>from_json\<close>; events and filters interpret it.
    \<^item> The text of JSON (\<open>src/ext/json-3.11.2/single_include/nlohmann/json.hpp\<close>), without the
      conversions of floating point numbers: Json_Dump, the serialiser with its buffer, its UTF-8
      automaton and its string of spaces, which is long enough for steps of at most 1024 columns; Json_Lexer, the scanner; Json_Scan, what it makes of a text; Json_Parser,
      the parser with its stacks of states and of pointers into the value; Json_Text, that values
      survive being written and read, and that the library \<open>nlohmann\<close> keeps the contract.
      Json_Grammar is the grammar of RFC 8259 as inductive predicates; Json_Strings, Json_Numbers,
      Json_Tokens and Json_Language show that the parser accepts exactly its texts.
    \<^item> The web socket library (\<open>src/ext/Simple-WebSocket-Server-v2.0.2\<close>): Ws_Frames, the frames and the queue they wait in; Ws_Reader, what the readers of both ends
      share, with the locale \<open>stream_reader\<close>: for a reader that takes whole frames from the front
      of its buffer it does not matter how the bytes are cut; Ws_Server (\<open>server_ws.hpp\<close>) and
      Ws_Client (\<open>client_ws.hpp\<close>) interpret it. Ws_Handshake is what comes before the frames: the request,
      the response and their header fields (\<open>utility.hpp\<close>).
    \<^item> Comm_Log (\<open>log.cc\<close>): the world of a C++ program, its files, log, clock and output.
    \<^item> Nostr_Protocol (\<open>nostr.cc\<close>, \<open>nostr.hh\<close>): events, filters and messages through JSON;
      Nostr_Sign: \<open>make_event\<close>, which calls the C layer; Nostr_Client: requests to a relay and
      subscription ids (\<open>uuid.cc\<close>).
    \<^item> Relay_Database (\<open>database.cc\<close>): the file of events; its contract is the locale \<open>event_store\<close>.

  \<^bold>\<open>The programs\<close>. Relay (\<open>relay.cc\<close>, \<open>wss_relay.cc\<close>): the answer to a message and the server as a step
  relation over the events of its library (its answers differ from those of NIP-01 and of the comments
  in the code, as \<open>relay_spec\<close> says); Http and Http_Relay (\<open>http.cc\<close>, \<open>http_relay.cc\<close>): the
  relay over HTTP; Wss_Client (\<open>wss_client.cc\<close>) and Http_Client (\<open>http_client.cc\<close>): the clients. Ws_Session
  puts the handlers of the relay and of a client on the two ends of a connection.

  \<^bold>\<open>This theory\<close> composes them: what a client signs and publishes a relay acknowledges, stores and
  gives to the next client, over web sockets and over HTTP.

  State is passed explicitly: cursors and buffers live in a memory from addresses to bytes,
  the C++ programs act on a \<open>world\<close>, the libraries of random numbers, cryptography and sockets
  have states of their own that are passed through. An assertion that fails is the result
  \<open>Abort\<close>; an exception is an \<open>Inl\<close>. Machine integers are words of their width. Loops are
  structural recursions, but for \<open>mine_loop\<close> and \<open>generate_key_loop\<close>, which need not end: they are
  partial functions, \<open>None\<close> is a run that does not end, and it is proved when they do and with
  what. No fuel is used. Lengths of C strings that the code puts into an \<open>int\<close> are not cut: strings
  have less than 2^31 bytes. Parameters that stand for
  code of other authors have a concrete instance in the witnesses (\<open>toy_platform\<close>, \<open>sample_json\<close>,
  \<open>toy_rng\<close>).

  \<^bold>\<open>Not modelled\<close>. \<open>configurator.c\<close>, a build-time program that runs the compiler on test programs;
  \<open>clock_gettime.h\<close>, a replacement for a function of other systems; the diagnostics on standard error;
  closing of sockets, TLS, and of the web socket library the resolving and accepting of connections, its time limits and
  its threads: it calls the handlers of a connection one after the other; what is under \<open>src/ext\<close> but for
  the functions of nlohmann json and of the web socket library named above (of the former, comments and
  callbacks of the parser, the handlers of the serialiser that replace or ignore invalid bytes, and
  binary values: the programs do not use them).
\<close>

section \<open>Messages between the programs\<close>

text \<open>What the relay answers to the text of an event, and to the text of a request.\<close>

lemma event_answered:
  assumes "relay_ok L r u" "json_parse L msg = Inr (JArr [JStr (cstr ''EVENT''), event_js ev])"
  obtains t r' u' where "make_response L msg r u = (Inr t, r', u')" "relay_ok L r' u'"
    "json_parse L t = Inr (JArr [JStr (cstr ''EOSE''), JStr (e_id ev)])"
    "stored L u' = stored L u @ database r @ [ev]" "database r' = database r @ [ev]"
  using make_response_answers [OF assms(1), of msg] decode_event_text [OF assms(2)] that
  unfolding answers_def by auto

lemma decode_request_text:
  assumes "json_parse L msg = Inr (JArr [JStr (cstr ''REQ''), JStr i, filter_js s])"
  shows "decode_message L now msg = Query i (filter_over s (filter_at now))"
  by (simp add: decode_message_def message_head_parse [OF assms] id_and_object_def from_json_filter_js)

text \<open>The reply to a request, given the stored events of its authors.\<close>

definition request_reply :: "byte list \<Rightarrow> event_t list \<Rightarrow> json" where
  "request_reply i evs =
     (case evs of ev # _ \<Rightarrow> JArr [JStr (cstr ''EVENT''), JStr i, event_js ev]
      | [] \<Rightarrow> JArr [JStr (cstr ''EOSE''), JStr i])"

lemma request_answered:
  assumes "relay_ok L r u" "json_parse L msg = Inr (JArr [JStr (cstr ''REQ''), JStr i, filter_js s])"
  obtains t r' u' where "make_response L msg r u = (Inr t, r', u')" "relay_ok L r' u'"
    "json_parse L t = Inr (request_reply i (filter (\<lambda>ev. e_pubkey ev \<in> set (f_authors s)) (stored L u)))"
    "stored L u' = stored L u" "database r' = database r"
proof -
  have auth: "f_authors (filter_over s (filter_at now)) = f_authors s" for now
    by (simp add: filter_over_def filter_at_def)
  have spec: "relay_spec (decode_message L now msg) (mem, disk)
      = (request_reply i (filter (\<lambda>ev. e_pubkey ev \<in> set (f_authors s)) disk), (mem, disk))" for now mem disk
    by (simp only: decode_request_text [OF assms(2)] relay_spec.simps auth request_reply_def)
  have "answers L msg r u (make_response L msg r u)" by (rule make_response_answers [OF assms(1)])
  then obtain n t r' u' reply where t: "make_response L msg r u = (Inr t, r', u')" "relay_ok L r' u'"
      "json_parse L t = Inr reply"
      "relay_spec (decode_message L (clock u n) msg) (database r, stored L u) = (reply, (database r', stored L u'))"
    unfolding answers_def by blast
  from t(4) have eq: "reply = request_reply i (filter (\<lambda>ev. e_pubkey ev \<in> set (f_authors s)) (stored L u))"
      "stored L u' = stored L u" "database r' = database r"
    unfolding spec prod.inject by metis+
  from that [OF t(1,2) t(3) [unfolded eq(1)] eq(2,3)] show ?thesis .
qed

lemma relay_event_text:
  "json_parse L t = Inr (JArr [JStr (cstr ''EVENT''), JStr i, event_js ev]) \<Longrightarrow> parse_relay_event L t i0 ev0 u = (0, (i, ev), u)"
  by (simp add: parse_relay_event_def message_head_parse parsed_def id_and_object_def from_json_event_js)

text \<open>
  C1. What a client publishes another client gets: a message of make_event, given to a relay in
  any state that satisfies the invariant, is acknowledged with the id of the event, and a later
  request for its author is answered by an event of that author, with the subscription id: the
  first one in the file, in the list or the new one, so the new event itself when there
  is no earlier one, with every field as signed. The acknowledgement is EOSE with the event id,
  where NIP-01 and the comments in the code have EOSE with a subscription id, for the end of the
  stored events; and the one event is neither followed by the others nor by EOSE.
\<close>

theorem publish_then_query:
  assumes "json_lib_ok L" "secp_sizes P"
    and "make_event P L ev seckey key m v w = Some (Return (Inr msg, ev', v', w'))" "msg \<noteq> []"
    and "relay_ok L r u" "utf8 i" "filter_valid s" "e_pubkey ev' \<in> set (f_authors s)"
  shows "\<exists>ack r1 u1. make_response L msg r u = (Inr ack, r1, u1)
    \<and> json_parse L ack = Inr (JArr [JStr (cstr ''EOSE''), JStr (e_id ev')])
    \<and> (\<exists>req t r2 u2 e. make_request L i s x = (req, x) \<and> make_response L req r1 u1 = (Inr t, r2, u2)
        \<and> parse_relay_event L t i0 ev0 y = (0, (i, e), y)
        \<and> e = hd (filter (\<lambda>ev. e_pubkey ev \<in> set (f_authors s)) (fst (database_read L u) @ database r @ [ev']))
        \<and> ((\<forall>e' \<in> set (fst (database_read L u) @ database r). e_pubkey e' \<notin> set (f_authors s)) \<longrightarrow> e = ev'))"
proof -
  let ?by = "filter (\<lambda>ev. e_pubkey ev \<in> set (f_authors s))"
  have "json_parse L msg = Inr (JArr [JStr (cstr ''EVENT''), event_js ev'])"
    using make_event_made [OF assms(1-4)] by metis
  with assms(5) obtain ack r1 u1 where pub: "make_response L msg r u = (Inr ack, r1, u1)" "relay_ok L r1 u1"
      "json_parse L ack = Inr (JArr [JStr (cstr ''EOSE''), JStr (e_id ev')])" "stored L u1 = stored L u @ database r @ [ev']"
    by (rule event_answered)
  obtain req where req: "make_request L i s x = (req, x)"
      "json_parse L req = Inr (JArr [JStr (cstr ''REQ''), JStr i, filter_js s])"
    using assms(1,6,7) by (rule make_request_text)
  obtain t r2 u2 where t: "make_response L req r1 u1 = (Inr t, r2, u2)"
      "json_parse L t = Inr (request_reply i (?by (stored L u1)))"
    using pub(2) req(2) by (rule request_answered)
  obtain e es where e: "?by (stored L u @ database r @ [ev']) = e # es"
    using assms(8) by (cases "?by (stored L u @ database r @ [ev'])") auto
  then have "parse_relay_event L t i0 ev0 y = (0, (i, e), y)"
    using t(2) pub(4) by (intro relay_event_text) (simp add: request_reply_def)
  moreover have "e = ev'" if "\<forall>e' \<in> set (stored L u @ database r). e_pubkey e' \<notin> set (f_authors s)"
  proof -
    have "?by (stored L u @ database r) = []" using that by (simp add: filter_empty_conv)
    with e assms(8) show ?thesis by simp
  qed
  ultimately show ?thesis using pub(1,3) req(1) t(1) e unfolding stored_def by (metis list.sel(1))
qed

theorem publish_then_query_witness:
  "\<exists>msg ev' ack r1 u1 req t r2 u2 e.
     make_event toy_platform sample_json sample_note (Some (hex_text (replicate 32 7))) blank_key (\<lambda>_. 0) 5 sample_world
       = Some (Return (Inr msg, ev', 7, sample_world))
     \<and> make_response sample_json msg \<lparr>database = [sample_note]\<rparr> sample_world = (Inr ack, r1, u1)
     \<and> make_request sample_json (cstr ''s'') ((filter_at 0)\<lparr>f_authors := [e_pubkey ev']\<rparr>) sample_world = (req, sample_world)
     \<and> make_response sample_json req r1 u1 = (Inr t, r2, u2)
     \<and> parse_relay_event sample_json t [] (event_at 0) sample_world = (0, (cstr ''s'', e), sample_world)"
proof -
  obtain msg ev' where r: "make_event toy_platform sample_json sample_note (Some (hex_text (replicate 32 7))) blank_key (\<lambda>_. 0) 5 sample_world
       = Some (Return (Inr msg, ev', 7, sample_world))" "msg \<noteq> []"
    using sample_make_event by blast
  let ?s = "(filter_at 0)\<lparr>f_authors := [e_pubkey ev']\<rparr>"
  have "utf8 (e_pubkey ev')"
    by (rule make_event_made [OF sample_json_ok toy_sizes r]) (simp add: hex_text_utf8)
  then have "filter_valid ?s" "utf8 (cstr ''s'')" "e_pubkey ev' \<in> set (f_authors ?s)"
    by (simp_all add: filter_valid_def filter_at_def) (simp add: cstr_def)
  with publish_then_query [OF sample_json_ok toy_sizes r sample_relay_ok, of "cstr ''s''" ?s sample_world "[]" "event_at 0" sample_world]
    r(1) show ?thesis by blast
qed

text \<open>
  C12. The client and the relay over HTTP: started on any world with a writable database file,
  the relay answers, after any posts, a request of a client by a post from which the client's
  parser, however the network cuts it, reads exactly the events of the authors among the
  complete events posted so far, where an event appears once for every complete post from
  its own on.
\<close>

theorem http_publish_then_query:
  assumes "json_lib_ok L" "writable w database_file" "ofs_log w = None" "list_all2 posts cs bodies"
    and "http_relay_start L w = (db, w0)" "http_relay_loop L wt cs db w0 = (rs, db', w1)"
    and "utf8 i" "filter_valid s" "make_request L i s x = (req, x')" "posts c req" "c_writes c"
    and "0x0d \<notin> set (client_ip c)" "0x0a \<notin> set (client_ip c)"
  shows "\<exists>json w2. serve L wt c db' w1 = (Some (make_post (client_ip c) json), db', w2)
    \<and> (length json < 2 ^ 31 \<longrightarrow> (\<forall>pieces. concat pieces = make_post (client_ip c) json \<longrightarrow>
        (\<exists>http. http_parse wt pieces http_new y = (0, http, y)
          \<and> then_try (json_parse L (h_msg http)) (get_events_js L)
              = Inr (filter (\<lambda>ev. e_pubkey ev \<in> set (f_authors s))
                  (prefixes_after [] (List.map_filter (http_event L) bodies))))))"
proof -
  have start: "http_ok L [] w0" "stored L w0 = []" "db = []"
    using http_relay_start_ok [OF assms(1-3,5)] by simp_all
  have now: "http_ok L db' w1" "stored L w1 = prefixes_after [] (List.map_filter (http_event L) bodies)"
    using loop_publishes [OF start(1) assms(4), of wt] assms(6) start(2,3) by auto
  have "json_parse L req = Inr (JArr [JStr (cstr ''REQ''), JStr i, filter_js s])"
    using make_request_text [OF assms(1,7,8), of x] assms(9) by (metis fst_conv)
  from serve_asked [OF now(1) assms(10,11) this] obtain json w2 where
      json: "serve L wt c db' w1 = (Some (make_post (client_ip c) json), db', w2)"
      "then_try (json_parse L json) (get_events_js L)
        = Inr (filter (\<lambda>ev. e_pubkey ev \<in> set (f_authors s)) (stored L w1))"
    by blast
  then have "json \<noteq> []" using parse_empty [OF assms(1)] by auto
  with http_post_read [OF assms(12,13) this, of _ wt y] json now(2) show ?thesis by metis
qed

definition sample_filter :: filter_t where
  "sample_filter = (filter_at 0)\<lparr>f_authors := [cstr ''cd'']\<rparr>"

definition sample_request :: json where
  "sample_request = JArr [JStr (cstr ''REQ''), JStr (cstr ''s''), filter_js sample_filter]"

definition sample_codec :: json_lib where
  "sample_codec = short_json (short_json sample_json sample_request) sample_post"

lemma sample_filter_valid: "filter_valid sample_filter" "utf8 (cstr ''s'')"
  by (simp_all add: filter_valid_def sample_filter_def filter_at_def) (simp_all add: cstr_def)

lemma sample_codec_ok: "json_lib_ok sample_codec"
  unfolding sample_codec_def
  using sample_note_valid sample_filter_valid event_class.to_utf8 filter_class.to_utf8
  by (intro short_json_ok sample_json_ok) (simp_all add: sample_post_def sample_request_def)

lemma sample_make_request: "make_request sample_codec (cstr ''s'') sample_filter sample_world = ([2, 1], sample_world)"
  by (simp add: make_request_def sample_codec_def short_json_def sample_request_def sample_post_def)

lemma sample_codec_event: "http_event sample_codec [1] = Some sample_note"
  by (simp add: http_event_head message_head_def sample_codec_def short_json_def sample_post_def from_json_event_js)

theorem http_publish_then_query_witness:
  "\<exists>db w0 rs w1 json w2. http_relay_start sample_codec sample_world = (db, w0)
     \<and> http_relay_loop sample_codec (\<lambda>_. []) [sample_connection [1], sample_connection [1]] db w0
         = (rs, [sample_note, sample_note], w1)
     \<and> serve sample_codec (\<lambda>_. []) (sample_connection [2, 1]) [sample_note, sample_note] w1
         = (Some (make_post (cstr ''::1'') json), [sample_note, sample_note], w2)
     \<and> (length json < 2 ^ 31 \<longrightarrow> (\<exists>http. http_parse (\<lambda>_. []) [make_post (cstr ''::1'') json] http_new sample_world
            = (0, http, sample_world)
          \<and> then_try (json_parse sample_codec (h_msg http)) (get_events_js sample_codec)
              = Inr [sample_note, sample_note, sample_note]))"
proof -
  obtain db w0 where start: "http_relay_start sample_codec sample_world = (db, w0)" by (metis prod.collapse)
  obtain rs db' w1 where loop: "http_relay_loop sample_codec (\<lambda>_. [])
      [sample_connection [1], sample_connection [1]] db w0 = (rs, db', w1)" by (metis prod.collapse)
  have cs: "list_all2 posts [sample_connection [1], sample_connection [1]] [[1], [1]]"
    and req: "posts (sample_connection [2, 1]) [2, 1]" using sample_posts by simp_all
  have world: "writable sample_world database_file" "ofs_log sample_world = None" by (simp_all add: sample_world_def)
  have "db = []" "http_ok sample_codec [] w0" using http_relay_start_ok [OF sample_codec_ok world start] by simp_all
  then have "db' = [sample_note, sample_note]"
    using loop_publishes [OF _ cs, of sample_codec "[]" w0 "\<lambda>_. []"] loop sample_codec_event by (auto simp: map_filter_simps)
  moreover have "client_ip (sample_connection [2, 1]) = cstr ''::1''" "c_writes (sample_connection [2, 1])"
    by (simp_all add: sample_connection_def)
  moreover have "0x0d \<notin> set (cstr ''::1'')" "0x0a \<notin> set (cstr ''::1'')" by (simp_all add: cstr_def)
  moreover have "filter (\<lambda>ev. e_pubkey ev \<in> set (f_authors sample_filter))
      (prefixes_after [] (List.map_filter (http_event sample_codec) [[1], [1]])) = [sample_note, sample_note, sample_note]"
    using sample_codec_event by (simp add: map_filter_simps prefixes_after_def sample_filter_def sample_note_def)
  ultimately show ?thesis
    using http_publish_then_query [OF sample_codec_ok world cs start loop sample_filter_valid(2,1) sample_make_request req,
        of sample_world] start loop
    by auto
qed

section \<open>The client against the relay\<close>

text \<open>
  The network of a client and the web socket relay: a connection, a message, an answer. When the relay
  ends with an exception the connection ends with it.
\<close>

definition relay_net :: "json_lib \<Rightarrow> (relay_t \<times> world) net" where
  "relay_net L uri msg n =
     (case make_response L msg (fst n) (snd n) of
        (Inr t, r, u) \<Rightarrow> ([COpen [] [], CMessage t, CClose 1000], (r, u))
      | (Inl _, r, u) \<Rightarrow> ([COpen [] [], CError [] []], (r, u)))"

text \<open>These are the events and the relay that a session over the frames of both ends comes to.\<close>

lemma relay_net_over_frames:
  assumes "server_ok L s" "length json < 2 ^ 64 - 4"
    and "relay_net L uri json (srv_relay s, comm_log (cstr ''Server: Message received: \"'' @ json @ cstr ''\" from '' @ conn)
          (srv_world (on_open conn s))) = (es, (r, u))"
    and "\<forall>t. CMessage t \<in> set es \<longrightarrow> length t < 2 ^ 64"
  shows "\<exists>s'. ws_net L (Suc (Suc n)) rd conn [] [] texts uri json (Inr s) = (es, Inr (on_close conn 1000 s'))
    \<and> srv_relay s' = r \<and> srv_world s' = u"
proof -
  have "server_ok L (on_open conn s)" using logged_lists [OF assms(1)] by (simp add: on_open_def)
  moreover have "srv_sent (on_open conn s) = srv_sent s" by (simp add: on_open_def)
  ultimately obtain s' resp where s':
      "on_message L conn json (on_open conn s) = Inr s'" "srv_sent s' = srv_sent s @ [(conn, resp)]"
    using on_message_ok [of L "on_open conn s" conn json] by metis
  then have net: "make_response L json (srv_relay s) (comm_log (cstr ''Server: Message received: \"'' @ json @ cstr ''\" from '' @ conn)
        (srv_world (on_open conn s))) = (Inr resp, srv_relay s', srv_world s')"
    by (auto simp: on_message_def on_open_def split: prod.splits sum.splits)
  then have es: "es = [COpen [] [], CMessage resp, CClose 1000]" "r = srv_relay s'" "u = srv_world s'"
    using assms(3) by (simp_all add: relay_net_def)
  have "length resp < 2 ^ 64" using assms(4) by (simp add: es(1))
  from session_runs [OF s'(1) assms(2) s'(2) this, where v = "[]" and sc = "[]"] show ?thesis
    by (intro exI [of _ s']) (simp only: ws_net_def session_ended_def Let_def es simp_thms)
qed

lemma relay_net_request:
  assumes "relay_ok L r u" "json_parse L msg = Inr (JArr [JStr (cstr ''REQ''), JStr i, filter_js s])"
  obtains t n' where "relay_to (relay_net L) uri msg [] (r, u) = (0, [t], [Send msg, SendClose 1000], n')"
    "json_parse L t = Inr (request_reply i (filter (\<lambda>ev. e_pubkey ev \<in> set (f_authors s)) (stored L u)))"
proof -
  obtain t r' u' where t: "make_response L msg r u = (Inr t, r', u')"
      "json_parse L t = Inr (request_reply i (filter (\<lambda>ev. e_pubkey ev \<in> set (f_authors s)) (stored L u)))"
    using assms by (rule request_answered)
  have "relay_net L uri msg (r, u) = ([COpen [] [], CMessage t, CClose 1000], (r', u'))"
    by (simp add: relay_net_def t(1))
  from that [OF relay_to_one [of "relay_net L", OF this] t(2)] show ?thesis .
qed

text \<open>
  C36. Contacts from the wrong event: against this relay, get_follows takes the contacts of a
  key from the first event of that key in the file, whatever its kind and whatever contact
  lists were published after it, and finds none when no event of the key is stored.
\<close>

theorem get_follows_from_relay:
  assumes "json_lib_ok L" "rng_ok R" "utf8 key" "relay_ok L r u"
  shows "\<exists>g' n' w'. get_follows L R (relay_net L) uri key keys g (r, u) w
    = (0, keys @ (case filter (\<lambda>ev. e_pubkey ev = key) (fst (database_read L u)) of
          [] \<Rightarrow> [] | ev # _ \<Rightarrow> follow_keys ev), g', n', w')"
proof -
  obtain i g1 where i: "generate_uuid_v4 R g = (i, g1)" by (metis prod.collapse)
  have "utf8 i" using generate_uuid_form [OF assms(2), of g] i uuid_form_utf8 by simp
  let ?w = "w\<lparr>ticks := ticks w + 1\<rparr>"
  let ?f = "author_filter key kind_3 (Some 1) (filter_at (clock w (ticks w)))"
  let ?evs = "filter (\<lambda>ev. e_pubkey ev = key) (stored L u)"
  have f: "filter_valid ?f" "f_authors ?f = [key]"
    using assms(3) by (simp_all add: filter_valid_def author_filter_def filter_at_def)
  obtain json where json: "make_request L i ?f ?w = (json, ?w)"
      "json_parse L json = Inr (JArr [JStr (cstr ''REQ''), JStr i, filter_js ?f])"
    using assms(1) \<open>utf8 i\<close> f(1) by (rule make_request_text)
  obtain t n' where t: "relay_to (relay_net L) uri json [] (r, u) = (0, [t], [Send json, SendClose 1000], n')"
      "json_parse L t = Inr (request_reply i ?evs)"
    using relay_net_request [OF assms(4) json(2), of uri] f(2) by auto
  let ?w1 = "json_to_file L (cstr ''follows_request.json'') json ?w"
  have ask: "ask L R (relay_net L) (cstr ''follows_request.json'') uri key kind_3 (Some 1) g (r, u) w = ([t], g1, n', ?w1)"
    by (simp add: ask_def i new_filter_def std_time_def json(1) [unfolded Suc_eq_plus1 [symmetric]] t(1) Let_def)
  show ?thesis
  proof (cases ?evs)
    case Nil
    then have "event_response L t ?w1 = (None, ?w1)"
      using message_head_parse [of L t] t(2) by (simp add: event_response_def request_reply_def)
    with ask Nil show ?thesis by (simp add: get_follows_def responses_loop_def stored_def)
  next
    case (Cons ev evs)
    then obtain w2 where "event_response L t ?w1 = (Some ev, w2)"
      using event_response_event [of L t i ev ?w1] t(2) by (auto simp: request_reply_def)
    with ask Cons show ?thesis by (simp add: get_follows_def responses_loop_def stored_def)
  qed
qed

theorem get_follows_from_relay_witness:
  "\<exists>g' n' w'. get_follows sample_json toy_rng (relay_net sample_json) [] (cstr ''ab'') [cstr ''x''] 0
     (\<lparr>database = [sample_note]\<rparr>, sample_world) sample_world
   = (0, cstr ''x'' # (case filter (\<lambda>ev. e_pubkey ev = cstr ''ab'') (fst (database_read sample_json sample_world)) of
        [] \<Rightarrow> [] | ev # _ \<Rightarrow> follow_keys ev), g', n', w')"
proof -
  have "utf8 (cstr ''ab'')" by (simp add: cstr_def)
  from get_follows_from_relay [OF sample_json_ok toy_rng_ok this sample_relay_ok, of "[]" "[cstr ''x'']" 0 sample_world]
  show ?thesis by simp
qed

end
